(* ===== verification/T2_Prelude.thy ===== *)
theory T2_Prelude
  imports Main "HOL-Library.Word" "HOL-Library.Multiset"
begin

text \<open>
  Shared vocabulary of the development: fixed-width integer types, C strings,
  the outcome type of code that can stop the process, and generic lemmas on
  lists, words and functions that several components use.
\<close>

unbundle bit_operations_syntax

section \<open>Types\<close>

type_synonym u8 = "8 word"
type_synonym u16 = "16 word"
type_synonym u32 = "32 word"
type_synonym u64 = "64 word"

text \<open>
  A C string is modelled as the list of characters from the pointer on. Code
  that walks it stops at the first NUL character or, where the list ends, at the
  terminator that follows it.
\<close>

abbreviation NUL :: char where
  "NUL \<equiv> CHR 0x00"

text \<open>\<open>*p\<close>: the character a pointer refers to.\<close>

definition peek :: "string \<Rightarrow> char" where
  "peek s = (case s of [] \<Rightarrow> NUL | c # _ \<Rightarrow> c)"

text \<open>The characters of a C string up to its terminator: what \<open>strlen\<close> and \<open>strcmp\<close> see.\<close>

definition c_str :: "string \<Rightarrow> string" where
  "c_str s = takeWhile (\<lambda>c. c \<noteq> NUL) s"

text \<open>
  How a piece of code can stop the process: \<open>Croak\<close> prints a message and exits; an
  \<open>Overrun\<close> is a write or read outside an array, which C leaves undefined.
\<close>

datatype fault = Croak string | Overrun string

type_synonym 'a result = "fault + 'a"

section \<open>Collections of facts\<close>

named_theorems word_facts \<open>arithmetic and bits of fixed-width integers\<close>
named_theorems list_facts \<open>lists indexed and updated as C arrays\<close>

section \<open>C strings\<close>

lemma peek_simps [simp]: "peek [] = NUL" "peek (c # cs) = c"
  by (simp_all add: peek_def)

lemma c_str_Nil [simp]: "c_str [] = []"
  by (simp add: c_str_def)

lemma c_str_Cons [simp]: "c_str (c # cs) = (if c = NUL then [] else c # c_str cs)"
  by (simp add: c_str_def)

lemma c_str_no_nul [simp]: "NUL \<notin> set (c_str s)"
  by (induction s) auto

lemma c_str_id [simp]: "NUL \<notin> set s \<Longrightarrow> c_str s = s"
  by (induction s) auto

lemma c_str_idem [simp]: "c_str (c_str s) = c_str s"
  by simp

section \<open>Words\<close>

lemma of_char_eq_0 [simp]: "(of_char c :: 8 word) = 0 \<longleftrightarrow> c = NUL"
  by (cases c) (simp add: of_char_def horner_sum_bit_eq_take_bit)

lemma bit_nat_ge: "bit n k \<Longrightarrow> 2 ^ k \<le> n" for n k :: nat
  by (metis bit_iff_odd div_less dvd_0_right linorder_not_le)

text \<open>\<open>v & -v\<close> keeps exactly the lowest bit of \<open>v\<close>.\<close>

lemma odd_and_minus: "odd w \<Longrightarrow> w AND - w = 1" for w :: "'a::len word"
proof -
  assume odd: "odd w"
  then have "w - 1 = 2 * (w div 2)"
    using div_mult_mod_eq [of w 2] by (simp add: odd_iff_mod_2_eq_one diff_eq_eq mult.commute)
  then have m: "w - 1 = unset_bit 0 w" by (simp add: unset_bit_0)
  show ?thesis
    unfolding minus_eq_not_minus_1 m
    by (rule bit_word_eqI) (use odd in \<open>auto simp: bit_simps bit_1_iff bit_0\<close>)
qed

lemma and_minus_lowest:
  fixes v :: "'a::len word"
  assumes "bit v k" "\<And>i. i < k \<Longrightarrow> \<not> bit v i"
  shows "v AND - v = 2 ^ k"
proof -
  have k: "k < LENGTH('a)" using assms(1) by (rule bit_imp_le_length)
  have ge: "k \<le> n" if "bit v n" for n using assms(2) that by (meson not_less)
  have v: "v = push_bit k (drop_bit k v)"
    by (rule bit_word_eqI) (use ge in \<open>fastforce simp: bit_simps\<close>)
  have "odd (drop_bit k v)"
    using assms(1) by (simp add: bit_drop_bit_eq flip: bit_0)
  then have "drop_bit k v AND - drop_bit k v = 1" by (rule odd_and_minus)
  then have "push_bit k (drop_bit k v AND - drop_bit k v) = 2 ^ k"
    by (simp add: push_bit_eq_mult)
  moreover have "- push_bit k (drop_bit k v) = push_bit k (- drop_bit k v)"
    by (simp add: push_bit_eq_mult)
  ultimately show ?thesis by (metis push_bit_and v)
qed

lemma lowest_bit_exists:
  fixes v :: "'a::len word"
  assumes "v \<noteq> 0"
  obtains k where "k < LENGTH('a)" "bit v k" "\<And>i. i < k \<Longrightarrow> \<not> bit v i"
proof -
  obtain j where "bit v j" using assms by (auto simp: bit_eq_iff)
  then have "bit v (LEAST i. bit v i)" by (rule LeastI)
  moreover have "\<not> bit v i" if "i < (LEAST i. bit v i)" for i
    using not_less_Least [OF that] .
  ultimately show ?thesis using that bit_imp_le_length by blast
qed

text \<open>Masking with one less than a power of two is the remainder.\<close>

lemma and_pow2_minus_1 [simp]: "x AND (2 ^ k - Suc 0) = x mod 2 ^ k" for x k :: nat
  by (simp add: take_bit_eq_mask mask_eq_exp_minus_1 flip: take_bit_eq_mod)

section \<open>Bytes\<close>

lemma u8_all:
  assumes "\<forall>n \<in> set [0..<256]. P (of_nat n :: u8)" shows "P w"
proof -
  have "unat w < 256" using unsigned_less [of w] by simp
  then have "unat w \<in> set [0..<256]" by simp
  with assms have "P (of_nat (unat w))" by blast
  then show ?thesis by simp
qed

lemma unat_of_char: "unat (of_char c :: u8) = of_char c"
proof -
  have "of_char c < (256 :: nat)" by (rule nat_of_char_less_256)
  then have "unat (word_of_nat (of_char c) :: u8) = of_char c" by (simp add: unat_of_nat)
  then show ?thesis by (simp add: of_nat_of_char)
qed

lemma of_char_u8_inj [simp]: "(of_char c :: u8) = of_char d \<longleftrightarrow> c = d"
  by (metis unat_of_char of_char_eq_iff)

lemma of_char_u32: "(of_char c :: u32) = ucast (of_char c :: u8)"
  by (metis of_nat_of_char unat_of_char of_nat_unat)

lemma scast_u8_inj [simp]: "(scast (a :: u8) :: u32) = scast b \<longleftrightarrow> a = b"
proof -
  have "ucast (scast w :: u32) = w" for w :: u8
  proof (rule bit_word_eqI)
    fix n assume "n < LENGTH(8)"
    then have "min 7 n = n" by simp
    then show "bit (ucast (scast w :: u32) :: u8) n = bit w n" using \<open>n < LENGTH(8)\<close> by (simp add: bit_simps)
  qed
  then show ?thesis by metis
qed

section \<open>Arrays with empty slots\<close>

lemma mset_filter_update:
  assumes "i < length xs" "\<not> P (xs ! i)" "P e"
  shows "mset (filter P (xs[i := e])) = add_mset e (mset (filter P xs))"
  using assms by (simp add: mset_update)

lemma filter_lt_ex: "length (filter P xs) < length xs \<Longrightarrow> \<exists>i < length xs. \<not> P (xs ! i)"
  by (metis filter_True in_set_conv_nth less_irrefl)

end
