(* ===== verification/T2_DagData.thy ===== *)
theory T2_DagData
  imports T2_Prelude
begin

text \<open>
  The data types of \<open>src/DagData.hpp\<close>, \<open>src/StateData.hpp\<close>, \<open>src/ScanData.hpp\<close>,
  \<open>src/NodeState.hpp\<close>, \<open>src/FileInfo.hpp\<close> and \<open>src/Common.hpp\<close> that the components
  share. A frozen array is a list, a frozen string a \<open>string\<close> (an \<open>option\<close> where the
  pointer can be null), a pointer to a DAG node the index of that node. A field
  \<open>m_X\<close> of a struct is a record field \<open>X\<close> with a prefix for the struct.
\<close>

section \<open>Digests and files\<close>

text \<open>\<open>HashDigest\<close> of the fast hash: its two 64-bit words.\<close>

type_synonym digest = "u64 \<times> u64"

text \<open>\<open>FileAndHash\<close>, \<open>FrozenFileAndHash\<close>: a file name and its path hash.\<close>

type_synonym file_and_hash = "string \<times> u32"

record FileInfo =
  fi_Flags :: u32
  fi_Size :: u64
  fi_Timestamp :: u64

definition kFlagExists :: u32 where "kFlagExists = 1"
definition kFlagError :: u32 where "kFlagError = 2"
definition kFlagFile :: u32 where "kFlagFile = 4"
definition kFlagDirectory :: u32 where "kFlagDirectory = 8"
definition kFlagDirty :: u32 where "kFlagDirty = 0x40000000"

definition Exists :: "FileInfo \<Rightarrow> bool" where
  "Exists info \<longleftrightarrow> kFlagExists AND fi_Flags info \<noteq> 0"

definition IsFile :: "FileInfo \<Rightarrow> bool" where
  "IsFile info \<longleftrightarrow> kFlagFile AND fi_Flags info \<noteq> 0"

definition IsDirectory :: "FileInfo \<Rightarrow> bool" where
  "IsDirectory info \<longleftrightarrow> kFlagDirectory AND fi_Flags info \<noteq> 0"

section \<open>Scanners\<close>

datatype ScannerType = kCpp | kGeneric

record KeywordData =
  kw_String :: string
  kw_StringLength :: nat
  kw_ShouldFollow :: bool

record ScannerData =
  sc_ScannerType :: ScannerType
  sc_IncludePaths :: "string list"
  sc_ScannerGuid :: digest
  sc_Flags :: u32
  sc_Keywords :: "KeywordData list"

definition kFlagRequireWhitespace :: u32 where "kFlagRequireWhitespace = 1"
definition kFlagUseSeparators :: u32 where "kFlagUseSeparators = 2"
definition kFlagBareMeansSystem :: u32 where "kFlagBareMeansSystem = 4"

section \<open>DAG nodes\<close>

record NodeData =
  nd_Action :: "string option"
  nd_PreAction :: "string option"
  nd_Annotation :: "string option"
  nd_PassIndex :: int
  nd_Dependencies :: "nat list"
  nd_BackLinks :: "nat list"
  nd_InputFiles :: "file_and_hash list"
  nd_OutputFiles :: "file_and_hash list"
  nd_AuxOutputFiles :: "file_and_hash list"
  nd_EnvVars :: "(string \<times> string) list"
  nd_Scanner :: "ScannerData option"
  nd_Flags :: u32

definition kFlagOverwriteOutputs :: u32 where "kFlagOverwriteOutputs = 1"
definition kFlagPreciousOutputs :: u32 where "kFlagPreciousOutputs = 2"
definition kFlagExpensive :: u32 where "kFlagExpensive = 4"

section \<open>Saved node state\<close>

record NodeStateData =
  sd_BuildResult :: int
  sd_InputSignature :: digest
  sd_OutputFiles :: "string list"
  sd_AuxOutputFiles :: "string list"

section \<open>The DAG and state files\<close>

record NamedNodeData =
  nn_Name :: string
  nn_NodeIndex :: nat

record BuildTupleData =
  bt_ConfigIndex :: int
  bt_VariantIndex :: int
  bt_SubVariantIndex :: int
  bt_DefaultNodes :: "nat list"
  bt_AlwaysNodes :: "nat list"
  bt_NamedNodes :: "NamedNodeData list"

text \<open>\<open>DagFileSignature\<close> is a path with a time stamp, \<open>DagGlobSignature\<close> a path with a digest.\<close>

record DagData =
  dag_MagicNumber :: u32
  dag_NodeGuids :: "digest list"
  dag_NodeData :: "NodeData list"
  dag_Passes :: "string list"
  dag_ConfigNames :: "string list"
  dag_ConfigNameHashes :: "u32 list"
  dag_VariantNames :: "string list"
  dag_VariantNameHashes :: "u32 list"
  dag_SubVariantNames :: "string list"
  dag_SubVariantNameHashes :: "u32 list"
  dag_BuildTuples :: "BuildTupleData list"
  dag_DefaultConfigIndex :: int
  dag_DefaultVariantIndex :: int
  dag_DefaultSubVariantIndex :: int
  dag_FileSignatures :: "(string \<times> u64) list"
  dag_GlobSignatures :: "(string \<times> digest) list"
  dag_ShaExtensionHashes :: "u32 list"
  dag_MaxExpensiveCount :: int
  dag_StateFileName :: string
  dag_StateFileNameTmp :: string
  dag_ScanCacheFileName :: string
  dag_ScanCacheFileNameTmp :: string
  dag_DigestCacheFileName :: string
  dag_DigestCacheFileNameTmp :: string

record StateData =
  st_NodeGuids :: "digest list"
  st_NodeStates :: "NodeStateData list"

section \<open>Node state\<close>

datatype BuildProgress =
  kInitial | kBlocked | kUnblocked | kRunAction | kSucceeded | kUpToDate | kFailed | kCompleted

text \<open>The value of the enumerator: the code orders progress by it.\<close>

fun BuildProgress_value :: "BuildProgress \<Rightarrow> int" where
  "BuildProgress_value kInitial = 0"
| "BuildProgress_value kBlocked = 1"
| "BuildProgress_value kUnblocked = 2"
| "BuildProgress_value kRunAction = 3"
| "BuildProgress_value kSucceeded = 100"
| "BuildProgress_value kUpToDate = 101"
| "BuildProgress_value kFailed = 102"
| "BuildProgress_value kCompleted = 200"

text \<open>\<open>m_MmapData\<close> points into the DAG's node array: the index of the node there.\<close>

record NodeState =
  ns_Flags :: u16
  ns_PassIndex :: u16
  ns_Progress :: BuildProgress
  ns_MmapData :: nat
  ns_MmapState :: "NodeStateData option"
  ns_BuildResult :: int
  ns_InputSignature :: digest

definition kQueued :: u16 where "kQueued = 1"
definition kActive :: u16 where "kActive = 2"

definition NodeStateIsCompleted :: "NodeState \<Rightarrow> bool" where
  "NodeStateIsCompleted st \<longleftrightarrow> ns_Progress st = kCompleted"

definition NodeStateIsQueued :: "NodeState \<Rightarrow> bool" where
  "NodeStateIsQueued st \<longleftrightarrow> 0 \<noteq> (ns_Flags st AND kQueued)"

definition NodeStateFlagQueued :: "NodeState \<Rightarrow> NodeState" where
  "NodeStateFlagQueued st = st\<lparr>ns_Flags := ns_Flags st OR kQueued\<rparr>"

definition NodeStateFlagUnqueued :: "NodeState \<Rightarrow> NodeState" where
  "NodeStateFlagUnqueued st = st\<lparr>ns_Flags := ns_Flags st AND NOT kQueued\<rparr>"

definition NodeStateIsActive :: "NodeState \<Rightarrow> bool" where
  "NodeStateIsActive st \<longleftrightarrow> 0 \<noteq> (ns_Flags st AND kActive)"

definition NodeStateFlagActive :: "NodeState \<Rightarrow> NodeState" where
  "NodeStateFlagActive st = st\<lparr>ns_Flags := ns_Flags st OR kActive\<rparr>"

definition NodeStateFlagInactive :: "NodeState \<Rightarrow> NodeState" where
  "NodeStateFlagInactive st = st\<lparr>ns_Flags := ns_Flags st AND NOT kActive\<rparr>"

definition NodeStateIsBlocked :: "NodeState \<Rightarrow> bool" where
  "NodeStateIsBlocked st \<longleftrightarrow> kBlocked = ns_Progress st"

section \<open>Flag lemmas\<close>

lemma and_two_pow_nonzero: "0 \<noteq> (w AND 2 ^ n) \<longleftrightarrow> bit w n" if "n < LENGTH('a)" for w :: "'a::len word"
  using that by (simp add: and_exp_eq_0_iff_not_bit [of w n] flip: not_sym)

lemma kQueued_pow: "kQueued = 2 ^ 0" and kActive_pow: "kActive = 2 ^ 1"
  by (simp_all add: kQueued_def kActive_def)

lemma IsQueued_bit: "NodeStateIsQueued st \<longleftrightarrow> bit (ns_Flags st) 0"
  unfolding NodeStateIsQueued_def kQueued_pow by (rule and_two_pow_nonzero) simp

lemma IsActive_bit: "NodeStateIsActive st \<longleftrightarrow> bit (ns_Flags st) 1"
  unfolding NodeStateIsActive_def kActive_pow by (rule and_two_pow_nonzero) simp

lemma flag_bits:
  "bit (kQueued :: u16) n \<longleftrightarrow> n = 0" "bit (kActive :: u16) n \<longleftrightarrow> n = 1"
  by (auto simp: kQueued_def kActive_def bit_1_iff bit_2_iff)

lemma node_flags [simp]:
  "NodeStateIsQueued (NodeStateFlagQueued st)"
  "NodeStateIsActive (NodeStateFlagQueued st) = NodeStateIsActive st"
  "\<not> NodeStateIsQueued (NodeStateFlagUnqueued st)"
  "NodeStateIsActive (NodeStateFlagUnqueued st) = NodeStateIsActive st"
  "NodeStateIsActive (NodeStateFlagActive st)"
  "NodeStateIsQueued (NodeStateFlagActive st) = NodeStateIsQueued st"
  "\<not> NodeStateIsActive (NodeStateFlagInactive st)"
  "NodeStateIsQueued (NodeStateFlagInactive st) = NodeStateIsQueued st"
  by (simp_all add: IsQueued_bit IsActive_bit NodeStateFlagQueued_def NodeStateFlagUnqueued_def
      NodeStateFlagActive_def NodeStateFlagInactive_def bit_simps flag_bits)

lemma node_flags_frame [simp]:
  "ns_Progress (NodeStateFlagQueued st) = ns_Progress st"
  "ns_Progress (NodeStateFlagUnqueued st) = ns_Progress st"
  "ns_Progress (NodeStateFlagActive st) = ns_Progress st"
  "ns_Progress (NodeStateFlagInactive st) = ns_Progress st"
  "ns_MmapData (NodeStateFlagQueued st) = ns_MmapData st"
  "ns_MmapData (NodeStateFlagUnqueued st) = ns_MmapData st"
  "ns_MmapData (NodeStateFlagActive st) = ns_MmapData st"
  "ns_MmapData (NodeStateFlagInactive st) = ns_MmapData st"
  "ns_BuildResult (NodeStateFlagQueued st) = ns_BuildResult st"
  "ns_BuildResult (NodeStateFlagUnqueued st) = ns_BuildResult st"
  "ns_BuildResult (NodeStateFlagActive st) = ns_BuildResult st"
  "ns_BuildResult (NodeStateFlagInactive st) = ns_BuildResult st"
  by (simp_all add: NodeStateFlagQueued_def NodeStateFlagUnqueued_def NodeStateFlagActive_def
      NodeStateFlagInactive_def)

lemma flags_update_frame [simp]:
  "NodeStateIsQueued (st\<lparr>ns_Progress := p\<rparr>) = NodeStateIsQueued st"
  "NodeStateIsActive (st\<lparr>ns_Progress := p\<rparr>) = NodeStateIsActive st"
  "NodeStateIsQueued (st\<lparr>ns_BuildResult := r\<rparr>) = NodeStateIsQueued st"
  "NodeStateIsActive (st\<lparr>ns_BuildResult := r\<rparr>) = NodeStateIsActive st"
  "NodeStateIsQueued (st\<lparr>ns_InputSignature := d\<rparr>) = NodeStateIsQueued st"
  "NodeStateIsActive (st\<lparr>ns_InputSignature := d\<rparr>) = NodeStateIsActive st"
  by (simp_all add: NodeStateIsQueued_def NodeStateIsActive_def)

end
