(* ===== verification/T2_Common.thy ===== *)
theory T2_Common
  imports T2_Prelude
begin

text \<open>
  Model of \<open>src/Common.cpp\<close> and \<open>src/Common.hpp\<close>: case folding, the DJB-2 string
  hashes, \<open>NextPowerOfTwo\<close> and \<open>CountTrailingZeroes\<close>. The lemmas show that a DJB-2
  hash is never zero (the hash tables use zero for an empty slot), that the
  case-insensitive hash agrees with the case-insensitive comparison, and what
  the two bit tricks compute.
\<close>

section \<open>Case folding and string hashes\<close>

definition FoldCase :: "u32 \<Rightarrow> u32" where
  "FoldCase c = (let x = c - 65; d = c + 0x20 in if x < 26 then d else c)"

fun djb2_loop :: "u32 \<Rightarrow> string \<Rightarrow> u32" where
  "djb2_loop hash [] = hash"
| "djb2_loop hash (c # str) =
     (if c = NUL then hash else djb2_loop (hash * 33 + of_char c) str)"

definition Djb2Hash :: "string \<Rightarrow> u32" where
  "Djb2Hash str = (let hash = djb2_loop 5381 str in if hash \<noteq> 0 then hash else 1)"

fun djb2_loop64 :: "u64 \<Rightarrow> string \<Rightarrow> u64" where
  "djb2_loop64 hash [] = hash"
| "djb2_loop64 hash (c # str) =
     (if c = NUL then hash else djb2_loop64 (hash * 33 + of_char c) str)"

definition Djb2Hash64 :: "string \<Rightarrow> u64" where
  "Djb2Hash64 str = (let hash = djb2_loop64 5381 str in if hash \<noteq> 0 then hash else 1)"

fun djb2_nocase_loop :: "u32 \<Rightarrow> string \<Rightarrow> u32" where
  "djb2_nocase_loop hash [] = hash"
| "djb2_nocase_loop hash (c # str) =
     (if c = NUL then hash else djb2_nocase_loop (hash * 33 + FoldCase (of_char c)) str)"

definition Djb2HashNoCase :: "string \<Rightarrow> u32" where
  "Djb2HashNoCase str =
     (let hash = djb2_nocase_loop 5381 str in if hash \<noteq> 0 then hash else 1)"

text \<open>\<open>FoldCase\<close> returns an \<open>int\<close> that the 64-bit loop adds to a \<open>uint64_t\<close>: sign-extended.\<close>

fun djb2_nocase_loop64 :: "u64 \<Rightarrow> string \<Rightarrow> u64" where
  "djb2_nocase_loop64 hash [] = hash"
| "djb2_nocase_loop64 hash (c # str) =
     (if c = NUL then hash
      else djb2_nocase_loop64 (hash * 33 + scast (FoldCase (of_char c))) str)"

definition Djb2HashNoCase64 :: "string \<Rightarrow> u64" where
  "Djb2HashNoCase64 str =
     (let hash = djb2_nocase_loop64 5381 str in if hash \<noteq> 0 then hash else 1)"

text \<open>
  \<open>Djb2HashPath\<close> is one of the two hashes, chosen when Tundra is compiled by
  \<open>TUNDRA_CASE_INSENSITIVE_FILESYSTEM\<close>; the model takes that switch as an argument.
\<close>

definition Djb2HashPath :: "bool \<Rightarrow> string \<Rightarrow> u32" where
  "Djb2HashPath nocase str = (if nocase then Djb2HashNoCase str else Djb2Hash str)"

definition Djb2HashPath64 :: "bool \<Rightarrow> string \<Rightarrow> u64" where
  "Djb2HashPath64 nocase str = (if nocase then Djb2HashNoCase64 str else Djb2Hash64 str)"

section \<open>Bit tricks\<close>

definition NextPowerOfTwo :: "u32 \<Rightarrow> u32" where
  "NextPowerOfTwo val =
     (let mask = val - 1;
          mask = mask OR drop_bit 16 mask;
          mask = mask OR drop_bit 8 mask;
          mask = mask OR drop_bit 4 mask;
          mask = mask OR drop_bit 2 mask;
          mask = mask OR drop_bit 1 mask
      in mask + 1)"

definition CountTrailingZeroes :: "u32 \<Rightarrow> int" where
  "CountTrailingZeroes v0 =
     (let v = v0 AND (- v0);
          bit_index = (32 :: int);
          bit_index = (if v \<noteq> 0 then bit_index - 1 else bit_index);
          bit_index = (if v AND 0x0000ffff \<noteq> 0 then bit_index - 16 else bit_index);
          bit_index = (if v AND 0x00ff00ff \<noteq> 0 then bit_index - 8 else bit_index);
          bit_index = (if v AND 0x0f0f0f0f \<noteq> 0 then bit_index - 4 else bit_index);
          bit_index = (if v AND 0x33333333 \<noteq> 0 then bit_index - 2 else bit_index);
          bit_index = (if v AND 0x55555555 \<noteq> 0 then bit_index - 1 else bit_index)
      in bit_index)"

section \<open>Hash lemmas\<close>

lemma Djb2Hash_nonzero [simp]: "Djb2Hash s \<noteq> 0"
  by (simp add: Djb2Hash_def Let_def)

lemma Djb2HashNoCase_nonzero [simp]: "Djb2HashNoCase s \<noteq> 0"
  by (simp add: Djb2HashNoCase_def Let_def)

lemma Djb2HashPath_nonzero [simp]: "Djb2HashPath nocase s \<noteq> 0"
  by (simp add: Djb2HashPath_def)

lemma djb2_loop_c_str: "djb2_loop h (c_str s) = djb2_loop h s"
  by (induction s arbitrary: h) auto

lemma Djb2Hash_c_str [simp]: "Djb2Hash (c_str s) = Djb2Hash s"
  by (simp add: Djb2Hash_def djb2_loop_c_str)

lemma djb2_nocase_loop_c_str: "djb2_nocase_loop h (c_str s) = djb2_nocase_loop h s"
  by (induction s arbitrary: h) auto

lemma Djb2HashNoCase_c_str [simp]: "Djb2HashNoCase (c_str s) = Djb2HashNoCase s"
  by (simp add: Djb2HashNoCase_def djb2_nocase_loop_c_str)

section \<open>Smearing the highest bit downwards\<close>

definition smear :: "u32 \<Rightarrow> u32" where
  "smear m =
     (let m = m OR drop_bit 16 m; m = m OR drop_bit 8 m; m = m OR drop_bit 4 m;
          m = m OR drop_bit 2 m in m OR drop_bit 1 m)"

lemma NextPowerOfTwo_smear: "NextPowerOfTwo v = smear (v - 1) + 1"
  by (simp add: NextPowerOfTwo_def smear_def Let_def)

lemma bit_smear_step:
  "bit (m OR drop_bit k m) i \<longleftrightarrow> bit m i \<or> bit m (i + k)" for m :: u32
  by (auto simp: bit_simps add.commute)

text \<open>
  The shifts run from 16 down to 1: before a step by \<open>k\<close> the word collects the bits at
  every multiple of \<open>2 * k\<close> above a position, after it those at every multiple of \<open>k\<close>.
\<close>

lemma smear_step:
  fixes m m' :: u32
  assumes "\<And>i. bit m' i \<longleftrightarrow> (\<exists>q < n. bit m (i + 2 * k * q))"
  shows "bit (m' OR drop_bit k m') i \<longleftrightarrow> (\<exists>q < 2 * n. bit m (i + k * q))"
proof -
  have "(\<exists>q < n. bit m (i + k * (2 * q))) \<or> (\<exists>q < n. bit m (i + k * (2 * q + 1)))
      \<longleftrightarrow> (\<exists>q < 2 * n. bit m (i + k * q))" (is "?L \<longleftrightarrow> ?R")
  proof
    assume ?R
    then obtain q where q: "q < 2 * n" "bit m (i + k * q)" by blast
    then have "q div 2 < n" by simp
    moreover have "q = 2 * (q div 2) \<or> q = 2 * (q div 2) + 1" by arith
    ultimately show ?L using q by metis
  next
    assume ?L
    then consider q where "q < n" "bit m (i + k * (2 * q))"
      | q where "q < n" "bit m (i + k * (2 * q + 1))" by blast
    then show ?R
    proof cases
      case (1 q) then show ?thesis by (intro exI [of _ "2 * q"]) simp
    next
      case (2 q) then show ?thesis by (intro exI [of _ "2 * q + 1"]) simp
    qed
  qed
  then show ?thesis
    by (simp add: bit_smear_step assms algebra_simps)
qed

lemma bit_smear_dist: "bit (smear m) i \<longleftrightarrow> (\<exists>d < 32. bit m (i + d))"
proof -
  have 0: "bit m i \<longleftrightarrow> (\<exists>q < 1. bit m (i + 2 * 16 * q))" for i by simp
  note 1 = smear_step [where k = 16, OF 0]
  note 2 = smear_step [where k = 8 and n = 2 and m = m, simplified, OF 1 [simplified]]
  note 3 = smear_step [where k = 4 and n = 4 and m = m, simplified, OF 2 [simplified]]
  note 4 = smear_step [where k = 2 and n = 8 and m = m, simplified, OF 3 [simplified]]
  note 5 = smear_step [where k = 1 and n = 16 and m = m, simplified, OF 4 [simplified]]
  show ?thesis using 5 [of i] by (simp add: smear_def Let_def)
qed

lemma bit_smear: "bit (smear m) i \<longleftrightarrow> (\<exists>j \<ge> i. bit m j)"
proof
  assume "\<exists>j \<ge> i. bit m j"
  then obtain j where "i \<le> j" "bit m j" by blast
  moreover from this have "j < 32" using bit_imp_le_length by fastforce
  ultimately have "j - i < 32 \<and> bit m (i + (j - i))" by simp
  then show "bit (smear m) i" by (auto simp: bit_smear_dist)
next
  assume "bit (smear m) i"
  then show "\<exists>j \<ge> i. bit m j" unfolding bit_smear_dist using le_add1 by blast
qed

lemma smear_mask: "\<exists>n \<le> 32. smear m = mask n \<and> (\<forall>j. bit m j \<longrightarrow> j < n) \<and> (n = 0 \<or> bit m (n - 1))"
proof (cases "m = 0")
  case True
  then show ?thesis by (intro exI [of _ 0]) (simp add: smear_def)
next
  case False
  define k where "k = Max {j. bit m j}"
  have fin: "finite {j. bit m j}"
    by (rule finite_subset [of _ "{..<32}"]) (use bit_imp_le_length in fastforce)+
  have ne: "{j. bit m j} \<noteq> {}" using False by (auto simp: bit_eq_iff)
  have k: "bit m k" using Max_in [OF fin ne] by (simp add: k_def)
  have le: "j \<le> k" if "bit m j" for j using Max_ge [OF fin, of j] that by (simp add: k_def)
  have k32: "k < 32" using k bit_imp_le_length by fastforce
  have "smear m = mask (Suc k)"
    by (rule bit_word_eqI) (use k le k32 in \<open>auto simp: bit_smear bit_mask_iff less_Suc_eq_le dest: le_trans\<close>)
  then show ?thesis
    using k le k32 by (intro exI [of _ "Suc k"]) (auto simp: less_Suc_eq_le)
qed


section \<open>What the bit tricks compute\<close>

lemma NextPowerOfTwo_mask:
  assumes "val \<noteq> 0" "unat val \<le> 2 ^ 31"
  shows "\<exists>n \<le> 31. NextPowerOfTwo val = 2 ^ n \<and> unat val \<le> 2 ^ n \<and> (n = 0 \<or> 2 ^ (n - 1) < unat val)"
proof -
  obtain n where n: "n \<le> 32" "smear (val - 1) = mask n" "\<And>j. bit (val - 1) j \<Longrightarrow> j < n"
      "n = 0 \<or> bit (val - 1) (n - 1)"
    using smear_mask [of "val - 1"] by blast
  have u: "unat (val - 1) = unat val - 1"
    using assms(1) by (simp add: unat_minus_one)
  have pos: "0 < unat val" using assms(1) by (simp add: unat_gt_0)
  have "take_bit n (val - 1) = val - 1"
    by (rule bit_word_eqI) (use n(3) in \<open>auto simp: bit_take_bit_iff\<close>)
  then have "unat (val - 1) = unat (take_bit n (val - 1))" by simp
  also have "\<dots> < 2 ^ n" by (simp add: unsigned_take_bit_eq)
  finally have ub: "unat val \<le> 2 ^ n" using u pos by linarith
  have lb: "2 ^ (n - 1) \<le> unat val - 1" if "n \<noteq> 0"
  proof -
    have "bit (unat (val - 1)) (n - 1)" using n(4) that by (simp add: bit_unsigned_iff)
    then have "2 ^ (n - 1) \<le> unat (val - 1)" by (rule bit_nat_ge)
    then show ?thesis by (simp add: u)
  qed
  have "n \<le> 31"
  proof (rule ccontr)
    assume "\<not> n \<le> 31"
    then have "n = 32" using n(1) by simp
    then show False using lb assms(2) by simp
  qed
  moreover have "NextPowerOfTwo val = 2 ^ n"
    by (simp add: NextPowerOfTwo_smear n(2) mask_eq_decr_exp)
  moreover have "2 ^ (n - 1) < unat val" if "n \<noteq> 0"
    using lb [OF that] pos by linarith
  ultimately show ?thesis using ub by (intro exI [of _ n]) auto
qed

lemma less_32_cases:
  "k < (32 :: nat) \<Longrightarrow> k \<in> {0, 1, 2, 3, 4, 5, 6, 7, 8, 9, 10, 11, 12, 13, 14, 15, 16, 17, 18,
     19, 20, 21, 22, 23, 24, 25, 26, 27, 28, 29, 30, 31}"
  by simp presburger

lemma CountTrailingZeroes_lowest:
  assumes "bit v k" "\<And>i. i < k \<Longrightarrow> \<not> bit v i"
  shows "CountTrailingZeroes v = int k"
proof -
  have v: "v AND - v = 2 ^ k" using assms by (rule and_minus_lowest)
  have "k < 32" using assms(1) bit_imp_le_length by fastforce
  then show ?thesis
    unfolding CountTrailingZeroes_def v Let_def
    by (drule_tac less_32_cases) (elim insertE emptyE; simp)
qed

lemma CountTrailingZeroes_zero [simp]: "CountTrailingZeroes 0 = 32"
  by (simp add: CountTrailingZeroes_def)

section \<open>What the bit tricks compute\<close>

text \<open>
  C15: \<open>NextPowerOfTwo\<close> returns the smallest power of two that is not below its argument,
  for every argument from 1 to \<open>2 ^ 31\<close>.
\<close>

theorem NextPowerOfTwo_least:
  assumes "val \<noteq> 0" "unat val \<le> 2 ^ 31"
  shows "\<exists>n \<le> 31. NextPowerOfTwo val = 2 ^ n \<and> unat val \<le> 2 ^ n \<and> (n = 0 \<or> 2 ^ (n - 1) < unat val)"
  by (rule NextPowerOfTwo_mask [OF assms])

theorem NextPowerOfTwo_least_witness:
  "\<exists>n \<le> 31. NextPowerOfTwo 37 = 2 ^ n \<and> unat (37 :: u32) \<le> 2 ^ n \<and> (n = 0 \<or> 2 ^ (n - 1) < unat (37 :: u32))"
  using NextPowerOfTwo_least [of 37] by simp

text \<open>
  \<open>CountTrailingZeroes\<close> returns the position of the lowest set bit, for every non-zero
  argument.
\<close>

theorem CountTrailingZeroes_is_lowest_bit:
  assumes "v \<noteq> 0"
  shows "\<exists>k < 32. CountTrailingZeroes v = int k \<and> bit v k \<and> (\<forall>i. bit v i \<longrightarrow> k \<le> i)"
proof -
  obtain k where k: "k < 32" "bit v k" "\<And>i. i < k \<Longrightarrow> \<not> bit v i"
    using lowest_bit_exists [OF assms] by auto
  then have "CountTrailingZeroes v = int k" using CountTrailingZeroes_lowest by blast
  moreover have "k \<le> i" if "bit v i" for i using k(3) that by (meson not_le)
  ultimately show ?thesis using k by blast
qed

theorem CountTrailingZeroes_is_lowest_bit_witness:
  "\<exists>k < 32. CountTrailingZeroes 40 = int k \<and> bit (40 :: u32) k \<and> (\<forall>i. bit (40 :: u32) i \<longrightarrow> k \<le> i)"
  using CountTrailingZeroes_is_lowest_bit [of 40] by simp

end
