(* ===== verification/T2_BuildQueue.thy ===== *)
theory T2_BuildQueue
  imports T2_DagData T2_Common "HOL-Library.Monad_Syntax"
begin

text \<open>
  Model of \<open>src/BuildQueue.cpp\<close>: the ring buffer of nodes that are ready to advance,
  the state machine of a node (\<open>AdvanceNode\<close>), the list of parked expensive nodes, and
  the worker threads that run them.

  Every function runs with the queue lock held, except where \<open>CheckInputSignature\<close> and
  \<open>RunAction\<close> release it. \<open>AdvanceNode\<close> is therefore a function from one point where
  the lock is free to the next: it stops at \<open>InCheck\<close> or \<open>InRun\<close>, and the thread
  takes the lock again in \<open>ResumeCheck\<close> or \<open>ResumeRun\<close> with what happened meanwhile.
  A \<open>CHECK\<close> that fails aborts a checked build: the function returns \<open>None\<close>.

  A pointer to a \<open>NodeState\<close> is its index in the node state array. Wake-ups of the
  condition variable are collected in two fields of the queue (\<open>q_Signals\<close>,
  \<open>q_Broadcast\<close>) and delivered by the step relation at the end of the file.
\<close>

section \<open>State\<close>

record BuildQueue =
  q_Queue :: "nat list"
  q_QueueCapacity :: u32
  q_QueueReadIndex :: u32
  q_QueueWriteIndex :: u32
  q_ContinueOnError :: bool
  q_ThreadCount :: int
  q_NodeData :: "NodeData list"
  q_NodeState :: "NodeState list"
  q_MaxNodes :: nat
  q_NodeRemappingTable :: "int list"
  q_MaxExpensiveCount :: int
  q_PendingNodeCount :: int
  q_FailedNodeCount :: int
  q_CurrentPassIndex :: int
  q_ExpensiveRunning :: int
  q_ExpensiveWaitCount :: nat
  q_ExpensiveWaitList :: "nat list"
  q_QuitSignalled :: bool
  q_Signals :: nat
  q_Broadcast :: bool

datatype BuildResult = kOk | kInterrupted | kBuildError | kSetupError

definition CHECK :: "bool \<Rightarrow> unit option" where
  "CHECK b = (if b then Some () else None)"

text \<open>Reading and writing the node state array.\<close>

definition node :: "BuildQueue \<Rightarrow> nat \<Rightarrow> NodeState" where
  "node queue i = q_NodeState queue ! i"

definition node_data :: "BuildQueue \<Rightarrow> nat \<Rightarrow> NodeData" where
  "node_data queue i = q_NodeData queue ! ns_MmapData (node queue i)"

definition set_node :: "BuildQueue \<Rightarrow> nat \<Rightarrow> NodeState \<Rightarrow> BuildQueue" where
  "set_node queue i st = queue\<lparr>q_NodeState := (q_NodeState queue)[i := st]\<rparr>"

definition set_progress :: "BuildQueue \<Rightarrow> nat \<Rightarrow> BuildProgress \<Rightarrow> BuildQueue" where
  "set_progress queue i p = set_node queue i ((node queue i)\<lparr>ns_Progress := p\<rparr>)"

section \<open>The queue\<close>

definition AvailableNodeCount :: "BuildQueue \<Rightarrow> u32" where
  "AvailableNodeCount queue =
     (let queue_mask = q_QueueCapacity queue - 1
      in (q_QueueWriteIndex queue - q_QueueReadIndex queue) AND queue_mask)"

text \<open>The null pointer is \<open>None\<close> inside; the outer option is the \<open>CHECK\<close>.\<close>

definition GetStateForNode :: "BuildQueue \<Rightarrow> nat \<Rightarrow> nat option option" where
  "GetStateForNode queue src_index =
     (let state_index = q_NodeRemappingTable queue ! src_index
      in if state_index = - 1 then Some None
         else do {
           CHECK (ns_MmapData (node queue (nat state_index)) = src_index);
           Some (Some (nat state_index))
         })"

fun AllDependenciesReady_loop :: "BuildQueue \<Rightarrow> nat list \<Rightarrow> bool option" where
  "AllDependenciesReady_loop queue [] = Some True"
| "AllDependenciesReady_loop queue (dep_index # deps) = do {
     state \<leftarrow> GetStateForNode queue dep_index;
     CHECK (state \<noteq> None);
     if \<not> NodeStateIsCompleted (node queue (the state)) then Some False
     else AllDependenciesReady_loop queue deps
   }"

definition AllDependenciesReady :: "BuildQueue \<Rightarrow> nat \<Rightarrow> bool option" where
  "AllDependenciesReady queue i = AllDependenciesReady_loop queue (nd_Dependencies (node_data queue i))"

definition CondSignal :: "BuildQueue \<Rightarrow> BuildQueue" where
  "CondSignal queue = queue\<lparr>q_Signals := q_Signals queue + 1\<rparr>"

definition CondBroadcast :: "BuildQueue \<Rightarrow> BuildQueue" where
  "CondBroadcast queue = queue\<lparr>q_Broadcast := True\<rparr>"

definition WakeWaiters :: "BuildQueue \<Rightarrow> nat \<Rightarrow> BuildQueue" where
  "WakeWaiters queue n = (if n > 1 then CondBroadcast queue else CondSignal queue)"

definition Enqueue :: "BuildQueue \<Rightarrow> nat \<Rightarrow> BuildQueue option" where
  "Enqueue queue state = do {
     let write_index = q_QueueWriteIndex queue;
     let queue_mask = q_QueueCapacity queue - 1;
     ready \<leftarrow> AllDependenciesReady queue state;
     CHECK ready;
     CHECK (\<not> NodeStateIsQueued (node queue state));
     CHECK (\<not> NodeStateIsActive (node queue state));
     CHECK (\<not> NodeStateIsCompleted (node queue state));
     CHECK (nd_PassIndex (node_data queue state) = q_CurrentPassIndex queue);
     let avail_init = AvailableNodeCount queue;
     let queue = queue\<lparr>q_Queue := (q_Queue queue)[unat write_index := state],
                       q_QueueWriteIndex := (write_index + 1) AND queue_mask\<rparr>;
     let queue = set_node queue state (NodeStateFlagQueued (node queue state));
     CHECK (AvailableNodeCount queue = 1 + avail_init);
     Some queue
   }"

definition ParkExpensiveNode :: "BuildQueue \<Rightarrow> nat \<Rightarrow> BuildQueue option" where
  "ParkExpensiveNode queue state = do {
     let queue = set_node queue state (NodeStateFlagQueued (node queue state));
     CHECK (q_ExpensiveWaitCount queue < unat (q_QueueCapacity queue));
     Some (queue\<lparr>q_ExpensiveWaitList := (q_ExpensiveWaitList queue)[q_ExpensiveWaitCount queue := state],
                 q_ExpensiveWaitCount := q_ExpensiveWaitCount queue + 1\<rparr>)
   }"

definition UnparkExpensiveNode :: "BuildQueue \<Rightarrow> BuildQueue option" where
  "UnparkExpensiveNode queue =
     (if q_ExpensiveWaitCount queue > 0 then do {
        let last_index = q_ExpensiveWaitCount queue - 1;
        let queue = queue\<lparr>q_ExpensiveWaitCount := last_index\<rparr>;
        let n = q_ExpensiveWaitList queue ! last_index;
        CHECK (NodeStateIsQueued (node queue n));
        let queue = set_node queue n (NodeStateFlagUnqueued (node queue n));
        let queue = set_node queue n (NodeStateFlagInactive (node queue n));
        queue \<leftarrow> Enqueue queue n;
        Some (CondSignal queue)
      } else Some queue)"

fun SetupDependencies_loop ::
  "BuildQueue \<Rightarrow> NodeData \<Rightarrow> nat list \<Rightarrow> nat \<Rightarrow> nat \<Rightarrow> (BuildQueue \<times> nat \<times> nat) option" where
  "SetupDependencies_loop queue src_node [] dep_waits_needed enqueue_count =
     Some (queue, dep_waits_needed, enqueue_count)"
| "SetupDependencies_loop queue src_node (dep_index # deps) dep_waits_needed enqueue_count = do {
     state \<leftarrow> GetStateForNode queue dep_index;
     CHECK (state \<noteq> None);
     let st = node queue (the state);
     CHECK (nd_PassIndex (node_data queue (the state)) \<le> nd_PassIndex src_node);
     if NodeStateIsCompleted st
     then SetupDependencies_loop queue src_node deps dep_waits_needed enqueue_count
     else if \<not> NodeStateIsQueued st \<and> \<not> NodeStateIsActive st \<and> \<not> NodeStateIsBlocked st
     then do {
       queue \<leftarrow> Enqueue queue (the state);
       SetupDependencies_loop queue src_node deps (dep_waits_needed + 1) (enqueue_count + 1)
     }
     else SetupDependencies_loop queue src_node deps (dep_waits_needed + 1) enqueue_count
   }"

definition SetupDependencies :: "BuildQueue \<Rightarrow> nat \<Rightarrow> (BuildQueue \<times> BuildProgress) option" where
  "SetupDependencies queue i = do {
     let src_node = node_data queue i;
     (queue, dep_waits_needed, enqueue_count) \<leftarrow>
       SetupDependencies_loop queue src_node (nd_Dependencies src_node) 0 0;
     let queue = (if enqueue_count > 0 then WakeWaiters queue enqueue_count else queue);
     Some (queue, if dep_waits_needed > 0 then kBlocked else kUnblocked)
   }"

section \<open>Deciding whether a node must run\<close>

definition OutputFilesDiffer :: "NodeData \<Rightarrow> NodeStateData \<Rightarrow> bool" where
  "OutputFilesDiffer nd prev_state \<longleftrightarrow>
     length (nd_OutputFiles nd) \<noteq> length (sd_OutputFiles prev_state) \<or>
     \<not> list_all2 (\<lambda>f p. c_str (fst f) = c_str p) (nd_OutputFiles nd) (sd_OutputFiles prev_state)"

text \<open>
  The second half of \<open>CheckInputSignature\<close>: what to do with a node whose input
  signature has been computed. \<open>missing\<close> is the value of \<open>OutputFilesMissing\<close>.
\<close>

definition CheckInputSignature_next ::
  "NodeData \<Rightarrow> NodeStateData option \<Rightarrow> digest \<Rightarrow> bool \<Rightarrow> BuildProgress" where
  "CheckInputSignature_next nd prev_state signature missing =
     (case prev_state of
        None \<Rightarrow> kRunAction
      | Some prev_state \<Rightarrow>
          if sd_InputSignature prev_state \<noteq> signature then kRunAction
          else if sd_BuildResult prev_state \<noteq> 0 then kRunAction
          else if OutputFilesDiffer nd prev_state then kRunAction
          else if missing then kRunAction
          else kUpToDate)"

section \<open>Advancing a node\<close>

fun UnblockWaiters_loop :: "BuildQueue \<Rightarrow> nat list \<Rightarrow> nat \<Rightarrow> (BuildQueue \<times> nat) option" where
  "UnblockWaiters_loop queue [] enqueue_count = Some (queue, enqueue_count)"
| "UnblockWaiters_loop queue (link # links) enqueue_count = do {
     waiter \<leftarrow> GetStateForNode queue link;
     (case waiter of
        None \<Rightarrow> UnblockWaiters_loop queue links enqueue_count
      | Some w \<Rightarrow>
          if nd_PassIndex (node_data queue w) \<noteq> q_CurrentPassIndex queue
          then UnblockWaiters_loop queue links enqueue_count
          else do {
            ready \<leftarrow> AllDependenciesReady queue w;
            if \<not> ready then UnblockWaiters_loop queue links enqueue_count
            else if NodeStateIsQueued (node queue w) \<or> NodeStateIsActive (node queue w)
            then UnblockWaiters_loop queue links enqueue_count
            else do {
              queue \<leftarrow> Enqueue queue w;
              UnblockWaiters_loop queue links (enqueue_count + 1)
            }
          })
   }"

definition UnblockWaiters :: "BuildQueue \<Rightarrow> nat \<Rightarrow> BuildQueue option" where
  "UnblockWaiters queue i = do {
     (queue, enqueue_count) \<leftarrow> UnblockWaiters_loop queue (nd_BackLinks (node_data queue i)) 0;
     Some (if enqueue_count > 0 then WakeWaiters queue enqueue_count else queue)
   }"

text \<open>
  \<open>RunAction\<close> up to the point where it releases the lock: an empty command line
  succeeds at once, an expensive node above the limit is parked, otherwise the
  action runs.
\<close>

datatype run_begin = Returned BuildProgress | Unlocked

definition is_expensive :: "NodeData \<Rightarrow> bool" where
  "is_expensive nd \<longleftrightarrow> nd_Flags nd AND kFlagExpensive \<noteq> 0"

definition empty_action :: "NodeData \<Rightarrow> bool" where
  "empty_action nd \<longleftrightarrow> (case nd_Action nd of None \<Rightarrow> True | Some cmd_line \<Rightarrow> peek cmd_line = NUL)"

definition RunAction_begin :: "BuildQueue \<Rightarrow> nat \<Rightarrow> (BuildQueue \<times> run_begin) option" where
  "RunAction_begin queue i =
     (if empty_action (node_data queue i) then Some (queue, Returned kSucceeded)
      else if is_expensive (node_data queue i) then
        (if q_ExpensiveRunning queue = q_MaxExpensiveCount queue then do {
           queue \<leftarrow> ParkExpensiveNode queue i;
           Some (queue, Returned kRunAction)
         }
         else Some (queue\<lparr>q_ExpensiveRunning := q_ExpensiveRunning queue + 1\<rparr>, Unlocked))
      else Some (queue, Unlocked))"

text \<open>What \<open>AdvanceNode\<close> does after \<open>RunAction\<close> returned something else than \<open>kRunAction\<close>.\<close>

definition after_RunAction :: "BuildQueue \<Rightarrow> nat \<Rightarrow> BuildQueue option" where
  "after_RunAction queue i =
     (if is_expensive (node_data queue i) then do {
        let queue = queue\<lparr>q_ExpensiveRunning := q_ExpensiveRunning queue - 1\<rparr>;
        CHECK (q_ExpensiveRunning queue \<ge> 0);
        UnparkExpensiveNode queue
      } else Some queue)"

text \<open>Where a thread is when \<open>AdvanceNode\<close> gives up the lock.\<close>

datatype suspend = Done | InCheck | InRun

fun progress_rank :: "BuildProgress \<Rightarrow> nat" where
  "progress_rank kInitial = 5"
| "progress_rank kBlocked = 4"
| "progress_rank kUnblocked = 3"
| "progress_rank kRunAction = 2"
| "progress_rank kSucceeded = 1"
| "progress_rank kUpToDate = 1"
| "progress_rank kFailed = 1"
| "progress_rank kCompleted = 0"

lemma SetupDependencies_result:
  "SetupDependencies queue i = Some (queue', p) \<Longrightarrow> p = kBlocked \<or> p = kUnblocked"
  by (auto simp: SetupDependencies_def Let_def split: Option.bind_splits if_splits)

lemma RunAction_begin_result:
  "RunAction_begin queue i = Some (queue', Returned p) \<Longrightarrow> p = kSucceeded \<or> p = kRunAction"
  by (auto simp: RunAction_begin_def split: Option.bind_splits if_splits)

text \<open>
  The loop of \<open>AdvanceNode\<close>. The last argument is the node's progress, which every
  iteration has just stored in the node.
\<close>

function AdvanceNode_loop ::
  "BuildQueue \<Rightarrow> nat \<Rightarrow> BuildProgress \<Rightarrow> (BuildQueue \<times> suspend) option" where
  "AdvanceNode_loop queue i kInitial = do {
     (queue, p) \<leftarrow> SetupDependencies queue i;
     let queue = set_progress queue i p;
     if p = kBlocked
     then Some (set_node queue i (NodeStateFlagInactive (node queue i)), Done)
     else AdvanceNode_loop queue i p
   }"
| "AdvanceNode_loop queue i kBlocked = do {
     ready \<leftarrow> AllDependenciesReady queue i;
     CHECK ready;
     AdvanceNode_loop (set_progress queue i kUnblocked) i kUnblocked
   }"
| "AdvanceNode_loop queue i kUnblocked = do {
     ready \<leftarrow> AllDependenciesReady queue i;
     CHECK ready;
     Some (queue, InCheck)
   }"
| "AdvanceNode_loop queue i kRunAction = do {
     (queue, r) \<leftarrow> RunAction_begin queue i;
     (case r of
        Unlocked \<Rightarrow> Some (queue, InRun)
      | Returned p \<Rightarrow> do {
          let queue = set_progress queue i p;
          if p = kRunAction then Some (queue, Done)
          else do {
            queue \<leftarrow> after_RunAction queue i;
            AdvanceNode_loop queue i p
          }
        })
   }"
| "AdvanceNode_loop queue i kSucceeded =
     (let queue = set_node queue i ((node queue i)\<lparr>ns_BuildResult := 0, ns_Progress := kCompleted\<rparr>)
      in AdvanceNode_loop queue i kCompleted)"
| "AdvanceNode_loop queue i kUpToDate =
     (let queue = set_node queue i ((node queue i)\<lparr>ns_BuildResult := 0, ns_Progress := kCompleted\<rparr>)
      in AdvanceNode_loop queue i kCompleted)"
| "AdvanceNode_loop queue i kFailed =
     (let queue = CondBroadcast (queue\<lparr>q_FailedNodeCount := q_FailedNodeCount queue + 1\<rparr>);
          queue = set_node queue i ((node queue i)\<lparr>ns_BuildResult := 1, ns_Progress := kCompleted\<rparr>)
      in AdvanceNode_loop queue i kCompleted)"
| "AdvanceNode_loop queue i kCompleted = do {
     queue \<leftarrow> UnblockWaiters (queue\<lparr>q_PendingNodeCount := q_PendingNodeCount queue - 1\<rparr>) i;
     Some (CondBroadcast queue, Done)
   }"
  by pat_completeness auto
termination
  by (relation "measure (\<lambda>(q, i, p). progress_rank p)")
    (auto dest: SetupDependencies_result RunAction_begin_result)

definition AdvanceNode :: "BuildQueue \<Rightarrow> nat \<Rightarrow> (BuildQueue \<times> suspend) option" where
  "AdvanceNode queue i = do {
     CHECK (\<not> NodeStateIsCompleted (node queue i));
     CHECK (NodeStateIsActive (node queue i));
     CHECK (\<not> NodeStateIsQueued (node queue i));
     AdvanceNode_loop queue i (ns_Progress (node queue i))
   }"

text \<open>The thread has computed the input signature and takes the lock again.\<close>

definition ResumeCheck :: "BuildQueue \<Rightarrow> nat \<Rightarrow> digest \<Rightarrow> bool \<Rightarrow> (BuildQueue \<times> suspend) option" where
  "ResumeCheck queue i signature missing =
     (let queue = set_node queue i ((node queue i)\<lparr>ns_InputSignature := signature\<rparr>);
          p = CheckInputSignature_next (node_data queue i) (ns_MmapState (node queue i)) signature missing
      in AdvanceNode_loop (set_progress queue i p) i p)"

text \<open>
  The thread has run the action (or failed to create the output directories) and
  takes the lock again.
\<close>

datatype run_outcome = MakeDirectoriesFailed | ExecResult (m_ReturnCode: int) (m_WasSignalled: bool)

fun RunAction_result :: "run_outcome \<Rightarrow> BuildProgress" where
  "RunAction_result MakeDirectoriesFailed = kFailed"
| "RunAction_result (ExecResult code sig) = (if code = 0 then kSucceeded else kFailed)"

fun signals_build :: "run_outcome \<Rightarrow> bool" where
  "signals_build MakeDirectoriesFailed = False"
| "signals_build (ExecResult code sig) = sig"

definition ResumeRun :: "BuildQueue \<Rightarrow> nat \<Rightarrow> run_outcome \<Rightarrow> (BuildQueue \<times> suspend) option" where
  "ResumeRun queue i outcome = do {
     let p = RunAction_result outcome;
     let queue = (if signals_build outcome then CondBroadcast queue else queue);
     queue \<leftarrow> after_RunAction (set_progress queue i p) i;
     AdvanceNode_loop queue i p
   }"

definition NextNode :: "BuildQueue \<Rightarrow> (BuildQueue \<times> nat option) option" where
  "NextNode queue =
     (if AvailableNodeCount queue = 0 then Some (queue, None)
      else do {
        let read_index = q_QueueReadIndex queue;
        let node_index = q_Queue queue ! unat read_index;
        let queue = queue\<lparr>q_QueueReadIndex := (read_index + 1) AND (q_QueueCapacity queue - 1)\<rparr>;
        CHECK (NodeStateIsQueued (node queue node_index));
        CHECK (\<not> NodeStateIsActive (node queue node_index));
        let queue = set_node queue node_index (NodeStateFlagUnqueued (node queue node_index));
        let queue = set_node queue node_index (NodeStateFlagActive (node queue node_index));
        Some (queue, Some node_index)
      })"

section \<open>Threads\<close>

definition ShouldKeepBuilding :: "BuildQueue \<Rightarrow> bool \<Rightarrow> nat \<Rightarrow> bool" where
  "ShouldKeepBuilding queue signalled thread_index =
     (if signalled then False
      else if q_FailedNodeCount queue > 0 \<and> \<not> q_ContinueOnError queue then False
      else if q_QuitSignalled queue then False
      else if thread_index \<noteq> 0 then True
      else q_PendingNodeCount queue > 0)"

text \<open>
  A thread is at the head of \<open>BuildLoop\<close>, waits on the condition variable, works on a
  node without the lock, or has left the loop.
\<close>

datatype thread = Ready | Waiting | Checking nat | Running nat | Exited

fun thread_at :: "suspend \<Rightarrow> nat \<Rightarrow> thread" where
  "thread_at Done i = Ready"
| "thread_at InCheck i = Checking i"
| "thread_at InRun i = Running i"

text \<open>One iteration of \<open>BuildLoop\<close>, from the loop condition to where the lock is free again.\<close>

definition BuildLoop_iteration :: "BuildQueue \<Rightarrow> bool \<Rightarrow> nat \<Rightarrow> (BuildQueue \<times> thread) option" where
  "BuildLoop_iteration queue signalled thread_index =
     (if \<not> ShouldKeepBuilding queue signalled thread_index then Some (queue, Exited)
      else do {
        (queue, next_node) \<leftarrow> NextNode queue;
        (case next_node of
           None \<Rightarrow> Some (queue, Waiting)
         | Some i \<Rightarrow> do {
             (queue, s) \<leftarrow> AdvanceNode queue i;
             Some (queue, thread_at s i)
           })
      })"

section \<open>Setting up and building a pass\<close>

definition BuildQueueInit ::
  "bool \<Rightarrow> int \<Rightarrow> NodeData list \<Rightarrow> NodeState list \<Rightarrow> int list \<Rightarrow> int \<Rightarrow> BuildQueue option" where
  "BuildQueueInit continue_on_error thread_count nodes node_state remap max_expensive_count = do {
     CHECK (max_expensive_count > 0 \<and> max_expensive_count \<le> thread_count);
     let capacity = NextPowerOfTwo (of_nat (length node_state + 1));
     Some \<lparr>q_Queue = replicate (unat capacity) 0, q_QueueCapacity = capacity,
       q_QueueReadIndex = 0, q_QueueWriteIndex = 0, q_ContinueOnError = continue_on_error,
       q_ThreadCount = thread_count, q_NodeData = nodes, q_NodeState = node_state,
       q_MaxNodes = length node_state, q_NodeRemappingTable = remap,
       q_MaxExpensiveCount = max_expensive_count, q_PendingNodeCount = 0, q_FailedNodeCount = 0,
       q_CurrentPassIndex = 0, q_ExpensiveRunning = 0, q_ExpensiveWaitCount = 0,
       q_ExpensiveWaitList = replicate (unat capacity) 0, q_QuitSignalled = False,
       q_Signals = 0, q_Broadcast = False\<rparr>
   }"

fun init_range :: "BuildQueue \<Rightarrow> nat \<Rightarrow> nat list \<Rightarrow> BuildQueue option" where
  "init_range queue start_index [] = Some queue"
| "init_range queue start_index (i # is) = do {
     let state = start_index + i;
     let queue = set_node queue state (NodeStateFlagQueued (node queue state));
     CHECK (ns_Progress (node queue state) = kInitial);
     init_range (queue\<lparr>q_Queue := (q_Queue queue)[i := start_index + i]\<rparr>) start_index is
   }"

text \<open>\<open>BuildQueueBuildNodeRange\<close> up to the point where the threads see the new range.\<close>

definition BuildQueueBuildNodeRange_begin :: "BuildQueue \<Rightarrow> nat \<Rightarrow> nat \<Rightarrow> int \<Rightarrow> BuildQueue option" where
  "BuildQueueBuildNodeRange_begin queue start_index node_count pass_index = do {
     CHECK (start_index + node_count \<le> q_MaxNodes queue);
     queue \<leftarrow> init_range (queue\<lparr>q_CurrentPassIndex := pass_index\<rparr>) start_index [0..<node_count];
     Some (CondBroadcast (queue\<lparr>q_PendingNodeCount := int node_count, q_FailedNodeCount := 0,
       q_QueueWriteIndex := of_nat node_count, q_QueueReadIndex := 0\<rparr>))
   }"

text \<open>Its return value, after thread 0 has left \<open>BuildLoop\<close>.\<close>

definition BuildQueueBuildNodeRange_result :: "BuildQueue \<Rightarrow> bool \<Rightarrow> BuildResult" where
  "BuildQueueBuildNodeRange_result queue signalled =
     (if signalled then kInterrupted
      else if q_FailedNodeCount queue \<noteq> 0 then kBuildError
      else kOk)"

section \<open>Interleaving of the threads\<close>

record build_sys =
  bs_queue :: BuildQueue
  bs_threads :: "thread list"
  bs_signalled :: bool

text \<open>
  Delivering wake-ups: waiting threads may wake at any time; after a broadcast
  none waits any more, after a signal at least one of the waiting threads is woken.
\<close>

definition woken :: "BuildQueue \<Rightarrow> thread list \<Rightarrow> thread list \<Rightarrow> bool" where
  "woken queue thr thr' \<longleftrightarrow>
     list_all2 (\<lambda>a b. b = a \<or> a = Waiting \<and> b = Ready) thr thr' \<and>
     (q_Broadcast queue \<longrightarrow> Waiting \<notin> set thr') \<and>
     (q_Signals queue > 0 \<and> Waiting \<in> set thr \<longrightarrow> thr' \<noteq> thr)"

definition clear_wakeups :: "BuildQueue \<Rightarrow> BuildQueue" where
  "clear_wakeups queue = queue\<lparr>q_Signals := 0, q_Broadcast := False\<rparr>"

text \<open>
  One step of the build: some thread runs from one point where it does not hold the
  lock to the next, or the environment interrupts the build. \<open>SignalSet\<close> broadcasts
  without taking the queue lock, so a thread that is about to wait can miss it:
  after an interrupt any of the waiting threads may still wait.
\<close>

inductive build_step :: "build_sys \<Rightarrow> build_sys \<Rightarrow> bool" where
  iterate: "\<lbrakk>t < length thr; thr ! t = Ready;
     BuildLoop_iteration queue sig t = Some (queue', th);
     woken queue' (thr[t := th]) thr'\<rbrakk> \<Longrightarrow>
   build_step \<lparr>bs_queue = queue, bs_threads = thr, bs_signalled = sig\<rparr>
     \<lparr>bs_queue = clear_wakeups queue', bs_threads = thr', bs_signalled = sig\<rparr>"
| checked: "\<lbrakk>t < length thr; thr ! t = Checking i;
     ResumeCheck queue i signature missing = Some (queue', s);
     woken queue' (thr[t := thread_at s i]) thr'\<rbrakk> \<Longrightarrow>
   build_step \<lparr>bs_queue = queue, bs_threads = thr, bs_signalled = sig\<rparr>
     \<lparr>bs_queue = clear_wakeups queue', bs_threads = thr', bs_signalled = sig\<rparr>"
| ran: "\<lbrakk>t < length thr; thr ! t = Running i;
     ResumeRun queue i outcome = Some (queue', s);
     woken queue' (thr[t := thread_at s i]) thr'\<rbrakk> \<Longrightarrow>
   build_step \<lparr>bs_queue = queue, bs_threads = thr, bs_signalled = sig\<rparr>
     \<lparr>bs_queue = clear_wakeups queue', bs_threads = thr',
       bs_signalled = (sig \<or> signals_build outcome)\<rparr>"
| interrupt: "list_all2 (\<lambda>a b. b = a \<or> a = Waiting \<and> b = Ready) thr thr' \<Longrightarrow>
   build_step \<lparr>bs_queue = queue, bs_threads = thr, bs_signalled = sig\<rparr>
     \<lparr>bs_queue = queue, bs_threads = thr', bs_signalled = True\<rparr>"

end
