(* ===== verification/T2_Ring.thy ===== *)
theory T2_Ring
  imports T2_BuildQueue
begin

text \<open>
  The ring buffer of \<open>src/BuildQueue.cpp\<close> (\<open>m_Queue\<close> with its read and write index,
  32-bit arithmetic and a power-of-two mask) is a first-in first-out list.
\<close>

section \<open>The ring buffer as a list\<close>

lemma pow_u32: "unat c = 2 ^ k \<Longrightarrow> k < 32" for c :: u32
proof -
  assume "unat c = 2 ^ k"
  moreover have "unat c < 2 ^ 32" using unsigned_less [of c, where ?'a = nat] by simp
  ultimately have "(2::nat) ^ k < 2 ^ 32" by simp
  then show ?thesis by (simp only: power_strict_increasing_iff)
qed

lemma unat_and_mask:
  fixes x c :: u32
  assumes "unat c = 2 ^ k" shows "unat (x AND (c - 1)) = unat x mod 2 ^ k"
proof -
  have k: "k < 32" using assms(1) by (rule pow_u32)
  have "c = of_nat (unat c)" by simp
  then have c: "c = 2 ^ k" unfolding assms by simp
  show ?thesis
    unfolding c by (simp add: unsigned_take_bit_eq flip: mask_eq_exp_minus_1 take_bit_eq_mask take_bit_eq_mod)
qed

lemma unat_sub_mod:
  fixes w r c :: u32
  assumes "unat c = 2 ^ k" "unat r < 2 ^ k"
  shows "unat (w - r) mod 2 ^ k = (unat w + 2 ^ k - unat r) mod 2 ^ k"
proof -
  have k: "k < 32" using assms(1) by (rule pow_u32)
  then have dvd: "(2::int) ^ k dvd 2 ^ 32" by (intro le_imp_power_dvd) simp
  have "int (unat (w - r) mod 2 ^ k) = (int (unat w) - int (unat r)) mod 2 ^ 32 mod 2 ^ k"
    by (simp add: uint_word_ariths zmod_int)
  also have "\<dots> = (int (unat w) - int (unat r)) mod 2 ^ k"
    using dvd by (rule mod_mod_cancel)
  also have "\<dots> = (int (unat w) - int (unat r) + 2 ^ k) mod 2 ^ k"
    by simp
  also have "\<dots> = int ((unat w + 2 ^ k - unat r) mod 2 ^ k)"
    using assms(2) by (simp add: zmod_int of_nat_diff algebra_simps)
  finally show ?thesis by linarith
qed

lemma unat_add_mod:
  fixes w c :: u32
  assumes "unat c = 2 ^ k"
  shows "unat (w + 1) mod 2 ^ k = (unat w + 1) mod 2 ^ k"
proof -
  have k: "k < 32" using assms(1) by (rule pow_u32)
  then have "(2::nat) ^ k dvd 2 ^ 32" by (intro le_imp_power_dvd) simp
  then show ?thesis by (simp add: unat_word_ariths mod_mod_cancel)
qed

text \<open>The number of queued nodes, and the nodes in the order in which they are taken out.\<close>

definition cap :: "BuildQueue \<Rightarrow> nat" where
  "cap queue = unat (q_QueueCapacity queue)"

definition avail :: "BuildQueue \<Rightarrow> nat" where
  "avail queue = unat (AvailableNodeCount queue)"

definition ring_list :: "BuildQueue \<Rightarrow> nat list" where
  "ring_list queue =
     map (\<lambda>k. q_Queue queue ! ((unat (q_QueueReadIndex queue) + k) mod cap queue)) [0..<avail queue]"

definition ring_wf :: "BuildQueue \<Rightarrow> bool" where
  "ring_wf queue \<longleftrightarrow> (\<exists>k. cap queue = 2 ^ k) \<and> length (q_Queue queue) = cap queue \<and>
     unat (q_QueueReadIndex queue) < cap queue \<and> unat (q_QueueWriteIndex queue) < cap queue"

lemma avail_eq:
  assumes "ring_wf queue"
  shows "avail queue = (unat (q_QueueWriteIndex queue) + cap queue - unat (q_QueueReadIndex queue)) mod cap queue"
proof -
  obtain k where "cap queue = 2 ^ k" using assms by (auto simp: ring_wf_def)
  then show ?thesis
    using assms by (simp add: avail_def AvailableNodeCount_def Let_def ring_wf_def cap_def
        unat_and_mask unat_sub_mod)
qed

lemma length_ring_list [simp]: "length (ring_list queue) = avail queue"
  by (simp add: ring_list_def)

lemma avail_less: "ring_wf queue \<Longrightarrow> avail queue < cap queue"
  by (simp add: avail_eq) (auto simp: ring_wf_def)

definition ring_put :: "BuildQueue \<Rightarrow> nat \<Rightarrow> BuildQueue" where
  "ring_put queue state = queue\<lparr>q_Queue := (q_Queue queue)[unat (q_QueueWriteIndex queue) := state],
     q_QueueWriteIndex := (q_QueueWriteIndex queue + 1) AND (q_QueueCapacity queue - 1)\<rparr>"

definition ring_take :: "BuildQueue \<Rightarrow> BuildQueue" where
  "ring_take queue = queue\<lparr>q_QueueReadIndex := (q_QueueReadIndex queue + 1) AND (q_QueueCapacity queue - 1)\<rparr>"

lemma next_index:
  assumes "ring_wf queue"
  shows "unat ((w + 1) AND (q_QueueCapacity queue - 1)) = (unat w + 1) mod cap queue"
  using assms by (auto simp: ring_wf_def cap_def unat_and_mask unat_add_mod)

lemma ring_put_cap [simp]: "cap (ring_put queue x) = cap queue"
  and ring_take_cap [simp]: "cap (ring_take queue) = cap queue"
  by (simp_all add: cap_def ring_put_def ring_take_def)

lemma ring_put_wf: "ring_wf queue \<Longrightarrow> ring_wf (ring_put queue x)"
  using next_index [of queue "q_QueueWriteIndex queue"]
  by (simp add: ring_wf_def) (simp add: ring_put_def)

lemma ring_take_wf: "ring_wf queue \<Longrightarrow> ring_wf (ring_take queue)"
  using next_index [of queue "q_QueueReadIndex queue"]
  by (simp add: ring_wf_def) (simp add: ring_take_def)

lemma mod_below_twice: "a < 2 * c \<Longrightarrow> a mod c = (if a < c then a else a - c)" for a c :: nat
  by (simp add: le_mod_geq)

lemma ring_arith_put:
  fixes w r c :: nat
  assumes "w < c" "r < c" "(w + c - r) mod c < c - 1"
  shows "((w + 1) mod c + c - r) mod c = Suc ((w + c - r) mod c)" (is ?A)
    and "(r + (w + c - r) mod c) mod c = w" (is ?B)
    and "k < (w + c - r) mod c \<Longrightarrow> (r + k) mod c \<noteq> w"
proof -
  have e: "(w + c - r) mod c = (if r \<le> w then w - r else w + c - r)"
    using assms(1,2) by (simp add: mod_below_twice)
  have s: "(w + 1) mod c = (if Suc w = c then 0 else Suc w)"
    using assms(1) by (simp add: mod_below_twice)
  show ?A using assms unfolding s e by (auto simp: mod_below_twice split: if_splits)
  show ?B using assms(1,2) unfolding e by (simp add: mod_below_twice)
  show "k < (w + c - r) mod c \<Longrightarrow> (r + k) mod c \<noteq> w"
    using assms(1,2) unfolding e by (auto simp: mod_below_twice split: if_splits)
qed

lemma ring_arith_take:
  fixes w r c :: nat
  assumes "w < c" "r < c" "(w + c - r) mod c = Suc a"
  shows "(w + c - (r + 1) mod c) mod c = a" "((r + 1) mod c + k) mod c = (r + Suc k) mod c"
proof -
  have e: "(w + c - r) mod c = (if r \<le> w then w - r else w + c - r)"
    using assms(1,2) by (simp add: mod_below_twice)
  have s: "(r + 1) mod c = (if Suc r = c then 0 else Suc r)"
    using assms(2) by (simp add: mod_below_twice)
  show "(w + c - (r + 1) mod c) mod c = a"
    using assms(1,2) assms(3) [unfolded e] unfolding s by (auto simp: mod_below_twice split: if_splits)
  show "((r + 1) mod c + k) mod c = (r + Suc k) mod c"
    by (simp add: mod_add_left_eq)
qed

lemma ring_put_avail:
  assumes "ring_wf queue" "avail queue < cap queue - 1"
  shows "avail (ring_put queue x) = Suc (avail queue)"
proof -
  let ?w = "unat (q_QueueWriteIndex queue)" and ?r = "unat (q_QueueReadIndex queue)"
  have "avail (ring_put queue x) = ((?w + 1) mod cap queue + cap queue - ?r) mod cap queue"
    using next_index [OF assms(1), of "q_QueueWriteIndex queue"]
    by (simp add: avail_eq ring_put_wf assms(1)) (simp add: ring_put_def)
  then show ?thesis
    using assms ring_arith_put(1) [of ?w "cap queue" ?r] by (simp add: avail_eq) (simp add: ring_wf_def)
qed

lemma ring_put_list:
  assumes "ring_wf queue" "avail queue < cap queue - 1"
  shows "ring_list (ring_put queue x) = ring_list queue @ [x]"
proof -
  let ?w = "unat (q_QueueWriteIndex queue)" and ?r = "unat (q_QueueReadIndex queue)"
  let ?c = "cap queue"
  have wr: "?w < ?c" "?r < ?c" "?w < length (q_Queue queue)" using assms(1) by (auto simp: ring_wf_def)
  have a: "avail queue = (?w + ?c - ?r) mod ?c" using assms(1) by (rule avail_eq)
  note arith = ring_arith_put [OF wr(1,2) assms(2) [unfolded a], folded a]
  have r: "q_QueueReadIndex (ring_put queue x) = q_QueueReadIndex queue" by (simp add: ring_put_def)
  have q: "q_Queue (ring_put queue x) = (q_Queue queue)[?w := x]" by (simp add: ring_put_def)
  have av: "avail (ring_put queue x) = Suc (avail queue)" using assms by (rule ring_put_avail)
  show ?thesis
    using arith(2) wr by (simp add: ring_list_def av r q nth_list_update) (metis arith(3) atLeastLessThan_iff)
qed

lemma ring_take_list:
  assumes "ring_wf queue" "avail queue \<noteq> 0"
  shows "ring_list queue = q_Queue queue ! unat (q_QueueReadIndex queue) # ring_list (ring_take queue)"
proof -
  let ?w = "unat (q_QueueWriteIndex queue)" and ?r = "unat (q_QueueReadIndex queue)"
  let ?c = "cap queue"
  obtain a where a: "avail queue = Suc a" using assms(2) by (cases "avail queue") auto
  have wr: "?w < ?c" "?r < ?c" using assms(1) by (auto simp: ring_wf_def)
  note arith = ring_arith_take [OF wr a [unfolded avail_eq [OF assms(1)]]]
  have r: "unat (q_QueueReadIndex (ring_take queue)) = (?r + 1) mod ?c"
    using next_index [OF assms(1), of "q_QueueReadIndex queue"] by (simp add: ring_take_def)
  have av: "avail (ring_take queue) = a"
    using arith(1) r by (simp add: avail_eq ring_take_wf assms(1)) (simp add: ring_take_def)
  show ?thesis
    using arith(2) wr
    by (simp add: ring_list_def av a r upt_conv_Cons map_Suc_upt [symmetric] del: upt_Suc map_Suc_upt)
      (simp add: ring_take_def)
qed
end
