(* ===== verification/T2_Schedule.thy ===== *)
theory T2_Schedule
  imports T2_DagData
begin

text \<open>
  What the build queue promises, without ring buffer, flag bits and machine integers:
  every node of the plan has a place, and the operations move nodes between places.
  \<open>sinv\<close> is the invariant of the schedule. Its parameters describe a thread that is
  in the middle of an operation: \<open>R\<close> holds the nodes whose action runs, \<open>W\<close> the nodes
  that may have become ready but have not been looked at yet, and \<open>k\<close> the number of
  expensive nodes in transit between the ring and the running ones.
\<close>

section \<open>State and invariant\<close>

datatype place = Idle | InRing | Parked | Held | Finished

record plan =
  p_n :: nat
  p_deps :: "nat \<Rightarrow> nat set"
  p_pass :: "nat \<Rightarrow> int"
  p_exp :: "nat \<Rightarrow> bool"
  p_cur :: int
  p_max :: int

record sched =
  s_place :: "nat \<Rightarrow> place"
  s_prog :: "nat \<Rightarrow> BuildProgress"
  s_result :: "nat \<Rightarrow> int"
  s_ring :: "nat list"
  s_parked :: "nat list"
  s_pending :: int
  s_failed :: int
  s_running :: int

definition plan_ok :: "plan \<Rightarrow> bool" where
  "plan_ok P \<longleftrightarrow> p_max P \<ge> 1 \<and>
     (\<forall>i < p_n P. \<forall>j \<in> p_deps P i. j < p_n P \<and> p_pass P j \<le> p_pass P i) \<and>
     (\<exists>rank :: nat \<Rightarrow> nat. \<forall>i < p_n P. \<forall>j \<in> p_deps P i. rank j < rank i)"

definition s_ready :: "plan \<Rightarrow> sched \<Rightarrow> nat \<Rightarrow> bool" where
  "s_ready P s i \<longleftrightarrow> (\<forall>j \<in> p_deps P i. s_place s j = Finished)"

fun place_ok :: "place \<Rightarrow> plan \<Rightarrow> nat set \<Rightarrow> sched \<Rightarrow> nat \<Rightarrow> bool" where
  "place_ok Idle P W s i \<longleftrightarrow>
     p_pass P i = p_cur P \<and> s_prog s i = kBlocked \<and> (\<not> s_ready P s i \<or> i \<in> W) \<or>
     p_cur P < p_pass P i \<and> s_prog s i = kInitial"
| "place_ok InRing P W s i \<longleftrightarrow> p_pass P i = p_cur P \<and>
     (s_prog s i = kInitial \<or>
      s_ready P s i \<and> (s_prog s i = kBlocked \<or> s_prog s i = kRunAction \<and> p_exp P i))"
| "place_ok Parked P W s i \<longleftrightarrow>
     p_pass P i = p_cur P \<and> s_ready P s i \<and> s_prog s i = kRunAction \<and> p_exp P i"
| "place_ok Held P W s i \<longleftrightarrow>
     p_pass P i = p_cur P \<and> s_prog s i \<noteq> kCompleted \<and> (s_prog s i = kInitial \<or> s_ready P s i)"
| "place_ok Finished P W s i \<longleftrightarrow>
     p_pass P i \<le> p_cur P \<and> s_prog s i = kCompleted \<and> s_ready P s i"

definition unfinished :: "plan \<Rightarrow> sched \<Rightarrow> nat set" where
  "unfinished P s = {i. i < p_n P \<and> p_pass P i = p_cur P \<and> s_place s i \<noteq> Finished}"

definition failures :: "plan \<Rightarrow> sched \<Rightarrow> nat set" where
  "failures P s = {i. i < p_n P \<and> p_pass P i = p_cur P \<and> s_place s i = Finished \<and> s_result s i \<noteq> 0}"

definition queued_runs :: "sched \<Rightarrow> nat" where
  "queued_runs s = length (filter (\<lambda>i. s_prog s i = kRunAction) (s_ring s))"

definition sinv :: "plan \<Rightarrow> nat set \<Rightarrow> nat set \<Rightarrow> int \<Rightarrow> sched \<Rightarrow> bool" where
  "sinv P R W k s \<longleftrightarrow>
     distinct (s_ring s) \<and> set (s_ring s) = {i. i < p_n P \<and> s_place s i = InRing} \<and>
     distinct (s_parked s) \<and> set (s_parked s) = {i. i < p_n P \<and> s_place s i = Parked} \<and>
     R \<subseteq> {i. i < p_n P \<and> s_place s i = Held} \<and>
     (\<forall>i < p_n P. place_ok (s_place s i) P W s i) \<and>
     s_pending s = int (card (unfinished P s)) \<and>
     s_failed s = int (card (failures P s)) \<and>
     s_running s = int (card {i \<in> R. p_exp P i}) \<and> s_running s \<le> p_max P \<and>
     (s_parked s \<noteq> [] \<longrightarrow> p_max P \<le> s_running s + int (queued_runs s) + k)"

section \<open>Operations\<close>

definition a_put :: "nat \<Rightarrow> sched \<Rightarrow> sched" where
  "a_put w s = s\<lparr>s_place := (s_place s)(w := InRing), s_ring := s_ring s @ [w]\<rparr>"

definition a_take :: "nat \<Rightarrow> sched \<Rightarrow> sched" where
  "a_take x s = s\<lparr>s_place := (s_place s)(x := Held), s_ring := tl (s_ring s)\<rparr>"

definition a_progress :: "nat \<Rightarrow> BuildProgress \<Rightarrow> sched \<Rightarrow> sched" where
  "a_progress x p s = s\<lparr>s_prog := (s_prog s)(x := p)\<rparr>"

definition a_block :: "nat \<Rightarrow> sched \<Rightarrow> sched" where
  "a_block x s = s\<lparr>s_prog := (s_prog s)(x := kBlocked), s_place := (s_place s)(x := Idle)\<rparr>"

definition a_park :: "nat \<Rightarrow> sched \<Rightarrow> sched" where
  "a_park x s = s\<lparr>s_place := (s_place s)(x := Parked), s_parked := s_parked s @ [x]\<rparr>"

definition a_unpark :: "sched \<Rightarrow> sched" where
  "a_unpark s = (if s_parked s = [] then s
     else a_put (last (s_parked s)) (s\<lparr>s_parked := butlast (s_parked s)\<rparr>))"

definition a_finish :: "nat \<Rightarrow> int \<Rightarrow> sched \<Rightarrow> sched" where
  "a_finish x r s = s\<lparr>s_prog := (s_prog s)(x := kCompleted), s_place := (s_place s)(x := Finished),
     s_result := (s_result s)(x := r), s_pending := s_pending s - 1,
     s_failed := s_failed s + (if r = 0 then 0 else 1)\<rparr>"

section \<open>Every operation keeps the invariant\<close>

lemma finite_unfinished [simp]: "finite (unfinished P s)" "finite (failures P s)"
  by (auto simp: unfinished_def failures_def)

lemma place_ok_cong:
  assumes "place_ok p P W s i" "s_prog t i = s_prog s i"
    "\<And>j. s_place s j = Finished \<longleftrightarrow> s_place t j = Finished" "W \<subseteq> V"
  shows "place_ok p P V t i"
  using assms by (cases p) (auto simp: s_ready_def)

lemma sinv_place: "sinv P R W k s \<Longrightarrow> i < p_n P \<Longrightarrow> place_ok (s_place s i) P W s i"
  by (simp add: sinv_def)

lemma sinv_put:
  assumes "sinv P R W k s" "w < p_n P" "s_place s w = Idle" "s_prog s w = kBlocked" "s_ready P s w"
  shows "sinv P R (W - {w}) k (a_put w s)"
proof -
  have ok: "place_ok (s_place s i) P W s i" if "i < p_n P" for i using assms(1) that by (rule sinv_place)
  have cur: "p_pass P w = p_cur P" using ok [OF assms(2)] assms by auto
  have rd: "s_ready P (a_put w s) i = s_ready P s i" for i
    using assms(3) by (auto simp: s_ready_def a_put_def)
  have "place_ok (s_place (a_put w s) i) P (W - {w}) (a_put w s) i" if "i < p_n P" for i
    using ok [OF that] cur assms(3-5) rd [of i]
    by (cases "s_place s i") (auto simp: a_put_def)
  moreover have "unfinished P (a_put w s) = unfinished P s" "failures P (a_put w s) = failures P s"
    using assms(3) by (auto simp: unfinished_def failures_def a_put_def)
  moreover have "queued_runs (a_put w s) = queued_runs s"
    using assms(4) by (simp add: queued_runs_def a_put_def)
  moreover have "R \<subseteq> {i. i < p_n P \<and> s_place (a_put w s) i = Held}"
    using assms(1,3) by (auto simp: sinv_def a_put_def)
  moreover have "w \<notin> set (s_ring s)" using assms(1,3) by (auto simp: sinv_def)
  ultimately show ?thesis
    using assms(1-3) by (auto simp: sinv_def a_put_def)
qed


lemma sinv_weaken_k: "sinv P R W k s \<Longrightarrow> k \<le> l \<Longrightarrow> sinv P R W l s"
  by (auto simp: sinv_def)

lemma sinv_take:
  assumes "sinv P R W k s" "s_ring s = x # r"
  shows "sinv P R W (k + (if s_prog s x = kRunAction then 1 else 0)) (a_take x s)"
proof -
  have ok: "place_ok (s_place s i) P W s i" if "i < p_n P" for i using assms(1) that by (rule sinv_place)
  have "x \<in> set (s_ring s)" using assms(2) by simp
  then have x: "x < p_n P" "s_place s x = InRing" using assms(1) by (auto simp: sinv_def)
  have "place_ok (s_place (a_take x s) i) P W (a_take x s) i" if "i < p_n P" for i
    using ok [OF that] x(2)
    by (cases "s_place s i") (auto simp: a_take_def s_ready_def)
  moreover have "unfinished P (a_take x s) = unfinished P s" "failures P (a_take x s) = failures P s"
    using x(2) by (auto simp: unfinished_def failures_def a_take_def)
  moreover have "queued_runs s = queued_runs (a_take x s) + (if s_prog s x = kRunAction then 1 else 0)"
    using assms(2) by (simp add: queued_runs_def a_take_def)
  moreover have "R \<subseteq> {i. i < p_n P \<and> s_place (a_take x s) i = Held}"
    using assms(1) by (auto simp: sinv_def a_take_def)
  moreover have "distinct r" "set r = {i. i < p_n P \<and> s_place (a_take x s) i = InRing}"
    using assms by (auto simp: sinv_def a_take_def)
  ultimately show ?thesis
    using assms(1,2) x by (auto simp: sinv_def a_take_def)
qed

text \<open>Changes to a held node that is not finished leave the places of all others alone.\<close>

lemma sinv_progress:
  assumes "sinv P R W k s" "x < p_n P" "s_place s x = Held" "p \<noteq> kCompleted" "p = kInitial \<or> s_ready P s x"
  shows "sinv P R W k (a_progress x p s)"
proof -
  have ok: "place_ok (s_place s i) P W s i" if "i < p_n P" for i using assms(1) that by (rule sinv_place)
  have "place_ok (s_place (a_progress x p s) i) P W (a_progress x p s) i" if "i < p_n P" for i
    using ok [OF that] assms(3-5) by (cases "s_place s i") (auto simp: a_progress_def s_ready_def)
  moreover have "unfinished P (a_progress x p s) = unfinished P s" "failures P (a_progress x p s) = failures P s"
    by (auto simp: unfinished_def failures_def a_progress_def)
  moreover have "x \<notin> set (s_ring s)" using assms(1,3) by (auto simp: sinv_def)
  then have "queued_runs (a_progress x p s) = queued_runs s"
    unfolding queued_runs_def a_progress_def by (auto intro!: arg_cong [where f = length] filter_cong)
  ultimately show ?thesis
    using assms(1) by (auto simp: sinv_def a_progress_def)
qed

lemma sinv_block:
  assumes "sinv P R W k s" "x < p_n P" "s_place s x = Held" "x \<notin> R" "\<not> s_ready P s x"
  shows "sinv P R W k (a_block x s)"
proof -
  have ok: "place_ok (s_place s i) P W s i" if "i < p_n P" for i using assms(1) that by (rule sinv_place)
  have "place_ok (s_place (a_block x s) i) P W (a_block x s) i" if "i < p_n P" for i
    using ok [OF that] assms(3,5) by (cases "s_place s i") (auto simp: a_block_def s_ready_def)
  moreover have "unfinished P (a_block x s) = unfinished P s" "failures P (a_block x s) = failures P s"
    using assms(3) by (auto simp: unfinished_def failures_def a_block_def)
  moreover have "x \<notin> set (s_ring s)" using assms(1,3) by (auto simp: sinv_def)
  then have "queued_runs (a_block x s) = queued_runs s"
    unfolding queued_runs_def a_block_def by (auto intro!: arg_cong [where f = length] filter_cong)
  moreover have "R \<subseteq> {i. i < p_n P \<and> s_place (a_block x s) i = Held}"
    using assms(1,4) by (auto simp: sinv_def a_block_def)
  ultimately show ?thesis
    using assms(1,3) by (auto simp: sinv_def a_block_def)
qed

lemma sinv_park:
  assumes "sinv P R W k s" "x < p_n P" "s_place s x = Held" "x \<notin> R" "s_prog s x = kRunAction"
    "p_exp P x" "s_running s = p_max P"
  shows "sinv P R W 0 (a_park x s)"
proof -
  have ok: "place_ok (s_place s i) P W s i" if "i < p_n P" for i using assms(1) that by (rule sinv_place)
  have "place_ok (s_place (a_park x s) i) P W (a_park x s) i" if "i < p_n P" for i
    using ok [OF that] assms(3,5,6) by (cases "s_place s i") (auto simp: a_park_def s_ready_def)
  moreover have "unfinished P (a_park x s) = unfinished P s" "failures P (a_park x s) = failures P s"
    using assms(3) by (auto simp: unfinished_def failures_def a_park_def)
  moreover have "R \<subseteq> {i. i < p_n P \<and> s_place (a_park x s) i = Held}"
    using assms(1,4) by (auto simp: sinv_def a_park_def)
  moreover have "x \<notin> set (s_parked s)" using assms(1,3) by (auto simp: sinv_def)
  ultimately show ?thesis
    using assms(1-3,7) by (auto simp: sinv_def a_park_def)
qed

lemma sinv_unpark:
  assumes "sinv P R W 1 s"
  shows "sinv P R W 0 (a_unpark s)"
proof (cases "s_parked s = []")
  case True
  then show ?thesis using assms by (auto simp: a_unpark_def sinv_def)
next
  case False
  define x where "x = last (s_parked s)"
  define t where "t = a_unpark s"
  have p: "s_parked s = butlast (s_parked s) @ [x]" using False by (simp add: x_def)
  then have "x \<in> set (s_parked s)" by (metis in_set_conv_decomp)
  then have x: "x < p_n P" "s_place s x = Parked" using assms by (auto simp: sinv_def)
  have ok: "place_ok (s_place s i) P W s i" if "i < p_n P" for i using assms that by (rule sinv_place)
  have t: "s_place t = (s_place s)(x := InRing)" "s_ring t = s_ring s @ [x]" "s_prog t = s_prog s"
    "s_parked t = butlast (s_parked s)" "s_running t = s_running s" "s_pending t = s_pending s"
    "s_failed t = s_failed s" "s_result t = s_result s"
    using False by (simp_all add: t_def a_unpark_def a_put_def x_def)
  have run: "s_prog s x = kRunAction" using ok [OF x(1)] x(2) by simp
  have "place_ok (s_place t i) P W t i" if "i < p_n P" for i
    using ok [OF that] x by (cases "s_place s i") (auto simp: t s_ready_def)
  moreover have "unfinished P t = unfinished P s" "failures P t = failures P s"
    using x by (auto simp: unfinished_def failures_def t)
  moreover have "queued_runs t = queued_runs s + 1"
    using run by (simp add: queued_runs_def t)
  moreover have "R \<subseteq> {i. i < p_n P \<and> s_place t i = Held}"
    using assms x by (auto simp: sinv_def t)
  moreover have "x \<notin> set (s_ring s)" using assms x by (auto simp: sinv_def)
  moreover have "distinct (butlast (s_parked s))" "set (butlast (s_parked s)) = set (s_parked s) - {x}"
  proof -
    have "distinct (butlast (s_parked s) @ [x])" using assms p by (simp add: sinv_def)
    then show "distinct (butlast (s_parked s))" "set (butlast (s_parked s)) = set (s_parked s) - {x}"
      using arg_cong [OF p, of set] by auto
  qed
  ultimately have "sinv P R W 0 t"
    using assms x False by (auto simp: sinv_def t)
  then show ?thesis by (simp add: t_def)
qed

lemma sinv_start:
  assumes "sinv P R W k s" "x < p_n P" "s_place s x = Held" "x \<notin> R"
    "p_exp P x \<Longrightarrow> s_running s \<noteq> p_max P" "k \<le> (if p_exp P x then 1 else 0)"
  shows "sinv P (insert x R) W 0 (s\<lparr>s_running := s_running s + (if p_exp P x then 1 else 0)\<rparr>)"
proof -
  define t where "t = s\<lparr>s_running := s_running s + (if p_exp P x then 1 else 0)\<rparr>"
  have ok: "place_ok (s_place s i) P W s i" if "i < p_n P" for i using assms(1) that by (rule sinv_place)
  have "place_ok (s_place t i) P W t i" if "i < p_n P" for i
    using ok [OF that] by (cases "s_place s i") (auto simp: t_def s_ready_def)
  moreover have "unfinished P t = unfinished P s" "failures P t = failures P s" "queued_runs t = queued_runs s"
    by (auto simp: unfinished_def failures_def t_def queued_runs_def)
  moreover have "finite R" using assms(1) by (auto simp: sinv_def intro: rev_finite_subset)
  moreover have "{i \<in> insert x R. p_exp P i} = (if p_exp P x then insert x {i \<in> R. p_exp P i} else {i \<in> R. p_exp P i})"
    by auto
  ultimately have "sinv P (insert x R) W 0 t"
    using assms by (auto simp: sinv_def t_def split: if_splits)
  then show ?thesis by (simp add: t_def)
qed

lemma sinv_stop:
  assumes "sinv P R W 0 s" "x \<in> R"
  shows "sinv P (R - {x}) W (if p_exp P x then 1 else 0) (s\<lparr>s_running := s_running s - (if p_exp P x then 1 else 0)\<rparr>)"
    and "p_exp P x \<Longrightarrow> s_running s \<ge> 1"
proof -
  define t where "t = s\<lparr>s_running := s_running s - (if p_exp P x then 1 else 0)\<rparr>"
  have ok: "place_ok (s_place s i) P W s i" if "i < p_n P" for i using assms(1) that by (rule sinv_place)
  have pt: "place_ok (s_place t i) P W t i" if "i < p_n P" for i
    using ok [OF that] by (cases "s_place s i") (auto simp: t_def s_ready_def)
  have ut: "unfinished P t = unfinished P s" "failures P t = failures P s" "queued_runs t = queued_runs s"
    by (auto simp: unfinished_def failures_def t_def queued_runs_def)
  have "finite R" using assms(1) by (auto simp: sinv_def intro: rev_finite_subset)
  then have fin: "finite {i \<in> R - {x}. p_exp P i}" by simp
  have "{i \<in> R. p_exp P i} = (if p_exp P x then insert x {i \<in> R - {x}. p_exp P i} else {i \<in> R - {x}. p_exp P i})"
    using assms(2) by auto
  then have c: "card {i \<in> R. p_exp P i} = card {i \<in> R - {x}. p_exp P i} + (if p_exp P x then 1 else 0)"
    using card_insert_disjoint [OF fin, of x] by simp
  have "sinv P (R - {x}) W (if p_exp P x then 1 else 0) t"
    using assms pt ut c by (auto simp: sinv_def t_def split: if_splits)
  then show "sinv P (R - {x}) W (if p_exp P x then 1 else 0) (s\<lparr>s_running := s_running s - (if p_exp P x then 1 else 0)\<rparr>)"
    by (simp add: t_def)
  show "p_exp P x \<Longrightarrow> s_running s \<ge> 1" using assms(1) c by (simp add: sinv_def)
qed

lemma sinv_finish:
  assumes "sinv P R {} k s" "x < p_n P" "s_place s x = Held" "x \<notin> R" "s_ready P s x"
  shows "sinv P R {i. x \<in> p_deps P i} k (a_finish x r s)"
proof -
  define t where "t = a_finish x r s"
  have ok: "place_ok (s_place s i) P {} s i" if "i < p_n P" for i using assms(1) that by (rule sinv_place)
  have cur: "p_pass P x = p_cur P" using ok [OF assms(2)] assms(3) by simp
  have ready: "x \<in> p_deps P i \<or> (s_ready P t i \<longleftrightarrow> s_ready P s i)" for i
    by (auto simp: s_ready_def t_def a_finish_def)
  have mono: "s_ready P s i \<Longrightarrow> s_ready P t i" for i
    by (auto simp: s_ready_def t_def a_finish_def)
  have "place_ok (s_place t i) P {i. x \<in> p_deps P i} t i" if "i < p_n P" for i
    using ok [OF that] assms(3,5) cur mono [of i] mono [of x] ready [of i]
    by (cases "s_place s i") (auto simp: t_def a_finish_def)
  moreover have "unfinished P t = unfinished P s - {x}" "x \<in> unfinished P s"
    using assms(2,3) cur by (auto simp: unfinished_def t_def a_finish_def)
  moreover have "failures P t = (if r = 0 then failures P s else insert x (failures P s))" "x \<notin> failures P s"
    using assms(2,3) cur by (auto simp: failures_def t_def a_finish_def)
  moreover have "x \<notin> set (s_ring s)" using assms(1,3) by (auto simp: sinv_def)
  then have "queued_runs t = queued_runs s"
    unfolding queued_runs_def t_def a_finish_def by (auto intro!: arg_cong [where f = length] filter_cong)
  moreover have "card (unfinished P s) > 0" using calculation(3) by (auto simp: card_gt_0_iff)
  moreover have "R \<subseteq> {i. i < p_n P \<and> s_place t i = Held}"
    using assms(1,4) by (auto simp: sinv_def t_def a_finish_def)
  moreover have "s_ring t = s_ring s" "s_parked t = s_parked s" "s_running t = s_running s"
    "s_pending t = s_pending s - 1" "s_failed t = s_failed s + (if r = 0 then 0 else 1)"
    "{i. i < p_n P \<and> s_place t i = InRing} = {i. i < p_n P \<and> s_place s i = InRing}"
    "{i. i < p_n P \<and> s_place t i = Parked} = {i. i < p_n P \<and> s_place s i = Parked}"
    using assms(3) by (auto simp: t_def a_finish_def)
  ultimately have "sinv P R {i. x \<in> p_deps P i} k t"
    using assms(1) by (simp add: sinv_def) linarith
  then show ?thesis by (simp add: t_def)
qed

section \<open>Progress\<close>

text \<open>Nothing stands still: while nodes of the pass are unfinished and no thread holds one, the ring has one.\<close>

lemma sinv_progress_possible:
  assumes "plan_ok P" "sinv P R {} 0 s" "s_pending s > 0" "\<And>i. i < p_n P \<Longrightarrow> s_place s i \<noteq> Held"
  shows "s_ring s \<noteq> []"
proof
  assume empty: "s_ring s = []"
  have ok: "place_ok (s_place s i) P {} s i" if "i < p_n P" for i using assms(2) that by (rule sinv_place)
  have "R = {}" using assms(2,4) by (auto simp: sinv_def)
  then have none: "s_parked s = []"
    using assms(1,2) empty by (auto simp: sinv_def plan_ok_def queued_runs_def)
  obtain rank :: "nat \<Rightarrow> nat" where rank: "\<And>i j. i < p_n P \<Longrightarrow> j \<in> p_deps P i \<Longrightarrow> rank j < rank i"
    using assms(1) unfolding plan_ok_def by blast
  have idle: "s_place s i = Finished \<or> s_place s i = Idle" if "i < p_n P" for i
    using assms(2,4) that empty none by (cases "s_place s i") (auto simp: sinv_def)
  have "i \<notin> unfinished P s" for i
  proof (induction "rank i" arbitrary: i rule: less_induct)
    case less
    show ?case
    proof
      assume i: "i \<in> unfinished P s"
      then have "s_place s i = Idle" "i < p_n P" "p_pass P i = p_cur P"
        using idle by (auto simp: unfinished_def)
      then obtain j where j: "j \<in> p_deps P i" "s_place s j \<noteq> Finished"
        using ok [of i] by (auto simp: s_ready_def)
      then have "j < p_n P" "p_pass P j \<le> p_cur P"
        using \<open>i < p_n P\<close> \<open>p_pass P i = p_cur P\<close> assms(1) by (auto simp: plan_ok_def)
      then have "j \<in> unfinished P s" using j(2) ok [of j] idle [of j] by (auto simp: unfinished_def)
      then show False using less rank j(1) \<open>i < p_n P\<close> by blast
    qed
  qed
  then have "unfinished P s = {}" by blast
  then show False using assms(2,3) by (simp add: sinv_def)
qed

text \<open>
  A weight that every operation lowers or keeps, apart from unparking, which adds one
  and only happens when another node finishes.
\<close>

fun weight :: "place \<Rightarrow> BuildProgress \<Rightarrow> nat" where
  "weight Idle p = (if p = kBlocked then 8 else 10)"
| "weight InRing p = (if p = kInitial then 10 else if p = kBlocked then 7 else 5)"
| "weight Parked p = 4"
| "weight Held p = (if p = kInitial then 9 else if p = kBlocked \<or> p = kUnblocked then 6
     else if p = kRunAction then 4 else 3)"
| "weight Finished p = 0"

definition work_left :: "plan \<Rightarrow> sched \<Rightarrow> nat" where
  "work_left P s = (\<Sum>i < p_n P. weight (s_place s i) (s_prog s i))"

lemma work_left_le: "work_left P s \<le> 10 * p_n P"
proof -
  have "weight p q \<le> 10" for p q by (cases p) auto
  then have "work_left P s \<le> (\<Sum>i < p_n P. 10)" unfolding work_left_def by (intro sum_mono) simp
  then show ?thesis by simp
qed

lemma work_left_upd:
  assumes "x < p_n P" "\<And>i. i \<noteq> x \<Longrightarrow> s_place t i = s_place s i \<and> s_prog t i = s_prog s i"
  shows "work_left P t + weight (s_place s x) (s_prog s x) = work_left P s + weight (s_place t x) (s_prog t x)"
proof -
  have "x \<in> {..<p_n P}" using assms(1) by simp
  moreover have "(\<Sum>i \<in> {..<p_n P} - {x}. weight (s_place t i) (s_prog t i)) =
      (\<Sum>i \<in> {..<p_n P} - {x}. weight (s_place s i) (s_prog s i))"
    using assms(2) by (intro sum.cong) auto
  ultimately show ?thesis by (simp add: work_left_def sum.remove)
qed

lemma work_left_put:
  "w < p_n P \<Longrightarrow> s_place s w = Idle \<Longrightarrow> s_prog s w = kBlocked \<Longrightarrow> work_left P (a_put w s) \<le> work_left P s"
  using work_left_upd [of w P "a_put w s" s] by (simp add: a_put_def)

lemma work_left_take:
  assumes "sinv P R W k s" "s_ring s = x # r"
  shows "work_left P (a_take x s) < work_left P s"
proof -
  have "x \<in> set (s_ring s)" using assms(2) by simp
  then have "x < p_n P" "s_place s x = InRing" using assms(1) by (auto simp: sinv_def)
  moreover from this have "place_ok InRing P W s x" using sinv_place [OF assms(1), of x] by simp
  ultimately show ?thesis
    using work_left_upd [of x P "a_take x s" s] by (auto simp: a_take_def)
qed

lemma work_left_progress:
  assumes "x < p_n P" "s_place s x = Held" "weight Held p \<le> weight Held (s_prog s x)"
  shows "work_left P (a_progress x p s) + weight Held (s_prog s x) = work_left P s + weight Held p"
  using assms work_left_upd [of x P "a_progress x p s" s] by (simp add: a_progress_def)

lemma work_left_block:
  "x < p_n P \<Longrightarrow> s_place s x = Held \<Longrightarrow> s_prog s x = kInitial \<Longrightarrow> work_left P (a_block x s) \<le> work_left P s"
  using work_left_upd [of x P "a_block x s" s] by (simp add: a_block_def)

lemma work_left_park:
  "x < p_n P \<Longrightarrow> s_place s x = Held \<Longrightarrow> s_prog s x = kRunAction \<Longrightarrow> work_left P (a_park x s) \<le> work_left P s"
  using work_left_upd [of x P "a_park x s" s] by (simp add: a_park_def)

lemma work_left_unpark:
  assumes "sinv P R W k s" shows "work_left P (a_unpark s) \<le> work_left P s + 1"
proof (cases "s_parked s = []")
  case False
  then have "last (s_parked s) \<in> set (s_parked s)" by simp
  then have "last (s_parked s) < p_n P" "s_place s (last (s_parked s)) = Parked"
    using assms by (auto simp: sinv_def)
  moreover from this have "place_ok Parked P W s (last (s_parked s))"
    using sinv_place [OF assms, of "last (s_parked s)"] by simp
  ultimately show ?thesis
    using False work_left_upd [of "last (s_parked s)" P "a_unpark s" s]
    by (simp add: a_unpark_def a_put_def)
qed (simp add: a_unpark_def)

lemma work_left_finish:
  "x < p_n P \<Longrightarrow> s_place s x = Held \<Longrightarrow> work_left P (a_finish x r s) + weight Held (s_prog s x) = work_left P s"
  using work_left_upd [of x P "a_finish x r s" s] by (simp add: a_finish_def)

end
