(* ===== verification/T2_BuildQueueInv.thy ===== *)
theory T2_BuildQueueInv
  imports T2_Ring T2_Schedule
begin

text \<open>
  The build queue implements the schedule: \<open>plan_of\<close> and \<open>sched_of\<close> read the abstract
  plan and schedule off the concrete queue, \<open>cfg_ok\<close> states what the tables given to
  the queue must satisfy, \<open>qinv\<close> is the invariant, and the lemmas \<open>*_ok\<close> show for every
  operation that none of its \<open>CHECK\<close>s fails, that it keeps the invariant, and which
  abstract operation it performs.
\<close>

section \<open>The plan and the schedule of a queue\<close>

definition place_of :: "NodeState \<Rightarrow> place" where
  "place_of st =
     (if NodeStateIsQueued st then (if NodeStateIsActive st then Parked else InRing)
      else if NodeStateIsActive st then (if NodeStateIsCompleted st then Finished else Held)
      else Idle)"

definition dep_states :: "BuildQueue \<Rightarrow> nat \<Rightarrow> nat list" where
  "dep_states queue i = map (\<lambda>d. nat (q_NodeRemappingTable queue ! d)) (nd_Dependencies (node_data queue i))"

definition plan_of :: "BuildQueue \<Rightarrow> plan" where
  "plan_of queue = \<lparr>p_n = length (q_NodeState queue), p_deps = \<lambda>i. set (dep_states queue i),
     p_pass = \<lambda>i. nd_PassIndex (node_data queue i), p_exp = \<lambda>i. is_expensive (node_data queue i),
     p_cur = q_CurrentPassIndex queue, p_max = q_MaxExpensiveCount queue\<rparr>"

definition sched_of :: "BuildQueue \<Rightarrow> sched" where
  "sched_of queue = \<lparr>s_place = \<lambda>i. place_of (node queue i), s_prog = \<lambda>i. ns_Progress (node queue i),
     s_result = \<lambda>i. ns_BuildResult (node queue i), s_ring = ring_list queue,
     s_parked = take (q_ExpensiveWaitCount queue) (q_ExpensiveWaitList queue),
     s_pending = q_PendingNodeCount queue, s_failed = q_FailedNodeCount queue,
     s_running = q_ExpensiveRunning queue\<rparr>"

text \<open>What the rest of the program guarantees about the tables it hands to the queue.\<close>

definition cfg_ok :: "BuildQueue \<Rightarrow> bool" where
  "cfg_ok queue \<longleftrightarrow> plan_ok (plan_of queue) \<and>
     length (q_NodeState queue) < cap queue \<and> length (q_ExpensiveWaitList queue) = cap queue \<and>
     (\<forall>i < length (q_NodeState queue).
        ns_MmapData (node queue i) < length (q_NodeRemappingTable queue) \<and>
        q_NodeRemappingTable queue ! ns_MmapData (node queue i) = int i) \<and>
     (\<forall>d < length (q_NodeRemappingTable queue).
        q_NodeRemappingTable queue ! d = - 1 \<or>
        0 \<le> q_NodeRemappingTable queue ! d \<and>
        nat (q_NodeRemappingTable queue ! d) < length (q_NodeState queue) \<and>
        ns_MmapData (node queue (nat (q_NodeRemappingTable queue ! d))) = d) \<and>
     (\<forall>i < length (q_NodeState queue). \<forall>d \<in> set (nd_Dependencies (node_data queue i)).
        d < length (q_NodeRemappingTable queue) \<and> q_NodeRemappingTable queue ! d \<noteq> - 1 \<and>
        ns_MmapData (node queue i) \<in> set (nd_BackLinks (q_NodeData queue ! d))) \<and>
     (\<forall>i < length (q_NodeState queue). \<forall>b \<in> set (nd_BackLinks (node_data queue i)).
        b < length (q_NodeRemappingTable queue)) \<and>
     (\<forall>i < length (q_NodeState queue). is_expensive (node_data queue i) \<longrightarrow> \<not> empty_action (node_data queue i))"

definition qinv :: "nat set \<Rightarrow> nat set \<Rightarrow> int \<Rightarrow> BuildQueue \<Rightarrow> bool" where
  "qinv R W k queue \<longleftrightarrow> cfg_ok queue \<and> ring_wf queue \<and> q_ExpensiveWaitCount queue \<le> cap queue \<and>
     sinv (plan_of queue) R W k (sched_of queue)"

section \<open>Reading the state after an update\<close>

lemma node_set_node [simp]:
  "i < length (q_NodeState queue) \<Longrightarrow> node (set_node queue i st) j = (if j = i then st else node queue j)"
  by (simp add: node_def set_node_def)

lemma set_node_twice [simp]: "set_node (set_node queue i a) i b = set_node queue i b"
  by (simp add: set_node_def)

lemma set_node_sel [simp]:
  "q_Queue (set_node queue i st) = q_Queue queue"
  "q_QueueCapacity (set_node queue i st) = q_QueueCapacity queue"
  "q_QueueReadIndex (set_node queue i st) = q_QueueReadIndex queue"
  "q_QueueWriteIndex (set_node queue i st) = q_QueueWriteIndex queue"
  "q_ContinueOnError (set_node queue i st) = q_ContinueOnError queue"
  "q_NodeData (set_node queue i st) = q_NodeData queue"
  "length (q_NodeState (set_node queue i st)) = length (q_NodeState queue)"
  "q_NodeRemappingTable (set_node queue i st) = q_NodeRemappingTable queue"
  "q_MaxExpensiveCount (set_node queue i st) = q_MaxExpensiveCount queue"
  "q_PendingNodeCount (set_node queue i st) = q_PendingNodeCount queue"
  "q_FailedNodeCount (set_node queue i st) = q_FailedNodeCount queue"
  "q_CurrentPassIndex (set_node queue i st) = q_CurrentPassIndex queue"
  "q_ExpensiveRunning (set_node queue i st) = q_ExpensiveRunning queue"
  "q_ExpensiveWaitCount (set_node queue i st) = q_ExpensiveWaitCount queue"
  "q_ExpensiveWaitList (set_node queue i st) = q_ExpensiveWaitList queue"
  "q_QuitSignalled (set_node queue i st) = q_QuitSignalled queue"
  "q_Broadcast (set_node queue i st) = q_Broadcast queue"
  "q_MaxNodes (set_node queue i st) = q_MaxNodes queue"
  by (simp_all add: set_node_def)

text \<open>Two queues with the same tables.\<close>

definition same_tables :: "BuildQueue \<Rightarrow> BuildQueue \<Rightarrow> bool" where
  "same_tables a b \<longleftrightarrow> q_QueueCapacity b = q_QueueCapacity a \<and> q_NodeData b = q_NodeData a \<and>
     length (q_NodeState b) = length (q_NodeState a) \<and>
     (\<forall>i. ns_MmapData (node b i) = ns_MmapData (node a i)) \<and>
     q_NodeRemappingTable b = q_NodeRemappingTable a \<and> q_MaxExpensiveCount b = q_MaxExpensiveCount a \<and>
     q_CurrentPassIndex b = q_CurrentPassIndex a \<and>
     length (q_ExpensiveWaitList b) = length (q_ExpensiveWaitList a) \<and>
     q_ContinueOnError b = q_ContinueOnError a \<and> q_QuitSignalled b = q_QuitSignalled a \<and>
     q_MaxNodes b = q_MaxNodes a"

lemma same_tables_refl [simp]: "same_tables queue queue"
  by (simp add: same_tables_def)

lemma same_tables_trans [trans]: "same_tables a b \<Longrightarrow> same_tables b c \<Longrightarrow> same_tables a c"
  by (simp add: same_tables_def)

lemma same_tables_plan:
  assumes "same_tables a b"
  shows "node_data b = node_data a" "plan_of b = plan_of a" "cap b = cap a" "cfg_ok b = cfg_ok a"
proof -
  show nd: "node_data b = node_data a" using assms by (auto simp: same_tables_def node_data_def)
  have ds: "dep_states b = dep_states a" using assms nd by (auto simp: same_tables_def dep_states_def)
  show p: "plan_of b = plan_of a" using assms nd ds by (simp add: same_tables_def plan_of_def)
  show c: "cap b = cap a" using assms by (simp add: same_tables_def cap_def)
  show "cfg_ok b = cfg_ok a" using assms nd p c by (simp add: same_tables_def cfg_ok_def)
qed

lemma same_tables_set_node [simp]:
  "i < length (q_NodeState queue) \<Longrightarrow> ns_MmapData st = ns_MmapData (node queue i) \<Longrightarrow>
   same_tables queue (set_node queue i st)"
  by (simp add: same_tables_def)

lemma ring_set_node [simp]:
  "cap (set_node queue i st) = cap queue" "avail (set_node queue i st) = avail queue"
  "ring_wf (set_node queue i st) = ring_wf queue" "ring_list (set_node queue i st) = ring_list queue"
  by (simp_all add: cap_def avail_def AvailableNodeCount_def ring_wf_def ring_list_def)

lemma sched_set_node:
  "i < length (q_NodeState queue) \<Longrightarrow>
   sched_of (set_node queue i st) = (sched_of queue)\<lparr>s_place := (s_place (sched_of queue))(i := place_of st),
     s_prog := (s_prog (sched_of queue))(i := ns_Progress st),
     s_result := (s_result (sched_of queue))(i := ns_BuildResult st)\<rparr>"
  by (auto simp: sched_of_def)

lemma sched_sel [simp]:
  "s_place (sched_of queue) i = place_of (node queue i)"
  "s_prog (sched_of queue) i = ns_Progress (node queue i)"
  "s_result (sched_of queue) i = ns_BuildResult (node queue i)"
  "s_ring (sched_of queue) = ring_list queue"
  "s_pending (sched_of queue) = q_PendingNodeCount queue"
  "s_failed (sched_of queue) = q_FailedNodeCount queue"
  "s_running (sched_of queue) = q_ExpensiveRunning queue"
  by (simp_all add: sched_of_def)

lemma plan_sel [simp]:
  "p_n (plan_of queue) = length (q_NodeState queue)"
  "p_deps (plan_of queue) i = set (dep_states queue i)"
  "p_pass (plan_of queue) i = nd_PassIndex (node_data queue i)"
  "p_exp (plan_of queue) i = is_expensive (node_data queue i)"
  "p_cur (plan_of queue) = q_CurrentPassIndex queue"
  "p_max (plan_of queue) = q_MaxExpensiveCount queue"
  by (simp_all add: plan_of_def)

section \<open>Dependencies\<close>

lemma CHECK_simps [simp]: "CHECK True = Some ()" "CHECK False = None"
  by (simp_all add: CHECK_def)

lemma GetStateForNode_known:
  assumes "cfg_ok queue" "d < length (q_NodeRemappingTable queue)" "q_NodeRemappingTable queue ! d \<noteq> - 1"
  shows "GetStateForNode queue d = Some (Some (nat (q_NodeRemappingTable queue ! d)))"
    and "nat (q_NodeRemappingTable queue ! d) < length (q_NodeState queue)"
  using assms by (auto simp: cfg_ok_def GetStateForNode_def Let_def)

lemma AllDependenciesReady_loop_ok:
  assumes "cfg_ok queue"
    "\<forall>d \<in> set ds. d < length (q_NodeRemappingTable queue) \<and> q_NodeRemappingTable queue ! d \<noteq> - 1"
  shows "AllDependenciesReady_loop queue ds =
     Some (\<forall>d \<in> set ds. NodeStateIsCompleted (node queue (nat (q_NodeRemappingTable queue ! d))))"
  using assms(2) by (induction ds) (auto simp: GetStateForNode_known [OF assms(1)])

lemma AllDependenciesReady_ok:
  assumes "cfg_ok queue" "i < length (q_NodeState queue)"
  shows "AllDependenciesReady queue i = Some (\<forall>j \<in> set (dep_states queue i). NodeStateIsCompleted (node queue j))"
  using assms AllDependenciesReady_loop_ok [OF assms(1), of "nd_Dependencies (node_data queue i)"]
  by (auto simp: AllDependenciesReady_def dep_states_def cfg_ok_def)

lemma dep_in_range:
  "cfg_ok queue \<Longrightarrow> i < length (q_NodeState queue) \<Longrightarrow> j \<in> set (dep_states queue i) \<Longrightarrow>
   j < length (q_NodeState queue)"
  by (auto simp: cfg_ok_def plan_ok_def)

lemma completed_finished:
  assumes "qinv R W k queue" "i < length (q_NodeState queue)"
  shows "NodeStateIsCompleted (node queue i) \<longleftrightarrow> place_of (node queue i) = Finished"
proof -
  have "place_ok (place_of (node queue i)) (plan_of queue) W (sched_of queue) i"
    using assms sinv_place [of "plan_of queue" R W k "sched_of queue" i] by (simp add: qinv_def)
  then show ?thesis
    by (cases "place_of (node queue i)") (auto simp: NodeStateIsCompleted_def)
qed

lemma AllDependenciesReady_sched:
  assumes "qinv R W k queue" "i < length (q_NodeState queue)"
  shows "AllDependenciesReady queue i = Some (s_ready (plan_of queue) (sched_of queue) i)"
proof -
  have "cfg_ok queue" using assms(1) by (simp add: qinv_def)
  then show ?thesis
    using assms completed_finished [OF assms(1)] dep_in_range
    by (auto simp: AllDependenciesReady_ok s_ready_def)
qed

section \<open>The queue operations implement the schedule\<close>

lemma ring_put_sel [simp]:
  "node (ring_put queue x) = node queue" "q_NodeState (ring_put queue x) = q_NodeState queue"
  "q_PendingNodeCount (ring_put queue x) = q_PendingNodeCount queue"
  "q_FailedNodeCount (ring_put queue x) = q_FailedNodeCount queue"
  "q_ExpensiveRunning (ring_put queue x) = q_ExpensiveRunning queue"
  "q_ExpensiveWaitCount (ring_put queue x) = q_ExpensiveWaitCount queue"
  "q_ExpensiveWaitList (ring_put queue x) = q_ExpensiveWaitList queue"
  "q_Broadcast (ring_put queue x) = q_Broadcast queue"
  "same_tables queue (ring_put queue x)"
  by (simp_all add: ring_put_def node_def same_tables_def fun_eq_iff)

definition put :: "BuildQueue \<Rightarrow> nat \<Rightarrow> BuildQueue" where
  "put queue w = set_node (ring_put queue w) w (NodeStateFlagQueued (node queue w))"

lemma place_of_FlagQueued: "place_of st = Idle \<Longrightarrow> place_of (NodeStateFlagQueued st) = InRing"
  by (auto simp: place_of_def split: if_splits)

lemma put_same_tables [simp]: "w < length (q_NodeState queue) \<Longrightarrow> same_tables queue (put queue w)"
  unfolding put_def by (rule same_tables_trans [OF ring_put_sel(9) [of queue w]]) simp

lemma put_sched:
  assumes "ring_wf queue" "w < length (q_NodeState queue)" "place_of (node queue w) = Idle"
    "length (ring_list queue) < cap queue - 1"
  shows "sched_of (put queue w) = a_put w (sched_of queue)" "ring_wf (put queue w)"
    "q_ExpensiveWaitCount (put queue w) = q_ExpensiveWaitCount queue"
    "q_Broadcast (put queue w) = q_Broadcast queue"
proof -
  have l: "ring_list (ring_put queue w) = ring_list queue @ [w]"
    using assms(1,4) by (intro ring_put_list) simp_all
  have "sched_of (ring_put queue w) = (sched_of queue)\<lparr>s_ring := ring_list queue @ [w]\<rparr>"
    by (simp add: sched_of_def l)
  then show "sched_of (put queue w) = a_put w (sched_of queue)"
    using assms(2,3) by (simp add: put_def sched_set_node a_put_def place_of_FlagQueued fun_upd_idem_iff)
  show "ring_wf (put queue w)" using assms(1) by (simp add: put_def ring_put_wf)
qed (simp_all add: put_def)

lemma Enqueue_put:
  assumes "ring_wf queue" "w < length (q_NodeState queue)" "place_of (node queue w) = Idle"
    "length (ring_list queue) < cap queue - 1" "\<not> NodeStateIsCompleted (node queue w)"
    "AllDependenciesReady queue w = Some True" "nd_PassIndex (node_data queue w) = q_CurrentPassIndex queue"
  shows "Enqueue queue w = Some (put queue w)"
proof -
  have fl: "\<not> NodeStateIsQueued (node queue w)" "\<not> NodeStateIsActive (node queue w)"
    using assms(3) by (auto simp: place_of_def split: if_splits)
  have "avail (put queue w) = Suc (avail queue)"
    using assms(1,4) ring_put_avail [of queue w] by (simp add: put_def)
  moreover have "avail queue + 1 < 2 ^ 32"
  proof -
    have "cap queue < 2 ^ 32" using unsigned_less [of "q_QueueCapacity queue", where ?'a = nat] by (simp add: cap_def)
    then show ?thesis using assms(4) by simp
  qed
  ultimately have "AvailableNodeCount (put queue w) = 1 + AvailableNodeCount queue"
    by (simp add: avail_def word_unat_eq_iff unat_word_ariths)
  then show ?thesis
    using assms fl by (simp add: Enqueue_def Let_def put_def ring_put_def node_def)
qed

lemma qinvD:
  assumes "qinv R W k queue"
  shows "cfg_ok queue" "ring_wf queue" "q_ExpensiveWaitCount queue \<le> cap queue"
    "sinv (plan_of queue) R W k (sched_of queue)"
  using assms by (auto simp: qinv_def)

lemma qinv_place_ok:
  "qinv R W k queue \<Longrightarrow> i < length (q_NodeState queue) \<Longrightarrow>
   place_ok (place_of (node queue i)) (plan_of queue) W (sched_of queue) i"
  using sinv_place [of "plan_of queue" R W k "sched_of queue" i] by (simp add: qinv_def)

lemma qinvI:
  assumes "qinv R W k queue" "same_tables queue queue'" "ring_wf queue'"
    "q_ExpensiveWaitCount queue' \<le> cap queue" "sinv (plan_of queue) R' W' k' (sched_of queue')"
  shows "qinv R' W' k' queue'"
  using assms same_tables_plan [OF assms(2)] by (simp add: qinv_def)

text \<open>A node outside the ring leaves room for it: the ring never overflows.\<close>

lemma ring_room:
  assumes "qinv R W k queue" "w < length (q_NodeState queue)" "place_of (node queue w) \<noteq> InRing"
  shows "length (ring_list queue) < cap queue - 1"
proof -
  have "distinct (ring_list queue)" "set (ring_list queue) \<subseteq> {..<length (q_NodeState queue)} - {w}"
    using qinvD(4) [OF assms(1)] assms(3) by (auto simp: sinv_def)
  then have "length (ring_list queue) \<le> card ({..<length (q_NodeState queue)} - {w})"
    by (metis card_mono distinct_card finite_Diff finite_lessThan)
  moreover have "length (q_NodeState queue) < cap queue" using qinvD(1) [OF assms(1)] by (simp add: cfg_ok_def)
  ultimately show ?thesis using assms(2) by simp
qed

lemma Enqueue_ok:
  assumes "qinv R W k queue" "w < length (q_NodeState queue)" "place_of (node queue w) = Idle"
    "ns_Progress (node queue w) = kBlocked" "s_ready (plan_of queue) (sched_of queue) w"
  shows "Enqueue queue w = Some (put queue w)" "qinv R (W - {w}) k (put queue w)"
    "sched_of (put queue w) = a_put w (sched_of queue)"
proof -
  note room = ring_room [OF assms(1,2)]
  have pass: "nd_PassIndex (node_data queue w) = q_CurrentPassIndex queue"
    using qinv_place_ok [OF assms(1,2)] assms(3,4) by simp
  show "Enqueue queue w = Some (put queue w)"
    using assms room pass qinvD [OF assms(1)] AllDependenciesReady_sched [OF assms(1,2)]
    by (intro Enqueue_put) (simp_all add: NodeStateIsCompleted_def)
  show s: "sched_of (put queue w) = a_put w (sched_of queue)"
    using put_sched assms room qinvD [OF assms(1)] by simp
  show "qinv R (W - {w}) k (put queue w)"
    using put_sched assms room qinvD [OF assms(1)] sinv_put [of "plan_of queue" R W k "sched_of queue" w]
    by (intro qinvI [OF assms(1)]) (simp_all add: s)
qed

text \<open>
  What a thread that works on node \<open>x\<close> changes for the others: nothing a thread holds,
  nothing that is finished, and when the counters change every waiting thread is woken.
\<close>

definition frame :: "nat \<Rightarrow> BuildQueue \<Rightarrow> BuildQueue \<Rightarrow> bool" where
  "frame x a b \<longleftrightarrow> same_tables a b \<and>
     (\<forall>j. j \<noteq> x \<longrightarrow> (s_place (sched_of b) j = Held \<longleftrightarrow> s_place (sched_of a) j = Held)) \<and>
     (\<forall>j. j \<noteq> x \<longrightarrow> s_place (sched_of a) j = Held \<longrightarrow> s_prog (sched_of b) j = s_prog (sched_of a) j) \<and>
     (\<forall>j. s_place (sched_of a) j = Finished \<longrightarrow>
        s_place (sched_of b) j = Finished \<and> s_result (sched_of b) j = s_result (sched_of a) j) \<and>
     (q_Broadcast a \<longrightarrow> q_Broadcast b) \<and>
     (q_Broadcast b \<or> s_pending (sched_of b) = s_pending (sched_of a) \<and> s_failed (sched_of b) = s_failed (sched_of a)) \<and>
     s_failed (sched_of a) \<le> s_failed (sched_of b)"

lemma frame_refl [simp]: "frame x queue queue"
  by (simp add: frame_def)

lemma frame_trans [trans]: "frame x a b \<Longrightarrow> frame x b c \<Longrightarrow> frame x a c"
  by (auto simp: frame_def intro: same_tables_trans)

lemma frame_put:
  assumes "qinv R W k queue" "w < length (q_NodeState queue)" "place_of (node queue w) = Idle"
    "ns_Progress (node queue w) = kBlocked" "s_ready (plan_of queue) (sched_of queue) w"
  shows "frame x queue (put queue w)"
  using Enqueue_ok(3) [OF assms] put_sched(4) [of queue w] ring_room [OF assms(1,2)] qinvD(2) [OF assms(1)] assms(2,3)
  by (simp add: frame_def a_put_def del: sched_sel) (simp add: put_same_tables)

lemma SetupDependencies_loop_ok:
  assumes "qinv R {} k queue" "nd_PassIndex src_node = q_CurrentPassIndex queue"
    "\<forall>d \<in> set ds. d < length (q_NodeRemappingTable queue) \<and> q_NodeRemappingTable queue ! d \<noteq> - 1 \<and>
       nd_PassIndex (node_data queue (nat (q_NodeRemappingTable queue ! d))) \<le> q_CurrentPassIndex queue"
  shows "SetupDependencies_loop queue src_node ds n e =
    Some (queue, n + length (filter (\<lambda>d. \<not> NodeStateIsCompleted (node queue (nat (q_NodeRemappingTable queue ! d)))) ds), e)"
  using assms(3)
proof (induction ds arbitrary: n)
  case (Cons d ds)
  let ?j = "nat (q_NodeRemappingTable queue ! d)"
  have j: "GetStateForNode queue d = Some (Some ?j)" "?j < length (q_NodeState queue)"
    using GetStateForNode_known [OF qinvD(1) [OF assms(1)]] Cons.prems by auto
  have "NodeStateIsCompleted (node queue ?j) \<or> NodeStateIsQueued (node queue ?j) \<or>
      NodeStateIsActive (node queue ?j) \<or> NodeStateIsBlocked (node queue ?j)"
    using qinv_place_ok [OF assms(1) j(2)] Cons.prems
    by (auto simp: place_of_def NodeStateIsBlocked_def split: if_splits)
  then show ?case using Cons j assms(2) by auto
qed simp

lemma SetupDependencies_ok:
  assumes "qinv R {} k queue" "x < length (q_NodeState queue)"
    "nd_PassIndex (node_data queue x) = q_CurrentPassIndex queue"
  shows "SetupDependencies queue x =
    Some (queue, if s_ready (plan_of queue) (sched_of queue) x then kUnblocked else kBlocked)"
proof -
  have cfg: "cfg_ok queue" using assms(1) by (rule qinvD)
  have ds: "\<forall>d \<in> set (nd_Dependencies (node_data queue x)). d < length (q_NodeRemappingTable queue) \<and>
      q_NodeRemappingTable queue ! d \<noteq> - 1 \<and>
      nd_PassIndex (node_data queue (nat (q_NodeRemappingTable queue ! d))) \<le> q_CurrentPassIndex queue"
    using cfg assms(2,3) by (fastforce simp: cfg_ok_def plan_ok_def dep_states_def)
  have "s_ready (plan_of queue) (sched_of queue) x \<longleftrightarrow>
      (\<forall>j \<in> set (dep_states queue x). NodeStateIsCompleted (node queue j))"
    using AllDependenciesReady_sched [OF assms(1,2)] AllDependenciesReady_ok [OF cfg assms(2)] by simp
  then show ?thesis
    using SetupDependencies_loop_ok [OF assms(1,3) ds, of 0 0]
    by (auto simp: SetupDependencies_def Let_def dep_states_def filter_empty_conv)
qed

lemma sinv_smaller_W:
  assumes "sinv P R W k s"
    "\<And>i. i < p_n P \<Longrightarrow> i \<in> W \<Longrightarrow> i \<in> V \<or> s_place s i \<noteq> Idle \<or> \<not> s_ready P s i \<or> p_pass P i \<noteq> p_cur P"
  shows "sinv P R V k s"
proof -
  have "place_ok (s_place s i) P V s i" if "i < p_n P" for i
    using sinv_place [OF assms(1) that] assms(2) [OF that] by (cases "s_place s i") auto
  then show ?thesis using assms(1) by (auto simp: sinv_def)
qed

lemma qinv_smaller_W:
  assumes "qinv R W k queue"
    "\<And>i. i < length (q_NodeState queue) \<Longrightarrow> i \<in> W \<Longrightarrow> i \<in> V \<or> place_of (node queue i) \<noteq> Idle \<or>
       \<not> s_ready (plan_of queue) (sched_of queue) i \<or> nd_PassIndex (node_data queue i) \<noteq> q_CurrentPassIndex queue"
  shows "qinv R V k queue"
  using assms sinv_smaller_W [of "plan_of queue" R W k "sched_of queue" V] by (simp add: qinv_def)

lemma UnblockWaiters_loop_ok:
  assumes "qinv R W k queue" "\<forall>b \<in> set links. b < length (q_NodeRemappingTable queue)"
    "\<And>w. w \<in> W \<Longrightarrow> w < length (q_NodeState queue) \<Longrightarrow> ns_MmapData (node queue w) \<in> set links"
  shows "\<exists>queue' e'. UnblockWaiters_loop queue links e = Some (queue', e') \<and> qinv R {} k queue' \<and>
    frame x queue queue' \<and> work_left (plan_of queue) (sched_of queue') \<le> work_left (plan_of queue) (sched_of queue)"
  using assms
proof (induction links arbitrary: queue W e)
  case Nil
  have "qinv R {} k queue" using Nil(3) by (intro qinv_smaller_W [OF Nil(1)]) auto
  then show ?case by simp
next
  case (Cons b links)
  let ?v = "q_NodeRemappingTable queue ! b"
  have cfg: "cfg_ok queue" using Cons.prems(1) by (rule qinvD)
  have b: "b < length (q_NodeRemappingTable queue)" using Cons.prems(2) by simp
  have skip: "\<exists>queue' e'. UnblockWaiters_loop queue links e = Some (queue', e') \<and> qinv R {} k queue' \<and>
      frame x queue queue' \<and> work_left (plan_of queue) (sched_of queue') \<le> work_left (plan_of queue) (sched_of queue)"
    if "qinv R {w \<in> W. ns_MmapData (node queue w) \<noteq> b} k queue"
    using that Cons.prems by (intro Cons.IH) auto
  show ?case
  proof (cases "?v = - 1")
    case True
    have "qinv R {w \<in> W. ns_MmapData (node queue w) \<noteq> b} k queue"
      using cfg True by (intro qinv_smaller_W [OF Cons.prems(1)]) (auto simp: cfg_ok_def)
    then show ?thesis using skip True by (simp add: GetStateForNode_def)
  next
    case False
    define w where "w = nat ?v"
    have w: "GetStateForNode queue b = Some (Some w)" "w < length (q_NodeState queue)"
      using GetStateForNode_known [OF cfg b False] by (auto simp: w_def)
    have only: "i = w" if "i < length (q_NodeState queue)" "ns_MmapData (node queue i) = b" for i
      using cfg that by (auto simp: cfg_ok_def w_def)
    note rd = AllDependenciesReady_sched [OF Cons.prems(1) w(2)]
    show ?thesis
    proof (cases "nd_PassIndex (node_data queue w) = q_CurrentPassIndex queue \<and>
        s_ready (plan_of queue) (sched_of queue) w \<and> place_of (node queue w) = Idle")
      case True
      have prog: "ns_Progress (node queue w) = kBlocked"
        using qinv_place_ok [OF Cons.prems(1) w(2)] True by auto
      note enq = Enqueue_ok [OF Cons.prems(1) w(2)] and fr = frame_put [OF Cons.prems(1) w(2)]
      have st: "same_tables queue (put queue w)" using w(2) by simp
      have "qinv R (W - {w}) k (put queue w)" using enq True prog by simp
      moreover have "ns_MmapData (node (put queue w) i) \<in> set links"
        if "i \<in> W - {w}" "i < length (q_NodeState (put queue w))" for i
      proof -
        have i: "i < length (q_NodeState queue)" "ns_MmapData (node (put queue w) i) = ns_MmapData (node queue i)"
          using that st by (auto simp: same_tables_def)
        then show ?thesis using Cons.prems(3) [of i] only that(1) by auto
      qed
      moreover have "\<forall>c \<in> set links. c < length (q_NodeRemappingTable (put queue w))"
        using Cons.prems(2) st by (simp add: same_tables_def)
      ultimately obtain queue' e' where
        q: "UnblockWaiters_loop (put queue w) links (e + 1) = Some (queue', e')" "qinv R {} k queue'"
          "frame x (put queue w) queue'"
          "work_left (plan_of queue) (sched_of queue') \<le> work_left (plan_of queue) (sched_of (put queue w))"
        using Cons.IH [of "W - {w}" "put queue w" "e + 1"] same_tables_plan(2) [OF st] by auto
      have "frame x queue queue'" using fr True prog q(3) frame_trans by blast
      moreover have "work_left (plan_of queue) (sched_of (put queue w)) \<le> work_left (plan_of queue) (sched_of queue)"
        using enq(3) True prog w(2) work_left_put [of w "plan_of queue" "sched_of queue"] by simp
      moreover have "\<not> NodeStateIsQueued (node queue w)" "\<not> NodeStateIsActive (node queue w)"
        using True by (auto simp: place_of_def split: if_splits)
      ultimately show ?thesis
        using q w rd True enq(1) prog by auto
    next
      case False
      have "qinv R {w \<in> W. ns_MmapData (node queue w) \<noteq> b} k queue"
        using only False by (intro qinv_smaller_W [OF Cons.prems(1)]) auto
      moreover have "UnblockWaiters_loop queue (b # links) e = UnblockWaiters_loop queue links e"
        using w rd False by (auto simp: place_of_def split: if_splits)
      ultimately show ?thesis using skip by simp
    qed
  qed
qed


lemma wake_neutral [simp]:
  "sched_of (CondSignal queue) = sched_of queue" "sched_of (CondBroadcast queue) = sched_of queue"
  "sched_of (WakeWaiters queue n) = sched_of queue"
  "same_tables queue (CondSignal queue)" "same_tables queue (CondBroadcast queue)"
  "same_tables queue (WakeWaiters queue n)"
  "ring_wf (CondSignal queue) = ring_wf queue" "ring_wf (CondBroadcast queue) = ring_wf queue"
  "ring_wf (WakeWaiters queue n) = ring_wf queue"
  by (auto simp: CondSignal_def CondBroadcast_def WakeWaiters_def sched_of_def same_tables_def node_def
      ring_list_def ring_wf_def avail_def AvailableNodeCount_def cap_def)

lemma wake_sel [simp]:
  "q_ExpensiveWaitCount (CondSignal queue) = q_ExpensiveWaitCount queue"
  "q_ExpensiveWaitCount (CondBroadcast queue) = q_ExpensiveWaitCount queue"
  "q_ExpensiveWaitCount (WakeWaiters queue n) = q_ExpensiveWaitCount queue"
  "q_Broadcast (CondBroadcast queue)" "q_Broadcast (CondSignal queue) = q_Broadcast queue"
  "q_Broadcast queue \<Longrightarrow> q_Broadcast (WakeWaiters queue n)"
  by (auto simp: CondSignal_def CondBroadcast_def WakeWaiters_def)

lemma node_wake [simp]:
  "node (CondSignal queue) = node queue" "node (CondBroadcast queue) = node queue"
  "node (WakeWaiters queue n) = node queue"
  by (simp_all add: node_def fun_eq_iff CondSignal_def CondBroadcast_def WakeWaiters_def)

lemma wake_qinv [simp]:
  "qinv R W k (CondSignal queue) = qinv R W k queue" "qinv R W k (CondBroadcast queue) = qinv R W k queue"
  "qinv R W k (WakeWaiters queue n) = qinv R W k queue"
  by (simp_all add: qinv_def same_tables_plan [OF wake_neutral(4) [of queue]]
      same_tables_plan [OF wake_neutral(5) [of queue]] same_tables_plan [OF wake_neutral(6) [of queue]])

lemma wake_frame:
  "frame x queue (CondSignal queue)" "frame x queue (CondBroadcast queue)" "frame x queue (WakeWaiters queue n)"
  by (simp_all add: frame_def)

lemma UnblockWaiters_ok:
  assumes "qinv R {i. x \<in> set (dep_states queue i)} k queue" "x < length (q_NodeState queue)"
  shows "\<exists>queue'. UnblockWaiters queue x = Some queue' \<and> qinv R {} k queue' \<and> frame x queue queue' \<and>
    work_left (plan_of queue) (sched_of queue') \<le> work_left (plan_of queue) (sched_of queue)"
proof -
  have cfg: "cfg_ok queue" using assms(1) by (rule qinvD)
  have links: "\<forall>b \<in> set (nd_BackLinks (node_data queue x)). b < length (q_NodeRemappingTable queue)"
    using cfg assms(2) by (simp add: cfg_ok_def)
  have "ns_MmapData (node queue w) \<in> set (nd_BackLinks (node_data queue x))"
    if w: "x \<in> set (dep_states queue w)" "w < length (q_NodeState queue)" for w
  proof -
    obtain d where d: "d \<in> set (nd_Dependencies (node_data queue w))" "x = nat (q_NodeRemappingTable queue ! d)"
      using w(1) by (auto simp: dep_states_def)
    then have "ns_MmapData (node queue w) \<in> set (nd_BackLinks (q_NodeData queue ! d))"
      "ns_MmapData (node queue x) = d"
      using cfg w(2) by (auto simp: cfg_ok_def)
    then show ?thesis by (simp add: node_data_def)
  qed
  then obtain queue' e where "UnblockWaiters_loop queue (nd_BackLinks (node_data queue x)) 0 = Some (queue', e)"
    "qinv R {} k queue'" "frame x queue queue'"
    "work_left (plan_of queue) (sched_of queue') \<le> work_left (plan_of queue) (sched_of queue)"
    using UnblockWaiters_loop_ok [OF assms(1) links, of 0 x] by blast
  then show ?thesis
    using frame_trans wake_frame(3) by (auto simp: UnblockWaiters_def)
qed

lemma place_of_Held:
  "place_of st = Held \<longleftrightarrow> \<not> NodeStateIsQueued st \<and> NodeStateIsActive st \<and> ns_Progress st \<noteq> kCompleted"
  by (auto simp: place_of_def NodeStateIsCompleted_def)

text \<open>The last two iterations of \<open>AdvanceNode\<close>: the node is finished and its dependents are woken.\<close>

definition finish_node :: "BuildQueue \<Rightarrow> nat \<Rightarrow> int \<Rightarrow> BuildQueue" where
  "finish_node queue x r =
     (set_node queue x ((node queue x)\<lparr>ns_BuildResult := r, ns_Progress := kCompleted\<rparr>))
       \<lparr>q_PendingNodeCount := q_PendingNodeCount queue - 1,
        q_FailedNodeCount := q_FailedNodeCount queue + (if r = 0 then 0 else 1)\<rparr>"

lemma finish_node_sched:
  assumes "x < length (q_NodeState queue)" "place_of (node queue x) = Held"
  shows "sched_of (finish_node queue x r) = a_finish x r (sched_of queue)"
    "same_tables queue (finish_node queue x r)" "ring_wf (finish_node queue x r) = ring_wf queue"
    "q_ExpensiveWaitCount (finish_node queue x r) = q_ExpensiveWaitCount queue"
    "q_Broadcast (finish_node queue x r) = q_Broadcast queue"
proof -
  let ?st = "(node queue x)\<lparr>ns_BuildResult := r, ns_Progress := kCompleted\<rparr>"
  have "place_of ?st = Finished" using assms(2) by (simp add: place_of_Held) (simp add: place_of_def NodeStateIsCompleted_def)
  moreover have "sched_of (finish_node queue x r) = (sched_of (set_node queue x ?st))
    \<lparr>s_pending := q_PendingNodeCount queue - 1, s_failed := q_FailedNodeCount queue + (if r = 0 then 0 else 1)\<rparr>"
    by (simp add: finish_node_def sched_of_def node_def ring_list_def avail_def AvailableNodeCount_def cap_def)
  ultimately show "sched_of (finish_node queue x r) = a_finish x r (sched_of queue)"
    using assms(1) by (simp add: sched_set_node a_finish_def)
  show "same_tables queue (finish_node queue x r)"
    using assms(1) by (simp add: same_tables_def finish_node_def node_def set_node_def nth_list_update)
qed (simp_all add: finish_node_def ring_wf_def cap_def)

lemma finish_ok:
  assumes "qinv R {} k queue" "x < length (q_NodeState queue)" "place_of (node queue x) = Held" "x \<notin> R"
    "s_ready (plan_of queue) (sched_of queue) x"
  shows "\<exists>queue'. UnblockWaiters (finish_node queue x r) x = Some queue' \<and> qinv R {} k queue' \<and>
    frame x queue (CondBroadcast queue') \<and> place_of (node queue' x) = Finished \<and> ns_BuildResult (node queue' x) = r \<and>
    work_left (plan_of queue) (sched_of queue') + weight Held (ns_Progress (node queue x)) \<le>
      work_left (plan_of queue) (sched_of queue)"
proof -
  let ?q = "finish_node queue x r"
  note fs = finish_node_sched [OF assms(2,3)]
  note tables = same_tables_plan [OF fs(2)]
  have pl: "p_deps (plan_of ?q) = p_deps (plan_of queue)" using tables(2) by simp
  then have ds: "set (dep_states ?q i) = set (dep_states queue i)" for i
    by (metis plan_sel(2))
  have "qinv R {i. x \<in> set (dep_states ?q i)} k ?q"
    unfolding ds using assms qinvD [OF assms(1)] sinv_finish [of "plan_of queue" R k "sched_of queue" x r]
    by (intro qinvI [OF assms(1) fs(2)]) (simp_all add: fs)
  then obtain queue' where q': "UnblockWaiters ?q x = Some queue'" "qinv R {} k queue'" "frame x ?q queue'"
    "work_left (plan_of queue) (sched_of queue') \<le> work_left (plan_of queue) (sched_of ?q)"
    using UnblockWaiters_ok [of R x ?q k] fs(2) assms(2) tables(2) by (auto simp: same_tables_def)
  have fin: "s_place (sched_of ?q) x = Finished" "s_result (sched_of ?q) x = r"
    unfolding fs(1) by (simp_all add: a_finish_def)
  have st: "same_tables queue (CondBroadcast queue')"
  proof -
    have "same_tables ?q queue'" using q'(3) by (simp add: frame_def)
    with fs(2) have "same_tables queue queue'" by (rule same_tables_trans)
    then show ?thesis by (rule same_tables_trans) simp
  qed
  have "s_failed (sched_of queue) \<le> s_failed (sched_of ?q)" by (simp add: finish_node_def)
  then have "frame x queue (CondBroadcast queue')"
    using q'(3) st assms(3) unfolding frame_def fs(1)
    by (auto simp: a_finish_def simp del: sched_sel simp flip: sched_sel(1) split: if_splits)
  moreover have "place_of (node queue' x) = Finished" "ns_BuildResult (node queue' x) = r"
    using q'(3) fin by (auto simp: frame_def)
  moreover have "work_left (plan_of queue) (sched_of ?q) + weight Held (ns_Progress (node queue x)) =
      work_left (plan_of queue) (sched_of queue)"
    unfolding fs(1) using work_left_finish [of x "plan_of queue" "sched_of queue" r] assms(2,3) by simp
  ultimately show ?thesis using q' by auto
qed


lemma NodeStateIsCompleted_flags [simp]:
  "NodeStateIsCompleted (NodeStateFlagQueued st) = NodeStateIsCompleted st"
  "NodeStateIsCompleted (NodeStateFlagUnqueued st) = NodeStateIsCompleted st"
  "NodeStateIsCompleted (NodeStateFlagActive st) = NodeStateIsCompleted st"
  "NodeStateIsCompleted (NodeStateFlagInactive st) = NodeStateIsCompleted st"
  by (simp_all add: NodeStateIsCompleted_def)

lemma UnparkExpensiveNode_ok:
  assumes "qinv R W 1 queue"
  shows "\<exists>queue'. UnparkExpensiveNode queue = Some queue' \<and> qinv R W 0 queue' \<and> frame x queue queue' \<and>
    sched_of queue' = a_unpark (sched_of queue)"
proof (cases "q_ExpensiveWaitCount queue = 0")
  case True
  then have "s_parked (sched_of queue) = []" by (simp add: sched_of_def)
  then have "a_unpark (sched_of queue) = sched_of queue" by (simp add: a_unpark_def)
  moreover have "qinv R W 0 queue"
    using assms sinv_unpark [OF qinvD(4) [OF assms]] calculation by (simp add: qinv_def)
  ultimately show ?thesis using True by (simp add: UnparkExpensiveNode_def)
next
  case False
  define c where "c = q_ExpensiveWaitCount queue - 1"
  define n where "n = q_ExpensiveWaitList queue ! c"
  have len: "c < length (q_ExpensiveWaitList queue)" "q_ExpensiveWaitCount queue = Suc c"
    using False qinvD(1,3) [OF assms] by (auto simp: cfg_ok_def c_def)
  then have parked: "s_parked (sched_of queue) = take c (q_ExpensiveWaitList queue) @ [n]"
    by (simp add: sched_of_def n_def take_Suc_conv_app_nth)
  then have "n \<in> set (s_parked (sched_of queue))" by simp
  then have n: "n < length (q_NodeState queue)" "place_of (node queue n) = Parked"
    using qinvD(4) [OF assms] by (auto simp: sinv_def)
  have ok: "s_ready (plan_of queue) (sched_of queue) n" "ns_Progress (node queue n) = kRunAction"
    "nd_PassIndex (node_data queue n) = q_CurrentPassIndex queue"
    using qinv_place_ok [OF assms n(1)] n(2) by auto
  let ?st = "NodeStateFlagInactive (NodeStateFlagUnqueued (node queue n))"
  define q0 where "q0 = set_node (queue\<lparr>q_ExpensiveWaitCount := c\<rparr>) n ?st"
  have q0: "same_tables queue q0" "ring_wf q0" "node q0 = (node queue)(n := ?st)" "ring_list q0 = ring_list queue"
      "cap q0 = cap queue"
    using n(1) qinvD(2) [OF assms]
    by (auto simp: q0_def same_tables_def node_def set_node_def fun_eq_iff ring_wf_def ring_list_def cap_def
        nth_list_update avail_def AvailableNodeCount_def)
  have s0: "sched_of q0 = (sched_of queue)\<lparr>s_place := (s_place (sched_of queue))(n := Idle),
      s_parked := take c (q_ExpensiveWaitList queue)\<rparr>"
    using n(1) by (simp add: sched_of_def q0(3,4) fun_eq_iff) (simp add: q0_def place_of_def)
  note tables = same_tables_plan [OF q0(1)]
  have rd: "AllDependenciesReady q0 n = Some True"
  proof -
    have "dep_states q0 n = dep_states queue n"
      using q0(1) tables(1) by (simp add: dep_states_def same_tables_def)
    moreover have "\<forall>j \<in> set (dep_states queue n). NodeStateIsCompleted (node queue j)"
      using ok(1) AllDependenciesReady_sched [OF assms n(1)] AllDependenciesReady_ok [OF qinvD(1) [OF assms] n(1)] by simp
    ultimately show ?thesis
      using AllDependenciesReady_ok [of q0 n] qinvD(1) [OF assms] tables(4) n(1) q0(1,3)
      by (auto simp: same_tables_def)
  qed
  have idle: "place_of (node q0 n) = Idle" by (simp add: q0(3) place_of_def)
  have n0: "n < length (q_NodeState q0)" using n(1) q0(1) by (simp add: same_tables_def)
  have room: "length (ring_list q0) < cap q0 - 1"
    using ring_room [OF assms n(1)] n(2) q0 by simp
  have enq: "Enqueue q0 n = Some (put q0 n)"
    using q0(1,2) n0 idle room rd tables(1) ok(2,3)
    by (intro Enqueue_put) (simp_all add: q0(3) NodeStateIsCompleted_def same_tables_def)
  have sp: "sched_of (put q0 n) = a_unpark (sched_of queue)"
    unfolding put_sched(1) [OF q0(2) n0 idle room] s0 by (simp add: a_unpark_def parked a_put_def)
  have st: "same_tables queue (put q0 n)" using q0(1) put_same_tables [OF n0] by (rule same_tables_trans)
  have wc: "q_ExpensiveWaitCount q0 = c" by (simp add: q0_def)
  have "qinv R W 0 (put q0 n)"
    using qinvD(4) [OF assms, THEN sinv_unpark] put_sched(2,3) [OF q0(2) n0 idle room] st len(2) qinvD(3) [OF assms]
    by (intro qinvI [OF assms]) (simp_all add: sp wc)
  moreover have "frame x queue (CondSignal (put q0 n))"
  proof (rule frame_trans)
    show "frame x queue (put q0 n)"
      using st n(2) put_sched(4) [OF q0(2) n0 idle room]
      by (auto simp: frame_def sp a_unpark_def parked a_put_def simp del: sched_sel simp flip: sched_sel(1))
        (simp add: q0_def)
  qed (rule wake_frame)
  moreover have "UnparkExpensiveNode queue = Some (CondSignal (put q0 n))"
  proof -
    have "NodeStateIsQueued (node queue n)" using n(2) by (auto simp: place_of_def split: if_splits)
    then show ?thesis
      using False enq n(1) unfolding UnparkExpensiveNode_def Let_def c_def [symmetric]
      by (simp add: n_def [symmetric] node_def set_node_def q0_def)
  qed
  ultimately show ?thesis using sp by simp
qed

section \<open>Advancing a node\<close>

lemma set_progress_sched:
  assumes "x < length (q_NodeState queue)" "place_of (node queue x) = Held" "p \<noteq> kCompleted"
  shows "sched_of (set_progress queue x p) = a_progress x p (sched_of queue)"
proof -
  have "place_of ((node queue x)\<lparr>ns_Progress := p\<rparr>) = Held" using assms(2,3) by (simp add: place_of_Held)
  moreover have "(s_place (sched_of queue))(x := Held) = s_place (sched_of queue)"
    "(s_result (sched_of queue))(x := ns_BuildResult (node queue x)) = s_result (sched_of queue)"
    using assms(2) by (auto intro: fun_upd_idem)
  ultimately show ?thesis
    using assms(1) by (simp add: set_progress_def sched_set_node a_progress_def)
qed

lemma set_progress_tables [simp]:
  "x < length (q_NodeState queue) \<Longrightarrow> same_tables queue (set_progress queue x p)"
  "ring_wf (set_progress queue x p) = ring_wf queue"
  "q_ExpensiveWaitCount (set_progress queue x p) = q_ExpensiveWaitCount queue"
  "q_Broadcast (set_progress queue x p) = q_Broadcast queue"
  by (simp_all add: set_progress_def)

lemma set_progress_ok:
  assumes "qinv R W k queue" "x < length (q_NodeState queue)" "place_of (node queue x) = Held"
    "p \<noteq> kCompleted" "p = kInitial \<or> s_ready (plan_of queue) (sched_of queue) x"
  shows "qinv R W k (set_progress queue x p)" "frame x queue (set_progress queue x p)"
proof -
  note sp = set_progress_sched [OF assms(2-4)]
  show "qinv R W k (set_progress queue x p)"
    using assms qinvD [OF assms(1)] sinv_progress [of "plan_of queue" R W k "sched_of queue" x p]
    by (intro qinvI [OF assms(1)]) (simp_all add: sp)
  show "frame x queue (set_progress queue x p)"
    using assms(2,3) by (simp add: frame_def sp a_progress_def del: sched_sel)
qed

lemma held_ready:
  assumes "qinv R W k queue" "x < length (q_NodeState queue)" "place_of (node queue x) = Held"
  shows "nd_PassIndex (node_data queue x) = q_CurrentPassIndex queue"
    "ns_Progress (node queue x) \<noteq> kInitial \<Longrightarrow> s_ready (plan_of queue) (sched_of queue) x"
  using qinv_place_ok [OF assms(1,2)] assms(3) by auto

lemma complete_ok:
  assumes "qinv R {} k queue" "x < length (q_NodeState queue)" "place_of (node queue x) = Held" "x \<notin> R"
    "s_ready (plan_of queue) (sched_of queue) x" "p \<in> {kSucceeded, kUpToDate, kFailed}"
  shows "\<exists>queue'. AdvanceNode_loop queue x p = Some (queue', Done) \<and> qinv R {} k queue' \<and> frame x queue queue' \<and>
    q_Broadcast queue' \<and> place_of (node queue' x) = Finished \<and>
    ns_BuildResult (node queue' x) = (if p = kFailed then 1 else 0) \<and>
    work_left (plan_of queue) (sched_of queue') + weight Held (ns_Progress (node queue x)) \<le>
      work_left (plan_of queue) (sched_of queue)"
proof -
  define q0 where "q0 = (if p = kFailed then CondBroadcast queue else queue)"
  define r :: int where "r = (if p = kFailed then 1 else 0)"
  have loop: "AdvanceNode_loop queue x p =
      (case UnblockWaiters (finish_node q0 x r) x of None \<Rightarrow> None | Some q \<Rightarrow> Some (CondBroadcast q, Done))"
  proof (cases "p = kFailed")
    case True
    let ?q = "CondBroadcast (queue\<lparr>q_FailedNodeCount := q_FailedNodeCount queue + 1\<rparr>)"
    let ?q1 = "set_node ?q x ((node ?q x)\<lparr>ns_BuildResult := 1, ns_Progress := kCompleted\<rparr>)"
    have "?q1\<lparr>q_PendingNodeCount := q_PendingNodeCount ?q1 - 1\<rparr> = finish_node q0 x r"
      using True by (intro BuildQueue.equality)
        (simp_all add: q0_def r_def finish_node_def set_node_def node_def CondBroadcast_def)
    then show ?thesis using True by (simp add: Let_def split: Option.bind_split option.split)
  next
    case False
    then have "AdvanceNode_loop queue x p = AdvanceNode_loop queue x kSucceeded" using assms(6) by auto
    then show ?thesis
      using False by (simp add: q0_def r_def finish_node_def set_node_def node_def
          split: Option.bind_split option.split)
  qed
  have nd: "node q0 = node queue" by (simp add: q0_def CondBroadcast_def node_def fun_eq_iff)
  have q0: "same_tables queue q0" "sched_of q0 = sched_of queue" "qinv R {} k q0" "frame x queue q0"
    using assms(1) by (simp_all add: q0_def wake_frame)
  note pl = same_tables_plan [OF q0(1)]
  have len: "length (q_NodeState q0) = length (q_NodeState queue)" using q0(1) by (simp add: same_tables_def)
  from finish_ok [OF q0(3), of x r] obtain queue' where q':
    "UnblockWaiters (finish_node q0 x r) x = Some queue'" "qinv R {} k queue'" "frame x q0 (CondBroadcast queue')"
    "place_of (node queue' x) = Finished" "ns_BuildResult (node queue' x) = r"
    "work_left (plan_of queue) (sched_of queue') + weight Held (ns_Progress (node queue x)) \<le>
      work_left (plan_of queue) (sched_of queue)"
    using assms(2-5) by (auto simp: nd len pl(2) q0(2))
  have nq: "node (CondBroadcast queue') = node queue'" by (simp add: CondBroadcast_def node_def fun_eq_iff)
  have "frame x queue (CondBroadcast queue')" using q0(4) q'(3) by (rule frame_trans)
  then show ?thesis using q' by (simp add: loop nq) (simp add: r_def)
qed

lemma ParkExpensiveNode_ok:
  assumes "qinv R {} k queue" "x < length (q_NodeState queue)" "place_of (node queue x) = Held" "x \<notin> R"
    "ns_Progress (node queue x) = kRunAction" "is_expensive (node_data queue x)"
    "q_ExpensiveRunning queue = q_MaxExpensiveCount queue"
  shows "\<exists>queue'. ParkExpensiveNode queue x = Some queue' \<and> qinv R {} 0 queue' \<and> frame x queue queue' \<and>
    sched_of queue' = a_park x (sched_of queue)"
proof -
  let ?c = "q_ExpensiveWaitCount queue"
  have "length (s_parked (sched_of queue)) = ?c"
    using qinvD(1,3) [OF assms(1)] by (simp add: sched_of_def cfg_ok_def)
  moreover have "distinct (s_parked (sched_of queue))"
    "set (s_parked (sched_of queue)) \<subseteq> {..<length (q_NodeState queue)}"
    using qinvD(4) [OF assms(1)] by (auto simp: sinv_def)
  ultimately have "?c \<le> length (q_NodeState queue)"
    by (metis card_lessThan card_mono distinct_card finite_lessThan)
  then have c: "?c < cap queue" "?c < length (q_ExpensiveWaitList queue)"
    using qinvD(1) [OF assms(1)] by (auto simp: cfg_ok_def)
  define q' where "q' = (set_node queue x (NodeStateFlagQueued (node queue x)))
    \<lparr>q_ExpensiveWaitList := (q_ExpensiveWaitList queue)[?c := x], q_ExpensiveWaitCount := ?c + 1\<rparr>"
  have park: "ParkExpensiveNode queue x = Some q'"
    using c(1) by (simp add: ParkExpensiveNode_def Let_def q'_def cap_def)
  have st: "same_tables queue q'"
    using assms(2) by (simp add: q'_def same_tables_def node_def set_node_def nth_list_update)
  have "place_of (NodeStateFlagQueued (node queue x)) = Parked"
    using assms(3) by (simp add: place_of_def split: if_splits)
  then have sp: "sched_of q' = a_park x (sched_of queue)"
    using assms(2) c(2)
    by (auto simp: q'_def a_park_def sched_of_def set_node_def node_def nth_list_update fun_eq_iff
        ring_list_def avail_def AvailableNodeCount_def cap_def take_Suc_conv_app_nth)
  have "qinv R {} 0 q'"
    using assms qinvD [OF assms(1)] c(1) sinv_park [of "plan_of queue" R "{}" k "sched_of queue" x]
    by (intro qinvI [OF assms(1) st]) (simp_all add: sp, simp_all add: q'_def ring_wf_def cap_def)
  moreover have "frame x queue q'"
    using st assms(3) by (simp add: frame_def sp a_park_def del: sched_sel) (simp add: q'_def)
  ultimately show ?thesis using park sp by blast
qed


lemma running_update [simp]:
  "same_tables queue (queue\<lparr>q_ExpensiveRunning := v\<rparr>)"
  "ring_wf (queue\<lparr>q_ExpensiveRunning := v\<rparr>) = ring_wf queue"
  "node (queue\<lparr>q_ExpensiveRunning := v\<rparr>) = node queue"
  "sched_of (queue\<lparr>q_ExpensiveRunning := v\<rparr>) = (sched_of queue)\<lparr>s_running := v\<rparr>"
  "frame x queue (queue\<lparr>q_ExpensiveRunning := v\<rparr>)"
proof -
  show sc: "sched_of (queue\<lparr>q_ExpensiveRunning := v\<rparr>) = (sched_of queue)\<lparr>s_running := v\<rparr>"
    by (simp add: sched_of_def node_def ring_list_def avail_def AvailableNodeCount_def cap_def)
  show st: "same_tables queue (queue\<lparr>q_ExpensiveRunning := v\<rparr>)"
    by (simp add: same_tables_def node_def)
  show "frame x queue (queue\<lparr>q_ExpensiveRunning := v\<rparr>)"
    using st by (simp add: frame_def sc del: sched_sel)
qed (simp_all add: node_def fun_eq_iff ring_wf_def cap_def)

lemma after_RunAction_ok:
  assumes "qinv R {} 0 queue" "x \<in> R"
  shows "\<exists>queue'. after_RunAction queue x = Some queue' \<and> qinv (R - {x}) {} 0 queue' \<and> frame x queue queue' \<and>
    place_of (node queue' x) = Held \<and> ns_Progress (node queue' x) = ns_Progress (node queue x) \<and>
    work_left (plan_of queue) (sched_of queue') \<le> work_left (plan_of queue) (sched_of queue) + 1"
proof -
  have x: "x < length (q_NodeState queue)" "place_of (node queue x) = Held"
    using qinvD(4) [OF assms(1)] assms(2) by (auto simp: sinv_def)
  note stop = sinv_stop [OF qinvD(4) [OF assms(1)] assms(2)]
  show ?thesis
  proof (cases "is_expensive (node_data queue x)")
    case False
    then have "sinv (plan_of queue) (R - {x}) {} 0 ((sched_of queue)\<lparr>s_running := q_ExpensiveRunning queue\<rparr>)"
      using stop(1) by simp
    moreover have "(sched_of queue)\<lparr>s_running := q_ExpensiveRunning queue\<rparr> = sched_of queue"
      by (simp add: sched_of_def)
    ultimately have "sinv (plan_of queue) (R - {x}) {} 0 (sched_of queue)" by metis
    then have "qinv (R - {x}) {} 0 queue"
      using qinvD [OF assms(1)] by (simp add: qinv_def)
    then show ?thesis using False x by (simp add: after_RunAction_def)
  next
    case True
    let ?q = "queue\<lparr>q_ExpensiveRunning := q_ExpensiveRunning queue - 1\<rparr>"
    have q: "qinv (R - {x}) {} 1 ?q"
      using stop(1) True qinvD [OF assms(1)] by (intro qinvI [OF assms(1)]) simp_all
    obtain queue' where q': "UnparkExpensiveNode ?q = Some queue'" "qinv (R - {x}) {} 0 queue'"
      "frame x ?q queue'" "sched_of queue' = a_unpark (sched_of ?q)"
      using UnparkExpensiveNode_ok [OF q] by blast
    have w: "work_left (plan_of queue) (sched_of ?q) = work_left (plan_of queue) (sched_of queue)"
      by (simp add: work_left_def)
    have "sinv (plan_of queue) (R - {x}) {} 1 (sched_of ?q)"
      using qinvD(4) [OF q] same_tables_plan(2) [OF running_update(1)] by metis
    then have "work_left (plan_of queue) (sched_of queue') \<le> work_left (plan_of queue) (sched_of queue) + 1"
      using work_left_unpark unfolding q'(4) by (metis w)
    moreover have "s_place (sched_of queue') x = Held \<and> s_prog (sched_of queue') x = s_prog (sched_of queue) x"
    proof -
      have "last (s_parked (sched_of ?q)) \<noteq> x" if "s_parked (sched_of ?q) \<noteq> []"
      proof
        assume "last (s_parked (sched_of ?q)) = x"
        then have "x \<in> set (s_parked (sched_of ?q))" using that last_in_set by metis
        then show False using qinvD(4) [OF q] x(2) by (auto simp: sinv_def)
      qed
      then show ?thesis using x(2) unfolding q'(4) by (auto simp: a_unpark_def a_put_def)
    qed
    moreover have "frame x queue queue'" using running_update(5) q'(3) by (rule frame_trans)
    ultimately show ?thesis
      using True stop(2) q'(1,2) by (simp add: after_RunAction_def Let_def)
  qed
qed

fun advance_post :: "suspend \<Rightarrow> nat set \<Rightarrow> nat \<Rightarrow> BuildQueue \<Rightarrow> bool" where
  "advance_post Done R x queue \<longleftrightarrow> qinv R {} 0 queue \<and> place_of (node queue x) \<noteq> Held"
| "advance_post InCheck R x queue \<longleftrightarrow>
     qinv R {} 0 queue \<and> place_of (node queue x) = Held \<and> ns_Progress (node queue x) = kUnblocked"
| "advance_post InRun R x queue \<longleftrightarrow>
     qinv (insert x R) {} 0 queue \<and> place_of (node queue x) = Held \<and> ns_Progress (node queue x) = kRunAction"

lemma RunAction_ok:
  assumes "qinv R {} k queue" "x < length (q_NodeState queue)" "place_of (node queue x) = Held" "x \<notin> R"
    "ns_Progress (node queue x) = kRunAction" "k \<le> (if is_expensive (node_data queue x) then 1 else 0)"
  shows "\<exists>queue' s. AdvanceNode_loop queue x kRunAction = Some (queue', s) \<and> advance_post s R x queue' \<and>
    frame x queue queue' \<and> work_left (plan_of queue) (sched_of queue') \<le> work_left (plan_of queue) (sched_of queue) \<and>
    (q_Broadcast queue' \<or> ring_list queue' = ring_list queue)"
proof -
  let ?nd = "node_data queue x"
  have ready: "s_ready (plan_of queue) (sched_of queue) x"
    using held_ready [OF assms(1-3)] assms(5) by simp
  have cheap: "\<not> is_expensive ?nd" if "empty_action ?nd"
    using that qinvD(1) [OF assms(1)] assms(2) by (auto simp: cfg_ok_def)
  consider (empty) "empty_action ?nd" | (park) "\<not> empty_action ?nd" "is_expensive ?nd"
      "q_ExpensiveRunning queue = q_MaxExpensiveCount queue"
    | (start) "\<not> empty_action ?nd" "is_expensive ?nd \<Longrightarrow> q_ExpensiveRunning queue \<noteq> q_MaxExpensiveCount queue"
    by blast
  then show ?thesis
  proof cases
    case empty
    let ?q = "set_progress queue x kSucceeded"
    have exp: "\<not> is_expensive (node_data ?q x)"
      using cheap [OF empty] same_tables_plan(1) [OF set_progress_tables(1) [OF assms(2)]] by simp
    have q: "qinv R {} k ?q" "frame x queue ?q"
      using set_progress_ok [OF assms(1-3)] ready by simp_all
    have h: "place_of (node ?q x) = Held" "ns_Progress (node ?q x) = kSucceeded" "x < length (q_NodeState ?q)"
      using assms(2,3) by (simp_all add: set_progress_def place_of_Held)
    have r: "s_ready (plan_of ?q) (sched_of ?q) x" using held_ready(2) [OF q(1) h(3,1)] h(2) by simp
    obtain queue' where q': "AdvanceNode_loop ?q x kSucceeded = Some (queue', Done)" "qinv R {} k queue'"
      "frame x ?q queue'" "place_of (node queue' x) = Finished" "q_Broadcast queue'"
      "work_left (plan_of queue) (sched_of queue') + 3 \<le> work_left (plan_of queue) (sched_of ?q)"
      using complete_ok [OF q(1) h(3,1) assms(4) r, of kSucceeded] h(2)
        same_tables_plan(2) [OF set_progress_tables(1) [OF assms(2)]] by auto
    have "work_left (plan_of queue) (sched_of ?q) \<le> work_left (plan_of queue) (sched_of queue)"
      unfolding set_progress_sched [OF assms(2,3), of kSucceeded, simplified]
      using work_left_progress [of x "plan_of queue" "sched_of queue" kSucceeded] assms by simp
    moreover have "k \<le> 0" using assms(6) cheap [OF empty] by simp
    ultimately show ?thesis
      using empty exp q' frame_trans [OF q(2) q'(3)] sinv_weaken_k
      by (auto simp: RunAction_begin_def after_RunAction_def qinv_def simp del: AdvanceNode_loop.simps(5))
  next
    case park
    obtain queue' where q': "ParkExpensiveNode queue x = Some queue'" "qinv R {} 0 queue'" "frame x queue queue'"
      "sched_of queue' = a_park x (sched_of queue)"
      using ParkExpensiveNode_ok [OF assms(1-5) park(2,3)] by blast
    have p: "s_place (sched_of queue') x = Parked" "s_prog (sched_of queue') x = kRunAction"
      unfolding q'(4) using assms(5) by (simp_all add: a_park_def)
    have "ring_list queue' = ring_list queue"
      using arg_cong [OF q'(4), of s_ring] by (simp add: a_park_def)
    moreover have "place_of (node queue' x) \<noteq> Held" using p(1) by simp
    moreover have "node queue' x\<lparr>ns_Progress := kRunAction\<rparr> = node queue' x" using p(2) by simp
    then have "set_progress queue' x kRunAction = queue'"
      by (simp add: set_progress_def set_node_def) (simp add: node_def)
    moreover have "work_left (plan_of queue) (sched_of queue') \<le> work_left (plan_of queue) (sched_of queue)"
      unfolding q'(4) using work_left_park assms(2,3,5) by simp
    ultimately show ?thesis using park q' by (simp add: RunAction_begin_def)
  next
    case start
    let ?q = "queue\<lparr>q_ExpensiveRunning := q_ExpensiveRunning queue + (if is_expensive ?nd then 1 else 0)\<rparr>"
    have "qinv (insert x R) {} 0 ?q"
      using sinv_start [OF qinvD(4) [OF assms(1)], of x] assms start(2) qinvD [OF assms(1)]
      by (intro qinvI [OF assms(1)]) (simp_all split: if_splits)
    moreover have "RunAction_begin queue x = Some (?q, Unlocked)"
      using start by (simp add: RunAction_begin_def)
    moreover have "ring_list ?q = ring_list queue"
      by (simp add: ring_list_def avail_def AvailableNodeCount_def cap_def)
    ultimately show ?thesis using assms(3,5) by (simp add: work_left_def)
  qed
qed

lemma check_ok:
  assumes "qinv R {} 0 queue" "x < length (q_NodeState queue)" "place_of (node queue x) = Held"
    "s_ready (plan_of queue) (sched_of queue) x"
  shows "\<exists>queue'. AdvanceNode_loop (set_progress queue x kUnblocked) x kUnblocked = Some (queue', InCheck) \<and>
    advance_post InCheck R x queue' \<and> frame x queue queue' \<and>
    sched_of queue' = a_progress x kUnblocked (sched_of queue)"
proof -
  let ?q = "set_progress queue x kUnblocked"
  have q: "qinv R {} 0 ?q" "frame x queue ?q" using set_progress_ok [OF assms(1-3)] assms(4) by simp_all
  have h: "place_of (node ?q x) = Held" "ns_Progress (node ?q x) = kUnblocked" "x < length (q_NodeState ?q)"
    using assms(2,3) by (simp_all add: set_progress_def place_of_Held)
  have "AllDependenciesReady ?q x = Some True"
    using AllDependenciesReady_sched [OF q(1) h(3)] held_ready(2) [OF q(1) h(3,1)] h(2) by simp
  then show ?thesis using q h set_progress_sched [OF assms(2,3)] by simp
qed

text \<open>Taking a node out of the ring and advancing it.\<close>

lemma AdvanceNode_loop_ok:
  assumes "qinv R {} k queue" "x < length (q_NodeState queue)" "place_of (node queue x) = Held" "x \<notin> R"
    "ns_Progress (node queue x) \<in> {kInitial, kBlocked, kRunAction}"
    "k \<le> (if ns_Progress (node queue x) = kRunAction \<and> is_expensive (node_data queue x) then 1 else 0)"
  shows "\<exists>queue' s. AdvanceNode_loop queue x (ns_Progress (node queue x)) = Some (queue', s) \<and>
    advance_post s R x queue' \<and> frame x queue queue' \<and>
    work_left (plan_of queue) (sched_of queue') \<le> work_left (plan_of queue) (sched_of queue)"
proof (cases "ns_Progress (node queue x) = kRunAction")
  case True
  then show ?thesis using RunAction_ok [OF assms(1-4)] assms(6) by auto
next
  case False
  then have k: "qinv R {} 0 queue"
    using assms(1,6) sinv_weaken_k [of "plan_of queue" R "{}" k "sched_of queue" 0] by (simp add: qinv_def)
  have le: "work_left (plan_of queue) (a_progress x kUnblocked (sched_of queue)) \<le>
      work_left (plan_of queue) (sched_of queue)"
    using work_left_progress [of x "plan_of queue" "sched_of queue" kUnblocked] assms(2,3,5) False by auto
  show ?thesis
  proof (cases "s_ready (plan_of queue) (sched_of queue) x")
    case True
    obtain queue' where q': "AdvanceNode_loop (set_progress queue x kUnblocked) x kUnblocked = Some (queue', InCheck)"
      "advance_post InCheck R x queue'" "frame x queue queue'"
      "sched_of queue' = a_progress x kUnblocked (sched_of queue)"
      using check_ok [OF k assms(2,3) True] by blast
    have "AdvanceNode_loop queue x (ns_Progress (node queue x)) = Some (queue', InCheck)"
      using assms(5) False True q'(1) SetupDependencies_ok [OF k assms(2)] held_ready(1) [OF assms(1-3)]
        AllDependenciesReady_sched [OF k assms(2)] by (auto simp del: AdvanceNode_loop.simps(3))
    then show ?thesis using q' le by auto
  next
    case blocked: False
    then have init: "ns_Progress (node queue x) = kInitial"
      using held_ready(2) [OF assms(1-3)] by blast
    let ?st = "NodeStateFlagInactive ((node queue x)\<lparr>ns_Progress := kBlocked\<rparr>)"
    let ?q = "set_node queue x ?st"
    have pl: "place_of ?st = Idle" using assms(3) by (simp add: place_of_Held) (simp add: place_of_def)
    have sp: "sched_of ?q = a_block x (sched_of queue)"
      using assms(2) pl by (simp add: sched_set_node a_block_def sched_of_def fun_eq_iff)
    have st: "same_tables queue ?q" using assms(2) by simp
    have "qinv R {} 0 ?q"
      using sinv_block [OF qinvD(4) [OF k], of x] assms(2-4) blocked qinvD [OF k]
      by (intro qinvI [OF k st]) (simp_all add: sp)
    moreover have "frame x queue ?q"
      using st assms(3) by (simp add: frame_def sp a_block_def del: sched_sel) simp
    moreover have "work_left (plan_of queue) (sched_of ?q) \<le> work_left (plan_of queue) (sched_of queue)"
      unfolding sp using work_left_block assms(2,3) init by simp
    moreover have "AdvanceNode_loop queue x kInitial = Some (?q, Done)"
      using blocked SetupDependencies_ok [OF k assms(2)] held_ready(1) [OF assms(1-3)] assms(2)
      by (simp add: set_progress_def Let_def)
    ultimately show ?thesis using init pl assms(2) by auto
  qed
qed

lemma NextNode_ok:
  assumes "qinv R {} 0 queue" "ring_list queue \<noteq> []"
  shows "\<exists>queue' x. NextNode queue = Some (queue', Some x) \<and> x < length (q_NodeState queue) \<and>
    place_of (node queue x) = InRing \<and> place_of (node queue' x) = Held \<and>
    ns_Progress (node queue' x) = ns_Progress (node queue x) \<and>
    qinv R {} (if ns_Progress (node queue x) = kRunAction then 1 else 0) queue' \<and> frame x queue queue' \<and>
    work_left (plan_of queue) (sched_of queue') < work_left (plan_of queue) (sched_of queue)"
proof -
  have "avail queue \<noteq> 0" using assms(2) by (metis length_0_conv length_ring_list)
  define x where "x = q_Queue queue ! unat (q_QueueReadIndex queue)"
  have rl: "ring_list queue = x # ring_list (ring_take queue)"
    using ring_take_list [OF qinvD(2) [OF assms(1)] \<open>avail queue \<noteq> 0\<close>] by (simp add: x_def)
  then have "x \<in> set (s_ring (sched_of queue))" by simp
  then have x: "x < length (q_NodeState queue)" "place_of (node queue x) = InRing"
    using qinvD(4) [OF assms(1)] by (auto simp: sinv_def)
  then have fl: "NodeStateIsQueued (node queue x)" "\<not> NodeStateIsActive (node queue x)"
    by (auto simp: place_of_def split: if_splits)
  have "ns_Progress (node queue x) \<noteq> kCompleted" using qinv_place_ok [OF assms(1) x(1)] x(2) by auto
  let ?st = "NodeStateFlagActive (NodeStateFlagUnqueued (node queue x))"
  let ?q = "set_node (ring_take queue) x ?st"
  have pl: "place_of ?st = Held" using \<open>ns_Progress (node queue x) \<noteq> kCompleted\<close> by (simp add: place_of_Held)
  have len: "length (q_NodeState (ring_take queue)) = length (q_NodeState queue)" by (simp add: ring_take_def)
  have rt: "sched_of (ring_take queue) = (sched_of queue)\<lparr>s_ring := tl (ring_list queue)\<rparr>"
    using rl by (simp add: sched_of_def) (simp add: ring_take_def node_def)
  have sp: "sched_of ?q = a_take x (sched_of queue)"
    using x(1) pl len by (simp add: sched_set_node rt a_take_def fun_upd_idem_iff)
  have st: "same_tables queue ?q"
    using x(1) by (simp add: ring_take_def same_tables_def node_def set_node_def nth_list_update)
  have wf: "ring_wf ?q" using ring_take_wf qinvD(2) [OF assms(1)] by simp
  have "qinv R {} (if ns_Progress (node queue x) = kRunAction then 1 else 0) ?q"
    using sinv_take [OF qinvD(4) [OF assms(1)], of x] rl qinvD(3) [OF assms(1)]
    by (intro qinvI [OF assms(1) st wf]) (simp_all add: sp, simp add: ring_take_def)
  moreover have "frame x queue ?q"
    using st x(2) by (simp add: frame_def sp a_take_def del: sched_sel) (simp add: ring_take_def)
  moreover have "work_left (plan_of queue) (sched_of ?q) < work_left (plan_of queue) (sched_of queue)"
    unfolding sp using work_left_take [OF qinvD(4) [OF assms(1)], of x] rl by simp
  moreover have "NextNode queue = Some (?q, Some x)"
  proof -
    have "AvailableNodeCount queue \<noteq> 0" using \<open>avail queue \<noteq> 0\<close> by (auto simp: avail_def)
    moreover have "node (ring_take queue) = node queue" by (simp add: ring_take_def node_def fun_eq_iff)
    ultimately show ?thesis
      using fl x(1) len unfolding NextNode_def x_def [symmetric] Let_def ring_take_def [symmetric]
      by simp
  qed
  moreover have "node ?q x = ?st" using x(1) len by simp
  ultimately show ?thesis using x pl by auto
qed

lemma AdvanceNode_ok:
  assumes "qinv R {} 0 queue" "ring_list queue \<noteq> []"
  shows "\<exists>queue1 queue' x s. NextNode queue = Some (queue1, Some x) \<and> AdvanceNode queue1 x = Some (queue', s) \<and>
    x < length (q_NodeState queue) \<and> place_of (node queue x) = InRing \<and> advance_post s R x queue' \<and>
    frame x queue queue' \<and> work_left (plan_of queue) (sched_of queue') < work_left (plan_of queue) (sched_of queue)"
proof -
  obtain queue1 x where q1: "NextNode queue = Some (queue1, Some x)" "x < length (q_NodeState queue)"
    "place_of (node queue x) = InRing" "place_of (node queue1 x) = Held"
    "ns_Progress (node queue1 x) = ns_Progress (node queue x)"
    "qinv R {} (if ns_Progress (node queue x) = kRunAction then 1 else 0) queue1" "frame x queue queue1"
    "work_left (plan_of queue) (sched_of queue1) < work_left (plan_of queue) (sched_of queue)"
    using NextNode_ok [OF assms] by blast
  have st: "same_tables queue queue1" using q1(7) by (simp add: frame_def)
  note tables = same_tables_plan [OF st]
  have x: "x < length (q_NodeState queue1)" using q1(2) st by (simp add: same_tables_def)
  have "x \<notin> R" using qinvD(4) [OF assms(1)] q1(3) by (auto simp: sinv_def)
  moreover have "ns_Progress (node queue1 x) \<in> {kInitial, kBlocked, kRunAction}"
    "ns_Progress (node queue1 x) = kRunAction \<longrightarrow> is_expensive (node_data queue1 x)"
    using qinv_place_ok [OF assms(1) q1(2)] q1(3,5) tables(1) by auto
  ultimately obtain queue' s where q': "AdvanceNode_loop queue1 x (ns_Progress (node queue1 x)) = Some (queue', s)"
    "advance_post s R x queue'" "frame x queue1 queue'"
    "work_left (plan_of queue) (sched_of queue') \<le> work_left (plan_of queue) (sched_of queue1)"
    using AdvanceNode_loop_ok [OF q1(6) x q1(4)] q1(5) tables(2) by auto
  have "AdvanceNode queue1 x = Some (queue', s)"
    using q1(4) q'(1) by (simp add: AdvanceNode_def place_of_Held NodeStateIsCompleted_def)
  then show ?thesis using q1 q' frame_trans [OF q1(7) q'(3)] by auto
qed

lemma signature_update:
  assumes "x < length (q_NodeState queue)"
  shows "sched_of (set_node queue x ((node queue x)\<lparr>ns_InputSignature := d\<rparr>)) = sched_of queue"
  using assms by (simp add: sched_set_node) (simp add: sched_of_def place_of_def NodeStateIsCompleted_def fun_eq_iff)

lemma ResumeCheck_ok:
  assumes "qinv R {} 0 queue" "x < length (q_NodeState queue)" "place_of (node queue x) = Held" "x \<notin> R"
    "ns_Progress (node queue x) = kUnblocked"
  shows "\<exists>queue' s. ResumeCheck queue x signature missing = Some (queue', s) \<and> advance_post s R x queue' \<and>
    frame x queue queue' \<and> work_left (plan_of queue) (sched_of queue') < work_left (plan_of queue) (sched_of queue) \<and>
    (q_Broadcast queue' \<or> ring_list queue' = ring_list queue)"
proof -
  let ?q = "set_node queue x ((node queue x)\<lparr>ns_InputSignature := signature\<rparr>)"
  define p where "p = CheckInputSignature_next (node_data ?q x) (ns_MmapState (node ?q x)) signature missing"
  let ?q1 = "set_progress ?q x p"
  have p: "p = kRunAction \<or> p = kUpToDate"
    by (auto simp: p_def CheckInputSignature_next_def split: option.splits if_splits)
  have st: "same_tables queue ?q" using assms(2) by simp
  have q: "qinv R {} 0 ?q"
    using qinvD [OF assms(1)] by (intro qinvI [OF assms(1) st]) (simp_all add: signature_update assms(2))
  have fr: "frame x queue ?q"
    using st by (simp add: frame_def signature_update assms(2) del: sched_sel)
  have x: "x < length (q_NodeState ?q)" "place_of (node ?q x) = Held"
    using assms(2,3) by (simp_all add: place_of_Held)
  have ready: "s_ready (plan_of ?q) (sched_of ?q) x"
    using held_ready(2) [OF q x] assms(2,5) by simp
  have q1: "qinv R {} 0 ?q1" "frame x ?q ?q1"
    using set_progress_ok [OF q x, of p] ready p by auto
  have x1: "x < length (q_NodeState ?q1)" "place_of (node ?q1 x) = Held" "ns_Progress (node ?q1 x) = p"
    using assms(2,3) p by (auto simp: set_progress_def place_of_Held)
  have st1: "same_tables queue ?q1" using st by (rule same_tables_trans) (use x in simp)
  note tables = same_tables_plan [OF st1]
  have less: "work_left (plan_of queue) (sched_of ?q1) < work_left (plan_of queue) (sched_of queue)"
    using work_left_progress [of x "plan_of queue" "sched_of queue" p] assms(2,3,5) p
    by (auto simp: set_progress_sched [OF x] signature_update assms(2))
  have "\<exists>queue' s. AdvanceNode_loop ?q1 x p = Some (queue', s) \<and> advance_post s R x queue' \<and> frame x ?q1 queue' \<and>
      work_left (plan_of queue) (sched_of queue') \<le> work_left (plan_of queue) (sched_of ?q1) \<and>
      (q_Broadcast queue' \<or> ring_list queue' = ring_list queue)"
  proof (cases "p = kRunAction")
    case True
    moreover have "ring_list ?q1 = ring_list queue" by (simp add: set_progress_def)
    ultimately show ?thesis using RunAction_ok [OF q1(1) x1(1,2) assms(4)] x1(3) tables(2) by simp
  next
    case False
    then have "s_ready (plan_of ?q1) (sched_of ?q1) x" "p = kUpToDate"
      using held_ready(2) [OF q1(1) x1(1,2)] x1(3) p by auto
    then show ?thesis
      using complete_ok [OF q1(1) x1(1,2) assms(4), of kUpToDate] tables(2) by fastforce
  qed
  then obtain queue' s where "AdvanceNode_loop ?q1 x p = Some (queue', s)" "advance_post s R x queue'"
    "frame x ?q1 queue'" "work_left (plan_of queue) (sched_of queue') \<le> work_left (plan_of queue) (sched_of ?q1)"
    "q_Broadcast queue' \<or> ring_list queue' = ring_list queue"
    by blast
  moreover have "frame x queue queue'" using fr q1(2) calculation(3) frame_trans by blast
  ultimately show ?thesis using less unfolding ResumeCheck_def Let_def p_def [symmetric] by auto
qed

lemma ResumeRun_ok:
  assumes "qinv R {} 0 queue" "x \<in> R" "ns_Progress (node queue x) = kRunAction"
  shows "\<exists>queue'. ResumeRun queue x outcome = Some (queue', Done) \<and> advance_post Done (R - {x}) x queue' \<and>
    frame x queue queue' \<and> q_Broadcast queue' \<and> place_of (node queue' x) = Finished \<and>
    ns_BuildResult (node queue' x) = (if RunAction_result outcome = kFailed then 1 else 0) \<and>
    work_left (plan_of queue) (sched_of queue') < work_left (plan_of queue) (sched_of queue)"
proof -
  define q where "q = (if signals_build outcome then CondBroadcast queue else queue)"
  define p where "p = RunAction_result outcome"
  have p: "p \<in> {kSucceeded, kUpToDate, kFailed}" "weight Held p = 3" by (cases outcome; auto simp: p_def)+
  have q: "qinv R {} 0 q" "frame x queue q" "same_tables queue q" "node q = node queue" "sched_of q = sched_of queue"
    using assms(1) wake_frame by (auto simp: q_def)
  have x: "x < length (q_NodeState q)" "place_of (node q x) = Held"
    using qinvD(4) [OF q(1)] assms(2) by (auto simp: sinv_def)
  let ?q1 = "set_progress q x p"
  have q1: "qinv R {} 0 ?q1" "frame x q ?q1" "same_tables q ?q1"
    using set_progress_ok [OF q(1) x, of p] held_ready(2) [OF q(1) x] p x q(4) assms(3) by auto
  obtain q2 where q2: "after_RunAction ?q1 x = Some q2" "qinv (R - {x}) {} 0 q2" "frame x ?q1 q2"
    "place_of (node q2 x) = Held" "ns_Progress (node q2 x) = p"
    "work_left (plan_of ?q1) (sched_of q2) \<le> work_left (plan_of ?q1) (sched_of ?q1) + 1"
    using after_RunAction_ok [OF q1(1) assms(2)] x(1) by (auto simp: set_progress_def)
  have st: "same_tables ?q1 q2" "same_tables queue ?q1"
    using q2(3) q(3) q1(3) same_tables_trans by (auto simp: frame_def)
  have x2: "x < length (q_NodeState q2)" using x(1) q1(3) st(1) by (simp add: same_tables_def)
  have ready: "s_ready (plan_of q2) (sched_of q2) x"
    using held_ready(2) [OF q2(2) x2 q2(4)] q2(5) p(1) by auto
  obtain queue' where q': "AdvanceNode_loop q2 x p = Some (queue', Done)" "qinv (R - {x}) {} 0 queue'"
    "frame x q2 queue'" "q_Broadcast queue'" "place_of (node queue' x) = Finished"
    "ns_BuildResult (node queue' x) = (if p = kFailed then 1 else 0)"
    "work_left (plan_of q2) (sched_of queue') + 3 \<le> work_left (plan_of q2) (sched_of q2)"
    using complete_ok [OF q2(2) x2 q2(4) _ ready p(1)] q2(5) p(2) by auto
  have "work_left (plan_of queue) (sched_of ?q1) + 4 = work_left (plan_of queue) (sched_of queue) + 3"
    using work_left_progress [of x "plan_of queue" "sched_of queue" p] x p q(3,4,5) assms(3)
      set_progress_sched [OF x, of p] by (auto simp: same_tables_def)
  then have "work_left (plan_of queue) (sched_of queue') < work_left (plan_of queue) (sched_of queue)"
    using q2(6) q'(7) same_tables_plan(2) [OF st(1)] same_tables_plan(2) [OF st(2)] by simp
  moreover have "frame x queue queue'"
    using q(2) q1(2) q2(3) q'(3) frame_trans by blast
  ultimately show ?thesis
    using q' q2(1) unfolding ResumeRun_def Let_def p_def [symmetric] q_def [symmetric] by simp
qed

end
