(* ===== verification/T2_BuildThreads.thy ===== *)
theory T2_BuildThreads
  imports T2_BuildQueueInv
begin

text \<open>
  The threads of \<open>BuildLoop\<close> under arbitrary interleaving: \<open>sys_ok\<close> ties the node each
  thread works on to the schedule of the queue, every step of \<open>build_step\<close> keeps it, and
  it gives safety (no \<open>CHECK\<close> fails, dependencies first, the limit on expensive nodes),
  freedom from deadlock and a bound on the work.
\<close>

section \<open>Threads and the nodes they hold\<close>

fun holds :: "thread \<Rightarrow> nat option" where
  "holds (Checking i) = Some i"
| "holds (Running i) = Some i"
| "holds _ = None"

definition running :: "thread list \<Rightarrow> nat set" where
  "running thr = {i. Running i \<in> set thr}"

definition threads_ok :: "BuildQueue \<Rightarrow> thread list \<Rightarrow> bool" where
  "threads_ok queue thr \<longleftrightarrow> qinv (running thr) {} 0 queue \<and>
     (\<forall>t < length thr. \<forall>i. thr ! t = Checking i \<longrightarrow> i < length (q_NodeState queue) \<and>
        place_of (node queue i) = Held \<and> ns_Progress (node queue i) = kUnblocked) \<and>
     (\<forall>t < length thr. \<forall>i. thr ! t = Running i \<longrightarrow> i < length (q_NodeState queue) \<and>
        place_of (node queue i) = Held \<and> ns_Progress (node queue i) = kRunAction) \<and>
     (\<forall>i < length (q_NodeState queue). place_of (node queue i) = Held \<longrightarrow>
        (\<exists>t < length thr. holds (thr ! t) = Some i)) \<and>
     (\<forall>t < length thr. \<forall>u < length thr. \<forall>i. holds (thr ! t) = Some i \<and> holds (thr ! u) = Some i \<longrightarrow> t = u)"

definition waking :: "thread list \<Rightarrow> thread list \<Rightarrow> bool" where
  "waking thr thr' \<longleftrightarrow> list_all2 (\<lambda>a b. b = a \<or> a = Waiting \<and> b = Ready) thr thr'"

lemma waking_nth:
  "waking thr thr' \<Longrightarrow> t < length thr \<Longrightarrow> thr' ! t = thr ! t \<or> thr ! t = Waiting \<and> thr' ! t = Ready"
  by (auto simp: waking_def list_all2_conv_all_nth)

lemma waking_length: "waking thr thr' \<Longrightarrow> length thr' = length thr"
  by (simp add: waking_def list_all2_lengthD)

lemma waking_holds:
  assumes "waking thr thr'" "t < length thr"
  shows "holds (thr' ! t) = holds (thr ! t)" "thr' ! t = Checking i \<longleftrightarrow> thr ! t = Checking i"
    "thr' ! t = Running i \<longleftrightarrow> thr ! t = Running i"
  using waking_nth [OF assms] by auto

lemma running_nth: "running thr = {i. \<exists>t < length thr. thr ! t = Running i}"
  by (auto simp: running_def in_set_conv_nth)

lemma waking_running: "waking thr thr' \<Longrightarrow> running thr' = running thr"
  using waking_holds(3) waking_length by (auto simp: running_nth)

lemma threads_ok_waking:
  assumes "threads_ok queue thr" "waking thr thr'" shows "threads_ok queue thr'"
  using assms(1)
  by (simp add: threads_ok_def waking_length [OF assms(2)] waking_running [OF assms(2)]
      waking_holds [OF assms(2)] cong: conj_cong)

lemma threads_ok_cong:
  assumes "threads_ok queue thr" "sched_of queue' = sched_of queue" "same_tables queue queue'" "ring_wf queue'"
    "q_ExpensiveWaitCount queue' = q_ExpensiveWaitCount queue"
  shows "threads_ok queue' thr"
proof -
  have p: "place_of (node queue' i) = place_of (node queue i)" "ns_Progress (node queue' i) = ns_Progress (node queue i)" for i
    using arg_cong [OF assms(2), of "\<lambda>s. s_place s i"] arg_cong [OF assms(2), of "\<lambda>s. s_prog s i"] by simp_all
  have "qinv (running thr) {} 0 queue'"
  proof -
    have q: "qinv (running thr) {} 0 queue" using assms(1) by (simp add: threads_ok_def)
    then show ?thesis using qinvD [OF q] assms(2,5) by (intro qinvI [OF q assms(3,4)]) simp_all
  qed
  then show ?thesis using assms(1,3) by (simp add: threads_ok_def p same_tables_def)
qed

lemma running_update_nth:
  "t < length thr \<Longrightarrow>
   running (thr[t := y]) = {i. y = Running i} \<union> {i. \<exists>u < length thr. u \<noteq> t \<and> thr ! u = Running i}"
  by (auto simp: running_nth nth_list_update)

text \<open>A thread \<open>t\<close> that held node \<open>x\<close> or nothing has worked on \<open>x\<close>.\<close>

lemma threads_ok_step:
  assumes "threads_ok queue thr" "t < length thr" "x < length (q_NodeState queue)"
    "holds (thr ! t) = Some x \<or> holds (thr ! t) = None \<and> place_of (node queue x) \<noteq> Held"
    "advance_post s (running thr - {x}) x queue'" "frame x queue queue'"
  shows "threads_ok queue' (thr[t := thread_at s x])"
proof -
  let ?thr = "thr[t := thread_at s x]"
  have n: "length (q_NodeState queue') = length (q_NodeState queue)"
    using assms(6) by (simp add: frame_def same_tables_def)
  have other: "holds (thr ! u) \<noteq> Some x" if "u < length thr" "u \<noteq> t" for u
    using assms(1,2,4) that by (cases "thr ! u") (auto simp: threads_ok_def)
  have held: "place_of (node queue' i) = Held \<longleftrightarrow> place_of (node queue i) = Held"
    "place_of (node queue i) = Held \<Longrightarrow> ns_Progress (node queue' i) = ns_Progress (node queue i)" if "i \<noteq> x" for i
    using assms(6) that by (auto simp: frame_def)
  have tx: "thr ! t = Running i \<Longrightarrow> i = x" "thr ! t = Checking i \<Longrightarrow> i = x" for i using assms(4) by auto
  have "{i. \<exists>u < length thr. u \<noteq> t \<and> thr ! u = Running i} = running thr - {x}"
  proof -
    have "thr ! u \<noteq> Running x" if "u < length thr" "u \<noteq> t" for u using other [OF that] by auto
    then show ?thesis using tx by (auto simp: running_nth)
  qed
  then have run: "running ?thr = (if s = InRun then insert x (running thr - {x}) else running thr - {x})"
    using running_update_nth [OF assms(2), of "thread_at s x"] by (cases s) auto
  have "qinv (running ?thr) {} 0 queue'" using assms(5) unfolding run by (cases s) auto
  moreover have "i < length (q_NodeState queue') \<and> place_of (node queue' i) = Held \<and> ns_Progress (node queue' i) = kUnblocked"
    if "u < length ?thr" "?thr ! u = Checking i" for u i
  proof (cases "u = t")
    case True
    then have "s = InCheck" "i = x" using that assms(2) by (cases s; simp)+
    then show ?thesis using assms(3,5) n by simp
  next
    case False
    then have "thr ! u = Checking i" "i \<noteq> x" using that other [of u] by auto
    then show ?thesis using assms(1) held that(1) n by (auto simp: threads_ok_def)
  qed
  moreover have "i < length (q_NodeState queue') \<and> place_of (node queue' i) = Held \<and> ns_Progress (node queue' i) = kRunAction"
    if "u < length ?thr" "?thr ! u = Running i" for u i
  proof (cases "u = t")
    case True
    then have "s = InRun" "i = x" using that assms(2) by (cases s; simp)+
    then show ?thesis using assms(3,5) n by simp
  next
    case False
    then have "thr ! u = Running i" "i \<noteq> x" using that other [of u] by auto
    then show ?thesis using assms(1) held that(1) n by (auto simp: threads_ok_def)
  qed
  moreover have "\<exists>u < length ?thr. holds (?thr ! u) = Some i"
    if "i < length (q_NodeState queue')" "place_of (node queue' i) = Held" for i
  proof (cases "i = x")
    case True
    then have "holds (thread_at s x) = Some i" using that assms(5) by (cases s) auto
    then show ?thesis using assms(2) by (intro exI [of _ t]) simp
  next
    case False
    then have "i < length (q_NodeState queue)" "place_of (node queue i) = Held" using held that n by auto
    then obtain u where "u < length thr" "holds (thr ! u) = Some i"
      using assms(1) unfolding threads_ok_def by blast
    moreover from this have "u \<noteq> t" using assms(4) False by auto
    ultimately show ?thesis by (intro exI [of _ u]) simp
  qed
  moreover have "u = v" if "u < length ?thr" "v < length ?thr" "holds (?thr ! u) = Some i" "holds (?thr ! v) = Some i" for u v i
  proof -
    have "holds (thread_at s x) = Some i \<Longrightarrow> i = x" by (cases s) auto
    then show ?thesis
      using assms(1,2) that other by (auto simp: threads_ok_def nth_list_update split: if_splits)
  qed
  ultimately show ?thesis by (auto simp: threads_ok_def)
qed

section \<open>The whole system\<close>

text \<open>The build has been told to stop before all nodes are done.\<close>

definition stopped :: "BuildQueue \<Rightarrow> bool \<Rightarrow> bool" where
  "stopped queue sig \<longleftrightarrow> sig \<or> q_FailedNodeCount queue > 0 \<and> \<not> q_ContinueOnError queue \<or> q_QuitSignalled queue"

definition sys_ok :: "build_sys \<Rightarrow> bool" where
  "sys_ok sys \<longleftrightarrow> threads_ok (bs_queue sys) (bs_threads sys) \<and> bs_threads sys \<noteq> [] \<and>
     (bs_threads sys ! 0 = Waiting \<longrightarrow> q_PendingNodeCount (bs_queue sys) > 0) \<and>
     (\<forall>t < length (bs_threads sys). bs_threads sys ! t = Exited \<longrightarrow>
        \<not> ShouldKeepBuilding (bs_queue sys) (bs_signalled sys) t) \<and>
     (Waiting \<in> set (bs_threads sys) \<longrightarrow> ring_list (bs_queue sys) = [])"

lemma ShouldKeepBuilding_stopped:
  "ShouldKeepBuilding queue sig t \<longleftrightarrow> \<not> stopped queue sig \<and> (t \<noteq> 0 \<or> q_PendingNodeCount queue > 0)"
  by (auto simp: ShouldKeepBuilding_def stopped_def)

lemma pending_decreases:
  assumes "qinv R W k queue" "qinv R' W' k' queue'" "frame x queue queue'"
  shows "q_PendingNodeCount queue' \<le> q_PendingNodeCount queue"
proof -
  have pl: "plan_of queue' = plan_of queue" using assms(3) by (simp add: frame_def same_tables_plan)
  have "s_place (sched_of queue) i = Finished \<Longrightarrow> s_place (sched_of queue') i = Finished" for i
    using assms(3) by (simp add: frame_def)
  then have "unfinished (plan_of queue') (sched_of queue') \<subseteq> unfinished (plan_of queue) (sched_of queue)"
    unfolding pl unfinished_def by blast
  then have "card (unfinished (plan_of queue') (sched_of queue')) \<le> card (unfinished (plan_of queue) (sched_of queue))"
    by (intro card_mono) simp_all
  then show ?thesis using qinvD(4) [OF assms(1)] qinvD(4) [OF assms(2)] by (simp add: sinv_def)
qed

lemma clear_wakeups_neutral [simp]:
  "sched_of (clear_wakeups queue) = sched_of queue" "same_tables queue (clear_wakeups queue)"
  "ring_wf (clear_wakeups queue) = ring_wf queue" "ring_list (clear_wakeups queue) = ring_list queue"
  "q_ExpensiveWaitCount (clear_wakeups queue) = q_ExpensiveWaitCount queue"
  "q_PendingNodeCount (clear_wakeups queue) = q_PendingNodeCount queue"
  "stopped (clear_wakeups queue) sig = stopped queue sig"
  by (simp_all add: clear_wakeups_def sched_of_def same_tables_def node_def stopped_def
      ring_list_def ring_wf_def avail_def AvailableNodeCount_def cap_def)

lemma threads_ok_clear: "threads_ok queue thr \<Longrightarrow> threads_ok (clear_wakeups queue) thr"
  by (rule threads_ok_cong) (auto simp: threads_ok_def qinv_def)

lemma keep_clear: "ShouldKeepBuilding (clear_wakeups queue) sig t = ShouldKeepBuilding queue sig t"
  by (simp add: ShouldKeepBuilding_stopped)

lemma wokenD: "woken queue thr thr' \<Longrightarrow> waking thr thr'" "woken queue thr thr' \<Longrightarrow> q_Broadcast queue \<Longrightarrow> Waiting \<notin> set thr'"
  by (auto simp: woken_def waking_def)

text \<open>A thread that has worked on a node leaves the system in order.\<close>

lemma sys_ok_work:
  assumes "sys_ok \<lparr>bs_queue = queue, bs_threads = thr, bs_signalled = sig\<rparr>" "t < length thr"
    "x < length (q_NodeState queue)"
    "holds (thr ! t) = Some x \<or> holds (thr ! t) = None \<and> place_of (node queue x) \<noteq> Held"
    "advance_post s (running thr - {x}) x queue'" "frame x queue queue'"
    "woken queue' (thr[t := thread_at s x]) thr'" "sig \<longrightarrow> sig'"
    "q_Broadcast queue' \<or> ring_list queue \<noteq> [] \<or> ring_list queue' = ring_list queue"
  shows "sys_ok \<lparr>bs_queue = clear_wakeups queue', bs_threads = thr', bs_signalled = sig'\<rparr>"
proof -
  let ?thr = "thr[t := thread_at s x]"
  have inv: "qinv (running thr) {} 0 queue" "threads_ok queue thr" using assms(1) by (auto simp: sys_ok_def threads_ok_def)
  have th': "threads_ok queue' ?thr" using threads_ok_step [OF inv(2) assms(2-6)] .
  have len: "length thr' = length thr" using waking_length [OF wokenD(1) [OF assms(7)]] by simp
  have aw: "thread_at s x \<noteq> Waiting" "thread_at s x \<noteq> Exited" by (cases s; simp)+
  have nth: "thr' ! u = ?thr ! u \<or> ?thr ! u = Waiting \<and> thr' ! u = Ready" if "u < length thr" for u
    using waking_nth [OF wokenD(1) [OF assms(7)], of u] that by simp
  have pend: "q_PendingNodeCount queue' \<le> q_PendingNodeCount queue"
    using pending_decreases [OF inv(1) _ assms(6)] th' unfolding threads_ok_def by blast
  have stop: "stopped queue sig \<Longrightarrow> stopped queue' sig'"
    using assms(6,8) by (auto simp: stopped_def frame_def same_tables_def)
  have same: "thr ! u = Waiting \<and> q_PendingNodeCount queue' = q_PendingNodeCount queue \<and> \<not> q_Broadcast queue'"
    if "u < length thr" "thr' ! u = Waiting" for u
  proof -
    have "Waiting \<in> set thr'" using that len by (metis nth_mem)
    then have "\<not> q_Broadcast queue'" using wokenD(2) [OF assms(7)] by blast
    moreover have "thr ! u = Waiting" using nth [OF that(1)] that aw by (cases "t = u") auto
    ultimately show ?thesis using assms(6) by (simp add: frame_def)
  qed
  have "threads_ok (clear_wakeups queue') thr'"
    using threads_ok_clear [OF threads_ok_waking [OF th' wokenD(1) [OF assms(7)]]] .
  moreover have "thr' ! 0 = Waiting \<longrightarrow> q_PendingNodeCount queue' > 0"
    using same [of 0] assms(1,2) by (auto simp: sys_ok_def)
  moreover have "\<not> ShouldKeepBuilding queue' sig' u" if "u < length thr'" "thr' ! u = Exited" for u
  proof -
    have "thr ! u = Exited" using nth [of u] that len aw by (cases "t = u") auto
    then have "\<not> ShouldKeepBuilding queue sig u" using assms(1) that len by (auto simp: sys_ok_def)
    then show ?thesis using stop pend by (auto simp: ShouldKeepBuilding_stopped)
  qed
  moreover have "ring_list queue' = []" if "Waiting \<in> set thr'"
  proof -
    obtain u where u: "u < length thr" "thr' ! u = Waiting" using \<open>Waiting \<in> set thr'\<close> len by (metis in_set_conv_nth)
    then have "Waiting \<in> set thr" using same by (metis nth_mem)
    then have "ring_list queue = []" using assms(1) by (simp add: sys_ok_def)
    then show ?thesis using assms(9) same [OF u] by auto
  qed
  moreover have "thr' \<noteq> []" using len assms(2) by auto
  ultimately show ?thesis by (simp add: sys_ok_def keep_clear)
qed

lemma sys_ok_running:
  assumes "threads_ok queue thr" "t < length thr"
  shows "thr ! t = Checking x \<Longrightarrow> x \<notin> running thr" "thr ! t = Running x \<Longrightarrow> x \<in> running thr"
    "holds (thr ! t) = Some x \<Longrightarrow> x < length (q_NodeState queue)"
proof -
  show "thr ! t = Checking x \<Longrightarrow> x \<notin> running thr"
    using assms by (fastforce simp: threads_ok_def running_nth)
  show "thr ! t = Running x \<Longrightarrow> x \<in> running thr" using assms by (auto simp: running_nth)
  show "holds (thr ! t) = Some x \<Longrightarrow> x < length (q_NodeState queue)"
    using assms by (cases "thr ! t") (auto simp: threads_ok_def)
qed

lemma BuildLoop_iteration_cases:
  assumes "threads_ok queue thr"
  shows "\<not> ShouldKeepBuilding queue sig t \<and> BuildLoop_iteration queue sig t = Some (queue, Exited) \<or>
    ShouldKeepBuilding queue sig t \<and> ring_list queue = [] \<and> BuildLoop_iteration queue sig t = Some (queue, Waiting) \<or>
    (\<exists>queue' x s. ShouldKeepBuilding queue sig t \<and> ring_list queue \<noteq> [] \<and>
      BuildLoop_iteration queue sig t = Some (queue', thread_at s x) \<and>
      x < length (q_NodeState queue) \<and> place_of (node queue x) = InRing \<and>
      advance_post s (running thr - {x}) x queue' \<and> frame x queue queue' \<and>
      work_left (plan_of queue) (sched_of queue') < work_left (plan_of queue) (sched_of queue))"
proof -
  have q: "qinv (running thr) {} 0 queue" using assms by (simp add: threads_ok_def)
  show ?thesis
  proof (cases "ShouldKeepBuilding queue sig t \<and> ring_list queue \<noteq> []")
    case False
    have "NextNode queue = Some (queue, None)" if "ring_list queue = []"
    proof -
      have "avail queue = 0" using that length_ring_list [of queue] by simp
      then show ?thesis by (simp add: NextNode_def avail_def unat_eq_0)
    qed
    then show ?thesis using False by (auto simp: BuildLoop_iteration_def)
  next
    case True
    obtain queue1 queue' x s where a: "NextNode queue = Some (queue1, Some x)" "AdvanceNode queue1 x = Some (queue', s)"
      "x < length (q_NodeState queue)" "place_of (node queue x) = InRing" "advance_post s (running thr) x queue'"
      "frame x queue queue'" "work_left (plan_of queue) (sched_of queue') < work_left (plan_of queue) (sched_of queue)"
      using AdvanceNode_ok [OF q] True by blast
    have "x \<notin> running thr" using qinvD(4) [OF q] a(4) by (auto simp: sinv_def)
    then have "running thr - {x} = running thr" by blast
    then show ?thesis using True a by (auto simp: BuildLoop_iteration_def)
  qed
qed

lemma sys_ok_idle:
  assumes "sys_ok \<lparr>bs_queue = queue, bs_threads = thr, bs_signalled = sig\<rparr>" "t < length thr" "thr ! t = Ready"
    "th = Exited \<and> \<not> ShouldKeepBuilding queue sig t \<or>
     th = Waiting \<and> ShouldKeepBuilding queue sig t \<and> ring_list queue = []"
    "waking (thr[t := th]) thr'"
  shows "sys_ok \<lparr>bs_queue = clear_wakeups queue, bs_threads = thr', bs_signalled = sig\<rparr>"
proof -
  let ?thr = "thr[t := th]"
  have th: "threads_ok queue thr" using assms(1) by (simp add: sys_ok_def)
  have len: "length thr' = length thr" using waking_length [OF assms(5)] by simp
  have h: "holds th = None" "\<And>i. th \<noteq> Checking i" "\<And>i. th \<noteq> Running i" using assms(4) by auto
  have run: "running ?thr = running thr"
    using running_update_nth [OF assms(2), of th] h assms(3) by (auto simp: running_nth)
  have "threads_ok queue ?thr"
    unfolding threads_ok_def run
  proof (intro conjI allI impI)
    show "qinv (running thr) {} 0 queue" using th by (simp add: threads_ok_def)
    fix i assume "i < length (q_NodeState queue)" "place_of (node queue i) = Held"
    then obtain u where u: "u < length thr" "holds (thr ! u) = Some i" using th unfolding threads_ok_def by blast
    then have "u \<noteq> t" using assms(3) by auto
    then show "\<exists>t<length ?thr. holds (?thr ! t) = Some i" using u by (intro exI [of _ u]) simp
  qed (use th h assms(2) in \<open>auto simp: threads_ok_def nth_list_update split: if_splits\<close>)
  then have "threads_ok (clear_wakeups queue) thr'" using threads_ok_clear threads_ok_waking assms(5) by blast
  moreover have nth: "thr' ! u = ?thr ! u \<or> ?thr ! u = Waiting \<and> thr' ! u = Ready" if "u < length thr" for u
    using waking_nth [OF assms(5), of u] that by simp
  have "thr' ! 0 = Waiting \<longrightarrow> q_PendingNodeCount queue > 0"
    using nth [of 0] assms(1,2,4) by (cases "t = 0") (auto simp: sys_ok_def ShouldKeepBuilding_stopped)
  moreover have "\<not> ShouldKeepBuilding queue sig u" if "u < length thr'" "thr' ! u = Exited" for u
    using nth [of u] that len assms(1,2,4) by (cases "t = u") (auto simp: sys_ok_def)
  moreover have "thr' \<noteq> []" using len assms(2) by auto
  moreover have "ring_list queue = []" if "Waiting \<in> set thr'"
  proof -
    obtain u where u: "u < length thr" "thr' ! u = Waiting" using \<open>Waiting \<in> set thr'\<close> len by (metis in_set_conv_nth)
    then have "th = Waiting \<or> thr ! u = Waiting" using nth [of u] assms(2) by (cases "t = u") auto
    then have "th = Waiting \<or> Waiting \<in> set thr" using u(1) by (metis nth_mem)
    then show ?thesis using assms(1,4) by (auto simp: sys_ok_def)
  qed
  ultimately show ?thesis by (simp add: sys_ok_def keep_clear)
qed

theorem build_step_ok: "build_step sys sys' \<Longrightarrow> sys_ok sys \<Longrightarrow> sys_ok sys'"
proof (induction rule: build_step.induct)
  case (iterate t thr queue sig queue' th thr')
  have th: "threads_ok queue thr" using iterate.prems by (simp add: sys_ok_def)
  from BuildLoop_iteration_cases [OF th, of sig t] consider
      (idle) "th = Exited \<and> \<not> ShouldKeepBuilding queue sig t \<or>
        th = Waiting \<and> ShouldKeepBuilding queue sig t \<and> ring_list queue = []" "queue' = queue"
    | (work) x s where "th = thread_at s x" "x < length (q_NodeState queue)" "place_of (node queue x) = InRing"
        "advance_post s (running thr - {x}) x queue'" "frame x queue queue'" "ring_list queue \<noteq> []"
    using iterate.hyps(3) by auto
  then show ?case
  proof cases
    case idle
    then show ?thesis
      using sys_ok_idle [OF iterate.prems iterate.hyps(1,2)] wokenD(1) [OF iterate.hyps(4)] by blast
  next
    case work
    then show ?thesis
      using iterate.hyps by (intro sys_ok_work [OF iterate.prems iterate.hyps(1)]) auto
  qed
next
  case (checked t thr i queue signature missing queue' s thr' sig)
  have th: "threads_ok queue thr" using checked.prems by (simp add: sys_ok_def)
  have i: "i \<notin> running thr" "i < length (q_NodeState queue)" "place_of (node queue i) = Held" "ns_Progress (node queue i) = kUnblocked"
    using sys_ok_running [OF th checked.hyps(1)] th checked.hyps(1,2) by (auto simp: threads_ok_def)
  have "advance_post s (running thr) i queue'" "frame i queue queue'"
      "q_Broadcast queue' \<or> ring_list queue' = ring_list queue"
    using ResumeCheck_ok [of "running thr" queue i signature missing] th i checked.hyps(3)
    by (auto simp: threads_ok_def)
  moreover have "running thr - {i} = running thr" using i(1) by blast
  ultimately show ?case
    using checked.hyps i by (intro sys_ok_work [OF checked.prems checked.hyps(1), of i s]) auto
next
  case (ran t thr i queue outcome queue' s thr' sig)
  have th: "threads_ok queue thr" using ran.prems by (simp add: sys_ok_def)
  have i: "i \<in> running thr" "i < length (q_NodeState queue)" "ns_Progress (node queue i) = kRunAction"
    using sys_ok_running [OF th ran.hyps(1)] th ran.hyps(1,2) by (auto simp: threads_ok_def)
  have "advance_post s (running thr - {i}) i queue'" "frame i queue queue'" "q_Broadcast queue'"
    using ResumeRun_ok [of "running thr" queue i outcome] th i ran.hyps(3) by (auto simp: threads_ok_def)
  then show ?case
    using ran.hyps i by (intro sys_ok_work [OF ran.prems ran.hyps(1), of i s]) auto
next
  case (interrupt thr thr' queue sig)
  then have w: "waking thr thr'" by (simp add: waking_def)
  have "threads_ok queue thr'" using interrupt.prems threads_ok_waking [OF _ w] by (simp add: sys_ok_def)
  moreover have "thr' ! u = Waiting \<Longrightarrow> thr ! u = Waiting" "thr' ! u = Exited \<Longrightarrow> thr ! u = Exited"
    if "u < length thr" for u
    using waking_nth [OF w that] by auto
  moreover from this have "Waiting \<in> set thr' \<Longrightarrow> Waiting \<in> set thr"
    using waking_length [OF w] by (metis in_set_conv_nth)
  ultimately show ?case
    using interrupt.prems waking_length [OF w]
    by (auto simp: sys_ok_def ShouldKeepBuilding_stopped stopped_def)
qed

section \<open>Reachable states\<close>

lemma build_steps_ok: "build_step\<^sup>*\<^sup>* sys sys' \<Longrightarrow> sys_ok sys \<Longrightarrow> sys_ok sys'"
  by (induction rule: rtranclp_induct) (auto intro: build_step_ok)

text \<open>No \<open>CHECK\<close> fails: every thread can take its step.\<close>

lemma threads_run:
  assumes "threads_ok queue thr" "t < length thr"
  shows "thr ! t = Ready \<Longrightarrow> \<exists>r. BuildLoop_iteration queue sig t = Some r"
    "thr ! t = Checking i \<Longrightarrow> \<exists>r. ResumeCheck queue i signature missing = Some r"
    "thr ! t = Running i \<Longrightarrow> \<exists>r. ResumeRun queue i outcome = Some r"
proof -
  have q: "qinv (running thr) {} 0 queue" using assms(1) by (simp add: threads_ok_def)
  show "thr ! t = Ready \<Longrightarrow> \<exists>r. BuildLoop_iteration queue sig t = Some r"
    using BuildLoop_iteration_cases [OF assms(1), of sig t] by blast
  show "\<exists>r. ResumeCheck queue i signature missing = Some r" if "thr ! t = Checking i"
  proof -
    have "i < length (q_NodeState queue)" "place_of (node queue i) = Held" "ns_Progress (node queue i) = kUnblocked"
      using assms that by (auto simp: threads_ok_def)
    then show ?thesis
      using ResumeCheck_ok [OF q] sys_ok_running(1) [OF assms that] by blast
  qed
  show "\<exists>r. ResumeRun queue i outcome = Some r" if "thr ! t = Running i"
    using ResumeRun_ok [OF q sys_ok_running(2) [OF assms that]] assms that by (fastforce simp: threads_ok_def)
qed

lemma not_deadlocked:
  assumes "sys_ok sys" "bs_threads sys ! 0 \<noteq> Exited"
  shows "\<exists>th \<in> set (bs_threads sys). th \<noteq> Waiting \<and> th \<noteq> Exited"
proof (rule ccontr)
  assume no: "\<not> ?thesis"
  let ?q = "bs_queue sys" and ?thr = "bs_threads sys"
  have th: "threads_ok ?q ?thr" and ne: "?thr \<noteq> []" using assms(1) by (auto simp: sys_ok_def)
  then have w: "?thr ! 0 = Waiting" using no assms(2) by (metis length_greater_0_conv nth_mem)
  have none: "holds (?thr ! t) = None" if "t < length ?thr" for t
    using no that by (cases "?thr ! t") (auto dest!: nth_mem)
  then have "place_of (node ?q i) \<noteq> Held" if "i < length (q_NodeState ?q)" for i
    using th that unfolding threads_ok_def by (metis option.distinct(1))
  moreover have "q_PendingNodeCount ?q > 0" using assms(1) w by (simp add: sys_ok_def)
  moreover have "plan_ok (plan_of ?q)" "sinv (plan_of ?q) (running ?thr) {} 0 (sched_of ?q)"
    using th by (auto simp: threads_ok_def qinv_def cfg_ok_def)
  ultimately have "ring_list ?q \<noteq> []"
    using sinv_progress_possible [of "plan_of ?q" "running ?thr" "sched_of ?q"] by simp
  moreover have "Waiting \<in> set ?thr" using w ne by (metis length_greater_0_conv nth_mem)
  ultimately show False using assms(1) by (simp add: sys_ok_def)
qed

lemma expensive_limit:
  assumes "threads_ok queue thr"
  shows "card {t. t < length thr \<and> (\<exists>i. thr ! t = Running i \<and> is_expensive (node_data queue i))} \<le> nat (q_MaxExpensiveCount queue)"
proof -
  let ?T = "{t. t < length thr \<and> (\<exists>i. thr ! t = Running i \<and> is_expensive (node_data queue i))}"
  let ?E = "{i \<in> running thr. is_expensive (node_data queue i)}"
  have "inj_on (\<lambda>t. the (holds (thr ! t))) ?T"
  proof (rule inj_onI)
    fix t u assume "t \<in> ?T" "u \<in> ?T" "the (holds (thr ! t)) = the (holds (thr ! u))"
    then have "t < length thr" "u < length thr" "\<exists>i. holds (thr ! t) = Some i \<and> holds (thr ! u) = Some i" by auto
    then show "t = u" using assms unfolding threads_ok_def by blast
  qed
  moreover have "(\<lambda>t. the (holds (thr ! t))) ` ?T \<subseteq> ?E" by (auto simp: running_nth)
  moreover have "finite ?E"
    using assms by (auto simp: threads_ok_def qinv_def sinv_def intro!: finite_subset [of _ "{..<length (q_NodeState queue)}"])
  ultimately have "card ?T \<le> card ?E" by (rule card_inj_on_le)
  moreover have "int (card ?E) \<le> q_MaxExpensiveCount queue"
    using assms by (simp add: threads_ok_def qinv_def sinv_def)
  ultimately show ?thesis by linarith
qed

lemma finished_pass:
  assumes "sys_ok \<lparr>bs_queue = queue, bs_threads = thr, bs_signalled = sig\<rparr>" "thr ! 0 = Exited"
    "\<not> q_QuitSignalled queue" "BuildQueueBuildNodeRange_result queue sig = kOk"
    "i < length (q_NodeState queue)" "nd_PassIndex (node_data queue i) = q_CurrentPassIndex queue"
  shows "ns_Progress (node queue i) = kCompleted" "ns_BuildResult (node queue i) = 0"
proof -
  have th: "qinv (running thr) {} 0 queue" using assms(1) by (simp add: sys_ok_def threads_ok_def)
  have res: "\<not> sig" "q_FailedNodeCount queue = 0"
    using assms(4) by (auto simp: BuildQueueBuildNodeRange_result_def split: if_splits)
  have "\<not> ShouldKeepBuilding queue sig 0" using assms(1,2) by (auto simp: sys_ok_def)
  then have "q_PendingNodeCount queue \<le> 0" using res assms(3) by (auto simp: ShouldKeepBuilding_stopped stopped_def)
  then have "unfinished (plan_of queue) (sched_of queue) = {}" "failures (plan_of queue) (sched_of queue) = {}"
    using qinvD(4) [OF th] res(2) by (auto simp: sinv_def)
  then have "place_of (node queue i) = Finished \<and> ns_BuildResult (node queue i) = 0"
    using assms(5,6) by (auto simp: unfinished_def failures_def)
  then show "ns_Progress (node queue i) = kCompleted" "ns_BuildResult (node queue i) = 0"
    using qinv_place_ok [OF th assms(5)] by auto
qed

section \<open>Progress\<close>

lemma step_effect:
  assumes "queue' = queue \<or> (\<exists>x. frame x queue queue') \<and>
      work_left (plan_of queue) (sched_of queue') < work_left (plan_of queue) (sched_of queue)"
  shows "same_tables (bs_queue \<lparr>bs_queue = queue, bs_threads = thr, bs_signalled = sig\<rparr>)
      (bs_queue \<lparr>bs_queue = clear_wakeups queue', bs_threads = thr', bs_signalled = sig'\<rparr>) \<and>
    (sched_of (bs_queue \<lparr>bs_queue = clear_wakeups queue', bs_threads = thr', bs_signalled = sig'\<rparr>) =
       sched_of (bs_queue \<lparr>bs_queue = queue, bs_threads = thr, bs_signalled = sig\<rparr>) \<or>
     work_left (plan_of (bs_queue \<lparr>bs_queue = queue, bs_threads = thr, bs_signalled = sig\<rparr>))
         (sched_of (bs_queue \<lparr>bs_queue = clear_wakeups queue', bs_threads = thr', bs_signalled = sig'\<rparr>)) <
       work_left (plan_of (bs_queue \<lparr>bs_queue = queue, bs_threads = thr, bs_signalled = sig\<rparr>))
         (sched_of (bs_queue \<lparr>bs_queue = queue, bs_threads = thr, bs_signalled = sig\<rparr>))) \<and>
    (\<forall>i. place_of (node (bs_queue \<lparr>bs_queue = queue, bs_threads = thr, bs_signalled = sig\<rparr>) i) = Finished \<longrightarrow>
       place_of (node (bs_queue \<lparr>bs_queue = clear_wakeups queue', bs_threads = thr', bs_signalled = sig'\<rparr>) i) = Finished \<and>
       ns_BuildResult (node (bs_queue \<lparr>bs_queue = clear_wakeups queue', bs_threads = thr', bs_signalled = sig'\<rparr>) i) =
       ns_BuildResult (node (bs_queue \<lparr>bs_queue = queue, bs_threads = thr, bs_signalled = sig\<rparr>) i))"
proof -
  have nd: "node (clear_wakeups queue') = node queue'" by (simp add: clear_wakeups_def node_def fun_eq_iff)
  show ?thesis
    using assms same_tables_trans [OF _ clear_wakeups_neutral(2) [of queue']] by (auto simp: frame_def nd)
qed

lemma build_step_work:
  assumes "build_step sys sys'" "sys_ok sys"
  shows "same_tables (bs_queue sys) (bs_queue sys') \<and>
    (sched_of (bs_queue sys') = sched_of (bs_queue sys) \<or>
     work_left (plan_of (bs_queue sys)) (sched_of (bs_queue sys')) <
       work_left (plan_of (bs_queue sys)) (sched_of (bs_queue sys))) \<and>
    (\<forall>i. place_of (node (bs_queue sys) i) = Finished \<longrightarrow> place_of (node (bs_queue sys') i) = Finished \<and>
       ns_BuildResult (node (bs_queue sys') i) = ns_BuildResult (node (bs_queue sys) i))"
  using assms
proof (induction rule: build_step.induct)
  case (iterate t thr queue sig queue' th thr')
  have th: "threads_ok queue thr" using iterate.prems by (simp add: sys_ok_def)
  have "queue' = queue \<or> (\<exists>x. frame x queue queue') \<and>
      work_left (plan_of queue) (sched_of queue') < work_left (plan_of queue) (sched_of queue)"
    using BuildLoop_iteration_cases [OF th, of sig t] iterate.hyps(3) by auto
  then show ?case by (rule step_effect)
next
  case (checked t thr i queue signature missing queue' s thr' sig)
  have th: "threads_ok queue thr" using checked.prems by (simp add: sys_ok_def)
  have i: "i \<notin> running thr" "i < length (q_NodeState queue)" "place_of (node queue i) = Held" "ns_Progress (node queue i) = kUnblocked"
    using sys_ok_running [OF th checked.hyps(1)] th checked.hyps(1,2) by (auto simp: threads_ok_def)
  have "queue' = queue \<or> (\<exists>x. frame x queue queue') \<and>
      work_left (plan_of queue) (sched_of queue') < work_left (plan_of queue) (sched_of queue)"
    using ResumeCheck_ok [of "running thr" queue i signature missing] th i checked.hyps(3)
    by (auto simp: threads_ok_def)
  then show ?case by (rule step_effect)
next
  case (ran t thr i queue outcome queue' s thr' sig)
  have th: "threads_ok queue thr" using ran.prems by (simp add: sys_ok_def)
  have i: "i \<in> running thr" "ns_Progress (node queue i) = kRunAction"
    using sys_ok_running [OF th ran.hyps(1)] th ran.hyps(1,2) by (auto simp: threads_ok_def)
  have "queue' = queue \<or> (\<exists>x. frame x queue queue') \<and>
      work_left (plan_of queue) (sched_of queue') < work_left (plan_of queue) (sched_of queue)"
    using ResumeRun_ok [of "running thr" queue i outcome] th i ran.hyps(3) by (auto simp: threads_ok_def)
  then show ?case by (rule step_effect)
qed simp

lemma build_steps_finished:
  assumes "build_step\<^sup>*\<^sup>* sys sys'" "sys_ok sys"
  shows "same_tables (bs_queue sys) (bs_queue sys')"
    "place_of (node (bs_queue sys) i) = Finished \<Longrightarrow> place_of (node (bs_queue sys') i) = Finished \<and>
       ns_BuildResult (node (bs_queue sys') i) = ns_BuildResult (node (bs_queue sys) i)"
proof -
  have "same_tables (bs_queue sys) (bs_queue sys') \<and> (place_of (node (bs_queue sys) i) = Finished \<longrightarrow>
      place_of (node (bs_queue sys') i) = Finished \<and>
       ns_BuildResult (node (bs_queue sys') i) = ns_BuildResult (node (bs_queue sys) i))"
    using assms(1)
  proof (induction rule: rtranclp_induct)
    case (step y z)
    have "sys_ok y" using build_steps_ok step.hyps(1) assms(2) by blast
    note w = build_step_work [OF step.hyps(2) this]
    then show ?case using step.IH same_tables_trans by auto
  qed simp
  then show "same_tables (bs_queue sys) (bs_queue sys')"
    "place_of (node (bs_queue sys) i) = Finished \<Longrightarrow> place_of (node (bs_queue sys') i) = Finished \<and>
       ns_BuildResult (node (bs_queue sys') i) = ns_BuildResult (node (bs_queue sys) i)" by blast+
qed

lemma run_work:
  assumes "\<And>k. build_step (f k) (f (Suc k))" "sys_ok (f 0)"
  shows "card {k. k < N \<and> sched_of (bs_queue (f (Suc k))) \<noteq> sched_of (bs_queue (f k))} +
     work_left (plan_of (bs_queue (f 0))) (sched_of (bs_queue (f N))) \<le>
     work_left (plan_of (bs_queue (f 0))) (sched_of (bs_queue (f 0)))"
proof (induction N)
  case (Suc N)
  let ?C = "\<lambda>N. {k. k < N \<and> sched_of (bs_queue (f (Suc k))) \<noteq> sched_of (bs_queue (f k))}"
  have reach: "build_step\<^sup>*\<^sup>* (f 0) (f N)" by (induction N) (auto intro: rtranclp.rtrancl_into_rtrancl assms(1))
  then have ok: "sys_ok (f N)" using build_steps_ok assms(2) by blast
  have pl: "plan_of (bs_queue (f N)) = plan_of (bs_queue (f 0))"
    using build_steps_finished(1) [OF reach assms(2)] by (rule same_tables_plan)
  have "?C (Suc N) = (if sched_of (bs_queue (f (Suc N))) \<noteq> sched_of (bs_queue (f N)) then insert N (?C N) else ?C N)"
    by (auto simp: less_Suc_eq)
  then have "card (?C (Suc N)) = card (?C N) + (if sched_of (bs_queue (f (Suc N))) \<noteq> sched_of (bs_queue (f N)) then 1 else 0)"
    by simp
  then show ?case using build_step_work [OF assms(1) ok] Suc.IH unfolding pl by (auto split: if_splits)
qed simp

lemma run_stabilises:
  assumes "\<And>k. build_step (f k) (f (Suc k))" "sys_ok (f 0)"
  shows "finite {k. sched_of (bs_queue (f (Suc k))) \<noteq> sched_of (bs_queue (f k))}"
    "card {k. sched_of (bs_queue (f (Suc k))) \<noteq> sched_of (bs_queue (f k))} \<le> 10 * length (q_NodeState (bs_queue (f 0)))"
proof -
  let ?P = "\<lambda>k. sched_of (bs_queue (f (Suc k))) \<noteq> sched_of (bs_queue (f k))"
  let ?b = "10 * length (q_NodeState (bs_queue (f 0)))"
  have b: "card {k. k < N \<and> ?P k} \<le> ?b" for N
    using run_work [OF assms, of N] work_left_le [of "plan_of (bs_queue (f 0))" "sched_of (bs_queue (f 0))"] by simp
  have sub: "card S \<le> ?b" if S: "S \<subseteq> {k. ?P k}" "finite S" for S
  proof -
    have "S \<subseteq> {k. k < Suc (Max S) \<and> ?P k}" using S by (auto simp: less_Suc_eq_le)
    then have "card S \<le> card {k. k < Suc (Max S) \<and> ?P k}" by (intro card_mono) auto
    then show ?thesis using b le_trans by blast
  qed
  show fin: "finite {k. ?P k}"
    using finite_if_finite_subsets_card_bdd [of "{k. ?P k}" ?b] sub by blast
  show "card {k. ?P k} \<le> ?b" using sub [OF _ fin] by simp
qed

end
