(* ===== verification/T2_BuildPasses.thy ===== *)
theory T2_BuildPasses
  imports T2_BuildThreads
begin

text \<open>
  Building pass after pass: \<open>BuildQueueInit\<close> and \<open>BuildQueueBuildNodeRange\<close> establish the
  invariants of the queue and of the threads, and a pass that ends well leaves the queue
  ready for the next. The second half states what follows for every execution of a pass.
\<close>

section \<open>Starting a pass\<close>

text \<open>What \<open>init_range\<close> leaves behind.\<close>

definition range_queued :: "BuildQueue \<Rightarrow> nat \<Rightarrow> nat set \<Rightarrow> BuildQueue \<Rightarrow> bool" where
  "range_queued queue start J queue' \<longleftrightarrow>
     (\<forall>j. node queue' j = (if j \<in> (+) start ` J then NodeStateFlagQueued (node queue j) else node queue j)) \<and>
     (\<forall>l < length (q_Queue queue). q_Queue queue' ! l = (if l \<in> J then start + l else q_Queue queue ! l)) \<and>
     length (q_Queue queue') = length (q_Queue queue) \<and> length (q_NodeState queue') = length (q_NodeState queue) \<and>
     queue' = queue\<lparr>q_NodeState := q_NodeState queue', q_Queue := q_Queue queue'\<rparr>"

lemma init_range_ok:
  assumes "distinct js" "\<forall>i \<in> set js. start + i < length (q_NodeState queue) \<and> i < length (q_Queue queue) \<and>
      ns_Progress (node queue (start + i)) = kInitial"
  shows "\<exists>queue'. init_range queue start js = Some queue' \<and> range_queued queue start (set js) queue'"
  using assms
proof (induction js arbitrary: queue)
  case Nil
  then show ?case by (simp add: range_queued_def)
next
  case (Cons i js)
  let ?s = "start + i"
  let ?q = "set_node queue ?s (NodeStateFlagQueued (node queue ?s))"
  let ?q1 = "?q\<lparr>q_Queue := (q_Queue queue)[i := ?s]\<rparr>"
  have n: "node ?q1 j = (if j = ?s then NodeStateFlagQueued (node queue j) else node queue j)" for j
    using Cons.prems by (simp add: node_def set_node_def)
  have "\<exists>queue'. init_range ?q1 start js = Some queue' \<and> range_queued ?q1 start (set js) queue'"
    using Cons.prems by (intro Cons.IH) (auto simp: n)
  then obtain queue' where q': "init_range ?q1 start js = Some queue'" "range_queued ?q1 start (set js) queue'" by blast
  have eq: "queue' = queue\<lparr>q_NodeState := q_NodeState queue', q_Queue := q_Queue queue'\<rparr>"
  proof -
    have "queue' = ?q1\<lparr>q_NodeState := q_NodeState queue', q_Queue := q_Queue queue'\<rparr>"
      using q'(2) by (simp only: range_queued_def)
    also have "\<dots> = queue\<lparr>q_NodeState := q_NodeState queue', q_Queue := q_Queue queue'\<rparr>" by (simp add: set_node_def)
    finally show ?thesis .
  qed
  have "node queue' j = (if j \<in> (+) start ` set (i # js) then NodeStateFlagQueued (node queue j) else node queue j)" for j
    using q'(2) Cons.prems(1) n [of j] by (auto simp: range_queued_def)
  moreover have "q_Queue queue' ! l = (if l \<in> set (i # js) then start + l else q_Queue queue ! l)" if "l < length (q_Queue queue)" for l
    using q'(2) that by (auto simp: range_queued_def nth_list_update)
  moreover have "length (q_Queue queue') = length (q_Queue queue)" "length (q_NodeState queue') = length (q_NodeState queue)"
    using q'(2) by (simp_all add: range_queued_def)
  ultimately have "range_queued queue start (set (i # js)) queue'" using eq by (simp only: range_queued_def) blast
  then show ?case using q'(1) Cons.prems(2) by (auto simp: Let_def)
qed

text \<open>The state of the queue before the pass with nodes \<open>start\<close> to \<open>start + m\<close> is built.\<close>

definition untouched :: "NodeState \<Rightarrow> bool" where
  "untouched st \<longleftrightarrow> \<not> NodeStateIsQueued st \<and> \<not> NodeStateIsActive st \<and> ns_Progress st = kInitial"

lemma dep_pass:
  "cfg_ok queue \<Longrightarrow> i < length (q_NodeState queue) \<Longrightarrow> j \<in> set (dep_states queue i) \<Longrightarrow>
   nd_PassIndex (node_data queue j) \<le> nd_PassIndex (node_data queue i)"
  by (auto simp: cfg_ok_def plan_ok_def)

lemma untouched_place: "untouched st \<Longrightarrow> place_of st = Idle"
  by (simp add: untouched_def place_of_def)

definition pass_ready :: "BuildQueue \<Rightarrow> nat \<Rightarrow> nat \<Rightarrow> int \<Rightarrow> bool" where
  "pass_ready queue start m p \<longleftrightarrow> cfg_ok (queue\<lparr>q_CurrentPassIndex := p\<rparr>) \<and>
     (\<exists>k. cap queue = 2 ^ k) \<and> length (q_Queue queue) = cap queue \<and>
     q_MaxNodes queue = length (q_NodeState queue) \<and> start + m \<le> q_MaxNodes queue \<and>
     q_ExpensiveWaitCount queue = 0 \<and> q_ExpensiveRunning queue = 0 \<and>
     (\<forall>i < length (q_NodeState queue).
        (i < start \<longrightarrow> place_of (node queue i) = Finished \<and> nd_PassIndex (node_data queue i) < p) \<and>
        (start \<le> i \<and> i < start + m \<longrightarrow> untouched (node queue i) \<and> nd_PassIndex (node_data queue i) = p) \<and>
        (start + m \<le> i \<longrightarrow> untouched (node queue i) \<and> p < nd_PassIndex (node_data queue i)))"

lemma pass_begins:
  assumes "pass_ready queue start m p"
  shows "\<exists>queue'. BuildQueueBuildNodeRange_begin queue start m p = Some queue' \<and> qinv {} {} 0 queue' \<and>
     q_Broadcast queue' \<and> (\<forall>i < length (q_NodeState queue'). place_of (node queue' i) \<noteq> Held) \<and>
     same_tables (queue\<lparr>q_CurrentPassIndex := p\<rparr>) queue' \<and>
     (\<forall>i < start. place_of (node queue' i) = Finished \<and> ns_BuildResult (node queue' i) = ns_BuildResult (node queue i))"
proof -
  let ?q = "queue\<lparr>q_CurrentPassIndex := p\<rparr>" and ?n = "length (q_NodeState queue)"
  have cfg: "cfg_ok ?q" and cap: "length (q_Queue queue) = cap queue" and nn: "start + m \<le> ?n"
    using assms by (auto simp: pass_ready_def)
  have small: "?n < cap queue" using cfg by (simp add: cfg_ok_def cap_def)
  have nodes: "untouched (node queue i)" "nd_PassIndex (node_data queue i) = p" if "start \<le> i" "i < start + m" for i
    using assms that nn by (auto simp: pass_ready_def)
  have before: "place_of (node queue i) = Finished" "nd_PassIndex (node_data queue i) < p" if "i < start" for i
    using assms that nn by (auto simp: pass_ready_def)
  have later: "untouched (node queue i)" "p < nd_PassIndex (node_data queue i)" if "start + m \<le> i" "i < ?n" for i
    using assms that nn by (auto simp: pass_ready_def)
  have nq: "node ?q = node queue" by (simp add: node_def fun_eq_iff)
  have "\<forall>i \<in> set [0..<m]. start + i < length (q_NodeState ?q) \<and> i < length (q_Queue ?q) \<and>
      ns_Progress (node ?q (start + i)) = kInitial"
    using nn small cap nodes(1) by (auto simp: nq untouched_def)
  from init_range_ok [OF _ this] obtain q1 where rq: "init_range ?q start [0..<m] = Some q1"
    "range_queued ?q start {0..<m} q1"
    by auto
  have q1: "\<And>j. node q1 j = (if j \<in> (+) start ` {0..<m} then NodeStateFlagQueued (node queue j) else node queue j)"
    "\<And>i. i < cap queue \<Longrightarrow> i < m \<Longrightarrow> q_Queue q1 ! i = start + i" "length (q_Queue q1) = cap queue"
    "length (q_NodeState q1) = ?n" "q1 = ?q\<lparr>q_NodeState := q_NodeState q1, q_Queue := q_Queue q1\<rparr>"
    using rq(2) by (simp_all add: range_queued_def nq cap)
  define q2 where "q2 = CondBroadcast (q1\<lparr>q_PendingNodeCount := int m, q_FailedNodeCount := 0,
       q_QueueWriteIndex := of_nat m, q_QueueReadIndex := 0\<rparr>)"
  have begin': "BuildQueueBuildNodeRange_begin queue start m p = Some q2"
    using assms rq(1) by (simp add: BuildQueueBuildNodeRange_begin_def q2_def pass_ready_def)
  have in_range: "j \<in> (+) start ` {0..<m} \<longleftrightarrow> start \<le> j \<and> j < start + m" for j
    by (simp add: add.commute)
  have n2: "node q2 j = (if start \<le> j \<and> j < start + m then NodeStateFlagQueued (node queue j) else node queue j)" for j
    using q1(1) [of j] in_range [of j] by (simp add: q2_def) (simp add: node_def)
  have f2: "q_QueueCapacity q2 = q_QueueCapacity queue" "q_NodeData q2 = q_NodeData queue"
    "length (q_NodeState q2) = ?n" "q_NodeRemappingTable q2 = q_NodeRemappingTable queue"
    "q_MaxExpensiveCount q2 = q_MaxExpensiveCount queue" "q_CurrentPassIndex q2 = p"
    "q_ExpensiveWaitList q2 = q_ExpensiveWaitList queue" "q_ContinueOnError q2 = q_ContinueOnError queue"
    "q_QuitSignalled q2 = q_QuitSignalled queue" "q_ExpensiveRunning q2 = q_ExpensiveRunning queue"
    "q_ExpensiveWaitCount q2 = q_ExpensiveWaitCount queue" "q_Queue q2 = q_Queue q1"
    "q_PendingNodeCount q2 = int m" "q_FailedNodeCount q2 = 0" "q_QueueReadIndex q2 = 0"
    "q_QueueWriteIndex q2 = of_nat m" "q_MaxNodes q2 = q_MaxNodes queue"
    unfolding q2_def CondBroadcast_def using q1(4) by (subst q1(5), simp)+
  have st: "same_tables ?q q2"
    using f2 by (auto simp: same_tables_def n2 nq)
  have cap2: "cap q2 = cap queue" using f2(1) by (simp add: cap_def)
  have "cap queue < 2 ^ 32" using unsigned_less [of "q_QueueCapacity queue", where ?'a = nat] by (simp add: cap_def)
  then have um: "unat (of_nat m :: u32) = m" using nn small by (simp add: unat_of_nat take_bit_nat_eq_self)
  have wf: "ring_wf q2"
    using assms q1(3) nn small by (auto simp: ring_wf_def cap2 f2 um pass_ready_def)
  have av: "avail q2 = m" using nn small by (simp add: avail_eq [OF wf] f2 um cap2)
  have ring: "ring_list q2 = [start..<start + m]"
    using nn small q1(2) by (intro nth_equalityI) (simp_all add: av ring_list_def f2 cap2)
  have tables: "plan_of q2 = plan_of ?q" "cfg_ok q2" "node_data q2 = node_data ?q"
    using same_tables_plan [OF st] cfg by auto
  have nd: "node_data ?q = node_data queue" by (simp add: node_data_def node_def fun_eq_iff)
  have places: "place_of (node q2 i) = (if i < start then Finished else if i < start + m then InRing else Idle)" if "i < ?n" for i
    using before(1) untouched_place [OF nodes(1)] untouched_place [OF later(1)] that
    by (auto simp: n2 place_of_FlagQueued)
  have progs: "ns_Progress (node q2 i) = (if i < start then kCompleted else kInitial)" if "i < ?n" for i
  proof (cases "i < start")
    case True
    then show ?thesis using before(1) [of i]
      by (auto simp: n2 place_of_def NodeStateIsCompleted_def split: if_splits)
  next
    case False
    then show ?thesis using nodes(1) later(1) that by (cases "i < start + m") (auto simp: n2 untouched_def)
  qed
  have pass: "nd_PassIndex (node_data q2 i) = nd_PassIndex (node_data queue i)" for i by (simp add: tables nd)
  have deps: "j < start" if "i < start" "j \<in> set (dep_states q2 i)" for i j
  proof -
    have "i < length (q_NodeState q2)" using that(1) nn f2(3) by simp
    then have "j < ?n" "nd_PassIndex (node_data q2 j) \<le> nd_PassIndex (node_data q2 i)"
      using dep_in_range [OF tables(2)] dep_pass [OF tables(2)] that(2) f2(3) by auto
    then show ?thesis using before(2) [OF that(1)] nodes(2) [of j] later(2) [of j] pass by (cases "j < start"; cases "j < start + m") auto
  qed
  have cur: "q_CurrentPassIndex q2 = p" by (rule f2)
  have layout: "place_of (node q2 i) = Finished \<and> nd_PassIndex (node_data queue i) < p \<and> i < start \<or>
      place_of (node q2 i) = InRing \<and> nd_PassIndex (node_data queue i) = p \<and> start \<le> i \<and> i < start + m \<or>
      place_of (node q2 i) = Idle \<and> p < nd_PassIndex (node_data queue i) \<and> start + m \<le> i" if "i < ?n" for i
    using places [OF that] before(2) [of i] nodes(2) [of i] later(2) [of i] that
    by (cases "i < start"; cases "i < start + m") simp_all
  have pok: "place_ok (s_place (sched_of q2) i) (plan_of q2) {} (sched_of q2) i" if "i < ?n" for i
  proof -
    have fin: "place_of (node q2 j) = Finished" if "j < start" for j
      using places [of j] that nn by simp
    have "s_ready (plan_of q2) (sched_of q2) i" if "i < start"
      using deps [OF that] fin by (simp add: s_ready_def)
    then show ?thesis using layout [OF that] progs [OF that] by (auto simp: cur pass)
  qed
  have "i \<in> unfinished (plan_of q2) (sched_of q2) \<longleftrightarrow> i \<in> {start..<start + m}"
      "i \<notin> failures (plan_of q2) (sched_of q2)" for i
    using layout [of i] nn f2(3) by (cases "i < ?n"; auto simp: unfinished_def failures_def cur pass)+
  then have "unfinished (plan_of q2) (sched_of q2) = {start..<start + m}" "failures (plan_of q2) (sched_of q2) = {}"
    by blast+
  moreover have "{i. i < ?n \<and> place_of (node q2 i) = InRing} = {start..<start + m}"
      "{i. i < ?n \<and> place_of (node q2 i) = Parked} = {}"
    using places nn by (auto split: if_splits)
  moreover have "s_parked (sched_of q2) = []" "q_ExpensiveRunning q2 = 0" "q_MaxExpensiveCount q2 \<ge> 1"
    using assms f2 tables(2) by (auto simp: sched_of_def pass_ready_def cfg_ok_def plan_ok_def)
  ultimately have "sinv (plan_of q2) {} {} 0 (sched_of q2)"
    using f2 pok by (simp add: sinv_def ring)
  moreover have "q_ExpensiveWaitCount q2 \<le> cap q2" using f2 assms by (simp add: pass_ready_def)
  ultimately have "qinv {} {} 0 q2" using tables wf by (simp add: qinv_def)
  moreover have "q_Broadcast q2" by (simp add: q2_def)
  moreover have "\<forall>i < length (q_NodeState q2). place_of (node q2 i) \<noteq> Held" using places f2 by simp
  moreover have "\<forall>i < start. place_of (node q2 i) = Finished \<and> ns_BuildResult (node q2 i) = ns_BuildResult (node queue i)"
    using before(1) by (simp add: n2)
  ultimately show ?thesis using begin' st by blast
qed

lemma pass_begins_sys:
  assumes "qinv {} {} 0 queue" "\<forall>i < length (q_NodeState queue). place_of (node queue i) \<noteq> Held"
    "thr \<noteq> []" "\<forall>th \<in> set thr. th = Ready"
  shows "sys_ok \<lparr>bs_queue = clear_wakeups queue, bs_threads = thr, bs_signalled = sig\<rparr>"
proof -
  have rd: "thr ! t = Ready" if "t < length thr" for t using assms(4) that nth_mem by blast
  have "running thr = {}" using assms(4) by (auto simp: running_def)
  then have "threads_ok queue thr" using assms(1,2) rd by (simp add: threads_ok_def)
  moreover have "thr ! 0 \<noteq> Waiting" using rd [of 0] assms(3) by simp
  moreover have "Waiting \<notin> set thr" using assms(4) by blast
  moreover have "thr ! t \<noteq> Exited" if "t < length thr" for t using rd [OF that] by simp
  ultimately show ?thesis using assms(3) by (simp add: sys_ok_def threads_ok_clear)
qed

lemma pass_cur [simp]:
  "cap (queue\<lparr>q_CurrentPassIndex := p\<rparr>) = cap queue"
  "node (queue\<lparr>q_CurrentPassIndex := p\<rparr>) = node queue"
  "node_data (queue\<lparr>q_CurrentPassIndex := p\<rparr>) = node_data queue"
  "dep_states (queue\<lparr>q_CurrentPassIndex := p\<rparr>) = dep_states queue"
  "plan_ok (plan_of (queue\<lparr>q_CurrentPassIndex := p\<rparr>)) = plan_ok (plan_of queue)"
proof -
  show n: "node (queue\<lparr>q_CurrentPassIndex := p\<rparr>) = node queue" by (simp add: node_def fun_eq_iff)
  show d: "node_data (queue\<lparr>q_CurrentPassIndex := p\<rparr>) = node_data queue" by (simp add: node_data_def n fun_eq_iff)
  show "dep_states (queue\<lparr>q_CurrentPassIndex := p\<rparr>) = dep_states queue" by (simp add: dep_states_def d fun_eq_iff)
  then show "plan_ok (plan_of (queue\<lparr>q_CurrentPassIndex := p\<rparr>)) = plan_ok (plan_of queue)"
    by (simp add: plan_ok_def d)
qed (simp add: cap_def)

lemma cfg_ok_cur [simp]: "cfg_ok (queue\<lparr>q_CurrentPassIndex := p\<rparr>) = cfg_ok queue"
  by (simp add: cfg_ok_def)

text \<open>A pass that ends well leaves the queue ready for the next one.\<close>

lemma pass_chain:
  assumes "sys_ok \<lparr>bs_queue = queue, bs_threads = thr, bs_signalled = sig\<rparr>" "thr ! 0 = Exited"
    "\<not> q_QuitSignalled queue" "BuildQueueBuildNodeRange_result queue sig = kOk"
    "q_MaxNodes queue = length (q_NodeState queue)" "start + m \<le> q_MaxNodes queue"
    "\<And>i. i < length (q_NodeState queue) \<Longrightarrow>
       (i < start \<longrightarrow> nd_PassIndex (node_data queue i) \<le> q_CurrentPassIndex queue) \<and>
       (start \<le> i \<and> i < start + m \<longrightarrow> nd_PassIndex (node_data queue i) = p) \<and>
       (start + m \<le> i \<longrightarrow> p < nd_PassIndex (node_data queue i))"
    "q_CurrentPassIndex queue < p"
  shows "pass_ready queue start m p"
proof -
  have th: "qinv (running thr) {} 0 queue" using assms(1) by (simp add: sys_ok_def threads_ok_def)
  note q = qinvD [OF th]
  have fin: "place_of (node queue i) = Finished" if "i < length (q_NodeState queue)" "nd_PassIndex (node_data queue i) \<le> q_CurrentPassIndex queue" for i
  proof (cases "nd_PassIndex (node_data queue i) = q_CurrentPassIndex queue")
    case True
    have "NodeStateIsCompleted (node queue i)"
      using finished_pass(1) [OF assms(1-4) that(1) True] by (simp add: NodeStateIsCompleted_def)
    then show ?thesis using completed_finished [OF th that(1)] by simp
  next
    case False
    then show ?thesis using qinv_place_ok [OF th that(1)] that(2) by (cases "place_of (node queue i)") auto
  qed
  have unt: "untouched (node queue i)" if "i < length (q_NodeState queue)" "q_CurrentPassIndex queue < nd_PassIndex (node_data queue i)" for i
  proof -
    have "place_of (node queue i) = Idle" "ns_Progress (node queue i) = kInitial"
      using qinv_place_ok [OF th that(1)] that(2) by (cases "place_of (node queue i)"; auto)+
    then show ?thesis by (auto simp: untouched_def place_of_def split: if_splits)
  qed
  have "set (s_parked (sched_of queue)) = {}" "running thr = {}"
  proof -
    have "place_of (node queue i) \<noteq> Parked \<and> place_of (node queue i) \<noteq> Held" if "i < length (q_NodeState queue)" for i
      using fin [OF that] qinv_place_ok [OF th that] by (cases "place_of (node queue i)") auto
    then show "set (s_parked (sched_of queue)) = {}" "running thr = {}" using q(4) by (auto simp: sinv_def)
  qed
  then have none: "q_ExpensiveWaitCount queue = 0" "q_ExpensiveRunning queue = 0"
    using q(1,3,4) by (auto simp: sinv_def sched_of_def cfg_ok_def)
  have lay: "(i < start \<longrightarrow> place_of (node queue i) = Finished \<and> nd_PassIndex (node_data queue i) < p) \<and>
      (start \<le> i \<and> i < start + m \<longrightarrow> untouched (node queue i) \<and> nd_PassIndex (node_data queue i) = p) \<and>
      (start + m \<le> i \<longrightarrow> untouched (node queue i) \<and> p < nd_PassIndex (node_data queue i))" if "i < length (q_NodeState queue)" for i
    using assms(7) [OF that] fin [OF that] unt [OF that] assms(8) by auto
  then show ?thesis using q(1,2) assms(5,6) none by (simp add: pass_ready_def ring_wf_def)
qed

section \<open>Creating the queue\<close>

text \<open>
  What the tables passed in \<open>BuildQueueConfig\<close> have to satisfy: the remapping table is
  inverse to the node data pointers of the selected nodes, the dependencies of a selected
  node are selected and lie in no later pass, the back links contain the dependents,
  dependencies have no cycle, and an expensive node has a command line.
\<close>

definition config_ok :: "NodeData list \<Rightarrow> NodeState list \<Rightarrow> int list \<Rightarrow> bool" where
  "config_ok nodes states remap \<longleftrightarrow> length remap = length nodes \<and> length states < 2 ^ 31 \<and>
     (\<forall>i < length states. ns_MmapData (states ! i) < length nodes \<and> remap ! ns_MmapData (states ! i) = int i) \<and>
     (\<forall>d < length nodes. remap ! d = - 1 \<or> 0 \<le> remap ! d \<and> nat (remap ! d) < length states \<and>
        ns_MmapData (states ! nat (remap ! d)) = d) \<and>
     (\<forall>i < length states. \<forall>d \<in> set (nd_Dependencies (nodes ! ns_MmapData (states ! i))).
        d < length nodes \<and> remap ! d \<noteq> - 1 \<and> nd_PassIndex (nodes ! d) \<le> nd_PassIndex (nodes ! ns_MmapData (states ! i)) \<and>
        ns_MmapData (states ! i) \<in> set (nd_BackLinks (nodes ! d))) \<and>
     (\<forall>i < length states. \<forall>b \<in> set (nd_BackLinks (nodes ! ns_MmapData (states ! i))). b < length nodes) \<and>
     (\<exists>rank :: nat \<Rightarrow> nat. \<forall>i < length states.
        \<forall>d \<in> set (nd_Dependencies (nodes ! ns_MmapData (states ! i))). rank d < rank (ns_MmapData (states ! i))) \<and>
     (\<forall>i < length states. is_expensive (nodes ! ns_MmapData (states ! i)) \<longrightarrow>
        \<not> empty_action (nodes ! ns_MmapData (states ! i)))"

lemma capacity_ok:
  assumes "n < 2 ^ 31"
  shows "\<exists>k. unat (NextPowerOfTwo (of_nat (n + 1))) = 2 ^ k" "n < unat (NextPowerOfTwo (of_nat (n + 1)))"
proof -
  let ?v = "of_nat (n + 1) :: u32"
  have u: "unat ?v = n + 1" using assms by (simp only: unat_of_nat) (simp add: take_bit_nat_eq_self)
  then have "?v \<noteq> 0" by (metis add_is_0 one_neq_zero unat_0)
  then obtain k where k: "k \<le> 31" "NextPowerOfTwo ?v = 2 ^ k" "unat ?v \<le> 2 ^ k"
    using NextPowerOfTwo_mask [of ?v] u assms by auto
  have "(2::nat) ^ k < 2 ^ 32" using k(1) by (intro power_strict_increasing) simp_all
  then have "unat (word_of_nat (2 ^ k) :: u32) = 2 ^ k" by (simp only: unat_of_nat) simp
  then have "unat (2 ^ k :: u32) = 2 ^ k" by simp
  then show "\<exists>k. unat (NextPowerOfTwo ?v) = 2 ^ k" "n < unat (NextPowerOfTwo ?v)" using k u by auto
qed

lemma init_pass_ready:
  assumes "config_ok nodes states remap" "0 < max_expensive" "max_expensive \<le> threads"
    "start + m \<le> length states" "start = 0"
    "\<And>i. i < length states \<Longrightarrow> untouched (states ! i)"
    "\<And>i. i < length states \<Longrightarrow> (i < m \<longrightarrow> nd_PassIndex (nodes ! ns_MmapData (states ! i)) = p) \<and>
       (m \<le> i \<longrightarrow> p < nd_PassIndex (nodes ! ns_MmapData (states ! i)))"
  shows "\<exists>queue. BuildQueueInit coe threads nodes states remap max_expensive = Some queue \<and> pass_ready queue 0 m p"
proof -
  obtain queue where q: "BuildQueueInit coe threads nodes states remap max_expensive = Some queue"
    using assms(2,3) by (simp add: BuildQueueInit_def Let_def)
  define c where "c = NextPowerOfTwo (of_nat (length states + 1))"
  have f: "q_QueueCapacity queue = c" "q_NodeData queue = nodes" "q_NodeState queue = states"
    "q_NodeRemappingTable queue = remap" "q_MaxExpensiveCount queue = max_expensive"
    "q_ExpensiveWaitList queue = replicate (unat c) 0" "q_Queue queue = replicate (unat c) 0"
    "q_MaxNodes queue = length states" "q_ExpensiveWaitCount queue = 0" "q_ExpensiveRunning queue = 0"
    using q assms(2,3) by (auto simp: BuildQueueInit_def Let_def c_def)
  have small: "length states < 2 ^ 31" using assms(1) by (simp add: config_ok_def)
  have nd: "node queue i = states ! i" "node_data queue i = nodes ! ns_MmapData (states ! i)" for i
    by (simp_all add: node_def node_data_def f)
  have cap: "cap queue = unat c" by (simp add: cap_def f)
  have dep: "d < length nodes" "nat (remap ! d) < length states" "ns_MmapData (states ! nat (remap ! d)) = d"
    "nd_PassIndex (nodes ! d) \<le> nd_PassIndex (nodes ! ns_MmapData (states ! i))"
    if "i < length states" "d \<in> set (nd_Dependencies (nodes ! ns_MmapData (states ! i)))" for i d
    using assms(1) that unfolding config_ok_def by blast+
  have "\<exists>rank :: nat \<Rightarrow> nat. \<forall>i < length states.
      \<forall>d \<in> set (nd_Dependencies (nodes ! ns_MmapData (states ! i))). rank d < rank (ns_MmapData (states ! i))"
    using assms(1) by (simp add: config_ok_def)
  then obtain rank :: "nat \<Rightarrow> nat" where rank: "\<And>i d. i < length states \<Longrightarrow>
      d \<in> set (nd_Dependencies (nodes ! ns_MmapData (states ! i))) \<Longrightarrow> rank d < rank (ns_MmapData (states ! i))"
    by blast
  have "plan_ok (plan_of queue)"
    unfolding plan_ok_def
  proof (intro conjI)
    show "p_max (plan_of queue) \<ge> 1" using assms(2) by (simp add: f)
    show "\<forall>i < p_n (plan_of queue). \<forall>j \<in> p_deps (plan_of queue) i.
        j < p_n (plan_of queue) \<and> p_pass (plan_of queue) j \<le> p_pass (plan_of queue) i"
    proof (intro allI impI ballI)
      fix i j assume "i < p_n (plan_of queue)" "j \<in> p_deps (plan_of queue) i"
      then obtain d where i: "i < length states" and
          d: "d \<in> set (nd_Dependencies (nodes ! ns_MmapData (states ! i)))" "j = nat (remap ! d)"
        by (auto simp: dep_states_def nd f)
      show "j < p_n (plan_of queue) \<and> p_pass (plan_of queue) j \<le> p_pass (plan_of queue) i"
        using dep(2-4) [OF i d(1)] d(2) by (simp add: nd f)
    qed
    show "\<exists>rank :: nat \<Rightarrow> nat. \<forall>i < p_n (plan_of queue). \<forall>j \<in> p_deps (plan_of queue) i. rank j < rank i"
    proof (intro exI [of _ "\<lambda>i. rank (ns_MmapData (states ! i))"] allI impI ballI)
      fix i j assume "i < p_n (plan_of queue)" "j \<in> p_deps (plan_of queue) i"
      then obtain d where i: "i < length states" and
          d: "d \<in> set (nd_Dependencies (nodes ! ns_MmapData (states ! i)))" "j = nat (remap ! d)"
        by (auto simp: dep_states_def nd f)
      show "rank (ns_MmapData (states ! j)) < rank (ns_MmapData (states ! i))"
        using rank [OF i d(1)] dep(3) [OF i d(1)] d(2) by simp
    qed
  qed
  then have "cfg_ok queue"
    using assms(1) capacity_ok(2) [OF small] unfolding cfg_ok_def
    by (simp add: config_ok_def nd f cap c_def)
  moreover have "\<exists>k. cap queue = 2 ^ k" using capacity_ok(1) [OF small] by (simp add: cap c_def)
  moreover have "untouched (node queue i)" "i < m \<Longrightarrow> nd_PassIndex (node_data queue i) = p"
    "m \<le> i \<Longrightarrow> p < nd_PassIndex (node_data queue i)" if "i < length states" for i
    using assms(6) [OF that] assms(7) [OF that] by (auto simp: nd)
  ultimately have "pass_ready queue 0 m p" using assms(4,5) by (simp add: pass_ready_def f cap)
  then show ?thesis using q by blast
qed

section \<open>Executions of a pass\<close>

text \<open>
  \<open>sys\<close> is reached in the pass that \<open>BuildQueueBuildNodeRange\<close> starts on \<open>queue\<close>; the threads
  \<open>thr\<close> are all awake, because the function broadcasts before it enters \<open>BuildLoop\<close>.
\<close>

definition pass_start :: "BuildQueue \<Rightarrow> nat \<Rightarrow> nat \<Rightarrow> int \<Rightarrow> nat \<Rightarrow> build_sys option" where
  "pass_start queue start m p threads = do {
     queue \<leftarrow> BuildQueueBuildNodeRange_begin queue start m p;
     Some \<lparr>bs_queue = clear_wakeups queue, bs_threads = replicate threads Ready, bs_signalled = False\<rparr>
   }"

definition pass_reaches :: "BuildQueue \<Rightarrow> nat \<Rightarrow> nat \<Rightarrow> int \<Rightarrow> nat \<Rightarrow> build_sys \<Rightarrow> bool" where
  "pass_reaches queue start m p threads sys \<longleftrightarrow> pass_ready queue start m p \<and> threads > 0 \<and>
     (\<exists>sys0. pass_start queue start m p threads = Some sys0 \<and> build_step\<^sup>*\<^sup>* sys0 sys)"

lemma pass_start_ok:
  assumes "pass_ready queue start m p" "threads > 0"
  shows "\<exists>sys0. pass_start queue start m p threads = Some sys0 \<and> sys_ok sys0 \<and>
     same_tables (queue\<lparr>q_CurrentPassIndex := p\<rparr>) (bs_queue sys0) \<and>
     (\<forall>i < start. place_of (node (bs_queue sys0) i) = Finished \<and>
        ns_BuildResult (node (bs_queue sys0) i) = ns_BuildResult (node queue i))"
proof -
  obtain queue' where q: "BuildQueueBuildNodeRange_begin queue start m p = Some queue'" "qinv {} {} 0 queue'"
    "\<forall>i < length (q_NodeState queue'). place_of (node queue' i) \<noteq> Held"
    "same_tables (queue\<lparr>q_CurrentPassIndex := p\<rparr>) queue'"
    "\<forall>i < start. place_of (node queue' i) = Finished \<and> ns_BuildResult (node queue' i) = ns_BuildResult (node queue i)"
    using pass_begins [OF assms(1)] by blast
  have "node (clear_wakeups queue') i = node queue' i" for i by (simp add: node_def clear_wakeups_def)
  moreover have "same_tables queue' (clear_wakeups queue')" by simp
  then have "same_tables (queue\<lparr>q_CurrentPassIndex := p\<rparr>) (clear_wakeups queue')"
    using q(4) same_tables_trans by blast
  ultimately show ?thesis using q and pass_begins_sys [OF q(2,3), of "replicate threads Ready" False] assms(2)
    by (simp add: pass_start_def)
qed

lemma pass_reaches_ok:
  assumes "pass_reaches queue start m p threads sys" shows "sys_ok sys"
proof -
  obtain sys0 where "pass_start queue start m p threads = Some sys0" "build_step\<^sup>*\<^sup>* sys0 sys" "sys_ok sys0"
    using assms pass_start_ok [of queue start m p threads] by (auto simp: pass_reaches_def)
  then show ?thesis using build_steps_ok by blast
qed

lemma sys_okD: "sys_ok sys \<Longrightarrow> threads_ok (bs_queue sys) (bs_threads sys)"
  by (simp add: sys_ok_def)

lemma held_deps:
  assumes "threads_ok queue thr" "t < length thr" "holds (thr ! t) = Some i" "j \<in> set (dep_states queue i)"
  shows "NodeStateIsCompleted (node queue j)"
proof -
  have q: "qinv (running thr) {} 0 queue" using assms(1) by (simp add: threads_ok_def)
  have i: "i < length (q_NodeState queue)" "place_of (node queue i) = Held" "ns_Progress (node queue i) \<noteq> kInitial"
    using assms(1-3) by (cases "thr ! t"; fastforce simp: threads_ok_def)+
  have "s_ready (plan_of queue) (sched_of queue) i" using held_ready(2) [OF q i(1,2)] i(3) by blast
  then have "AllDependenciesReady queue i = Some True" using AllDependenciesReady_sched [OF q i(1)] by simp
  then show ?thesis using AllDependenciesReady_ok [OF qinvD(1) [OF q] i(1)] assms(4) by simp
qed

section \<open>Running a schedule\<close>

text \<open>
  A chosen interleaving as a list of events: thread \<open>t\<close> takes an iteration, comes back from
  \<open>CheckInputSignature\<close> or from \<open>RunAction\<close>. All waiting threads wake up after every event.
\<close>

datatype event = Iterate nat | Checked nat digest bool | Ran nat run_outcome

definition wake_all :: "thread list \<Rightarrow> thread list" where
  "wake_all thr = map (\<lambda>th. if th = Waiting then Ready else th) thr"

definition resume :: "build_sys \<Rightarrow> nat \<Rightarrow> (BuildQueue \<times> thread) option \<Rightarrow> bool \<Rightarrow> build_sys option" where
  "resume sys t r sig =
     map_option (\<lambda>(queue', th). \<lparr>bs_queue = clear_wakeups queue',
       bs_threads = wake_all ((bs_threads sys)[t := th]), bs_signalled = sig\<rparr>) r"

fun exec :: "build_sys \<Rightarrow> event \<Rightarrow> build_sys option" where
  "exec sys (Iterate t) =
     (if t < length (bs_threads sys) \<and> bs_threads sys ! t = Ready
      then resume sys t (BuildLoop_iteration (bs_queue sys) (bs_signalled sys) t) (bs_signalled sys) else None)"
| "exec sys (Checked t signature missing) =
     (if t < length (bs_threads sys) then
        (case bs_threads sys ! t of
           Checking i \<Rightarrow> resume sys t (map_option (\<lambda>(q, s). (q, thread_at s i))
             (ResumeCheck (bs_queue sys) i signature missing)) (bs_signalled sys)
         | _ \<Rightarrow> None) else None)"
| "exec sys (Ran t outcome) =
     (if t < length (bs_threads sys) then
        (case bs_threads sys ! t of
           Running i \<Rightarrow> resume sys t (map_option (\<lambda>(q, s). (q, thread_at s i))
             (ResumeRun (bs_queue sys) i outcome)) (bs_signalled sys \<or> signals_build outcome)
         | _ \<Rightarrow> None) else None)"

fun exec_all :: "build_sys \<Rightarrow> event list \<Rightarrow> build_sys option" where
  "exec_all sys [] = Some sys"
| "exec_all sys (e # es) = do { sys \<leftarrow> exec sys e; exec_all sys es }"

lemma woken_wake_all: "woken queue thr (wake_all thr)"
  by (auto simp: woken_def wake_all_def list_all2_conv_all_nth in_set_conv_nth map_eq_conv map_idI
      split: if_splits dest: map_eq_imp_length_eq)
    (metis (mono_tags, lifting) nth_map thread.distinct(1))

lemma exec_step: "exec sys e = Some sys' \<Longrightarrow> build_step sys sys'"
proof (cases sys)
  case (fields queue thr sig)
  assume e: "exec sys e = Some sys'"
  show ?thesis
  proof (cases e)
    case (Iterate t)
    then show ?thesis using e fields build_step.iterate [OF _ _ _ woken_wake_all]
      by (auto simp: resume_def split: if_splits)
  next
    case (Checked t signature missing)
    then show ?thesis using e fields build_step.checked [OF _ _ _ woken_wake_all]
      by (cases signature) (auto simp: resume_def split: if_splits thread.splits)
  next
    case (Ran t outcome)
    then show ?thesis using e fields build_step.ran [OF _ _ _ woken_wake_all]
      by (auto simp: resume_def split: if_splits thread.splits)
  qed
qed

lemma exec_all_steps: "exec_all sys es = Some sys' \<Longrightarrow> build_step\<^sup>*\<^sup>* sys sys'"
  by (induction es arbitrary: sys)
    (auto simp: bind_eq_Some_conv intro: converse_rtranclp_into_rtranclp exec_step)

lemma exec_all_reaches:
  "pass_reaches queue start m p threads sys \<Longrightarrow> exec_all sys es = Some sys' \<Longrightarrow>
   pass_reaches queue start m p threads sys'"
  using exec_all_steps rtranclp_trans by (fastforce simp: pass_reaches_def)

lemma interrupt_step: "build_step sys (sys\<lparr>bs_signalled := True\<rparr>)"
proof (cases sys)
  case (fields queue thr sig)
  show ?thesis unfolding fields using build_step.interrupt [of thr thr queue sig] by (simp add: list.rel_refl)
qed

section \<open>An example configuration\<close>

text \<open>Two nodes in one pass, the second depends on the first; the first is expensive.\<close>

definition ex_node :: NodeData where
  "ex_node = \<lparr>nd_Action = Some ''cc'', nd_PreAction = None, nd_Annotation = None, nd_PassIndex = 0,
     nd_Dependencies = [], nd_BackLinks = [1], nd_InputFiles = [], nd_OutputFiles = [], nd_AuxOutputFiles = [],
     nd_EnvVars = [], nd_Scanner = None, nd_Flags = kFlagExpensive\<rparr>"

definition ex_nodes :: "NodeData list" where
  "ex_nodes = [ex_node, ex_node\<lparr>nd_Dependencies := [0], nd_BackLinks := [], nd_Flags := 0\<rparr>]"

definition ex_state :: NodeState where
  "ex_state = \<lparr>ns_Flags = 0, ns_PassIndex = 0, ns_Progress = kInitial, ns_MmapData = 0, ns_MmapState = None,
     ns_BuildResult = 0, ns_InputSignature = (0, 0)\<rparr>"

definition ex_states :: "NodeState list" where
  "ex_states = [ex_state, ex_state\<lparr>ns_MmapData := 1\<rparr>]"

definition ex_queue :: BuildQueue where
  "ex_queue = the (BuildQueueInit False 2 ex_nodes ex_states [0, 1] 1)"

definition ex_sys :: build_sys where
  "ex_sys = the (pass_start ex_queue 0 2 0 2)"

lemma ex_nth: "i < length ex_states \<Longrightarrow> i = 0 \<or> i = 1" "length ex_states = 2" "length ex_nodes = 2"
  "ex_states ! 0 = ex_state" "ex_states ! 1 = ex_state\<lparr>ns_MmapData := 1\<rparr>" "ex_states ! Suc 0 = ex_state\<lparr>ns_MmapData := 1\<rparr>"
  "ex_nodes ! 0 = ex_node" "ex_nodes ! 1 = ex_node\<lparr>nd_Dependencies := [0], nd_BackLinks := [], nd_Flags := 0\<rparr>"
  "ex_nodes ! Suc 0 = ex_node\<lparr>nd_Dependencies := [0], nd_BackLinks := [], nd_Flags := 0\<rparr>"
  by (auto simp: ex_states_def ex_nodes_def)

lemma all_less_2: "(\<forall>i < 2. P i) \<longleftrightarrow> P 0 \<and> P (1 :: nat)"
  by (auto simp: less_2_cases_iff)

lemma ex_config_ok: "config_ok ex_nodes ex_states [0, 1]"
  unfolding config_ok_def
  by (intro conjI exI [of _ id])
    (auto simp: ex_nth all_less_2 ex_node_def ex_state_def empty_action_def is_expensive_def)

lemma ex_pass_ready: "pass_ready ex_queue 0 2 0"
proof -
  have "\<exists>queue. BuildQueueInit False 2 ex_nodes ex_states [0, 1] 1 = Some queue \<and> pass_ready queue 0 2 0"
  proof (rule init_pass_ready [OF ex_config_ok])
    show "untouched (ex_states ! i)" if "i < length ex_states" for i
      using ex_nth(1) [OF that] by (auto simp: ex_nth ex_state_def untouched_def NodeStateIsQueued_def NodeStateIsActive_def)
    show "(i < 2 \<longrightarrow> nd_PassIndex (ex_nodes ! ns_MmapData (ex_states ! i)) = 0) \<and>
       (2 \<le> i \<longrightarrow> 0 < nd_PassIndex (ex_nodes ! ns_MmapData (ex_states ! i)))" if "i < length ex_states" for i
      using ex_nth(1) [OF that] by (auto simp: ex_nth ex_node_def ex_state_def)
  qed (auto simp: ex_nth)
  then show ?thesis by (auto simp: ex_queue_def)
qed

lemma ex_reaches: "pass_reaches ex_queue 0 2 0 2 ex_sys"
  using pass_start_ok [OF ex_pass_ready, of 2] ex_pass_ready by (auto simp: pass_reaches_def ex_sys_def)

definition ex_checking :: build_sys where
  "ex_checking = the (exec_all ex_sys [Iterate 0, Checked 0 (1, 2) False, Ran 0 (ExecResult 0 False), Iterate 1])"

definition ex_running :: build_sys where
  "ex_running = the (exec_all ex_sys [Iterate 0, Checked 0 (1, 2) False])"

definition ex_done :: build_sys where
  "ex_done = the (exec_all ex_sys [Iterate 0, Checked 0 (1, 2) False, Ran 0 (ExecResult 0 False),
     Iterate 1, Checked 1 (3, 4) False, Ran 1 (ExecResult 0 False), Iterate 0])"

lemma ex_traces:
  "exec_all ex_sys [Iterate 0, Checked 0 (1, 2) False, Ran 0 (ExecResult 0 False), Iterate 1] = Some ex_checking"
  "exec_all ex_sys [Iterate 0, Checked 0 (1, 2) False] = Some ex_running"
  "exec_all ex_sys [Iterate 0, Checked 0 (1, 2) False, Ran 0 (ExecResult 0 False),
     Iterate 1, Checked 1 (3, 4) False, Ran 1 (ExecResult 0 False), Iterate 0] = Some ex_done"
  by code_simp+

lemma ex_reached:
  "pass_reaches ex_queue 0 2 0 2 ex_checking" "pass_reaches ex_queue 0 2 0 2 ex_running"
  "pass_reaches ex_queue 0 2 0 2 ex_done" "build_step\<^sup>*\<^sup>* ex_checking ex_done"
proof -
  show "pass_reaches ex_queue 0 2 0 2 ex_checking" by (rule exec_all_reaches [OF ex_reaches ex_traces(1)])
  show "pass_reaches ex_queue 0 2 0 2 ex_running" by (rule exec_all_reaches [OF ex_reaches ex_traces(2)])
  show "pass_reaches ex_queue 0 2 0 2 ex_done" by (rule exec_all_reaches [OF ex_reaches ex_traces(3)])
  have "exec_all ex_checking [Checked 1 (3, 4) False, Ran 1 (ExecResult 0 False), Iterate 0] = Some ex_done"
    by code_simp
  then show "build_step\<^sup>*\<^sup>* ex_checking ex_done" by (rule exec_all_steps)
qed

lemma ex_threads:
  "bs_threads ex_checking = [Ready, Checking 1]" "bs_threads ex_running = [Running 0, Ready]"
  "bs_threads ex_done = [Exited, Ready]"
  by code_simp+

section \<open>What holds in every execution\<close>

text \<open>
  C2: No \<open>CHECK\<close> of the build queue ever fails while a pass is built, whatever the
  interleaving of the threads, the outcome of the actions and the moment of an interrupt:
  a thread at the head of its loop can take an iteration, and a thread that has computed
  a signature or run an action can go on.
\<close>

theorem build_never_aborts:
  assumes "pass_reaches queue start m p threads sys" "t < length (bs_threads sys)"
  shows "case bs_threads sys ! t of
      Ready \<Rightarrow> BuildLoop_iteration (bs_queue sys) (bs_signalled sys) t \<noteq> None
    | Checking i \<Rightarrow> (\<forall>signature missing. ResumeCheck (bs_queue sys) i signature missing \<noteq> None)
    | Running i \<Rightarrow> (\<forall>outcome. ResumeRun (bs_queue sys) i outcome \<noteq> None)
    | _ \<Rightarrow> True"
proof -
  note run = threads_run [OF sys_okD [OF pass_reaches_ok [OF assms(1)]] assms(2)]
  show ?thesis using run by (auto split: thread.split)
qed

theorem build_never_aborts_witness: "\<forall>outcome. ResumeRun (bs_queue ex_running) 0 outcome \<noteq> None"
  using build_never_aborts [OF ex_reached(2), of 0] by (simp add: ex_threads)

text \<open>
  C3: Dependencies come first: whenever a thread checks the inputs of a node or runs its
  action, every dependency of the node has been completed.
\<close>

theorem dependencies_first:
  assumes "pass_reaches queue start m p threads sys" "t < length (bs_threads sys)"
    "bs_threads sys ! t \<in> {Checking i, Running i}" "j \<in> set (dep_states (bs_queue sys) i)"
  shows "NodeStateIsCompleted (node (bs_queue sys) j)"
  using held_deps [OF sys_okD [OF pass_reaches_ok [OF assms(1)]] assms(2) _ assms(4)] assms(3) by auto

theorem dependencies_first_witness:
  "bs_threads ex_checking ! 1 = Checking 1 \<and> NodeStateIsCompleted (node (bs_queue ex_checking) 0)"
proof -
  have "0 \<in> set (dep_states (bs_queue ex_checking) 1)" by code_simp
  then show ?thesis using dependencies_first [OF ex_reached(1), of 1 1 0] by (simp add: ex_threads)
qed

text \<open>
  C6: At no time do more threads run the action of an expensive node than
  \<open>m_MaxExpensiveCount\<close> allows.
\<close>

theorem expensive_bounded:
  assumes "pass_reaches queue start m p threads sys"
  shows "card {t. t < length (bs_threads sys) \<and>
      (\<exists>i. bs_threads sys ! t = Running i \<and> is_expensive (node_data (bs_queue sys) i))}
    \<le> nat (q_MaxExpensiveCount (bs_queue sys))"
  by (rule expensive_limit [OF sys_okD [OF pass_reaches_ok [OF assms]]])

theorem expensive_bounded_witness:
  "bs_threads ex_running ! 0 = Running 0 \<and> is_expensive (node_data (bs_queue ex_running) 0) \<and>
   card {t. t < length (bs_threads ex_running) \<and>
      (\<exists>i. bs_threads ex_running ! t = Running i \<and> is_expensive (node_data (bs_queue ex_running) i))} \<le> 1"
proof -
  have "q_MaxExpensiveCount (bs_queue ex_running) = 1" "is_expensive (node_data (bs_queue ex_running) 0)"
    by code_simp+
  then show ?thesis using expensive_bounded [OF ex_reached(2)] by (simp add: ex_threads)
qed

text \<open>
  C4: The build does not deadlock: as long as thread 0 has not left \<open>BuildLoop\<close>, some
  thread is not waiting on the condition variable. In particular no wake-up is lost, even
  when an interrupt races with a thread that is about to wait.
\<close>

theorem build_deadlock_free:
  assumes "pass_reaches queue start m p threads sys" "bs_threads sys ! 0 \<noteq> Exited"
  shows "\<exists>th \<in> set (bs_threads sys). th \<noteq> Waiting \<and> th \<noteq> Exited"
  by (rule not_deadlocked [OF pass_reaches_ok [OF assms(1)] assms(2)])

theorem build_deadlock_free_witness:
  "\<exists>th \<in> set (bs_threads ex_checking). th \<noteq> Waiting \<and> th \<noteq> Exited"
  using build_deadlock_free [OF ex_reached(1)] by (simp add: ex_threads)

text \<open>
  C11: Every execution of a pass does a bounded amount of work: in an infinite sequence of
  steps only finitely many, at most ten per node, change the schedule (move a node or
  its progress). The others are threads that wake up, find nothing to do and wait.
\<close>

theorem build_work_bounded:
  assumes "pass_reaches queue start m p threads (f 0)" "\<And>k. build_step (f k) (f (Suc k))"
  shows "finite {k. sched_of (bs_queue (f (Suc k))) \<noteq> sched_of (bs_queue (f k))} \<and>
    card {k. sched_of (bs_queue (f (Suc k))) \<noteq> sched_of (bs_queue (f k))} \<le> 10 * length (q_NodeState (bs_queue (f 0)))"
  using run_stabilises [OF assms(2) pass_reaches_ok [OF assms(1)]] by blast

theorem build_work_bounded_witness:
  "finite {k. sched_of (bs_queue ((case_nat ex_sys (\<lambda>_. ex_sys\<lparr>bs_signalled := True\<rparr>)) (Suc k))) \<noteq>
     sched_of (bs_queue ((case_nat ex_sys (\<lambda>_. ex_sys\<lparr>bs_signalled := True\<rparr>)) k))}"
proof -
  define f where "f = case_nat ex_sys (\<lambda>_. ex_sys\<lparr>bs_signalled := True\<rparr>)"
  have "build_step (f k) (f (Suc k))" for k
    using interrupt_step [of ex_sys] interrupt_step [of "ex_sys\<lparr>bs_signalled := True\<rparr>"]
    by (cases k) (simp_all add: f_def)
  moreover have "pass_reaches ex_queue 0 2 0 2 (f 0)" using ex_reaches by (simp add: f_def)
  ultimately show ?thesis using build_work_bounded [of ex_queue 0 2 0 2 f] by (simp add: f_def)
qed

text \<open>
  C5: \<open>BuildQueueBuildNodeRange\<close> tells the truth: when thread 0 has left the loop and the
  function returns \<open>kOk\<close>, every node of the pass is completed with build result 0.
\<close>

theorem kOk_means_built:
  assumes "pass_reaches queue start m p threads sys" "bs_threads sys ! 0 = Exited"
    "\<not> q_QuitSignalled (bs_queue sys)" "BuildQueueBuildNodeRange_result (bs_queue sys) (bs_signalled sys) = kOk"
    "i < length (q_NodeState (bs_queue sys))"
    "nd_PassIndex (node_data (bs_queue sys) i) = q_CurrentPassIndex (bs_queue sys)"
  shows "NodeStateIsCompleted (node (bs_queue sys) i) \<and> ns_BuildResult (node (bs_queue sys) i) = 0"
proof (cases sys)
  case (fields queue' thr sig)
  then show ?thesis
    using finished_pass [of queue' thr sig i] pass_reaches_ok [OF assms(1)] assms(2-)
    by (simp add: NodeStateIsCompleted_def)
qed

theorem kOk_means_built_witness:
  "NodeStateIsCompleted (node (bs_queue ex_done) 1) \<and> ns_BuildResult (node (bs_queue ex_done) 1) = 0"
proof -
  have "\<not> q_QuitSignalled (bs_queue ex_done)"
    "BuildQueueBuildNodeRange_result (bs_queue ex_done) (bs_signalled ex_done) = kOk"
    "1 < length (q_NodeState (bs_queue ex_done))"
    "nd_PassIndex (node_data (bs_queue ex_done) 1) = q_CurrentPassIndex (bs_queue ex_done)"
    by code_simp+
  then show ?thesis using kOk_means_built [OF ex_reached(3), of 1] by (simp add: ex_threads)
qed

text \<open>
  C12: A completed node stays completed with the same result for the rest of the pass, and
  no thread checks it or runs its action again: every action runs at most once.
\<close>

theorem completed_for_good:
  assumes "pass_reaches queue start m p threads sys" "build_step\<^sup>*\<^sup>* sys sys'"
    "i < length (q_NodeState (bs_queue sys))" "NodeStateIsCompleted (node (bs_queue sys) i)"
  shows "NodeStateIsCompleted (node (bs_queue sys') i) \<and>
    ns_BuildResult (node (bs_queue sys') i) = ns_BuildResult (node (bs_queue sys) i) \<and>
    Checking i \<notin> set (bs_threads sys') \<and> Running i \<notin> set (bs_threads sys')"
proof -
  have ok: "sys_ok sys" "sys_ok sys'" using pass_reaches_ok [OF assms(1)] build_steps_ok [OF assms(2)] by blast+
  have "place_of (node (bs_queue sys) i) = Finished"
    using completed_finished [of _ _ _ "bs_queue sys" i] ok(1) assms(3,4) by (fastforce simp: sys_ok_def threads_ok_def)
  note fin = build_steps_finished(2) [OF assms(2) ok(1) this]
  then have "NodeStateIsCompleted (node (bs_queue sys') i)" by (auto simp: place_of_def split: if_splits)
  moreover have "th \<noteq> Checking i \<and> th \<noteq> Running i" if "th \<in> set (bs_threads sys')" for th
    using sys_okD [OF ok(2)] that fin by (fastforce simp: threads_ok_def in_set_conv_nth)
  ultimately show ?thesis using fin by blast
qed

theorem completed_for_good_witness:
  "NodeStateIsCompleted (node (bs_queue ex_done) 0) \<and>
   ns_BuildResult (node (bs_queue ex_done) 0) = ns_BuildResult (node (bs_queue ex_checking) 0) \<and>
   Checking 0 \<notin> set (bs_threads ex_done) \<and> Running 0 \<notin> set (bs_threads ex_done)"
proof -
  have "0 < length (q_NodeState (bs_queue ex_checking))" "NodeStateIsCompleted (node (bs_queue ex_checking) 0)"
    by code_simp+
  then show ?thesis using completed_for_good [OF ex_reached(1,4), of 0] by blast
qed

end
