(* ===== verification/T2_HashTable.thy ===== *)
theory T2_HashTable
  imports T2_Common
begin

text \<open>
  Model of \<open>src/HashTable.hpp\<close>: the open-addressing hash table and hash set with
  linear probing. Slot indices, sizes and counts are natural numbers (a table
  has fewer than \<open>2 ^ 32\<close> slots); hashes are 32-bit words and zero marks an empty
  slot. A payload array element is \<open>None\<close> until it is written (the code allocates
  zeroed memory). The probe loops run until they meet an empty slot, so they are
  partial functions; the lemmas show that they return on every well-formed
  table, that insertion and growth keep the table well-formed and keep every
  entry, and that the table behaves as a finite map for clients that insert
  absent keys only.
\<close>

section \<open>Definitions\<close>

record hash_table_base =
  m_Hashes :: "u32 list"
  m_Strings :: "string list"
  m_TableSize :: nat
  m_TableSizeShift :: nat
  m_RecordCount :: nat

record 'v hash_table = hash_table_base +
  m_Payloads :: "'v option list"

definition HashSetInit :: hash_table_base where
  "HashSetInit = \<lparr>m_Hashes = [], m_Strings = [], m_TableSize = 0, m_TableSizeShift = 0,
     m_RecordCount = 0\<rparr>"

definition HashTableInit :: "'v hash_table" where
  "HashTableInit = \<lparr>m_Hashes = [], m_Strings = [], m_TableSize = 0, m_TableSizeShift = 0,
     m_RecordCount = 0, m_Payloads = []\<rparr>"

text \<open>A \<open>char\<close> is signed: reading it into an \<open>int\<close> sign-extends.\<close>

definition int_of_char :: "char \<Rightarrow> u32" where
  "int_of_char c = scast (of_char c :: u8)"

function FastCompareNoCase :: "string \<Rightarrow> string \<Rightarrow> int" where
  "FastCompareNoCase lhs rhs =
     (let lc = int_of_char (peek lhs); rc = int_of_char (peek rhs);
          diff = sint (FoldCase lc) - sint (FoldCase rc)
      in if diff \<noteq> 0 then diff
         else if peek lhs = NUL \<or> peek rhs = NUL then 0
         else FastCompareNoCase (tl lhs) (tl rhs))"
  by pat_completeness auto
termination
proof (relation "measure (\<lambda>(l, r). length l)")
  fix lhs rhs :: string
  assume "\<not> (peek lhs = NUL \<or> peek rhs = NUL)"
  then show "((tl lhs, tl rhs), lhs, rhs) \<in> measure (\<lambda>(l, r). length l)"
    by (cases lhs) auto
qed simp

declare FastCompareNoCase.simps [simp del]

text \<open>\<open>strcmp (l, r) == 0\<close>, or the case-insensitive comparison when the table asks for it.\<close>

definition compare_fn_eq :: "bool \<Rightarrow> string \<Rightarrow> string \<Rightarrow> bool" where
  "compare_fn_eq nocase l r \<longleftrightarrow>
     (if nocase then FastCompareNoCase l r = 0 else c_str l = c_str r)"

partial_function (option) lookup_loop ::
  "bool \<Rightarrow> u32 list \<Rightarrow> string list \<Rightarrow> nat \<Rightarrow> u32 \<Rightarrow> string \<Rightarrow> nat \<Rightarrow> int option" where
  "lookup_loop nocase hashes strings table_size hash string index =
     (let candidate_hash = hashes ! index
      in if candidate_hash = 0 then Some (- 1)
         else if hash = candidate_hash \<and> compare_fn_eq nocase (strings ! index) string
         then Some (int index)
         else lookup_loop nocase hashes strings table_size hash string
                ((index + 1) AND (table_size - 1)))"

definition HashTableBaseLookup ::
  "bool \<Rightarrow> 'a hash_table_base_scheme \<Rightarrow> u32 \<Rightarrow> string \<Rightarrow> int option" where
  "HashTableBaseLookup nocase self hash string =
     (let size = m_TableSize self
      in if size = 0 then Some (- 1)
         else lookup_loop nocase (m_Hashes self) (m_Strings self) size hash string
                (unat hash AND (size - 1)))"

text \<open>
  \<open>HashTableLookup\<close> returns a pointer into the payload array: the slot index, or
  \<open>None\<close> for the null pointer. The outer option is the loop's.
\<close>

definition HashTableLookup ::
  "bool \<Rightarrow> 'v hash_table \<Rightarrow> u32 \<Rightarrow> string \<Rightarrow> nat option option" where
  "HashTableLookup nocase self hash string =
     (case HashTableBaseLookup nocase self hash string of
        None \<Rightarrow> None
      | Some index \<Rightarrow> if index = - 1 then Some None else Some (Some (nat index)))"

definition HashSetLookup :: "bool \<Rightarrow> 'a hash_table_base_scheme \<Rightarrow> u32 \<Rightarrow> string \<Rightarrow> bool option" where
  "HashSetLookup nocase self hash string =
     map_option (\<lambda>index. index \<noteq> - 1) (HashTableBaseLookup nocase self hash string)"

text \<open>\<open>while (hashes[index] != 0) index = (index + 1) & mask\<close>\<close>

partial_function (option) find_empty :: "u32 list \<Rightarrow> nat \<Rightarrow> nat \<Rightarrow> nat option" where
  "find_empty hashes index_mask index =
     (if hashes ! index \<noteq> 0 then find_empty hashes index_mask ((index + 1) AND index_mask)
      else Some index)"

text \<open>The loop over the old slots of \<open>HashTableGrow\<close>, for a table with payloads.\<close>

fun grow_loop ::
  "nat \<Rightarrow> (u32 \<times> string \<times> 'v option) list \<Rightarrow> u32 list \<times> string list \<times> 'v option list
     \<Rightarrow> (u32 list \<times> string list \<times> 'v option list) option" where
  "grow_loop new_mask [] new = Some new"
| "grow_loop new_mask ((h, s, p) # old) (new_hashes, new_strings, new_payloads) =
     (if h \<noteq> 0 then
        (case find_empty new_hashes new_mask (unat h AND new_mask) of
           None \<Rightarrow> None
         | Some index \<Rightarrow>
             grow_loop new_mask old
               (new_hashes[index := h], new_strings[index := s], new_payloads[index := p]))
      else grow_loop new_mask old (new_hashes, new_strings, new_payloads))"

definition HashTableGrow :: "'v hash_table \<Rightarrow> 'v hash_table option" where
  "HashTableGrow self =
     (let new_shift = max (m_TableSizeShift self + 2) 7;
          new_size = 2 ^ new_shift;
          new_mask = new_size - 1
      in case grow_loop new_mask
                (zip (m_Hashes self) (zip (m_Strings self) (m_Payloads self)))
                (replicate new_size 0, replicate new_size [], replicate new_size None) of
           None \<Rightarrow> None
         | Some (new_hashes, new_strings, new_payloads) \<Rightarrow>
             Some (self\<lparr>m_Hashes := new_hashes, m_Strings := new_strings,
                        m_TableSize := new_size, m_TableSizeShift := new_shift,
                        m_Payloads := new_payloads\<rparr>))"

fun set_grow_loop ::
  "nat \<Rightarrow> (u32 \<times> string) list \<Rightarrow> u32 list \<times> string list \<Rightarrow> (u32 list \<times> string list) option" where
  "set_grow_loop new_mask [] new = Some new"
| "set_grow_loop new_mask ((h, s) # old) (new_hashes, new_strings) =
     (if h \<noteq> 0 then
        (case find_empty new_hashes new_mask (unat h AND new_mask) of
           None \<Rightarrow> None
         | Some index \<Rightarrow>
             set_grow_loop new_mask old (new_hashes[index := h], new_strings[index := s]))
      else set_grow_loop new_mask old (new_hashes, new_strings))"

definition HashSetGrow :: "hash_table_base \<Rightarrow> hash_table_base option" where
  "HashSetGrow self =
     (let new_shift = max (m_TableSizeShift self + 2) 7;
          new_size = 2 ^ new_shift;
          new_mask = new_size - 1
      in case set_grow_loop new_mask (zip (m_Hashes self) (m_Strings self))
                (replicate new_size 0, replicate new_size []) of
           None \<Rightarrow> None
         | Some (new_hashes, new_strings) \<Rightarrow>
             Some (self\<lparr>m_Hashes := new_hashes, m_Strings := new_strings,
                        m_TableSize := new_size, m_TableSizeShift := new_shift\<rparr>))"

text \<open>
  \<open>HashTableBaseInsert\<close> is a template over the table type: which \<open>HashTableGrow\<close> it
  calls is resolved by overloading, here a function argument.
\<close>

definition HashTableBaseInsert ::
  "('a hash_table_base_scheme \<Rightarrow> 'a hash_table_base_scheme option)
     \<Rightarrow> 'a hash_table_base_scheme \<Rightarrow> u32 \<Rightarrow> string
     \<Rightarrow> (nat \<times> 'a hash_table_base_scheme) option" where
  "HashTableBaseInsert grow self hash string =
     (let record_count = m_RecordCount self;
          load = 0x100 * (record_count + 1) div 2 ^ m_TableSizeShift self
      in case (if load > 0x050 then grow self else Some self) of
           None \<Rightarrow> None
         | Some self \<Rightarrow>
             (let table_size = m_TableSize self
              in case find_empty (m_Hashes self) (table_size - 1) (unat hash AND (table_size - 1)) of
                   None \<Rightarrow> None
                 | Some index \<Rightarrow>
                     Some (index, self\<lparr>m_Hashes := (m_Hashes self)[index := hash],
                                       m_Strings := (m_Strings self)[index := string],
                                       m_RecordCount := record_count + 1\<rparr>)))"

definition HashTableInsert ::
  "'v hash_table \<Rightarrow> u32 \<Rightarrow> string \<Rightarrow> 'v \<Rightarrow> 'v hash_table option" where
  "HashTableInsert self hash string payload =
     (case HashTableBaseInsert HashTableGrow self hash string of
        None \<Rightarrow> None
      | Some (index, self) \<Rightarrow>
          Some (self\<lparr>m_Payloads := (m_Payloads self)[index := Some payload]\<rparr>))"

definition HashSetInsert :: "hash_table_base \<Rightarrow> u32 \<Rightarrow> string \<Rightarrow> hash_table_base option" where
  "HashSetInsert self hash string =
     map_option snd (HashTableBaseInsert HashSetGrow self hash string)"

text \<open>The records a walk hands to its callback, in order; the position is the first argument.\<close>

definition HashTableWalk :: "'v hash_table \<Rightarrow> (u32 \<times> string \<times> 'v option) list" where
  "HashTableWalk self =
     filter (\<lambda>e. fst e \<noteq> 0) (zip (m_Hashes self) (zip (m_Strings self) (m_Payloads self)))"

definition HashSetWalk :: "'a hash_table_base_scheme \<Rightarrow> (u32 \<times> string) list" where
  "HashSetWalk self = filter (\<lambda>e. fst e \<noteq> 0) (zip (m_Hashes self) (m_Strings self))"

section \<open>Keys\<close>

definition fold8 :: "u8 \<Rightarrow> u8" where
  "fold8 w = (if w - 65 < 26 then w + 32 else w)"

text \<open>What two strings must share to be the same key of a table.\<close>

definition canon :: "bool \<Rightarrow> string \<Rightarrow> u8 list" where
  "canon nocase s = map (\<lambda>c. if nocase then fold8 (of_char c) else of_char c) (c_str s)"

lemma FoldCase_scast: "FoldCase (scast w) = scast (fold8 w)"
  by (rule u8_all) code_simp

lemma FoldCase_ucast: "FoldCase (ucast w) = ucast (fold8 w)"
  by (rule u8_all) code_simp

lemma fold8_eq_0 [simp]: "fold8 w = 0 \<longleftrightarrow> w = 0"
  by (rule u8_all) code_simp

lemma FoldCase_int_of_char [simp]: "FoldCase (int_of_char c) = scast (fold8 (of_char c))"
  by (simp add: int_of_char_def FoldCase_scast)

lemma FastCompareNoCase_eq: "FastCompareNoCase l r = 0 \<longleftrightarrow> canon True l = canon True r"
proof (induction l r rule: FastCompareNoCase.induct)
  case (1 l r)
  have same: "sint (FoldCase (int_of_char c)) - sint (FoldCase (int_of_char d)) = 0
      \<longleftrightarrow> fold8 (of_char c) = fold8 (of_char d)" for c d
    by (metis FoldCase_int_of_char eq_iff_diff_eq_0 scast_u8_inj signed_word_eqI)
  show ?case
  proof (cases "fold8 (of_char (peek l)) = fold8 (of_char (peek r))")
    case False
    then have "FastCompareNoCase l r \<noteq> 0"
      using same [of "peek l" "peek r"] by (simp add: FastCompareNoCase.simps [of l r] Let_def)
    moreover have "canon True l \<noteq> canon True r"
      using False by (cases l; cases r) (auto simp: canon_def)
    ultimately show ?thesis by simp
  next
    case True
    then have nul: "peek l = NUL \<longleftrightarrow> peek r = NUL" by (metis fold8_eq_0 of_char_eq_0)
    show ?thesis
    proof (cases "peek l = NUL")
      case True
      then have "FastCompareNoCase l r = 0"
        using nul by (simp add: FastCompareNoCase.simps [of l r])
      moreover have "canon True l = canon True r"
        using True nul by (cases l; cases r) (auto simp: canon_def)
      ultimately show ?thesis by simp
    next
      case False
      then have "FastCompareNoCase l r = FastCompareNoCase (tl l) (tl r)"
        using True nul same [of "peek l" "peek r"]
        by (simp add: FastCompareNoCase.simps [of l r] Let_def)
      then show ?thesis
        using "1.IH" [OF refl refl refl] False nul True same [of "peek l" "peek r"]
        by (cases l; cases r) (auto simp: canon_def)
    qed
  qed
qed

lemma compare_fn_eq_canon [simp]: "compare_fn_eq nocase l r \<longleftrightarrow> canon nocase l = canon nocase r"
proof (cases nocase)
  case False
  have "inj (of_char :: char \<Rightarrow> u8)" by (simp add: inj_def)
  then show ?thesis using False by (simp add: compare_fn_eq_def canon_def inj_map_eq_map)
qed (simp add: compare_fn_eq_def FastCompareNoCase_eq)

lemma djb2_nocase_canon:
  "djb2_nocase_loop h s = foldl (\<lambda>h b. h * 33 + ucast b) h (canon True s)"
  by (induction s arbitrary: h) (simp_all add: canon_def of_char_u32 FoldCase_ucast)

lemma djb2_canon: "djb2_loop h s = foldl (\<lambda>h b. h * 33 + ucast b) h (canon False s)"
  by (induction s arbitrary: h) (simp_all add: canon_def of_char_u32)

text \<open>Equal keys have equal path hashes: the hash a client computes never separates them.\<close>

lemma Djb2HashPath_canon:
  "canon nocase l = canon nocase r \<Longrightarrow> Djb2HashPath nocase l = Djb2HashPath nocase r"
  by (cases nocase)
    (simp_all add: Djb2HashPath_def Djb2HashNoCase_def Djb2Hash_def djb2_nocase_canon djb2_canon)

section \<open>Probing\<close>

lemma find_empty_eq:
  assumes "length hs = 2 ^ k" "i < 2 ^ k" "hs ! ((i + d) mod 2 ^ k) = 0"
    "\<And>j. j < d \<Longrightarrow> hs ! ((i + j) mod 2 ^ k) \<noteq> 0"
  shows "find_empty hs (2 ^ k - 1) i = Some ((i + d) mod 2 ^ k)"
  using assms
proof (induction d arbitrary: i)
  case 0
  then show ?case by (simp add: find_empty.simps)
next
  case (Suc d)
  let ?i = "(i + 1) mod 2 ^ k"
  have shift: "(?i + j) mod 2 ^ k = (i + Suc j) mod 2 ^ k" for j
    by (simp add: mod_simps)
  have "hs ! i \<noteq> 0" using Suc.prems(2) Suc.prems(4) [of 0] by simp
  then have "find_empty hs (2 ^ k - 1) i = find_empty hs (2 ^ k - 1) ?i"
    by (simp add: find_empty.simps [of hs _ i])
  also have "\<dots> = Some ((?i + d) mod 2 ^ k)"
    by (rule Suc.IH) (use Suc.prems(1,3) Suc.prems(4) [of "Suc _"] shift in auto)
  finally show ?case using shift by simp
qed

lemma first_empty:
  assumes "p < n" "hs ! p = 0" "i < n"
  obtains d where "d < n" "hs ! ((i + d) mod n) = (0 :: u32)" "\<And>j. j < d \<Longrightarrow> hs ! ((i + j) mod n) \<noteq> 0"
proof -
  define P where "P d \<longleftrightarrow> hs ! ((i + d) mod n) = 0" for d
  have ex: "P ((p + n - i) mod n)"
    using assms by (simp add: P_def mod_simps)
  define d where "d = (LEAST d. P d)"
  have "P d" unfolding d_def by (rule LeastI, rule ex)
  moreover have "d \<le> (p + n - i) mod n" unfolding d_def by (rule Least_le, rule ex)
  moreover have "\<not> P j" if "j < d" for j using not_less_Least that unfolding d_def by blast
  ultimately show ?thesis using that [of d] assms(1) unfolding P_def
    by (meson le_less_trans mod_less_divisor zero_less_iff_neq_zero not_less0 le0 order_le_less_trans)
qed

section \<open>Slots\<close>

text \<open>
  A table seen as one list of slots. A slot holds a hash, a string and a payload;
  \<open>reach\<close> is the linear-probing invariant: between an entry's home slot and the
  slot it occupies there is no empty slot.
\<close>

type_synonym 'v slot = "u32 \<times> string \<times> 'v option"

definition reach :: "nat \<Rightarrow> 'v slot list \<Rightarrow> bool" where
  "reach n xs \<longleftrightarrow> (\<forall>p < n. fst (xs ! p) \<noteq> 0 \<longrightarrow>
     (\<exists>d < n. (unat (fst (xs ! p)) + d) mod n = p \<and>
        (\<forall>j < d. fst (xs ! ((unat (fst (xs ! p)) + j) mod n)) \<noteq> 0)))"

abbreviation entries :: "'v slot list \<Rightarrow> 'v slot list" where
  "entries xs \<equiv> filter (\<lambda>e. fst e \<noteq> 0) xs"

definition slot_key :: "bool \<Rightarrow> 'v slot \<Rightarrow> u32 \<times> u8 list" where
  "slot_key nocase e = (fst e, canon nocase (fst (snd e)))"

lemma reach_update:
  assumes "reach n xs" "length xs = n" "idx < n" "fst (xs ! idx) = 0" "fst e \<noteq> 0"
    "d < n" "(unat (fst e) + d) mod n = idx"
    "\<And>j. j < d \<Longrightarrow> fst (xs ! ((unat (fst e) + j) mod n)) \<noteq> 0"
  shows "reach n (xs[idx := e])"
  unfolding reach_def
proof (intro allI impI)
  fix p assume p: "p < n" "fst (xs[idx := e] ! p) \<noteq> 0"
  have mono: "fst (xs[idx := e] ! q) \<noteq> 0" if "fst (xs ! q) \<noteq> 0" for q
    using that assms(2,3,5) by (cases "q = idx") auto
  show "\<exists>d < n. (unat (fst (xs[idx := e] ! p)) + d) mod n = p \<and>
      (\<forall>j < d. fst (xs[idx := e] ! ((unat (fst (xs[idx := e] ! p)) + j) mod n)) \<noteq> 0)"
  proof (cases "p = idx")
    case True
    then show ?thesis using assms mono by (intro exI [of _ d]) simp
  next
    case False
    with p assms(1) obtain d' where "d' < n" "(unat (fst (xs ! p)) + d') mod n = p"
        "\<forall>j < d'. fst (xs ! ((unat (fst (xs ! p)) + j) mod n)) \<noteq> 0"
      unfolding reach_def by auto
    with False mono show ?thesis by (intro exI [of _ d']) simp
  qed
qed

text \<open>One insertion into a table with a free slot.\<close>

lemma find_empty_insert:
  assumes "reach (2 ^ k) xs" "length xs = 2 ^ k" "length (entries xs) < 2 ^ k" "fst e \<noteq> 0"
  obtains idx where "find_empty (map fst xs) (2 ^ k - 1) (unat (fst e) AND (2 ^ k - 1)) = Some idx"
    "idx < 2 ^ k" "fst (xs ! idx) = 0" "reach (2 ^ k) (xs[idx := e])"
    "mset (entries (xs[idx := e])) = add_mset e (mset (entries xs))"
proof -
  let ?n = "2 ^ k :: nat" and ?i = "unat (fst e) mod 2 ^ k"
  obtain p where p: "p < ?n" "map fst xs ! p = 0"
    using filter_lt_ex [of "\<lambda>e. fst e \<noteq> 0" xs] assms(2,3) by auto
  obtain d where d: "d < ?n" "map fst xs ! ((?i + d) mod ?n) = 0"
      "\<And>j. j < d \<Longrightarrow> map fst xs ! ((?i + j) mod ?n) \<noteq> 0"
    by (rule first_empty [OF p, of ?i]) simp_all
  have nth: "map fst xs ! (x mod ?n) = fst (xs ! (x mod ?n))" for x
    using assms(2) by simp
  define idx where "idx = (?i + d) mod ?n"
  have idx: "idx < ?n" "fst (xs ! idx) = 0" using d(2) nth by (simp_all add: idx_def)
  have "find_empty (map fst xs) (?n - 1) ?i = Some idx"
    unfolding idx_def by (rule find_empty_eq) (use assms(2) d in auto)
  then have "find_empty (map fst xs) (2 ^ k - 1) (unat (fst e) AND (2 ^ k - 1)) = Some idx" by simp
  moreover have "reach ?n (xs[idx := e])"
    by (rule reach_update [where d = d]) (use assms idx d nth in \<open>auto simp: idx_def mod_simps\<close>)
  moreover have "mset (entries (xs[idx := e])) = add_mset e (mset (entries xs))"
    by (rule mset_filter_update) (use assms(2,4) idx in auto)
  ultimately show ?thesis using that idx by blast
qed

text \<open>Looking a key up in a table with a free slot: the loop returns, and finds a matching slot iff there is one.\<close>

lemma lookup_loop_eq:
  assumes "length xs = 2 ^ k" "i < 2 ^ k" "fst (xs ! ((i + d) mod 2 ^ k)) = 0"
    "\<And>j. j < d \<Longrightarrow> fst (xs ! ((i + j) mod 2 ^ k)) \<noteq> 0"
  shows "\<exists>r. lookup_loop nocase (map fst xs) (map (\<lambda>e. fst (snd e)) xs) (2 ^ k) h s i = Some r \<and>
    (if \<exists>j < d. slot_key nocase (xs ! ((i + j) mod 2 ^ k)) = (h, canon nocase s)
     then \<exists>p < 2 ^ k. r = int p \<and> fst (xs ! p) \<noteq> 0 \<and> slot_key nocase (xs ! p) = (h, canon nocase s)
     else r = - 1)"
  using assms
proof (induction d arbitrary: i)
  case 0
  then show ?case by (simp add: lookup_loop.simps)
next
  case (Suc d)
  let ?n = "2 ^ k :: nat" and ?i = "(i + 1) mod 2 ^ k"
  let ?loop = "lookup_loop nocase (map fst xs) (map (\<lambda>e. fst (snd e)) xs) ?n h s"
  let ?hit = "\<lambda>q. slot_key nocase (xs ! q) = (h, canon nocase s)"
  have shift: "(?i + j) mod ?n = (i + Suc j) mod ?n" for j by (simp add: mod_simps)
  have occ: "fst (xs ! i) \<noteq> 0" using Suc.prems(2) Suc.prems(4) [of 0] by simp
  show ?case
  proof (cases "?hit i")
    case True
    then have "?loop i = Some (int i)"
      using occ Suc.prems(1,2) by (subst lookup_loop.simps) (auto simp: slot_key_def)
    moreover have "\<exists>j < Suc d. ?hit ((i + j) mod ?n)"
      using True Suc.prems(2) by (intro exI [of _ 0]) simp
    ultimately show ?thesis using True occ Suc.prems(2) by auto
  next
    case False
    then have step: "?loop i = ?loop ?i"
      using occ Suc.prems(1,2) by (subst lookup_loop.simps) (auto simp: slot_key_def)
    have ex: "(\<exists>j < Suc d. ?hit ((i + j) mod ?n)) \<longleftrightarrow> (\<exists>j < d. ?hit ((?i + j) mod ?n))"
      using False Suc.prems(2) shift by (auto simp: less_Suc_eq_0_disj)
    have "fst (xs ! ((?i + d) mod ?n)) = 0" using Suc.prems(3) shift by simp
    moreover have "fst (xs ! ((?i + j) mod ?n)) \<noteq> 0" if "j < d" for j
      using Suc.prems(4) [of "Suc j"] that shift by simp
    ultimately show ?thesis
      using Suc.IH [of ?i] Suc.prems(1) ex step by simp
  qed
qed

lemma lookup_loop_slots:
  assumes "reach (2 ^ k) xs" "length xs = 2 ^ k" "length (entries xs) < 2 ^ k" "h \<noteq> 0"
  shows "\<exists>r. lookup_loop nocase (map fst xs) (map (\<lambda>e. fst (snd e)) xs) (2 ^ k) h s (unat h AND (2 ^ k - 1)) = Some r \<and>
    (if \<exists>p < 2 ^ k. slot_key nocase (xs ! p) = (h, canon nocase s)
     then \<exists>p < 2 ^ k. r = int p \<and> fst (xs ! p) \<noteq> 0 \<and> slot_key nocase (xs ! p) = (h, canon nocase s)
     else r = - 1)"
proof -
  let ?n = "2 ^ k :: nat" and ?i = "unat h mod 2 ^ k"
  let ?hit = "\<lambda>q. slot_key nocase (xs ! q) = (h, canon nocase s)"
  obtain p where p: "p < ?n" "map fst xs ! p = 0"
    using filter_lt_ex [of "\<lambda>e. fst e \<noteq> 0" xs] assms(2,3) by auto
  obtain d where "d < ?n" "map fst xs ! ((?i + d) mod ?n) = 0"
      "\<And>j. j < d \<Longrightarrow> map fst xs ! ((?i + j) mod ?n) \<noteq> 0"
    by (rule first_empty [OF p, of ?i]) simp_all
  then have d: "d < ?n" "fst (xs ! ((?i + d) mod ?n)) = 0"
      "\<And>j. j < d \<Longrightarrow> fst (xs ! ((?i + j) mod ?n)) \<noteq> 0"
    using assms(2) by auto
  have "(\<exists>j < d. ?hit ((?i + j) mod ?n)) \<longleftrightarrow> (\<exists>p < ?n. ?hit p)"
  proof
    assume "\<exists>p < ?n. ?hit p"
    then obtain p where p: "p < ?n" "?hit p" by blast
    then have h: "fst (xs ! p) = h" by (simp add: slot_key_def)
    with p assms(1,4) obtain e where e: "(unat h + e) mod ?n = p"
        "\<forall>j < e. fst (xs ! ((unat h + j) mod ?n)) \<noteq> 0"
      unfolding reach_def by metis
    have "e < d"
    proof (rule ccontr)
      assume "\<not> e < d"
      then consider "e = d" | "d < e" by linarith
      then show False
        by cases (use e d(2) h assms(4) in \<open>auto simp: mod_simps\<close>)
    qed
    then show "\<exists>j < d. ?hit ((?i + j) mod ?n)" using e(1) p(2) by (auto simp: mod_simps)
  next
    assume "\<exists>j < d. ?hit ((?i + j) mod ?n)"
    then show "\<exists>p < ?n. ?hit p" by (metis mod_less_divisor zero_less_numeral zero_less_power)
  qed
  then show ?thesis
    using lookup_loop_eq [OF assms(2) _ d(2,3), of nocase h s] by simp
qed

section \<open>Well-formed tables\<close>

definition slots :: "'v hash_table \<Rightarrow> 'v slot list" where
  "slots t = zip (m_Hashes t) (zip (m_Strings t) (m_Payloads t))"

definition ht_wf :: "'v hash_table \<Rightarrow> bool" where
  "ht_wf t \<longleftrightarrow>
     length (m_Hashes t) = m_TableSize t \<and> length (m_Strings t) = m_TableSize t \<and>
     length (m_Payloads t) = m_TableSize t \<and>
     m_RecordCount t = length (entries (slots t)) \<and>
     (\<forall>e \<in> set (entries (slots t)). snd (snd e) \<noteq> None) \<and>
     (if m_TableSize t = 0 then m_TableSizeShift t = 0
      else 7 \<le> m_TableSizeShift t \<and> m_TableSize t = 2 ^ m_TableSizeShift t \<and>
           256 * m_RecordCount t < 81 * m_TableSize t \<and> reach (m_TableSize t) (slots t))"

text \<open>No two entries share a key: what clients that look a key up before inserting it maintain.\<close>

definition ht_distinct :: "bool \<Rightarrow> 'v hash_table \<Rightarrow> bool" where
  "ht_distinct nocase t \<longleftrightarrow> distinct (map (slot_key nocase) (entries (slots t)))"

text \<open>The finite map a table stands for.\<close>

definition ht_map :: "bool \<Rightarrow> 'v hash_table \<Rightarrow> (u32 \<times> u8 list) \<rightharpoonup> 'v" where
  "ht_map nocase t = map_of (map (\<lambda>e. (slot_key nocase e, the (snd (snd e)))) (entries (slots t)))"

lemma HashTableWalk_entries: "HashTableWalk t = entries (slots t)"
  by (simp add: HashTableWalk_def slots_def)

lemma slots_proj:
  assumes "length (m_Hashes t) = n" "length (m_Strings t) = n" "length (m_Payloads t) = n"
  shows "map fst (slots t) = m_Hashes t" "map (\<lambda>e. fst (snd e)) (slots t) = m_Strings t"
    "map (\<lambda>e. snd (snd e)) (slots t) = m_Payloads t" "length (slots t) = n"
  using assms by (auto simp: slots_def list_eq_iff_nth_eq)

lemma grow_loop_entries:
  assumes "reach (2 ^ k) xs" "length xs = 2 ^ k"
    "length (entries xs) + length (entries old) < 2 ^ k"
  shows "\<exists>ys. grow_loop (2 ^ k - 1) old (map fst xs, map (\<lambda>e. fst (snd e)) xs, map (\<lambda>e. snd (snd e)) xs)
      = Some (map fst ys, map (\<lambda>e. fst (snd e)) ys, map (\<lambda>e. snd (snd e)) ys) \<and>
    length ys = 2 ^ k \<and> reach (2 ^ k) ys \<and> mset (entries ys) = mset (entries xs) + mset (entries old)"
  using assms
proof (induction old arbitrary: xs)
  case Nil
  then show ?case by (intro exI [of _ xs]) simp
next
  case (Cons e old)
  obtain h s p where e: "e = (h, s, p)" by (cases e) auto
  show ?case
  proof (cases "h = 0")
    case True
    then show ?thesis using Cons e by simp
  next
    case False
    have len: "length (entries xs) < 2 ^ k" using Cons.prems(3) by simp
    obtain idx where idx: "find_empty (map fst xs) (2 ^ k - 1) (unat (fst e) AND (2 ^ k - 1)) = Some idx"
        "idx < 2 ^ k" "reach (2 ^ k) (xs[idx := e])"
        "mset (entries (xs[idx := e])) = add_mset e (mset (entries xs))"
      by (rule find_empty_insert [OF Cons.prems(1,2) len, of e]) (use False e in auto)
    have "length (entries (xs[idx := e])) = Suc (length (entries xs))"
      by (metis idx(4) size_add_mset size_mset)
    then have "length (entries (xs[idx := e])) + length (entries old) < 2 ^ k"
      using Cons.prems(3) False e by simp
    from Cons.IH [OF idx(3) _ this] Cons.prems(2) idx(1,4) False e show ?thesis
      by (auto simp: map_update)
  qed
qed

lemma reach_empty: "(\<And>e. e \<in> set xs \<Longrightarrow> fst e = 0) \<Longrightarrow> length xs = n \<Longrightarrow> reach n xs"
  by (auto simp: reach_def)

lemma HashTableGrow_wf:
  assumes "ht_wf t"
  shows "\<exists>t'. HashTableGrow t = Some t' \<and> length (m_Hashes t') = m_TableSize t' \<and>
     length (m_Strings t') = m_TableSize t' \<and> length (m_Payloads t') = m_TableSize t' \<and>
     m_TableSizeShift t' = max (m_TableSizeShift t + 2) 7 \<and> m_TableSize t' = 2 ^ m_TableSizeShift t' \<and>
     m_RecordCount t' = m_RecordCount t \<and> reach (m_TableSize t') (slots t') \<and>
     mset (entries (slots t')) = mset (entries (slots t)) \<and>
     256 * (m_RecordCount t + 1) < 81 * m_TableSize t'"
proof -
  define k where "k = max (m_TableSizeShift t + 2) 7"
  define xs :: "'a slot list" where "xs = replicate (2 ^ k) (0, [], None)"
  have cnt: "m_RecordCount t = length (entries (slots t))" using assms by (simp add: ht_wf_def)
  have load: "256 * (m_RecordCount t + 1) < 81 * (2 ^ k :: nat)"
  proof (cases "m_TableSize t = 0")
    case True
    then have "m_RecordCount t = 0" "k = 7"
      using assms by (auto simp: ht_wf_def slots_def k_def)
    then show ?thesis by simp
  next
    case False
    let ?s = "m_TableSizeShift t"
    have "7 \<le> ?s" "256 * m_RecordCount t < 81 * 2 ^ ?s" using assms False by (auto simp: ht_wf_def)
    moreover have "(2 :: nat) ^ 7 \<le> 2 ^ ?s" using \<open>7 \<le> ?s\<close> by (intro power_increasing) auto
    moreover have "(2 :: nat) ^ k = 4 * 2 ^ ?s" using \<open>7 \<le> ?s\<close> by (simp add: k_def max_def power_add)
    ultimately show ?thesis by simp
  qed
  have "reach (2 ^ k) xs" by (rule reach_empty) (auto simp: xs_def)
  moreover have "length xs = 2 ^ k" by (simp add: xs_def)
  moreover have "entries xs = []" by (simp add: xs_def)
  ultimately obtain ys where ys: "grow_loop (2 ^ k - 1) (slots t)
        (map fst xs, map (\<lambda>e. fst (snd e)) xs, map (\<lambda>e. snd (snd e)) xs)
      = Some (map fst ys, map (\<lambda>e. fst (snd e)) ys, map (\<lambda>e. snd (snd e)) ys)"
      "length ys = 2 ^ k" "reach (2 ^ k) ys" "mset (entries ys) = mset (entries (slots t))"
    using grow_loop_entries [of k xs "slots t"] load cnt by auto
  have zip: "zip (map fst ys) (zip (map (\<lambda>e. fst (snd e)) ys) (map (\<lambda>e. snd (snd e)) ys)) = ys"
    by (auto simp: list_eq_iff_nth_eq)
  have "HashTableGrow t = Some (t\<lparr>m_Hashes := map fst ys, m_Strings := map (\<lambda>e. fst (snd e)) ys,
      m_TableSize := 2 ^ k, m_TableSizeShift := k, m_Payloads := map (\<lambda>e. snd (snd e)) ys\<rparr>)"
    unfolding HashTableGrow_def Let_def k_def [symmetric]
    using ys(1) by (simp add: xs_def slots_def)
  then show ?thesis using ys(2,3,4) load by (auto simp: slots_def zip k_def)
qed

lemma HashTableInsert_entries:
  assumes "ht_wf t" "h \<noteq> 0"
  shows "\<exists>t'. HashTableInsert t h s v = Some t' \<and> ht_wf t' \<and>
    mset (entries (slots t')) = add_mset (h, s, Some v) (mset (entries (slots t)))"
proof -
  let ?e = "(h, s, Some v)"
  define load where "load = 0x100 * (m_RecordCount t + 1) div 2 ^ m_TableSizeShift t"
  obtain u where u: "(if load > 0x050 then HashTableGrow t else Some t) = Some u"
      "length (m_Hashes u) = m_TableSize u" "length (m_Strings u) = m_TableSize u"
      "length (m_Payloads u) = m_TableSize u" "m_TableSize u = 2 ^ m_TableSizeShift u"
      "7 \<le> m_TableSizeShift u" "m_RecordCount u = m_RecordCount t" "reach (m_TableSize u) (slots u)"
      "mset (entries (slots u)) = mset (entries (slots t))"
      "256 * (m_RecordCount t + 1) < 81 * m_TableSize u"
  proof (cases "load > 0x050")
    case True
    then show ?thesis using HashTableGrow_wf [OF assms(1)] that by fastforce
  next
    case False
    then have "256 * (m_RecordCount t + 1) < 81 * 2 ^ m_TableSizeShift t"
      unfolding load_def by (simp add: div_less_iff_less_mult not_less flip: less_Suc_eq_le)
    moreover from this have "m_TableSize t \<noteq> 0"
      using assms(1) by (auto simp: ht_wf_def split: if_splits)
    ultimately show ?thesis
      using False assms(1) that [of t] by (auto simp: ht_wf_def)
  qed
  define k where "k = m_TableSizeShift u"
  have size: "m_TableSize u = 2 ^ k" using u(5) by (simp add: k_def)
  have cnt: "m_RecordCount t = length (entries (slots u))"
    using assms(1) u(9) by (metis ht_wf_def size_mset)
  note proj = slots_proj [OF u(2-4)]
  obtain idx where idx: "find_empty (map fst (slots u)) (2 ^ k - 1) (unat (fst ?e) AND (2 ^ k - 1)) = Some idx"
      "idx < 2 ^ k" "reach (2 ^ k) ((slots u)[idx := ?e])"
      "mset (entries ((slots u)[idx := ?e])) = add_mset ?e (mset (entries (slots u)))"
    by (rule find_empty_insert [of k "slots u" ?e]) (use u proj size cnt assms(2) in auto)
  define t' where "t' = u\<lparr>m_Hashes := (m_Hashes u)[idx := h], m_Strings := (m_Strings u)[idx := s],
      m_RecordCount := m_RecordCount t + 1, m_Payloads := (m_Payloads u)[idx := Some v]\<rparr>"
  have slots': "slots t' = (slots u)[idx := ?e]"
    by (simp add: t'_def slots_def zip_update)
  have ins: "HashTableInsert t h s v = Some t'"
    unfolding HashTableInsert_def HashTableBaseInsert_def Let_def load_def [symmetric] u(1) option.case
    using idx(1) proj(1) size by (simp add: t'_def)
  have len: "length (entries (slots t')) = m_RecordCount t + 1"
    by (metis cnt idx(4) slots' size_add_mset size_mset Suc_eq_plus1)
  have pay: "\<forall>e \<in> set (entries (slots t')). snd (snd e) \<noteq> None"
  proof -
    have "set (entries (slots t')) = insert ?e (set (entries (slots t)))"
      by (metis idx(4) slots' u(9) set_mset_add_mset_insert set_mset_mset)
    then show ?thesis using assms(1) by (auto simp: ht_wf_def)
  qed
  have "ht_wf t'"
    unfolding ht_wf_def using u(2-6,10) size idx(3) slots' len pay
    by (auto simp: t'_def k_def)
  then show ?thesis using ins idx(4) slots' u(9) by auto
qed

lemma ht_wf_init [simp]: "ht_wf HashTableInit" "ht_distinct nocase HashTableInit"
    "ht_map nocase HashTableInit = Map.empty"
  by (simp_all add: ht_wf_def HashTableInit_def slots_def ht_distinct_def ht_map_def)

lemma map_of_mset_eq:
  assumes "mset xs = mset ys" "distinct (map fst xs)"
  shows "map_of xs = map_of ys"
proof -
  have "mset (map fst xs) = mset (map fst ys)" using assms(1) by simp
  then have "distinct (map fst ys)" using assms(2) by (metis mset_eq_imp_distinct_iff)
  moreover have "set xs = set ys" using assms(1) by (rule mset_eq_setD)
  ultimately show ?thesis using assms(2) map_of_inject_set by blast
qed

lemma ht_map_None: "ht_map nocase t k = None \<longleftrightarrow> k \<notin> slot_key nocase ` set (entries (slots t))"
  by (simp add: ht_map_def map_of_eq_None_iff image_image)

lemma HashTableLookup_map:
  assumes "ht_wf t" "h \<noteq> 0"
  shows "ht_map nocase t (h, canon nocase s) = None \<Longrightarrow> HashTableLookup nocase t h s = Some None"
    and "\<lbrakk>ht_distinct nocase t; ht_map nocase t (h, canon nocase s) = Some v\<rbrakk> \<Longrightarrow>
      \<exists>p < m_TableSize t. HashTableLookup nocase t h s = Some (Some p) \<and> m_Payloads t ! p = Some v \<and>
        slots t ! p \<in> set (entries (slots t)) \<and> slot_key nocase (slots t ! p) = (h, canon nocase s)"
proof -
  let ?key = "(h, canon nocase s)"
  let ?n = "m_TableSize t"
  have len: "length (m_Hashes t) = ?n" "length (m_Strings t) = ?n" "length (m_Payloads t) = ?n"
    using assms(1) by (auto simp: ht_wf_def)
  note proj = slots_proj [OF len]
  have in_map: "ht_map nocase t ?key = None \<longleftrightarrow> \<not> (\<exists>p < ?n. slot_key nocase (slots t ! p) = ?key)"
  proof -
    have "(\<exists>e \<in> set (entries (slots t)). slot_key nocase e = ?key)
        \<longleftrightarrow> (\<exists>p < ?n. slot_key nocase (slots t ! p) = ?key)"
      using assms(2) proj(4) by (fastforce simp: Bex_def in_set_conv_nth slot_key_def)
    then show ?thesis unfolding ht_map_None image_iff by metis
  qed
  show "ht_map nocase t ?key = None \<Longrightarrow> HashTableLookup nocase t h s = Some None"
  proof (cases "?n = 0")
    case False
    let ?k = "m_TableSizeShift t"
    assume "ht_map nocase t ?key = None"
    moreover have "?n = 2 ^ ?k" "length (entries (slots t)) < 2 ^ ?k" "reach (2 ^ ?k) (slots t)"
      using assms(1) False by (auto simp: ht_wf_def split: if_splits)
    ultimately show ?thesis
      using lookup_loop_slots [of ?k "slots t" h nocase s] assms(2) proj in_map False
      by (auto simp: HashTableLookup_def HashTableBaseLookup_def Let_def)
  qed (simp add: HashTableLookup_def HashTableBaseLookup_def)
  assume d: "ht_distinct nocase t" and v: "ht_map nocase t ?key = Some v"
  let ?k = "m_TableSizeShift t"
  have "?n \<noteq> 0" using v in_map by force
  then have n: "?n = 2 ^ ?k" "length (entries (slots t)) < 2 ^ ?k" "reach (2 ^ ?k) (slots t)"
    using assms(1) by (auto simp: ht_wf_def split: if_splits)
  obtain p where p: "p < ?n" "HashTableLookup nocase t h s = Some (Some p)" "fst (slots t ! p) \<noteq> 0"
      "slot_key nocase (slots t ! p) = ?key"
    using lookup_loop_slots [of ?k "slots t" h nocase s] assms(2) proj in_map v n
    by (auto simp: HashTableLookup_def HashTableBaseLookup_def Let_def)
  have ent: "slots t ! p \<in> set (entries (slots t))" using p(1,3) proj(4) by simp
  let ?f = "\<lambda>e. (slot_key nocase e, the (snd (snd e)))"
  have "distinct (map fst (map ?f (entries (slots t))))"
    using d by (simp add: ht_distinct_def comp_def)
  then have "map_of (map ?f (entries (slots t))) ?key = Some (the (snd (snd (slots t ! p))))"
    by (rule map_of_is_SomeI) (use ent p(4) in force)
  then have "the (snd (snd (slots t ! p))) = v" using v by (simp add: ht_map_def)
  moreover have "snd (snd (slots t ! p)) \<noteq> None" using assms(1) ent unfolding ht_wf_def by blast
  moreover have "snd (snd (slots t ! p)) = m_Payloads t ! p"
    using p(1) len by (simp add: slots_def)
  ultimately show "\<exists>p < ?n. HashTableLookup nocase t h s = Some (Some p) \<and> m_Payloads t ! p = Some v \<and>
        slots t ! p \<in> set (entries (slots t)) \<and> slot_key nocase (slots t ! p) = ?key"
    using p ent by auto
qed

lemma HashTableInsert_map:
  assumes "ht_wf t" "ht_distinct nocase t" "h \<noteq> 0" "ht_map nocase t (h, canon nocase s) = None"
  shows "\<exists>t'. HashTableInsert t h s v = Some t' \<and> ht_wf t' \<and> ht_distinct nocase t' \<and>
    ht_map nocase t' = (ht_map nocase t)((h, canon nocase s) \<mapsto> v)"
proof -
  let ?e = "(h, s, Some v)" and ?f = "\<lambda>e. (slot_key nocase e, the (snd (snd e)))"
  obtain t' where t': "HashTableInsert t h s v = Some t'" "ht_wf t'"
      "mset (entries (slots t')) = add_mset ?e (mset (entries (slots t)))"
    using HashTableInsert_entries [OF assms(1,3)] by blast
  let ?new = "?e # entries (slots t)"
  have m: "mset (entries (slots t')) = mset ?new" using t'(3) by simp
  have fresh: "slot_key nocase ?e \<notin> set (map (slot_key nocase) (entries (slots t)))"
    using assms(4) unfolding ht_map_None by (simp add: slot_key_def)
  have d: "distinct (map (slot_key nocase) ?new)"
    using fresh assms(2) by (simp add: ht_distinct_def)
  have mk': "mset (map ?f (entries (slots t'))) = mset (map ?f ?new)"
    by (simp only: mset_map m)
  have mk: "mset (map (slot_key nocase) (entries (slots t'))) = mset (map (slot_key nocase) ?new)"
    by (simp only: mset_map m)
  have "ht_distinct nocase t'"
    unfolding ht_distinct_def by (rule mset_eq_imp_distinct_iff [OF mk, THEN iffD2, OF d])
  moreover from this have "ht_map nocase t' = map_of (map ?f ?new)"
    unfolding ht_map_def by (intro map_of_mset_eq mk') (simp add: ht_distinct_def comp_def)
  ultimately show ?thesis using t' by (auto simp: ht_map_def slot_key_def)
qed

section \<open>The interface clients rely on\<close>

text \<open>
  The contract of a table whose clients look a key up and insert it when it is
  absent: a lookup after an insertion finds the new value under every spelling of
  the key and nothing else changes.
\<close>

locale key_map =
  fixes inv :: "'t \<Rightarrow> bool"
    and get :: "'t \<Rightarrow> 'k \<Rightarrow> 'v option"
    and add :: "'t \<Rightarrow> 'k \<Rightarrow> 'v \<Rightarrow> 't option"
    and empty :: 't
    and valid :: "'k \<Rightarrow> bool"
    and same :: "'k \<Rightarrow> 'k \<Rightarrow> bool"
  assumes inv_empty: "inv empty"
    and get_empty: "valid k \<Longrightarrow> get empty k = None"
    and same_get: "inv t \<Longrightarrow> same k k' \<Longrightarrow> get t k = get t k'"
    and add_absent: "inv t \<Longrightarrow> valid k \<Longrightarrow> get t k = None \<Longrightarrow>
      \<exists>t'. add t k v = Some t' \<and> inv t' \<and>
        (\<forall>k'. valid k' \<longrightarrow> get t' k' = (if same k k' then Some v else get t k'))"
begin

text \<open>Interning a list of keys, each inserted only when absent: the first value of a key stays.\<close>

fun intern :: "('k \<times> 'v) list \<Rightarrow> 't \<Rightarrow> 't option" where
  "intern [] t = Some t"
| "intern ((k, v) # kvs) t =
     (if get t k = None then (case add t k v of None \<Rightarrow> None | Some t' \<Rightarrow> intern kvs t')
      else intern kvs t)"

lemma intern_ok:
  assumes "inv t" "\<forall>(k, v) \<in> set kvs. valid k"
  shows "\<exists>t'. intern kvs t = Some t' \<and> inv t' \<and>
    (\<forall>k. valid k \<longrightarrow> get t' k =
      (case get t k of Some v \<Rightarrow> Some v
       | None \<Rightarrow> map_option snd (find (\<lambda>kv. same (fst kv) k) kvs)))"
  using assms
proof (induction kvs arbitrary: t)
  case Nil
  then show ?case by (auto split: option.splits)
next
  case (Cons kv kvs)
  obtain k v where kv: "kv = (k, v)" by (cases kv)
  show ?case
  proof (cases "get t k")
    case None
    then obtain t1 where t1: "add t k v = Some t1" "inv t1"
        "\<And>k'. valid k' \<Longrightarrow> get t1 k' = (if same k k' then Some v else get t k')"
      using add_absent [of t k v] Cons.prems kv by auto
    moreover obtain t' where "intern kvs t1 = Some t'" "inv t'"
        "\<And>k'. valid k' \<Longrightarrow> get t' k' = (case get t1 k' of Some v \<Rightarrow> Some v
           | None \<Rightarrow> map_option snd (find (\<lambda>kv. same (fst kv) k') kvs))"
      using Cons.IH [OF t1(2)] Cons.prems(2) by auto
    moreover have "get t k' = None" if "same k k'" for k'
      using same_get [OF Cons.prems(1) that] None by simp
    ultimately show ?thesis using None kv by (auto split: option.splits)
  next
    case (Some w)
    then obtain t' where "intern kvs t = Some t'" "inv t'"
        "\<And>k'. valid k' \<Longrightarrow> get t' k' = (case get t k' of Some v \<Rightarrow> Some v
           | None \<Rightarrow> map_option snd (find (\<lambda>kv. same (fst kv) k') kvs))"
      using Cons.IH [OF Cons.prems(1)] Cons.prems(2) by auto
    moreover have "\<not> same k k'" if "get t k' = None" for k'
      using same_get [OF Cons.prems(1), of k k'] Some that by auto
    ultimately show ?thesis using Some kv by (auto split: option.splits)
  qed
qed

end

text \<open>Reading a payload through the pointer a lookup returns.\<close>

definition HashTableGet :: "bool \<Rightarrow> 'v hash_table \<Rightarrow> u32 \<times> string \<Rightarrow> 'v option" where
  "HashTableGet nocase t k =
     (case HashTableLookup nocase t (fst k) (snd k) of
        Some (Some p) \<Rightarrow> m_Payloads t ! p | _ \<Rightarrow> None)"

definition ht_ok :: "bool \<Rightarrow> 'v hash_table \<Rightarrow> bool" where
  "ht_ok nocase t \<longleftrightarrow> ht_wf t \<and> ht_distinct nocase t"

definition same_key :: "bool \<Rightarrow> u32 \<times> string \<Rightarrow> u32 \<times> string \<Rightarrow> bool" where
  "same_key nocase k k' \<longleftrightarrow> fst k = fst k' \<and> fst k \<noteq> 0 \<and> canon nocase (snd k) = canon nocase (snd k')"

lemma HashTableGet_map:
  "ht_ok nocase t \<Longrightarrow> fst k \<noteq> 0 \<Longrightarrow> HashTableGet nocase t k = ht_map nocase t (fst k, canon nocase (snd k))"
  using HashTableLookup_map [of t "fst k" nocase "snd k"]
  by (cases "ht_map nocase t (fst k, canon nocase (snd k))") (auto simp: HashTableGet_def ht_ok_def)

interpretation table: key_map "ht_ok nocase" "HashTableGet nocase"
    "\<lambda>t k v. HashTableInsert t (fst k) (snd k) v" HashTableInit "\<lambda>k. fst k \<noteq> 0" "same_key nocase"
  for nocase
proof (unfold_locales, goal_cases)
  case 1 show ?case by (simp add: ht_ok_def)
next
  case (2 k) then show ?case by (simp add: HashTableGet_map ht_ok_def)
next
  case (3 t k k') then show ?case by (auto simp: HashTableGet_map same_key_def)
next
  case (4 t k v)
  then show ?case
    using HashTableInsert_map [of t nocase "fst k" "snd k" v]
    by (fastforce simp: HashTableGet_map ht_ok_def same_key_def)
qed

section \<open>Hash sets\<close>

text \<open>
  A hash set runs the same code without payloads: it is the base part of a table
  with payloads of type \<open>unit\<close>.
\<close>

lemma set_grow_loop_sim:
  "set_grow_loop m (map (\<lambda>(h, s, p). (h, s)) old) (hs, ss) =
     map_option (\<lambda>(h, s, p). (h, s)) (grow_loop m old (hs, ss, ps))"
  by (induction old arbitrary: hs ss ps) (auto split: option.splits)

lemma zip_drop_payload:
  "length hs = length ss \<Longrightarrow> length ss = length ps \<Longrightarrow>
     zip hs ss = map (\<lambda>(h, s, p). (h, s)) (zip hs (zip ss ps))"
  by (auto simp: list_eq_iff_nth_eq)

lemma HashSetGrow_sim:
  assumes "length (m_Hashes T) = length (m_Strings T)" "length (m_Strings T) = length (m_Payloads T)"
  shows "HashSetGrow (hash_table_base.truncate T) = map_option hash_table_base.truncate (HashTableGrow T)"
proof -
  define k :: nat where "k = max (m_TableSizeShift T + 2) 7"
  let ?old = "zip (m_Hashes T) (zip (m_Strings T) (m_Payloads T))"
  let ?new = "(replicate (2 ^ k) 0, replicate (2 ^ k) [], replicate (2 ^ k) None)"
  have "set_grow_loop (2 ^ k - 1) (zip (m_Hashes T) (m_Strings T)) (replicate (2 ^ k) 0, replicate (2 ^ k) [])
      = map_option (\<lambda>(h, s, p). (h, s)) (grow_loop (2 ^ k - 1) ?old ?new)"
    unfolding zip_drop_payload [OF assms] by (rule set_grow_loop_sim)
  moreover have shift: "m_TableSizeShift (hash_table_base.truncate T) = m_TableSizeShift T"
    by (simp add: hash_table_base.defs)
  ultimately show ?thesis
    unfolding HashSetGrow_def HashTableGrow_def Let_def shift k_def [symmetric]
    by (cases "grow_loop (2 ^ k - 1) ?old ?new") (auto simp: hash_table_base.defs)
qed

lemma HashSetInsert_sim:
  assumes "ht_wf T"
  shows "HashSetInsert (hash_table_base.truncate T) h s =
    map_option hash_table_base.truncate (HashTableInsert T h s v)"
proof -
  have len: "length (m_Hashes T) = length (m_Strings T)" "length (m_Strings T) = length (m_Payloads T)"
    using assms by (auto simp: ht_wf_def)
  show ?thesis
    unfolding HashSetInsert_def HashTableInsert_def HashTableBaseInsert_def Let_def
    using HashSetGrow_sim [OF len]
    by (auto simp: hash_table_base.defs option.map_comp split: option.splits)
qed

definition hs_ok :: "bool \<Rightarrow> hash_table_base \<Rightarrow> bool" where
  "hs_ok nocase t \<longleftrightarrow> (\<exists>T :: unit hash_table. ht_ok nocase T \<and> hash_table_base.truncate T = t)"

definition HashSetGet :: "bool \<Rightarrow> hash_table_base \<Rightarrow> u32 \<times> string \<Rightarrow> unit option" where
  "HashSetGet nocase t k = (if HashSetLookup nocase t (fst k) (snd k) = Some True then Some () else None)"

lemma HashSetLookup_sim:
  fixes T :: "unit hash_table"
  assumes "ht_ok nocase T" "h \<noteq> 0"
  shows "HashSetLookup nocase (hash_table_base.truncate T) h s = Some (HashTableGet nocase T (h, s) \<noteq> None)"
proof -
  have "HashTableBaseLookup nocase (hash_table_base.truncate T) h s = HashTableBaseLookup nocase T h s"
    by (simp add: HashTableBaseLookup_def hash_table_base.defs Let_def)
  moreover have "ht_wf T" "ht_distinct nocase T" using assms(1) by (auto simp: ht_ok_def)
  ultimately show ?thesis
    using HashTableLookup_map [of T h nocase s] assms
    by (cases "ht_map nocase T (h, canon nocase s)")
      (auto simp: HashSetLookup_def HashTableLookup_def HashTableGet_map split: option.splits if_splits)
qed

lemma HashSetGet_sim:
  "ht_ok nocase T \<Longrightarrow> fst k \<noteq> 0 \<Longrightarrow> HashSetGet nocase (hash_table_base.truncate T) k = HashTableGet nocase T k"
  using HashSetLookup_sim [of nocase T "fst k" "snd k"]
  by (cases "HashTableGet nocase T k") (auto simp: HashSetGet_def)

interpretation hset: key_map "hs_ok nocase" "HashSetGet nocase"
    "\<lambda>t k (v :: unit). HashSetInsert t (fst k) (snd k)" HashSetInit "\<lambda>k. fst k \<noteq> 0" "same_key nocase"
  for nocase
proof (unfold_locales, goal_cases)
  case 1
  have "hash_table_base.truncate (HashTableInit :: unit hash_table) = HashSetInit"
    by (simp add: HashTableInit_def HashSetInit_def hash_table_base.defs)
  then show ?case using table.inv_empty unfolding hs_ok_def by blast
next
  case (2 k)
  then show ?case
    by (simp add: HashSetGet_def HashSetLookup_def HashTableBaseLookup_def HashSetInit_def)
next
  case (3 t k k')
  then obtain T :: "unit hash_table" where T: "ht_ok nocase T" "hash_table_base.truncate T = t"
    by (auto simp: hs_ok_def)
  show ?case
    using table.same_get [OF T(1) 3(2)] 3(2) HashSetGet_sim [OF T(1), of k] HashSetGet_sim [OF T(1), of k'] T(2)
    by (auto simp: same_key_def)
next
  case (4 t k v)
  then obtain T :: "unit hash_table" where T: "ht_ok nocase T" "hash_table_base.truncate T = t"
    by (auto simp: hs_ok_def)
  have "HashTableGet nocase T k = None" using 4 T HashSetGet_sim [OF T(1), of k] by simp
  then obtain T' where T': "HashTableInsert T (fst k) (snd k) v = Some T'" "ht_ok nocase T'"
      "\<And>k'. fst k' \<noteq> 0 \<Longrightarrow> HashTableGet nocase T' k' = (if same_key nocase k k' then Some v else HashTableGet nocase T k')"
    using table.add_absent [OF T(1) 4(2)] by blast
  have "HashSetInsert t (fst k) (snd k) = Some (hash_table_base.truncate T')"
    using HashSetInsert_sim [of T "fst k" "snd k" v] T T' by (simp add: ht_ok_def)
  moreover have "hs_ok nocase (hash_table_base.truncate T')" using T'(2) by (auto simp: hs_ok_def)
  ultimately show ?case using T T'(2,3) HashSetGet_sim by auto
qed

text \<open>What a walk sees: exactly the keys that lookups find, each once, and as many as were inserted.\<close>

lemma HashSetWalk_keys:
  assumes "hs_ok nocase t"
  shows "length (HashSetWalk t) = m_RecordCount t"
    and "distinct (map (\<lambda>(h, s). (h, canon nocase s)) (HashSetWalk t))"
    and "h \<noteq> 0 \<Longrightarrow> HashSetLookup nocase t h s = Some ((h, canon nocase s) \<in>
           set (map (\<lambda>(h, s). (h, canon nocase s)) (HashSetWalk t)))"
proof -
  obtain T :: "unit hash_table" where T: "ht_ok nocase T" "hash_table_base.truncate T = t"
    using assms by (auto simp: hs_ok_def)
  have len: "length (m_Hashes T) = length (m_Strings T)" "length (m_Strings T) = length (m_Payloads T)"
    using T(1) by (auto simp: ht_ok_def ht_wf_def)
  have walk: "HashSetWalk t = map (\<lambda>(h, s, p). (h, s)) (entries (slots T))"
    using T(2) zip_drop_payload [OF len]
    by (auto simp: HashSetWalk_def hash_table_base.defs slots_def filter_map comp_def case_prod_beta)
  then show "length (HashSetWalk t) = m_RecordCount t"
    using T by (auto simp: ht_ok_def ht_wf_def hash_table_base.defs)
  have keys: "map (\<lambda>(h, s). (h, canon nocase s)) (HashSetWalk t) = map (slot_key nocase) (entries (slots T))"
    by (simp add: walk slot_key_def case_prod_beta)
  then show "distinct (map (\<lambda>(h, s). (h, canon nocase s)) (HashSetWalk t))"
    using T(1) by (simp add: ht_ok_def ht_distinct_def)
  assume "h \<noteq> 0"
  then show "HashSetLookup nocase t h s = Some ((h, canon nocase s) \<in>
           set (map (\<lambda>(h, s). (h, canon nocase s)) (HashSetWalk t)))"
    using HashSetLookup_sim [OF T(1), of h s] T ht_map_None [of nocase T "(h, canon nocase s)"]
    unfolding keys by (simp add: HashTableGet_map)
qed

section \<open>What clients of the tables see\<close>

text \<open>
  C14: Two file names that a table treats as the same key have the same path hash, so that a
  lookup by hash and name finds a key under every spelling, also when the file system
  ignores case.
\<close>

theorem same_name_same_hash:
  assumes "compare_fn_eq nocase l r" shows "Djb2HashPath nocase l = Djb2HashPath nocase r"
  using assms unfolding compare_fn_eq_canon by (rule Djb2HashPath_canon)

theorem same_name_same_hash_witness:
  "FastCompareNoCase ''Foo.C'' ''fOO.c'' = 0 \<and> Djb2HashPath True ''Foo.C'' = Djb2HashPath True ''fOO.c''"
proof -
  have "compare_fn_eq True ''Foo.C'' ''fOO.c''" by code_simp
  then show ?thesis using same_name_same_hash [of True "''Foo.C''" "''fOO.c''"] unfolding compare_fn_eq_def by simp
qed

text \<open>
  C13: Inserting a new key, growing and rehashing the table when it fills up, always
  succeeds; afterwards lookups find the new value under every spelling of the key and
  return for every other key what they returned before.
\<close>

theorem insert_then_lookup:
  assumes "ht_ok nocase t" "h \<noteq> 0" "HashTableGet nocase t (h, s) = None"
  shows "\<exists>t'. HashTableInsert t h s v = Some t' \<and> ht_ok nocase t' \<and>
    (\<forall>h' s'. h' \<noteq> 0 \<longrightarrow> HashTableGet nocase t' (h', s') =
       (if h' = h \<and> compare_fn_eq nocase s s' then Some v else HashTableGet nocase t (h', s')))"
  using table.add_absent [of nocase t "(h, s)" v] assms by (auto simp: same_key_def)

theorem insert_then_lookup_witness:
  "\<exists>t'. HashTableInsert HashTableInit 7 ''a'' (1 :: nat) = Some t' \<and> HashTableGet False t' (7, ''a'') = Some 1 \<and>
     HashTableGet False t' (7, ''b'') = None"
proof -
  have init: "ht_ok False (HashTableInit :: nat hash_table)" by (rule table.inv_empty)
  have none: "HashTableGet False (HashTableInit :: nat hash_table) (7, x) = None" for x
    by (rule table.get_empty) simp
  obtain t' where t': "HashTableInsert HashTableInit 7 ''a'' (1 :: nat) = Some t'"
    "\<forall>h' s'. h' \<noteq> 0 \<longrightarrow> HashTableGet False t' (h', s') =
       (if h' = 7 \<and> compare_fn_eq False ''a'' s' then Some 1 else HashTableGet False HashTableInit (h', s'))"
    using insert_then_lookup [OF init _ none, of "''a''" 1] by auto
  moreover have "HashTableGet False t' (7, ''a'') = Some 1 \<and> HashTableGet False t' (7, ''b'') = None"
    using t'(2) none by (simp add: canon_def)
  ultimately show ?thesis by blast
qed

text \<open>
  The probe loops terminate: a lookup in a well-formed table always returns, because the
  load factor leaves an empty slot in every probe sequence.
\<close>

theorem lookup_returns:
  assumes "ht_ok nocase t" "h \<noteq> 0" shows "\<exists>r. HashTableLookup nocase t h s = Some r"
proof -
  have w: "ht_wf t" "ht_distinct nocase t" using assms(1) by (auto simp: ht_ok_def)
  show ?thesis
    using HashTableLookup_map [OF w(1) assms(2)] w(2)
    by (cases "ht_map nocase t (h, canon nocase s)") blast+
qed

theorem lookup_returns_witness: "\<exists>r. HashTableLookup True (HashTableInit :: nat hash_table) 5 ''x'' = Some r"
  using lookup_returns [OF table.inv_empty, of 5] by simp

text \<open>
  Walking a hash set visits every key exactly once: as many records as were inserted, no
  key twice, and exactly the keys that a lookup finds.
\<close>

theorem walk_visits_members:
  assumes "hs_ok nocase t"
  shows "length (HashSetWalk t) = m_RecordCount t \<and>
    distinct (map (\<lambda>(h, s). (h, canon nocase s)) (HashSetWalk t)) \<and>
    (\<forall>h s. h \<noteq> 0 \<longrightarrow> HashSetLookup nocase t h s =
       Some ((h, canon nocase s) \<in> set (map (\<lambda>(h, s). (h, canon nocase s)) (HashSetWalk t))))"
  using HashSetWalk_keys [OF assms] by blast

theorem walk_visits_members_witness: "length (HashSetWalk HashSetInit) = m_RecordCount HashSetInit"
  using walk_visits_members [OF hset.inv_empty [of False]] by blast

end
