(* ===== verification/T2_Hash.thy ===== *)
theory T2_Hash
  imports T2_DagData T2_HashTable "HOL-Library.Product_Lexorder" "HOL-Library.Monad_Syntax"
begin

text \<open>
  Model of \<open>src/Hash.hpp\<close>, \<open>src/Hash.cpp\<close>, \<open>src/HashFast.cpp\<close> and \<open>src/HashSha1.cpp\<close>: the
  streaming hash with its 64 byte buffer, the two block functions it can be built with,
  comparison and printing of digests. The block function is an argument of the streaming
  code, which the build selects with a macro. The dump of the hashed data to a debug file
  is left out. The lemmas show that the digest is a function of the concatenated input.
\<close>

section \<open>Digests\<close>

definition CompareHashDigests :: "digest \<Rightarrow> digest \<Rightarrow> int" where
  "CompareHashDigests lhs rhs =
     (let l0 = fst lhs; r0 = fst rhs; res0 = of_bool (l0 > r0) - of_bool (l0 < r0);
          l1 = snd lhs; r1 = snd rhs; res1 = of_bool (l1 > r1) - of_bool (l1 < r1)
      in if res0 \<noteq> 0 then res0 else res1)"

definition hex_digit :: "u8 \<Rightarrow> char" where
  "hex_digit n = ''0123456789abcdef'' ! unat n"

fun digest_word_loop :: "nat \<Rightarrow> u64 \<Rightarrow> string" where
  "digest_word_loop 0 w = []"
| "digest_word_loop (Suc b) w =
     (let byte = (ucast (drop_bit 56 w) :: u8)
      in hex_digit (drop_bit 4 byte) # hex_digit (byte AND 0xf) # digest_word_loop b (push_bit 8 w))"

definition DigestToString :: "digest \<Rightarrow> string" where
  "DigestToString d = digest_word_loop 8 (fst d) @ digest_word_loop 8 (snd d)"

section \<open>Streaming\<close>

record 'i HashState =
  hs_StateImpl :: 'i
  hs_MsgSize :: u64
  hs_BufUsed :: nat
  hs_Buffer :: "u8 list"

partial_function (option) HashUpdate_loop ::
  "(u8 list \<Rightarrow> 'i \<Rightarrow> 'i) \<Rightarrow> nat \<Rightarrow> u8 list \<Rightarrow> 'i \<Rightarrow> u8 list \<Rightarrow> (nat \<times> u8 list \<times> 'i) option" where
  "HashUpdate_loop block used buffer state data =
     (if data = [] then Some (used, buffer, state)
      else if used \<noteq> 0 \<or> length data < 64 then
        (let buf_space = 64 - used;
             copy_size = (if length data < buf_space then length data else buf_space);
             buffer = take used buffer @ take copy_size data @ drop (used + copy_size) buffer;
             used = used + copy_size;
             data = drop copy_size data
         in if used = 64 then HashUpdate_loop block 0 buffer (block buffer state) data
            else HashUpdate_loop block used buffer state data)
      else HashUpdate_loop block used buffer (block (take 64 data) state) (drop 64 data))"

declare HashUpdate_loop.simps [code]

definition HashUpdate :: "(u8 list \<Rightarrow> 'i \<Rightarrow> 'i) \<Rightarrow> 'i HashState \<Rightarrow> u8 list \<Rightarrow> 'i HashState option" where
  "HashUpdate block self data = do {
     (used, buffer, state) \<leftarrow> HashUpdate_loop block (hs_BufUsed self) (hs_Buffer self) (hs_StateImpl self) data;
     Some \<lparr>hs_StateImpl = state, hs_MsgSize = hs_MsgSize self + of_nat (length data) * 8,
           hs_BufUsed = used, hs_Buffer = buffer\<rparr>
   }"

definition bytes_of :: "string \<Rightarrow> u8 list" where
  "bytes_of s = map of_char (c_str s)"

definition HashAddString :: "(u8 list \<Rightarrow> 'i \<Rightarrow> 'i) \<Rightarrow> 'i HashState \<Rightarrow> string \<Rightarrow> 'i HashState option" where
  "HashAddString block self s = HashUpdate block self (bytes_of s)"

fun HashAddStringFoldCase :: "(u8 list \<Rightarrow> 'i \<Rightarrow> 'i) \<Rightarrow> 'i HashState \<Rightarrow> string \<Rightarrow> 'i HashState option" where
  "HashAddStringFoldCase block self [] = Some self"
| "HashAddStringFoldCase block self (c # path) =
     (if c = NUL then Some self
      else do {
        let c = (ucast (FoldCase (int_of_char c)) :: u8);
        self \<leftarrow> HashUpdate block self [c];
        HashAddStringFoldCase block self path
      })"

definition HashAddPath :: "bool \<Rightarrow> (u8 list \<Rightarrow> 'i \<Rightarrow> 'i) \<Rightarrow> 'i HashState \<Rightarrow> string \<Rightarrow> 'i HashState option" where
  "HashAddPath nocase block self path =
     (if nocase then HashAddStringFoldCase block self path else HashAddString block self path)"

definition be64 :: "u64 \<Rightarrow> u8 list" where
  "be64 w = map (\<lambda>i. ucast (drop_bit (56 - i * 8) w)) [0..<8]"

definition HashAddInteger :: "(u8 list \<Rightarrow> 'i \<Rightarrow> 'i) \<Rightarrow> 'i HashState \<Rightarrow> u64 \<Rightarrow> 'i HashState option" where
  "HashAddInteger block self v = HashUpdate block self
     [ucast (drop_bit 56 v), ucast (drop_bit 48 v), ucast (drop_bit 40 v), ucast (drop_bit 32 v),
      ucast (drop_bit 24 v), ucast (drop_bit 16 v), ucast (drop_bit 8 v), ucast (drop_bit 0 v)]"

definition HashAddSeparator :: "(u8 list \<Rightarrow> 'i \<Rightarrow> 'i) \<Rightarrow> 'i HashState \<Rightarrow> 'i HashState option" where
  "HashAddSeparator block self = HashUpdate block self [0]"

text \<open>The contents of \<open>m_Buffer\<close> are not initialised: an argument.\<close>

definition HashInit :: "'i \<Rightarrow> u8 list \<Rightarrow> 'i HashState" where
  "HashInit init garbage = \<lparr>hs_StateImpl = init, hs_MsgSize = 0, hs_BufUsed = 0, hs_Buffer = garbage\<rparr>"

definition HashFinalize :: "(u8 list \<Rightarrow> 'i \<Rightarrow> 'i) \<Rightarrow> ('i \<Rightarrow> 'd) \<Rightarrow> 'i HashState \<Rightarrow> 'd option" where
  "HashFinalize block final self = do {
     let count_data = map (\<lambda>i. ucast (drop_bit (56 - i * 8) (hs_MsgSize self))) [0..<8];
     self \<leftarrow> HashUpdate block self [0x80];
     let diff = int (hs_BufUsed self) - 56;
     self \<leftarrow> (if diff < 0 then HashUpdate block self (replicate (nat (- diff)) 0)
             else HashUpdate block self (replicate (64 - nat diff) 0));
     (if hs_BufUsed self = 56 then Some () else None);
     self \<leftarrow> HashUpdate block self count_data;
     (if hs_BufUsed self = 0 then Some () else None);
     Some (final (hs_StateImpl self))
   }"

section \<open>The fast hash\<close>

definition kPrime32_1 :: u32 where "kPrime32_1 = 2654435761"
definition kPrime32_2 :: u32 where "kPrime32_2 = 2246822519"
definition kPrime32_3 :: u32 where "kPrime32_3 = 3266489917"

definition RotateLeft :: "u32 \<Rightarrow> nat \<Rightarrow> u32" where
  "RotateLeft v amount = push_bit amount v OR drop_bit (32 - amount) v"

text \<open>\<open>*p++\<close> of a \<open>uint32_t\<close> pointer into the block, on a little-endian machine.\<close>

definition le32 :: "u8 list \<Rightarrow> nat \<Rightarrow> u32" where
  "le32 block i = ucast (block ! (4 * i)) OR push_bit 8 (ucast (block ! (4 * i + 1)))
     OR push_bit 16 (ucast (block ! (4 * i + 2))) OR push_bit 24 (ucast (block ! (4 * i + 3)))"

text \<open>The four lanes \<open>m_V[v]\<close>, each with four words.\<close>

type_synonym fast_state = "u32 list list"

definition fast_round :: "u32 \<Rightarrow> u32 \<Rightarrow> u32" where
  "fast_round v word = RotateLeft (v + word * kPrime32_2) 13 * kPrime32_1"

definition HashBlock :: "u8 list \<Rightarrow> fast_state \<Rightarrow> fast_state" where
  "HashBlock block state =
     map (\<lambda>v. map (\<lambda>i. fast_round (state ! v ! i) (le32 block (4 * v + i))) [0..<4]) [0..<4]"

definition HashInitImpl :: fast_state where
  "HashInitImpl = map (\<lambda>seed. [seed + kPrime32_1 + kPrime32_2, seed + kPrime32_2, seed, seed - kPrime32_1])
     [0x89caf13a, 0x179fa534, 0x5199afcc, 0xef901315]"

definition fast_final_lane :: "u32 list \<Rightarrow> u32" where
  "fast_final_lane v =
     (let h32 = RotateLeft (v ! 0) 1 + RotateLeft (v ! 1) 7 + RotateLeft (v ! 2) 12 + RotateLeft (v ! 3) 18;
          h32 = h32 XOR drop_bit 15 h32;
          h32 = h32 * kPrime32_2;
          h32 = h32 XOR drop_bit 13 h32;
          h32 = h32 * kPrime32_3;
          h32 = h32 XOR drop_bit 16 h32
      in h32)"

text \<open>\<open>m_Words32\<close> and \<open>m_Words64\<close> share their storage.\<close>

definition words64 :: "u32 \<Rightarrow> u32 \<Rightarrow> u64" where
  "words64 lo hi = ucast lo OR push_bit 32 (ucast hi)"

definition HashFinalizeImpl :: "fast_state \<Rightarrow> digest" where
  "HashFinalizeImpl state =
     (words64 (fast_final_lane (state ! 0)) (fast_final_lane (state ! 1)),
      words64 (fast_final_lane (state ! 2)) (fast_final_lane (state ! 3)))"

definition HashSingleString :: "u8 list \<Rightarrow> string \<Rightarrow> digest option" where
  "HashSingleString garbage s = do {
     h \<leftarrow> HashUpdate HashBlock (HashInit HashInitImpl garbage) (bytes_of s);
     HashFinalize HashBlock HashFinalizeImpl h
   }"

section \<open>SHA-1\<close>

fun sha1_schedule :: "nat \<Rightarrow> u32 list \<Rightarrow> u32 list" where
  "sha1_schedule 0 w = w"
| "sha1_schedule (Suc n) w =
     (let i = length w
      in sha1_schedule n (w @ [RotateLeft (w ! (i - 3) XOR w ! (i - 8) XOR w ! (i - 14) XOR w ! (i - 16)) 1]))"

type_synonym sha1_state = "u32 \<times> u32 \<times> u32 \<times> u32 \<times> u32"

definition be32_at :: "u8 list \<Rightarrow> nat \<Rightarrow> u32" where
  "be32_at block i = push_bit 24 (ucast (block ! (i * 4))) OR push_bit 16 (ucast (block ! (i * 4 + 1)))
     OR push_bit 8 (ucast (block ! (i * 4 + 2))) OR push_bit 0 (ucast (block ! (i * 4 + 3)))"

fun SHA1_LOOP :: "(u32 \<Rightarrow> u32 \<Rightarrow> u32 \<Rightarrow> u32) \<Rightarrow> u32 \<Rightarrow> u32 list \<Rightarrow> sha1_state \<Rightarrow> sha1_state" where
  "SHA1_LOOP func k [] s = s"
| "SHA1_LOOP func k (w # ws) (a, b, c, d, e) =
     (let t = RotateLeft a 5 + func b c d + e + k + w in SHA1_LOOP func k ws (t, a, RotateLeft b 30, c, d))"

definition sha1_HashBlock :: "u8 list \<Rightarrow> sha1_state \<Rightarrow> sha1_state" where
  "sha1_HashBlock block st =
     (let w = sha1_schedule 64 (map (be32_at block) [0..<16]);
          s = SHA1_LOOP (\<lambda>b c d. (b AND c) XOR (NOT b AND d)) 0x5a827999 (take 20 w) st;
          s = SHA1_LOOP (\<lambda>b c d. b XOR c XOR d) 0x6ed9eba1 (take 20 (drop 20 w)) s;
          s = SHA1_LOOP (\<lambda>b c d. (b AND c) XOR (b AND d) XOR (c AND d)) 0x8f1bbcdc (take 20 (drop 40 w)) s;
          s = SHA1_LOOP (\<lambda>b c d. b XOR c XOR d) 0xca62c1d6 (take 20 (drop 60 w)) s;
          (a, b, c, d, e) = s; (a0, b0, c0, d0, e0) = st
      in (a0 + a, b0 + b, c0 + c, d0 + d, e0 + e))"

definition sha1_HashInitImpl :: sha1_state where
  "sha1_HashInitImpl = (0x67452301, 0xefcdab89, 0x98badcfe, 0x10325476, 0xc3d2e1f0)"

definition sha1_HashFinalizeImpl :: "sha1_state \<Rightarrow> u8 list" where
  "sha1_HashFinalizeImpl st =
     (let (a, b, c, d, e) = st; words = [a, b, c, d, e]
      in map (\<lambda>i. ucast (drop_bit ((3 - i mod 4) * 8) (words ! (i div 4)))) [0..<20])"

section \<open>The streaming state\<close>

function absorb :: "(u8 list \<Rightarrow> 'i \<Rightarrow> 'i) \<Rightarrow> 'i \<Rightarrow> u8 list \<Rightarrow> 'i \<times> u8 list" where
  "absorb block st data =
     (if length data < 64 then (st, data) else absorb block (block (take 64 data) st) (drop 64 data))"
  by pat_completeness auto
termination by (relation "measure (\<lambda>(b, s, d). length d)") auto

declare absorb.simps [simp del]

lemma absorb_short: "length data < 64 \<Longrightarrow> absorb block st data = (st, data)"
  by (simp add: absorb.simps)

lemma absorb_block: "length xs = 64 \<Longrightarrow> absorb block st (xs @ data) = absorb block (block xs st) data"
  by (subst absorb.simps) simp

lemma absorb_rest: "length (snd (absorb block st data)) < 64"
  by (induction block st data rule: absorb.induct) (subst absorb.simps, simp)

lemma absorb_append:
  "absorb block st (a @ b) = (let (st', r) = absorb block st a in absorb block st' (r @ b))"
proof (induction block st a rule: absorb.induct)
  case (1 block st a)
  show ?case
  proof (cases "length a < 64")
    case True
    then show ?thesis by (simp add: absorb_short)
  next
    case False
    then have a: "a = take 64 a @ drop 64 a" "length (take 64 a) = 64" by auto
    have "absorb block st (a @ b) = absorb block (block (take 64 a) st) (drop 64 a @ b)"
      using absorb_block [OF a(2), of block st "drop 64 a @ b"] a(1) by (metis append.assoc)
    moreover have "absorb block st a = absorb block (block (take 64 a) st) (drop 64 a)"
      using False by (simp add: absorb.simps)
    ultimately show ?thesis using 1 [OF False] by simp
  qed
qed

text \<open>\<open>h\<close> has consumed \<open>msg\<close> since \<open>HashInit\<close>.\<close>

definition consumed :: "(u8 list \<Rightarrow> 'i \<Rightarrow> 'i) \<Rightarrow> 'i \<Rightarrow> u8 list \<Rightarrow> 'i HashState \<Rightarrow> bool" where
  "consumed block init msg h \<longleftrightarrow> length (hs_Buffer h) = 64 \<and>
     hs_BufUsed h = length (snd (absorb block init msg)) \<and>
     take (hs_BufUsed h) (hs_Buffer h) = snd (absorb block init msg) \<and>
     hs_StateImpl h = fst (absorb block init msg) \<and>
     hs_MsgSize h = of_nat (length msg) * 8"

lemma HashUpdate_loop_ok:
  assumes "used < 64" "length buffer = 64"
  shows "\<exists>buffer'. HashUpdate_loop block used buffer st data =
      Some (length (snd (absorb block st (take used buffer @ data))), buffer', fst (absorb block st (take used buffer @ data))) \<and>
    length buffer' = 64 \<and>
    take (length (snd (absorb block st (take used buffer @ data)))) buffer' = snd (absorb block st (take used buffer @ data))"
  using assms
proof (induction "length data" arbitrary: data used buffer st rule: less_induct)
  case less
  show ?case
  proof (cases "data = []")
    case True
    then show ?thesis using less.prems by (simp add: HashUpdate_loop.simps absorb_short)
  next
    case ne: False
    show ?thesis
    proof (cases "used \<noteq> 0 \<or> length data < 64")
      case False
      then have "HashUpdate_loop block used buffer st data =
          HashUpdate_loop block used buffer (block (take 64 data) st) (drop 64 data)"
        using ne by (subst HashUpdate_loop.simps) simp
      moreover have "absorb block st (take used buffer @ data) =
          absorb block (block (take 64 data) st) (take used buffer @ drop 64 data)"
        using False absorb_block [of "take 64 data" block st "drop 64 data"] by simp
      ultimately show ?thesis using less.hyps [of "drop 64 data" used buffer "block (take 64 data) st"] less.prems ne by simp
    next
      case True
      define c where "c = min (length data) (64 - used)"
      define buf where "buf = take used buffer @ take c data @ drop (used + c) buffer"
      have c: "0 < c" "c \<le> length data" "used + c \<le> 64" using ne less.prems(1) by (auto simp: c_def)
      have len: "length buf = 64" using c less.prems by (simp add: buf_def)
      have tk: "take (used + c) buf = take used buffer @ take c data" using c less.prems by (simp add: buf_def)
      have step: "HashUpdate_loop block used buffer st data =
          (if used + c = 64 then HashUpdate_loop block 0 buf (block buf st) (drop c data)
           else HashUpdate_loop block (used + c) buf st (drop c data))"
      proof -
        have "(if length data < 64 - used then length data else 64 - used) = c" by (simp add: c_def min_def)
        then show ?thesis using ne True by (subst HashUpdate_loop.simps) (simp add: buf_def Let_def)
      qed
      have split: "take used buffer @ data = take (used + c) buf @ drop c data" by (simp add: tk)
      show ?thesis
      proof (cases "used + c = 64")
        case True
        then have "take used buffer @ data = buf @ drop c data" using split len by simp
        then have "absorb block st (take used buffer @ data) = absorb block (block buf st) (drop c data)"
          using absorb_block [OF len] by simp
        then show ?thesis using less.hyps [of "drop c data" 0 buf "block buf st"] c ne len step True by simp
      next
        case False
        then show ?thesis using less.hyps [of "drop c data" "used + c" buf st] c ne len step split by simp
      qed
    qed
  qed
qed

lemma HashInit_consumed: "length garbage = 64 \<Longrightarrow> consumed block init [] (HashInit init garbage)"
  by (simp add: consumed_def HashInit_def absorb_short)

lemma HashUpdate_consumed:
  assumes "consumed block init msg h"
  shows "\<exists>h'. HashUpdate block h data = Some h' \<and> consumed block init (msg @ data) h'"
proof -
  let ?u = "hs_BufUsed h" and ?b = "hs_Buffer h" and ?s = "hs_StateImpl h"
  have u: "?u < 64" "length ?b = 64" using assms absorb_rest [of block init msg] by (auto simp: consumed_def)
  have a: "absorb block ?s (take ?u ?b @ data) = absorb block init (msg @ data)"
  proof -
    have "take ?u ?b = snd (absorb block init msg)" "?s = fst (absorb block init msg)"
      using assms by (auto simp: consumed_def)
    then show ?thesis using absorb_append [of block init msg data] by (simp only: split_beta Let_def)
  qed
  obtain b' where "HashUpdate_loop block ?u ?b ?s data =
      Some (length (snd (absorb block init (msg @ data))), b', fst (absorb block init (msg @ data)))"
    "length b' = 64" "take (length (snd (absorb block init (msg @ data)))) b' = snd (absorb block init (msg @ data))"
    using HashUpdate_loop_ok [OF u, of block ?s data] unfolding a by blast
  then show ?thesis
    using assms by (auto simp: HashUpdate_def consumed_def algebra_simps)
qed

text \<open>
  The padded message: a one bit, zeroes up to eight bytes before the end of a block, and the
  size in bits. The number of zeroes follows the code: 64, not 0, when the one bit ends
  exactly eight bytes before the end of a block.
\<close>

definition pad_zeroes :: "u8 list \<Rightarrow> nat" where
  "pad_zeroes msg = (let u = (length msg + 1) mod 64 in if u < 56 then 56 - u else 120 - u)"

definition pad :: "u8 list \<Rightarrow> u8 list" where
  "pad msg = (msg @ [0x80]) @ replicate (pad_zeroes msg) 0 @ be64 (of_nat (length msg) * 8)"

lemma length_be64 [simp]: "length (be64 w) = 8"
  by (simp add: be64_def)

lemma pad_zeroes_mod: "(length msg + 1 + pad_zeroes msg) mod 64 = 56"
proof -
  let ?u = "(length msg + 1) mod 64"
  have "(length msg + 1 + pad_zeroes msg) mod 64 = (?u + pad_zeroes msg) mod 64" by (simp only: mod_add_left_eq)
  moreover have "?u + pad_zeroes msg = 56 \<or> ?u + pad_zeroes msg = 120"
    using mod_less_divisor [of 64 "length msg + 1"] by (auto simp: pad_zeroes_def Let_def simp del: mod_less_divisor)
  ultimately show ?thesis by auto
qed

lemma pad_blocks: "length (pad msg) mod 64 = 0"
proof -
  have "length (pad msg) = (length msg + 1 + pad_zeroes msg) + 8" by (simp add: pad_def)
  then have "length (pad msg) mod 64 = ((length msg + 1 + pad_zeroes msg) mod 64 + 8) mod 64"
    by (simp only: mod_add_left_eq)
  then show ?thesis by (simp only: pad_zeroes_mod) simp
qed

lemma absorb_rest_length: "length (snd (absorb block st data)) = length data mod 64"
proof (induction block st data rule: absorb.induct)
  case (1 block st data)
  then show ?case by (cases "length data < 64") (subst absorb.simps, simp add: le_mod_geq)+
qed

lemma consumed_used: "consumed block init msg h \<Longrightarrow> hs_BufUsed h = length msg mod 64"
  by (simp add: consumed_def absorb_rest_length)

text \<open>
  \<open>HashFinalize\<close> pads the message to whole blocks: neither \<open>CHECK\<close> fails, and the digest is
  that of the padded message.
\<close>

lemma HashFinalize_consumed:
  assumes "consumed block init msg h"
  shows "HashFinalize block final h = Some (final (fst (absorb block init (pad msg))))"
proof -
  obtain h1 where h1: "HashUpdate block h [0x80] = Some h1" "consumed block init (msg @ [0x80]) h1"
    using HashUpdate_consumed [OF assms] by blast
  let ?u = "hs_BufUsed h1"
  have u: "?u = (length msg + 1) mod 64" "?u < 64" using consumed_used [OF h1(2)] by simp_all
  then have "(if int ?u - 56 < 0 then HashUpdate block h1 (replicate (nat (- (int ?u - 56))) 0)
      else HashUpdate block h1 (replicate (64 - nat (int ?u - 56)) 0)) =
      HashUpdate block h1 (replicate (pad_zeroes msg) 0)"
    by (auto simp: pad_zeroes_def Let_def nat_diff_distrib intro!: arg_cong [where f = "\<lambda>n. HashUpdate block h1 (replicate n 0)"])
  moreover obtain h2 where h2: "HashUpdate block h1 (replicate (pad_zeroes msg) 0) = Some h2"
      "consumed block init ((msg @ [0x80]) @ replicate (pad_zeroes msg) 0) h2"
    using HashUpdate_consumed [OF h1(2)] by blast
  moreover have "hs_BufUsed h2 = 56" using consumed_used [OF h2(2)] pad_zeroes_mod [of msg] by simp
  moreover obtain h3 where h3: "HashUpdate block h2 (be64 (hs_MsgSize h)) = Some h3"
      "consumed block init (((msg @ [0x80]) @ replicate (pad_zeroes msg) 0) @ be64 (hs_MsgSize h)) h3"
    using HashUpdate_consumed [OF h2(2)] by blast
  moreover have sz: "hs_MsgSize h = of_nat (length msg) * 8" using assms by (simp add: consumed_def)
  then have p: "((msg @ [0x80]) @ replicate (pad_zeroes msg) 0) @ be64 (hs_MsgSize h) = pad msg" by (simp add: pad_def)
  moreover have "hs_BufUsed h3 = 0" using consumed_used [OF h3(2)] pad_blocks [of msg] unfolding p by simp
  moreover have "hs_StateImpl h3 = fst (absorb block init (pad msg))" using h3(2) unfolding p by (simp add: consumed_def)
  ultimately show ?thesis using h1(1) by (simp add: HashFinalize_def be64_def [symmetric] Let_def)
qed

section \<open>Hashing pieces\<close>

fun hash_pieces :: "('h \<Rightarrow> u8 list \<Rightarrow> 'h option) \<Rightarrow> 'h \<Rightarrow> u8 list list \<Rightarrow> 'h option" where
  "hash_pieces upd h [] = Some h"
| "hash_pieces upd h (x # xs) = do { h \<leftarrow> upd h x; hash_pieces upd h xs }"

text \<open>
  What code that signs files and nodes relies on: updates append to the message, and the
  digest is a function of the message.
\<close>

locale stream_hash =
  fixes upd :: "'h \<Rightarrow> u8 list \<Rightarrow> 'h option"
    and finalize :: "'h \<Rightarrow> 'd option"
    and fed :: "u8 list \<Rightarrow> 'h \<Rightarrow> bool"
    and digest_of :: "u8 list \<Rightarrow> 'd"
  assumes upd_fed: "fed msg h \<Longrightarrow> \<exists>h'. upd h data = Some h' \<and> fed (msg @ data) h'"
    and finalize_fed: "fed msg h \<Longrightarrow> finalize h = Some (digest_of msg)"
begin

lemma pieces_fed: "fed msg h \<Longrightarrow> \<exists>h'. hash_pieces upd h xs = Some h' \<and> fed (msg @ concat xs) h'"
proof (induction xs arbitrary: msg h)
  case (Cons x xs)
  obtain h1 where "upd h x = Some h1" "fed (msg @ x) h1" using upd_fed [OF Cons.prems] by blast
  then show ?case using Cons.IH [of "msg @ x" h1] by auto
qed auto

lemma pieces_digest: "fed msg h \<Longrightarrow> hash_pieces upd h xs \<bind> finalize = Some (digest_of (msg @ concat xs))"
  using pieces_fed [of msg h xs] finalize_fed by auto

end

definition fast_digest :: "u8 list \<Rightarrow> digest" where
  "fast_digest msg = HashFinalizeImpl (fst (absorb HashBlock HashInitImpl (pad msg)))"

definition sha1_digest :: "u8 list \<Rightarrow> u8 list" where
  "sha1_digest msg = sha1_HashFinalizeImpl (fst (absorb sha1_HashBlock sha1_HashInitImpl (pad msg)))"

interpretation fast: stream_hash "HashUpdate HashBlock" "HashFinalize HashBlock HashFinalizeImpl"
    "consumed HashBlock HashInitImpl" fast_digest
  by unfold_locales (simp_all add: HashUpdate_consumed HashFinalize_consumed fast_digest_def)

interpretation sha1: stream_hash "HashUpdate sha1_HashBlock" "HashFinalize sha1_HashBlock sha1_HashFinalizeImpl"
    "consumed sha1_HashBlock sha1_HashInitImpl" sha1_digest
  by unfold_locales (simp_all add: HashUpdate_consumed HashFinalize_consumed sha1_digest_def)

lemma fold_case_byte: "(ucast (FoldCase (int_of_char c)) :: u8) = fold8 (of_char c)"
proof -
  have "(ucast (scast w :: u32) :: u8) = w" for w :: u8
  proof (rule bit_word_eqI)
    fix n assume "n < LENGTH(8)"
    then show "bit (ucast (scast w :: u32) :: u8) n = bit w n" by (cases "n = 7") (simp_all add: bit_simps min_def)
  qed
  then show ?thesis by simp
qed

lemma HashAddStringFoldCase_pieces:
  "HashAddStringFoldCase block h s = hash_pieces (HashUpdate block) h (map (\<lambda>b. [b]) (canon True s))"
proof (induction s arbitrary: h)
  case (Cons c s)
  have "canon True (c # s) = (if c = NUL then [] else fold8 (of_char c) # canon True s)" by (simp add: canon_def)
  moreover have "HashAddStringFoldCase block h (c # s) = (if c = NUL then Some h
      else HashUpdate block h [fold8 (of_char c)] \<bind> (\<lambda>h. HashAddStringFoldCase block h s))"
    using fold_case_byte [of c] by simp
  ultimately show ?case using Cons.IH by simp
qed (simp add: canon_def)

lemma HashAddPath_fast:
  assumes "consumed HashBlock HashInitImpl msg h"
  shows "\<exists>h'. HashAddPath nocase HashBlock h s = Some h' \<and> consumed HashBlock HashInitImpl (msg @ canon nocase s) h'"
proof (cases nocase)
  case True
  have "concat (map (\<lambda>b. [b]) (canon True s)) = canon True s" by (induction "canon True s") auto
  then show ?thesis using fast.pieces_fed [OF assms, of "map (\<lambda>b. [b]) (canon True s)"] True
    by (simp add: HashAddPath_def HashAddStringFoldCase_pieces)
next
  case False
  then show ?thesis using fast.upd_fed [OF assms, of "bytes_of s"]
    by (simp add: HashAddPath_def HashAddString_def bytes_of_def canon_def)
qed

lemma HashAddInteger_be64: "HashAddInteger block h v = HashUpdate block h (be64 v)"
  by (simp add: HashAddInteger_def be64_def upt_conv_Cons)

section \<open>Printing digests\<close>

lemma hex_digit_inj: "a < 16 \<Longrightarrow> b < 16 \<Longrightarrow> hex_digit a = hex_digit b \<longleftrightarrow> a = b"
proof -
  have "distinct (map hex_digit (map of_nat [0..<16]))" by code_simp
  moreover assume "a < 16" "b < 16"
  then have "unat a < 16" "unat b < 16" by (simp_all add: word_less_nat_alt)
  ultimately show ?thesis
    by (auto simp: hex_digit_def nth_eq_iff_index_eq word_unat_eq_iff)
qed

lemma nibbles: "drop_bit 4 a = drop_bit 4 b \<Longrightarrow> a AND 0xf = b AND 0xf \<Longrightarrow> a = b" for a b :: u8
proof -
  have "w = push_bit 4 (drop_bit 4 w) OR take_bit 4 w" for w :: u8
    by (rule bit_word_eqI) (auto simp: bit_simps)
  moreover have "w AND 0xf = take_bit 4 w" for w :: u8 by (simp add: take_bit_eq_mask mask_numeral)
  ultimately show "drop_bit 4 a = drop_bit 4 b \<Longrightarrow> a AND 0xf = b AND 0xf \<Longrightarrow> a = b" by metis
qed

lemma nibble_bounds: "drop_bit 4 w < 16" "w AND 0xf < 16" for w :: u8
proof -
  have "unat w < 256" using unsigned_less [of w, where ?'a = nat] by simp
  then have "unat (drop_bit 4 w) < 16" by (simp add: drop_bit_eq_div unat_div)
  then show "drop_bit 4 w < 16" by (simp add: word_less_nat_alt)
  have "w AND 0xf = take_bit 4 w" by (simp add: take_bit_eq_mask mask_numeral)
  moreover have "unat (take_bit 4 w) < 2 ^ 4" by (simp only: unsigned_take_bit_eq) (rule take_bit_nat_less_exp)
  ultimately show "w AND 0xf < 16" by (simp add: word_less_nat_alt)
qed

lemma hex_byte_inj:
  "hex_digit (drop_bit 4 a) = hex_digit (drop_bit 4 b) \<Longrightarrow> hex_digit (a AND 0xf) = hex_digit (b AND 0xf) \<Longrightarrow> a = b"
  using hex_digit_inj [OF nibble_bounds(1) [of a] nibble_bounds(1) [of b]]
    hex_digit_inj [OF nibble_bounds(2) [of a] nibble_bounds(2) [of b]] nibbles [of a b] by blast

lemma digest_word_loop_inj:
  "n \<le> 8 \<Longrightarrow> digest_word_loop n v = digest_word_loop n w \<Longrightarrow> drop_bit (64 - 8 * n) v = drop_bit (64 - 8 * n) w"
proof (induction n arbitrary: v w)
  case (Suc n)
  let ?b = "\<lambda>w :: u64. (ucast (drop_bit 56 w) :: u8)"
  have top: "?b v = ?b w" using Suc.prems(2) by (intro hex_byte_inj) (simp_all add: Let_def)
  have rest: "drop_bit (64 - 8 * n) (push_bit 8 v) = drop_bit (64 - 8 * n) (push_bit 8 w)"
    using Suc.prems by (intro Suc.IH) (simp_all add: Let_def)
  have "bit v k = bit w k" if "64 - 8 * Suc n \<le> k" "k < 64" for k
  proof (cases "56 \<le> k")
    case True
    have "bit (?b v) (k - 56) = bit (?b w) (k - 56)" using top by simp
    moreover have "k - 56 < 8" using that by linarith
    ultimately show ?thesis using True by (simp add: bit_simps)
  next
    case False
    have "bit (drop_bit (64 - 8 * n) (push_bit 8 v)) (k + 8 - (64 - 8 * n)) =
        bit (drop_bit (64 - 8 * n) (push_bit 8 w)) (k + 8 - (64 - 8 * n))" using rest by simp
    then show ?thesis using False that Suc.prems(1) by (simp add: bit_simps)
  qed
  note eq = this
  show ?case
  proof (rule bit_word_eqI)
    fix k
    show "bit (drop_bit (64 - 8 * Suc n) v) k = bit (drop_bit (64 - 8 * Suc n) w) k"
      using eq [of "64 - 8 * Suc n + k"] bit_imp_le_length [of v "64 - 8 * Suc n + k"]
        bit_imp_le_length [of w "64 - 8 * Suc n + k"] by (auto simp: bit_drop_bit_eq)
  qed
qed simp

lemma length_digest_word_loop [simp]: "length (digest_word_loop n w) = 2 * n"
  by (induction n arbitrary: w) (simp_all add: Let_def)

section \<open>Properties\<close>

text \<open>
  C16: The digest depends only on the bytes hashed, not on how they are cut into updates: hashing
  any list of pieces neither loops nor fails a \<open>CHECK\<close>, and gives the digest of the whole
  blocks of the padded concatenation, whatever the buffer contained at first.
\<close>

theorem hash_streaming:
  assumes "length garbage = 64"
  shows "hash_pieces (HashUpdate HashBlock) (HashInit HashInitImpl garbage) xs \<bind> HashFinalize HashBlock HashFinalizeImpl =
    Some (HashFinalizeImpl (fst (absorb HashBlock HashInitImpl (pad (concat xs)))))"
  using fast.pieces_digest [OF HashInit_consumed [OF assms], of xs] by (simp add: fast_digest_def)

theorem hash_streaming_witness:
  "hash_pieces (HashUpdate HashBlock) (HashInit HashInitImpl (replicate 64 0)) [[1, 2], [], replicate 70 3] \<bind>
     HashFinalize HashBlock HashFinalizeImpl =
   Some (HashFinalizeImpl (fst (absorb HashBlock HashInitImpl (pad (concat [[1, 2], [], replicate 70 3])))))"
  by (rule hash_streaming) simp

text \<open>
  C17: The SHA-1 variant hashes the message followed by a one bit, zero bytes and the message size
  in bits, big-endian: a whole number of blocks with 1 to 64 zero bytes between. A message whose
  length is 55 modulo 64 gets 64 zero bytes where none are needed, so that its digest is not the
  standard one.
\<close>

theorem padding:
  assumes "length garbage = 64"
  shows "hash_pieces (HashUpdate sha1_HashBlock) (HashInit sha1_HashInitImpl garbage) [msg] \<bind>
      HashFinalize sha1_HashBlock sha1_HashFinalizeImpl =
    Some (sha1_HashFinalizeImpl (fst (absorb sha1_HashBlock sha1_HashInitImpl (pad msg))))
   \<and> length (pad msg) mod 64 = 0 \<and> 1 \<le> pad_zeroes msg \<and> pad_zeroes msg \<le> 64
   \<and> (pad_zeroes msg = 64 \<longleftrightarrow> length msg mod 64 = 55)"
proof -
  have "(length msg + 1) mod 64 = (if length msg mod 64 = 63 then 0 else length msg mod 64 + 1)"
    by (simp add: mod_Suc)
  moreover have "length msg mod 64 < 64" by simp
  ultimately have "length (pad msg) mod 64 = 0 \<and> 1 \<le> pad_zeroes msg \<and> pad_zeroes msg \<le> 64 \<and>
      (pad_zeroes msg = 64 \<longleftrightarrow> length msg mod 64 = 55)"
    using pad_blocks [of msg] by (auto simp: pad_zeroes_def Let_def)
  then show ?thesis
    using sha1.pieces_digest [OF HashInit_consumed [OF assms], of "[msg]"]
    by (simp add: sha1_digest_def)
qed

theorem padding_witness:
  "hash_pieces (HashUpdate sha1_HashBlock) (HashInit sha1_HashInitImpl (replicate 64 0)) [replicate 55 7] \<bind>
      HashFinalize sha1_HashBlock sha1_HashFinalizeImpl =
    Some (sha1_HashFinalizeImpl (fst (absorb sha1_HashBlock sha1_HashInitImpl (pad (replicate 55 7)))))
   \<and> pad_zeroes (replicate 55 7) = 64"
  using padding [of "replicate 64 0" "replicate 55 7"] by simp

text \<open>Different digests print as different strings of 32 characters.\<close>

theorem DigestToString_injective:
  "length (DigestToString d) = 32 \<and> (DigestToString d = DigestToString d' \<longleftrightarrow> d = d')"
proof -
  have "digest_word_loop 8 v = digest_word_loop 8 w \<longleftrightarrow> v = w" for v w
    using digest_word_loop_inj [of 8 v w] by auto
  then show ?thesis by (auto simp: DigestToString_def prod_eq_iff)
qed

text \<open>
  \<open>CompareHashDigests\<close> is a three-way comparison for a linear order of digests, the
  lexicographic order of the two words.
\<close>

theorem CompareHashDigests_order:
  "(CompareHashDigests a b < 0 \<longleftrightarrow> a < b) \<and> (CompareHashDigests a b = 0 \<longleftrightarrow> a = b) \<and>
   (CompareHashDigests a b > 0 \<longleftrightarrow> b < a)"
  by (cases a; cases b) (auto simp: CompareHashDigests_def Let_def less_prod_simp)

end
