(* ===== verification/T2_SortedArray.thy ===== *)
theory T2_SortedArray
  imports T2_Hash
begin

text \<open>
  Model of \<open>src/SortedArrayUtil.hpp\<close>: the simultaneous walk over two arrays sorted by digest and
  the binary search. The callbacks of the walk are functions on the caller's state. The lemmas
  show that the walk is a merge in which the first array wins on equal keys, and that the search
  finds exactly the members of a sorted array.
\<close>

section \<open>Walking two sorted arrays\<close>

definition CompareArrayKeys :: "digest \<Rightarrow> digest \<Rightarrow> int" where
  "CompareArrayKeys l r = CompareHashDigests l r"

fun rest_loop :: "(nat \<Rightarrow> 's \<Rightarrow> 's) \<Rightarrow> nat \<Rightarrow> nat \<Rightarrow> 's \<Rightarrow> 's" where
  "rest_loop callback i 0 s = s"
| "rest_loop callback i (Suc n) s = rest_loop callback (Suc i) n (callback i s)"

function TraverseSortedArraysImpl ::
  "nat \<Rightarrow> (nat \<Rightarrow> 's \<Rightarrow> 's) \<Rightarrow> (nat \<Rightarrow> digest) \<Rightarrow> nat \<Rightarrow> (nat \<Rightarrow> 's \<Rightarrow> 's) \<Rightarrow> (nat \<Rightarrow> digest) \<Rightarrow>
     nat \<Rightarrow> nat \<Rightarrow> 's \<Rightarrow> 's" where
  "TraverseSortedArraysImpl size1 callback1 key_select1 size2 callback2 key_select2 i1 i2 s =
     (if i1 < size1 \<and> i2 < size2 then
        (let compare = CompareArrayKeys (key_select1 i1) (key_select2 i2)
         in if compare \<le> 0
            then TraverseSortedArraysImpl size1 callback1 key_select1 size2 callback2 key_select2
                   (Suc i1) (if compare = 0 then Suc i2 else i2) (callback1 i1 s)
            else TraverseSortedArraysImpl size1 callback1 key_select1 size2 callback2 key_select2
                   i1 (Suc i2) (callback2 i2 s))
      else rest_loop callback2 i2 (size2 - i2) (rest_loop callback1 i1 (size1 - i1) s))"
  by pat_completeness auto
termination
  by (relation "measure (\<lambda>(size1, _, _, size2, _, _, i1, i2, _). (size1 - i1) + (size2 - i2))") auto

declare TraverseSortedArraysImpl.simps [simp del]

definition TraverseSortedArrays ::
  "nat \<Rightarrow> (nat \<Rightarrow> 's \<Rightarrow> 's) \<Rightarrow> (nat \<Rightarrow> digest) \<Rightarrow> nat \<Rightarrow> (nat \<Rightarrow> 's \<Rightarrow> 's) \<Rightarrow> (nat \<Rightarrow> digest) \<Rightarrow> 's \<Rightarrow> 's" where
  "TraverseSortedArrays size1 callback1 key_select1 size2 callback2 key_select2 s =
     TraverseSortedArraysImpl size1 callback1 key_select1 size2 callback2 key_select2 0 0 s"

section \<open>Binary search\<close>

text \<open>
  \<open>std::lower_bound\<close>, which halves the range \<open>[first, first + len)\<close> until it is empty.
\<close>

function lower_bound :: "'a::linorder list \<Rightarrow> 'a \<Rightarrow> nat \<Rightarrow> nat \<Rightarrow> nat" where
  "lower_bound table key first len =
     (if len = 0 then first
      else let half = len div 2; middle = first + half
           in if table ! middle < key then lower_bound table key (Suc middle) (len - half - 1)
              else lower_bound table key first half)"
  by pat_completeness auto
termination
  by (relation "measure (\<lambda>(_, _, _, len). len)") auto

declare lower_bound.simps [simp del]

text \<open>The result is the index of the element that the returned pointer refers to.\<close>

definition BinarySearch :: "'a::linorder list \<Rightarrow> int \<Rightarrow> 'a \<Rightarrow> nat option" where
  "BinarySearch table n key =
     (if n > 0 then
        (let iter = lower_bound table key 0 (nat n)
         in if iter \<noteq> nat n \<and> table ! iter = key then Some iter else None)
      else None)"

section \<open>The walk is a merge\<close>

lemma rest_loop_fold: "rest_loop callback i n s = fold callback [i..<i + n] s"
  by (induction n arbitrary: i s) (simp_all add: upt_conv_Cons del: upt_Suc)

text \<open>
  The reference: which indices the two callbacks get, in which order. \<open>Inl\<close> is a call of the
  first callback, \<open>Inr\<close> one of the second.
\<close>

fun merge_from :: "nat \<Rightarrow> 'k::linorder list \<Rightarrow> nat \<Rightarrow> 'k list \<Rightarrow> (nat + nat) list" where
  "merge_from i (k1 # ks1) j (k2 # ks2) =
     (if k1 = k2 then Inl i # merge_from (Suc i) ks1 (Suc j) ks2
      else if k1 < k2 then Inl i # merge_from (Suc i) ks1 j (k2 # ks2)
      else Inr j # merge_from i (k1 # ks1) (Suc j) ks2)"
| "merge_from i ks1 j [] = map Inl [i..<i + length ks1]"
| "merge_from i [] j ks2 = map Inr [j..<j + length ks2]"

definition dispatch :: "(nat \<Rightarrow> 's \<Rightarrow> 's) \<Rightarrow> (nat \<Rightarrow> 's \<Rightarrow> 's) \<Rightarrow> nat + nat \<Rightarrow> 's \<Rightarrow> 's" where
  "dispatch callback1 callback2 e = (case e of Inl i \<Rightarrow> callback1 i | Inr j \<Rightarrow> callback2 j)"

lemma dispatch_simps [simp]:
  "dispatch f g (Inl i) = f i" "dispatch f g (Inr j) = g j"
  by (simp_all add: dispatch_def)

lemma fold_dispatch [simp]:
  "fold (dispatch f g) (map Inl is) s = fold f is s"
  "fold (dispatch f g) (map Inr is) s = fold g is s"
  by (induction "is" arbitrary: s) simp_all

lemma merge_from_Nil:
  "merge_from i [] j ks2 = map Inr [j..<j + length ks2]"
  "merge_from i ks1 j [] = map Inl [i..<i + length ks1]"
  by (cases ks2; simp) (cases ks1; simp)

lemma CompareArrayKeys_iff [simp]:
  "CompareArrayKeys a b \<le> 0 \<longleftrightarrow> a \<le> b" "CompareArrayKeys a b = 0 \<longleftrightarrow> a = b"
proof -
  have "CompareHashDigests a b > 0 \<longleftrightarrow> b < a" "CompareHashDigests a b = 0 \<longleftrightarrow> a = b"
    by (cases a; cases b; auto simp: CompareHashDigests_def Let_def less_prod_simp)+
  then show "CompareArrayKeys a b \<le> 0 \<longleftrightarrow> a \<le> b" "CompareArrayKeys a b = 0 \<longleftrightarrow> a = b"
    by (simp_all add: CompareArrayKeys_def not_less [symmetric])
qed

lemma TraverseSortedArraysImpl_merge:
  assumes "i1 \<le> length ks1" "i2 \<le> length ks2"
  shows "TraverseSortedArraysImpl (length ks1) f ((!) ks1) (length ks2) g ((!) ks2) i1 i2 s =
    fold (dispatch f g) (merge_from i1 (drop i1 ks1) i2 (drop i2 ks2)) s"
  using assms
proof (induction "length ks1 - i1 + (length ks2 - i2)" arbitrary: i1 i2 s rule: less_induct)
  case less
  note unfold1 = TraverseSortedArraysImpl.simps [of "length ks1" f "(!) ks1" "length ks2" g "(!) ks2" i1 i2 s]
  show ?case
  proof (cases "i1 < length ks1 \<and> i2 < length ks2")
    case True
    then have d: "drop i1 ks1 = ks1 ! i1 # drop (Suc i1) ks1" "drop i2 ks2 = ks2 ! i2 # drop (Suc i2) ks2"
      by (simp_all add: Cons_nth_drop_Suc)
    have ih: "TraverseSortedArraysImpl (length ks1) f ((!) ks1) (length ks2) g ((!) ks2) j1 j2 t =
        fold (dispatch f g) (merge_from j1 (drop j1 ks1) j2 (drop j2 ks2)) t"
      if "i1 \<le> j1" "i2 \<le> j2" "i1 + i2 < j1 + j2" "j1 \<le> Suc i1" "j2 \<le> Suc i2" for j1 j2 t
      by (rule less.hyps) (use True that in auto)
    consider "ks1 ! i1 = ks2 ! i2" | "ks1 ! i1 < ks2 ! i2" | "ks2 ! i2 < ks1 ! i1"
      using linorder_cases by blast
    then show ?thesis
    proof cases
      case 1
      then show ?thesis
        unfolding unfold1 d using True ih [of "Suc i1" "Suc i2"] by (simp add: Let_def)
    next
      case 2
      then have "ks1 ! i1 \<noteq> ks2 ! i2" "ks1 ! i1 \<le> ks2 ! i2" by auto
      with 2 show ?thesis
        unfolding unfold1 using True ih [of "Suc i1" i2] by (simp add: Let_def d)
    next
      case 3
      then have "ks1 ! i1 \<noteq> ks2 ! i2" "\<not> ks1 ! i1 \<le> ks2 ! i2" "\<not> ks1 ! i1 < ks2 ! i2" by auto
      then show ?thesis
        unfolding unfold1 using True ih [of i1 "Suc i2"] by (simp add: Let_def d)
    qed
  next
    case False
    then consider "i1 = length ks1" | "i2 = length ks2" using less.prems by linarith
    then show ?thesis
      by cases (unfold unfold1, use less.prems in \<open>simp_all add: rest_loop_fold merge_from_Nil\<close>)
  qed
qed

lemma TraverseSortedArrays_merge:
  "TraverseSortedArrays (length ks1) f ((!) ks1) (length ks2) g ((!) ks2) s =
    fold (dispatch f g) (merge_from 0 ks1 0 ks2) s"
  using TraverseSortedArraysImpl_merge [of 0 ks1 0 ks2] by (simp add: TraverseSortedArrays_def)

lemma map_upt_Cons [simp]:
  "map f [i..<Suc (i + n)] = k # ks \<longleftrightarrow> f i = k \<and> map f [Suc i..<Suc (i + n)] = ks"
  by (simp add: upt_conv_Cons del: upt_Suc)

text \<open>
  The keys of the calls are the union of the keys in ascending order; only keys missing from the
  first array go to the second callback.
\<close>

lemma merge_from_sorted:
  assumes "map f1 [i..<i + length ks1] = ks1" "map f2 [j..<j + length ks2] = ks2"
    and "sorted_wrt (<) ks1" "sorted_wrt (<) ks2"
  shows "sorted_wrt (<) (map (case_sum f1 f2) (merge_from i ks1 j ks2)) \<and>
    set (map (case_sum f1 f2) (merge_from i ks1 j ks2)) = set ks1 \<union> set ks2"
  using assms
proof (induction i ks1 j ks2 rule: merge_from.induct)
  case (1 i k1 ks1 j k2 ks2)
  consider "k1 = k2" | "k1 < k2" | "k2 < k1" using linorder_cases by blast
  then show ?case
    by cases (use 1 in \<open>auto simp del: upt_Suc\<close>)
qed (simp_all add: comp_def del: upt_Suc map_upt_Cons)

lemma merge_from_second:
  assumes "map f2 [j..<j + length ks2] = ks2" "sorted_wrt (<) ks1" "sorted_wrt (<) ks2"
    "Inr n \<in> set (merge_from i ks1 j ks2)"
  shows "f2 n \<notin> set ks1 \<and> f2 n \<in> set ks2"
  using assms
proof (induction i ks1 j ks2 rule: merge_from.induct)
  case (1 i k1 ks1 j k2 ks2)
  consider "k1 = k2" | "k1 < k2" | "k2 < k1" using linorder_cases by blast
  then show ?case
    by cases (use 1 in \<open>auto simp del: upt_Suc split: if_splits\<close>)
next
  case (3 i j v va)
  then have "n \<in> set [j..<j + length (v # va)]" by (auto simp del: upt_Suc)
  then have "f2 n \<in> set (map f2 [j..<j + length (v # va)])" by (simp del: upt_Suc map_upt_Cons)
  then show ?case unfolding 3(1) by simp
qed auto

section \<open>Search\<close>

lemma lower_bound_correct:
  assumes "sorted table" "first + len \<le> length table"
    and "\<forall>i < first. table ! i < key" "\<forall>i. first + len \<le> i \<and> i < length table \<longrightarrow> key \<le> table ! i"
  shows "(\<forall>i < lower_bound table key first len. table ! i < key) \<and>
    (\<forall>i. lower_bound table key first len \<le> i \<and> i < length table \<longrightarrow> key \<le> table ! i) \<and>
    lower_bound table key first len \<le> first + len"
  using assms
proof (induction table key first len rule: lower_bound.induct)
  case (1 table key first len)
  show ?case
  proof (cases "len = 0")
    case True
    then show ?thesis using 1(3-) by (simp add: lower_bound.simps)
  next
    case False
    define middle where "middle = first + len div 2"
    have m: "middle < length table" "middle < first + len" using 1(4) False by (simp_all add: middle_def)
    show ?thesis
    proof (cases "table ! middle < key")
      case True
      then have "\<forall>i < Suc middle. table ! i < key"
        using 1(3) m by (metis le_less_trans less_Suc_eq_le sorted_nth_mono)
      moreover have "Suc middle + (len - len div 2 - 1) = first + len" using False by (simp add: middle_def)
      ultimately show ?thesis
        using 1(1) [OF False refl middle_def True] 1(3-) True False
        by (simp add: lower_bound.simps [of table key first len] Let_def flip: middle_def)
    next
      case ge: False
      then have "\<forall>i. middle \<le> i \<and> i < length table \<longrightarrow> key \<le> table ! i"
        using 1(3) by (meson linorder_not_le order_trans sorted_nth_mono)
      then have hi: "\<forall>i. first + len div 2 \<le> i \<and> i < length table \<longrightarrow> key \<le> table ! i"
        by (simp add: middle_def)
      have step: "lower_bound table key first len = lower_bound table key first (len div 2)"
        using ge False by (simp add: lower_bound.simps [of table key first len] Let_def middle_def)
      have "first + len div 2 \<le> length table" using m by (simp add: middle_def)
      from 1(2) [OF False refl middle_def ge 1(3) this 1(5) hi] show ?thesis
        unfolding step by (meson add_left_mono div_le_dividend order_trans)
    qed
  qed
qed

section \<open>Properties\<close>

text \<open>
  C18: \<open>TraverseSortedArrays\<close> on two arrays strictly sorted by digest makes one call per key of the
  union, in ascending order of the keys, and calls the second callback only for keys that the
  first array does not have.
\<close>

theorem traverse_merges:
  assumes "sorted_wrt (<) ks1" "sorted_wrt (<) ks2"
  shows "\<exists>calls. TraverseSortedArrays (length ks1) f ((!) ks1) (length ks2) g ((!) ks2) s = fold (dispatch f g) calls s
    \<and> sorted_wrt (<) (map (case_sum ((!) ks1) ((!) ks2)) calls)
    \<and> set (map (case_sum ((!) ks1) ((!) ks2)) calls) = set ks1 \<union> set ks2
    \<and> (\<forall>j. Inr j \<in> set calls \<longrightarrow> ks2 ! j \<notin> set ks1)"
proof (intro exI conjI allI impI)
  have m: "map ((!) ks1) [0..<0 + length ks1] = ks1" "map ((!) ks2) [0..<0 + length ks2] = ks2"
    by (simp_all add: map_nth)
  show "TraverseSortedArrays (length ks1) f ((!) ks1) (length ks2) g ((!) ks2) s =
      fold (dispatch f g) (merge_from 0 ks1 0 ks2) s"
    by (rule TraverseSortedArrays_merge)
  show "sorted_wrt (<) (map (case_sum ((!) ks1) ((!) ks2)) (merge_from 0 ks1 0 ks2))"
    "set (map (case_sum ((!) ks1) ((!) ks2)) (merge_from 0 ks1 0 ks2)) = set ks1 \<union> set ks2"
    using merge_from_sorted [OF m assms] by blast+
  show "ks2 ! j \<notin> set ks1" if "Inr j \<in> set (merge_from 0 ks1 0 ks2)" for j
    using merge_from_second [OF m(2) assms that] by blast
qed

theorem traverse_merges_witness:
  "\<exists>calls. TraverseSortedArrays (length [(1, 2), (3, 0)]) (\<lambda>i. (#) i) ((!) [(1, 2), (3, 0)])
      (length [(1, 2), (2, 5 :: u64)]) (\<lambda>j. (#) (j + 10)) ((!) [(1, 2), (2, 5)]) [] =
        fold (dispatch (\<lambda>i. (#) i) (\<lambda>j. (#) (j + 10))) calls []
    \<and> (\<forall>j. Inr j \<in> set calls \<longrightarrow> [(1, 2), (2, 5)] ! j \<notin> {(1 :: u64, 2 :: u64), (3, 0)})"
  using traverse_merges [of "[(1, 2), (3, 0)]" "[(1, 2), (2, 5)]" "\<lambda>i. (#) i" "\<lambda>j. (#) (j + 10)" "[]"]
  by (fastforce simp: less_prod_simp)

text \<open>
  \<open>BinarySearch\<close> over the whole of a sorted array returns the index of an element equal to the
  key if there is one, and null otherwise.
\<close>

theorem BinarySearch_finds_members:
  assumes "sorted table"
  shows "case BinarySearch table (int (length table)) key of
      Some i \<Rightarrow> i < length table \<and> table ! i = key
    | None \<Rightarrow> key \<notin> set table"
proof -
  let ?i = "lower_bound table key 0 (length table)"
  have lb: "\<forall>i < ?i. table ! i < key" "\<forall>i. ?i \<le> i \<and> i < length table \<longrightarrow> key \<le> table ! i" "?i \<le> length table"
    using lower_bound_correct [OF assms, of 0 "length table" key] unfolding plus_nat.add_0
    by (metis le_refl leD not_less_zero)+
  have "key \<notin> set table" if "?i < length table \<longrightarrow> table ! ?i \<noteq> key"
  proof
    assume "key \<in> set table"
    then obtain j where j: "j < length table" "table ! j = key" by (auto simp: in_set_conv_nth)
    with lb(1) have "?i \<le> j" by (metis linorder_not_le order_less_irrefl)
    with j have "table ! ?i \<le> key" "?i < length table" using assms by (auto intro: sorted_nth_mono)
    with lb(2) that show False by (meson order_antisym order_refl)
  qed
  then show ?thesis using lb(3) by (auto simp: BinarySearch_def Let_def)
qed

theorem BinarySearch_finds_members_witness:
  "case BinarySearch [2, 3, 5, 5, 8 :: nat] (int (length [2, 3, 5, 5, 8 :: nat])) 5 of
      Some i \<Rightarrow> i < length [2, 3, 5, 5, 8 :: nat] \<and> [2, 3, 5, 5, 8] ! i = (5 :: nat)
    | None \<Rightarrow> 5 \<notin> set [2, 3, 5, 5, 8 :: nat]"
  by (rule BinarySearch_finds_members) simp

end
