(* ===== verification/T2_TargetSelect.thy ===== *)
theory T2_TargetSelect
  imports T2_Common
begin

text \<open>
  Model of \<open>src/TargetSelect.cpp\<close> and \<open>src/TargetSelect.hpp\<close>: how the names on the command line
  select build tuples (configuration, variant, subvariant) and named targets. Sets of variants
  are 32-bit masks, as in the code. The lemmas show that the loops over the masks end and that
  the tuples selected are exactly the product the names ask for, without duplicates.
\<close>

section \<open>Data\<close>

record TargetSpec =
  ts_ConfigIndex :: int
  ts_VariantIndex :: int
  ts_SubVariantIndex :: int

record TargetSelectInput =
  tsi_ConfigNameHashes :: "u32 list"
  tsi_VariantNameHashes :: "u32 list"
  tsi_SubVariantNameHashes :: "u32 list"
  tsi_InputNames :: "string list"
  tsi_DefaultConfigIndex :: int
  tsi_DefaultVariantIndex :: int
  tsi_DefaultSubVariantIndex :: int

record InputSpec =
  is_ConfigIndex :: int
  is_VariantIndex :: int
  is_SubVariantIndex :: int

text \<open>\<open>operator==\<close> and \<open>operator<\<close> of \<open>TargetSpec\<close>.\<close>

definition TargetSpec_eq :: "TargetSpec \<Rightarrow> TargetSpec \<Rightarrow> bool" where
  "TargetSpec_eq l r \<longleftrightarrow> ts_ConfigIndex l = ts_ConfigIndex r \<and> ts_VariantIndex l = ts_VariantIndex r \<and>
     ts_SubVariantIndex l = ts_SubVariantIndex r"

definition TargetSpec_less :: "TargetSpec \<Rightarrow> TargetSpec \<Rightarrow> bool" where
  "TargetSpec_less l r =
     (if ts_ConfigIndex l < ts_ConfigIndex r then True
      else if ts_ConfigIndex l > ts_ConfigIndex r then False
      else if ts_VariantIndex l < ts_VariantIndex r then True
      else if ts_VariantIndex l > ts_VariantIndex r then False
      else ts_SubVariantIndex l < ts_SubVariantIndex r)"

section \<open>Names\<close>

fun FindHash_loop :: "u32 list \<Rightarrow> u32 \<Rightarrow> nat \<Rightarrow> nat option" where
  "FindHash_loop [] hash i = None"
| "FindHash_loop (h # hs) hash i = (if h = hash then Some i else FindHash_loop hs hash (Suc i))"

definition FindHash :: "u32 list \<Rightarrow> u32 \<Rightarrow> nat option" where
  "FindHash hashes hash = FindHash_loop hashes hash 0"

text \<open>
  \<open>strchr (s, '-')\<close>: the part before the first dash and the part after it, or \<open>None\<close>. Writing
  a terminator over the dash leaves the first part as the string.
\<close>

definition split_dash :: "string \<Rightarrow> (string \<times> string) option" where
  "split_dash s = (if CHR ''-'' \<in> set s then Some (takeWhile (\<lambda>c. c \<noteq> CHR ''-'') s, tl (dropWhile (\<lambda>c. c \<noteq> CHR ''-'') s))
     else None)"

text \<open>\<open>-1\<close> where there is no name, nothing where the name is unknown.\<close>

definition optional_index :: "u32 list \<Rightarrow> string option \<Rightarrow> int option" where
  "optional_index hashes name =
     (case name of None \<Rightarrow> Some (-1) | Some n \<Rightarrow> map_option int (FindHash hashes (Djb2Hash n)))"

definition DestructureInputSpec :: "TargetSelectInput \<Rightarrow> string \<Rightarrow> InputSpec option" where
  "DestructureInputSpec input name =
     (let buffer = take 255 (c_str name)
      in case split_dash buffer of
        None \<Rightarrow> None
      | Some (part1, rest1) \<Rightarrow>
          (let (config, variant, subvariant) =
             (case split_dash rest1 of
                None \<Rightarrow> (buffer, None, None)
              | Some (part2, rest2) \<Rightarrow>
                  (case split_dash rest2 of
                     None \<Rightarrow> (part1 @ ''-'' @ part2, Some rest2, None)
                   | Some (part3, rest3) \<Rightarrow> (part1 @ ''-'' @ part2, Some part3, Some rest3)))
           in case (FindHash (tsi_ConfigNameHashes input) (Djb2Hash config),
                    optional_index (tsi_VariantNameHashes input) variant,
                    optional_index (tsi_SubVariantNameHashes input) subvariant) of
                (Some c, Some v, Some sv) \<Rightarrow>
                  Some \<lparr>is_ConfigIndex = int c, is_VariantIndex = v, is_SubVariantIndex = sv\<rparr>
              | _ \<Rightarrow> None))"

section \<open>Selection\<close>

text \<open>\<open>1 << i\<close> on 32 bits.\<close>

definition bit_at :: "int \<Rightarrow> u32" where
  "bit_at i = push_bit (nat i) 1"

record selection =
  sel_specs :: "InputSpec list"
  sel_variant_bits :: u32
  sel_subvariant_bits :: u32
  sel_target_names :: "string list"

fun input_loop :: "TargetSelectInput \<Rightarrow> string list \<Rightarrow> selection \<Rightarrow> selection" where
  "input_loop input [] sel = sel"
| "input_loop input (input_name # names) sel =
     (let input_hash = Djb2Hash input_name
      in case FindHash (tsi_SubVariantNameHashes input) input_hash of
        Some i \<Rightarrow> input_loop input names (sel\<lparr>sel_subvariant_bits := sel_subvariant_bits sel OR bit_at (int i)\<rparr>)
      | None \<Rightarrow>
       (case FindHash (tsi_VariantNameHashes input) input_hash of
          Some i \<Rightarrow> input_loop input names (sel\<lparr>sel_variant_bits := sel_variant_bits sel OR bit_at (int i)\<rparr>)
        | None \<Rightarrow>
         (case DestructureInputSpec input input_name of
            Some spec \<Rightarrow> input_loop input names (sel\<lparr>sel_specs := sel_specs sel @ [spec]\<rparr>)
          | None \<Rightarrow> input_loop input names (sel\<lparr>sel_target_names := sel_target_names sel @ [input_name]\<rparr>))))"

definition apply_defaults :: "TargetSelectInput \<Rightarrow> selection \<Rightarrow> selection" where
  "apply_defaults input sel =
     sel\<lparr>sel_specs :=
            (if sel_specs sel = [] \<and> tsi_DefaultConfigIndex input \<ge> 0
             then [\<lparr>is_ConfigIndex = tsi_DefaultConfigIndex input, is_VariantIndex = -1, is_SubVariantIndex = -1\<rparr>]
             else sel_specs sel),
          sel_variant_bits :=
            (if sel_variant_bits sel = 0 \<and> tsi_DefaultVariantIndex input \<ge> 0
             then sel_variant_bits sel OR bit_at (tsi_DefaultVariantIndex input) else sel_variant_bits sel),
          sel_subvariant_bits :=
            (if sel_subvariant_bits sel = 0 \<and> tsi_DefaultSubVariantIndex input \<ge> 0
             then sel_subvariant_bits sel OR bit_at (tsi_DefaultSubVariantIndex input) else sel_subvariant_bits sel)\<rparr>"

lemma bit_bit_at: "bit (bit_at i) n \<longleftrightarrow> n = nat i \<and> nat i < 32"
  by (auto simp: bit_at_def bit_simps bit_1_iff)

definition clear_lowest :: "u32 \<Rightarrow> u32" where
  "clear_lowest bits = bits AND NOT (bit_at (CountTrailingZeroes bits))"

lemma lowest_bit: "v \<noteq> 0 \<Longrightarrow> \<exists>k < 32. CountTrailingZeroes v = int k \<and> bit v k"
  by (rule lowest_bit_exists [of v]) (auto dest: CountTrailingZeroes_lowest)

lemma bit_clear_lowest:
  "v \<noteq> 0 \<Longrightarrow> bit (clear_lowest v) n \<longleftrightarrow> bit v n \<and> int n \<noteq> CountTrailingZeroes v"
  using lowest_bit [of v] bit_imp_le_length [of v n] by (auto simp: clear_lowest_def bit_simps bit_bit_at)

lemma finite_bits [simp]: "finite {i. bit (v :: u32) i}"
  by (rule finite_subset [of _ "{..<32}"]) (auto dest: bit_imp_le_length)

lemma clear_lowest_less:
  assumes "v \<noteq> 0"
  shows "card {i. bit (clear_lowest v) i} < card {i. bit v i}"
proof (rule psubset_card_mono)
  obtain k where "CountTrailingZeroes v = int k" "bit v k" using lowest_bit [OF assms] by blast
  then show "{i. bit (clear_lowest v) i} \<subset> {i. bit v i}"
    by (auto simp: bit_clear_lowest [OF assms])
qed simp

function subvariant_loop :: "int \<Rightarrow> int \<Rightarrow> u32 \<Rightarrow> TargetSpec list \<Rightarrow> TargetSpec list" where
  "subvariant_loop config_index variant_index svbits output =
     (if svbits = 0 then output
      else let subvariant_index = CountTrailingZeroes svbits;
               spec = \<lparr>ts_ConfigIndex = config_index, ts_VariantIndex = variant_index,
                       ts_SubVariantIndex = subvariant_index\<rparr>;
               found = list_ex (\<lambda>o'. TargetSpec_eq o' spec) output
           in subvariant_loop config_index variant_index (clear_lowest svbits)
                (if found then output else output @ [spec]))"
  by pat_completeness auto
termination
  by (relation "measure (\<lambda>(_, _, svbits, _). card {i. bit svbits i})") (simp_all add: clear_lowest_less)

function variant_loop :: "int \<Rightarrow> u32 \<Rightarrow> u32 \<Rightarrow> TargetSpec list \<Rightarrow> TargetSpec list" where
  "variant_loop config_index svbits vbits output =
     (if vbits = 0 then output
      else let variant_index = CountTrailingZeroes vbits
           in variant_loop config_index svbits (clear_lowest vbits)
                (subvariant_loop config_index variant_index svbits output))"
  by pat_completeness auto
termination
  by (relation "measure (\<lambda>(_, _, vbits, _). card {i. bit vbits i})") (simp_all add: clear_lowest_less)

declare subvariant_loop.simps [simp del] variant_loop.simps [simp del]

definition spec_bits :: "int \<Rightarrow> u32 \<Rightarrow> u32" where
  "spec_bits index bits = (if index \<ge> 0 then bit_at index else bits)"

fun spec_loop :: "u32 \<Rightarrow> u32 \<Rightarrow> InputSpec list \<Rightarrow> TargetSpec list \<Rightarrow> TargetSpec list" where
  "spec_loop variant_bits subvariant_bits [] output = output"
| "spec_loop variant_bits subvariant_bits (spec # specs) output =
     spec_loop variant_bits subvariant_bits specs
       (variant_loop (is_ConfigIndex spec) (spec_bits (is_SubVariantIndex spec) subvariant_bits)
          (spec_bits (is_VariantIndex spec) variant_bits) output)"

definition SelectTargets ::
  "TargetSelectInput \<Rightarrow> TargetSpec list \<Rightarrow> string list \<Rightarrow> (TargetSpec list \<times> string list) result" where
  "SelectTargets input output target_names =
     (if length (tsi_ConfigNameHashes input) > 32 \<or> length (tsi_VariantNameHashes input) > 32 \<or>
         length (tsi_SubVariantNameHashes input) > 32
      then Inl (Croak ''too many configs/variants/subvariants -- keep it below 32'')
      else let sel = apply_defaults input (input_loop input (tsi_InputNames input)
                 \<lparr>sel_specs = [], sel_variant_bits = 0, sel_subvariant_bits = 0, sel_target_names = target_names\<rparr>)
           in Inr (spec_loop (sel_variant_bits sel) (sel_subvariant_bits sel) (sel_specs sel) output,
                   sel_target_names sel))"

section \<open>What is selected\<close>

text \<open>
  The reference. A name is compared with the names of the DAG by hash; of equal hashes the first
  counts.
\<close>

definition names_index :: "u32 list \<Rightarrow> string \<Rightarrow> nat \<Rightarrow> bool" where
  "names_index hashes name i \<longleftrightarrow> i < length hashes \<and> hashes ! i = Djb2Hash name \<and> (\<forall>j < i. hashes ! j \<noteq> Djb2Hash name)"

text \<open>
  The parts of a tuple name: \<open>platform-toolchain\<close>, then perhaps a variant and a subvariant. Only the
  subvariant can have further dashes in it.
\<close>

abbreviation no_dash :: "string \<Rightarrow> bool" where
  "no_dash s \<equiv> CHR ''-'' \<notin> set s"

inductive tuple_parts :: "string \<Rightarrow> string \<Rightarrow> string option \<Rightarrow> string option \<Rightarrow> bool" where
  config: "no_dash host \<Longrightarrow> no_dash tool \<Longrightarrow> tuple_parts (host @ ''-'' @ tool) (host @ ''-'' @ tool) None None"
| variant: "no_dash host \<Longrightarrow> no_dash tool \<Longrightarrow> no_dash var \<Longrightarrow>
    tuple_parts (host @ ''-'' @ tool @ ''-'' @ var) (host @ ''-'' @ tool) (Some var) None"
| subvariant: "no_dash host \<Longrightarrow> no_dash tool \<Longrightarrow> no_dash var \<Longrightarrow>
    tuple_parts (host @ ''-'' @ tool @ ''-'' @ var @ ''-'' @ subvar) (host @ ''-'' @ tool) (Some var) (Some subvar)"

text \<open>What is not given is marked by \<open>-1\<close>.\<close>

definition part_index :: "u32 list \<Rightarrow> string option \<Rightarrow> int \<Rightarrow> bool" where
  "part_index hashes part index \<longleftrightarrow> (case part of None \<Rightarrow> index = - 1 | Some name \<Rightarrow> \<exists>i. names_index hashes name i \<and> index = int i)"

definition names_tuple :: "TargetSelectInput \<Rightarrow> string \<Rightarrow> InputSpec \<Rightarrow> bool" where
  "names_tuple input name spec \<longleftrightarrow> (\<exists>config var subvar. tuple_parts (take 255 (c_str name)) config var subvar \<and>
     part_index (tsi_ConfigNameHashes input) (Some config) (is_ConfigIndex spec) \<and>
     part_index (tsi_VariantNameHashes input) var (is_VariantIndex spec) \<and>
     part_index (tsi_SubVariantNameHashes input) subvar (is_SubVariantIndex spec))"

text \<open>Each name asks for a subvariant, a variant, a tuple or a target, in this order of preference.\<close>

datatype request = Subvariant nat | Variant nat | Tuple InputSpec | Target string

inductive asks_for :: "TargetSelectInput \<Rightarrow> string \<Rightarrow> request \<Rightarrow> bool" for input :: TargetSelectInput and n :: string where
  asks_subvariant: "names_index (tsi_SubVariantNameHashes input) n i \<Longrightarrow> asks_for input n (Subvariant i)"
| asks_variant: "\<nexists>j. names_index (tsi_SubVariantNameHashes input) n j \<Longrightarrow> names_index (tsi_VariantNameHashes input) n i \<Longrightarrow>
    asks_for input n (Variant i)"
| asks_tuple: "\<nexists>j. names_index (tsi_SubVariantNameHashes input) n j \<Longrightarrow> \<nexists>j. names_index (tsi_VariantNameHashes input) n j \<Longrightarrow>
    names_tuple input n spec \<Longrightarrow> asks_for input n (Tuple spec)"
| asks_target: "\<nexists>j. names_index (tsi_SubVariantNameHashes input) n j \<Longrightarrow> \<nexists>j. names_index (tsi_VariantNameHashes input) n j \<Longrightarrow>
    \<nexists>spec. names_tuple input n spec \<Longrightarrow> asks_for input n (Target n)"

inductive_simps asks_for_simps: "asks_for input n (Subvariant i)" "asks_for input n (Variant i)" "asks_for input n (Tuple spec)" "asks_for input n (Target t)"

definition requests :: "TargetSelectInput \<Rightarrow> request set" where
  "requests input = {r. \<exists>n \<in> set (tsi_InputNames input). asks_for input n r}"

text \<open>Defaults stand in for what no name asks for.\<close>

definition or_default :: "int \<Rightarrow> int set \<Rightarrow> int set" where
  "or_default dflt S = (if S = {} \<and> dflt \<ge> 0 then {dflt} else S)"

definition wanted :: "int \<Rightarrow> int set \<Rightarrow> int set" where
  "wanted index S = (if index \<ge> 0 then {index} else S)"

definition requested_specs :: "TargetSelectInput \<Rightarrow> InputSpec set" where
  "requested_specs input =
     (let S = {spec. Tuple spec \<in> requests input}
      in if S = {} \<and> tsi_DefaultConfigIndex input \<ge> 0
         then {\<lparr>is_ConfigIndex = tsi_DefaultConfigIndex input, is_VariantIndex = -1, is_SubVariantIndex = -1\<rparr>}
         else S)"

definition selected :: "TargetSelectInput \<Rightarrow> TargetSpec set" where
  "selected input = {\<lparr>ts_ConfigIndex = is_ConfigIndex spec, ts_VariantIndex = v, ts_SubVariantIndex = sv\<rparr> | spec v sv.
     spec \<in> requested_specs input
     \<and> v \<in> wanted (is_VariantIndex spec)
         (or_default (tsi_DefaultVariantIndex input) {int i | i. Variant i \<in> requests input})
     \<and> sv \<in> wanted (is_SubVariantIndex spec)
         (or_default (tsi_DefaultSubVariantIndex input) {int i | i. Subvariant i \<in> requests input})}"

definition bits :: "u32 \<Rightarrow> int set" where
  "bits w = {int i | i. bit w i}"

lemma bits_0 [simp]: "bits 0 = {}"
  by (simp add: bits_def)

lemma bits_empty_iff [simp]: "bits w = {} \<longleftrightarrow> w = 0"
  using lowest_bit [of w] by (auto simp: bits_def)

lemma bits_or [simp]: "bits (v OR w) = bits v \<union> bits w"
  by (auto simp: bits_def bit_simps)

lemma bits_bit_at [simp]: "0 \<le> i \<Longrightarrow> i < 32 \<Longrightarrow> bits (bit_at i) = {i}"
  by (auto simp: bits_def bit_bit_at)

lemma bits_step: "v \<noteq> 0 \<Longrightarrow> bits v = insert (CountTrailingZeroes v) (bits (clear_lowest v))"
  using lowest_bit [of v] by (auto simp: bits_def bit_clear_lowest)

lemma TargetSpec_eq_iff [simp]: "TargetSpec_eq l r \<longleftrightarrow> l = r"
  by (cases l; cases r) (auto simp: TargetSpec_eq_def)

lemma subvariant_loop_selects:
  "set (subvariant_loop c v svbits out) = set out \<union>
     {\<lparr>ts_ConfigIndex = c, ts_VariantIndex = v, ts_SubVariantIndex = sv\<rparr> | sv. sv \<in> bits svbits} \<and>
   (distinct out \<longrightarrow> distinct (subvariant_loop c v svbits out))"
proof (induction c v svbits out rule: subvariant_loop.induct)
  case (1 c v svbits out)
  show ?case
  proof (cases "svbits = 0")
    case True
    then show ?thesis by (simp add: subvariant_loop.simps)
  next
    case False
    from 1 [OF False refl refl refl] show ?thesis
      by (subst (1 2) subvariant_loop.simps)
        (use False in \<open>auto simp: Let_def bits_step [OF False] list_ex_iff\<close>)
  qed
qed

lemma variant_loop_selects:
  "set (variant_loop c svbits vbits out) = set out \<union>
     {\<lparr>ts_ConfigIndex = c, ts_VariantIndex = v, ts_SubVariantIndex = sv\<rparr> | v sv. v \<in> bits vbits \<and> sv \<in> bits svbits} \<and>
   (distinct out \<longrightarrow> distinct (variant_loop c svbits vbits out))"
proof (induction c svbits vbits out rule: variant_loop.induct)
  case (1 c svbits vbits out)
  show ?case
  proof (cases "vbits = 0")
    case True
    then show ?thesis by (simp add: variant_loop.simps)
  next
    case False
    from 1 [OF False refl] show ?thesis
      by (subst (1 2) variant_loop.simps)
        (use False in \<open>auto simp: Let_def bits_step [OF False] subvariant_loop_selects\<close>)
  qed
qed

lemma spec_loop_selects:
  "set (spec_loop vb svb specs out) = set out \<union>
     {\<lparr>ts_ConfigIndex = is_ConfigIndex spec, ts_VariantIndex = v, ts_SubVariantIndex = sv\<rparr> | spec v sv.
        spec \<in> set specs \<and> v \<in> bits (spec_bits (is_VariantIndex spec) vb) \<and>
        sv \<in> bits (spec_bits (is_SubVariantIndex spec) svb)} \<and>
   (distinct out \<longrightarrow> distinct (spec_loop vb svb specs out))"
  by (induction vb svb specs out rule: spec_loop.induct) (auto simp: variant_loop_selects)

section \<open>What a name asks for\<close>

lemma FindHash_loop_Some: "FindHash_loop hs h i = Some n \<longleftrightarrow> i \<le> n \<and> n - i < length hs \<and> hs ! (n - i) = h \<and> (\<forall>j < n - i. hs ! j \<noteq> h)"
proof (induction hs h i arbitrary: n rule: FindHash_loop.induct)
  case (2 x hs h i)
  show ?case
  proof (cases "x = h")
    case True
    then show ?thesis by (auto simp: nth_Cons' intro: le_antisym)
  next
    case False
    have "(\<forall>j < n - i. (x # hs) ! j \<noteq> h) \<longleftrightarrow> (\<forall>j < n - Suc i. hs ! j \<noteq> h)" if "Suc i \<le> n"
    proof -
      have "n - i = Suc (n - Suc i)" using that by simp
      then show ?thesis using False by (simp add: All_less_Suc2)
    qed
    moreover have "(x # hs) ! (n - i) = hs ! (n - Suc i)" if "Suc i \<le> n" using that by (simp add: nth_Cons')
    moreover have "Suc i \<le> n \<longleftrightarrow> i \<le> n \<and> n - i \<noteq> 0" by auto
    ultimately show ?thesis using 2 [OF False] False by (cases "Suc i \<le> n") (auto simp: nth_Cons')
  qed
qed simp

lemma FindHash_Some: "FindHash hs (Djb2Hash n) = Some i \<longleftrightarrow> names_index hs n i"
  by (auto simp: FindHash_def FindHash_loop_Some names_index_def)

lemma FindHash_None: "FindHash hs (Djb2Hash n) = None \<longleftrightarrow> (\<nexists>i. names_index hs n i)"
  by (metis FindHash_Some not_None_eq)

lemma FindHash_bound: "FindHash hs h = Some n \<Longrightarrow> n < length hs \<and> hs ! n = h"
  by (auto simp: FindHash_def FindHash_loop_Some)

lemma optional_index_Some: "optional_index hashes part = Some i \<longleftrightarrow> part_index hashes part i"
  by (auto simp: optional_index_def part_index_def split: option.splits simp flip: FindHash_Some)

lemma split_dash_Some: "split_dash s = Some (a, b) \<longleftrightarrow> s = a @ ''-'' @ b \<and> no_dash a"
proof
  assume s: "split_dash s = Some (a, b)"
  then have d: "CHR ''-'' \<in> set s" "a = takeWhile (\<lambda>c. c \<noteq> CHR ''-'') s" "b = tl (dropWhile (\<lambda>c. c \<noteq> CHR ''-'') s)"
    by (auto simp: split_dash_def split: if_splits)
  have "dropWhile (\<lambda>c. c \<noteq> CHR ''-'') s = CHR ''-'' # b"
    using d(1,3) hd_dropWhile [of "\<lambda>c. c \<noteq> CHR ''-''" s] by (cases "dropWhile (\<lambda>c. c \<noteq> CHR ''-'') s") (auto simp: dropWhile_eq_Nil_conv)
  then show "s = a @ ''-'' @ b \<and> no_dash a"
    using d(2) takeWhile_dropWhile_id [of "\<lambda>c. c \<noteq> CHR ''-''" s] by (auto dest: set_takeWhileD)
next
  assume s: "s = a @ ''-'' @ b \<and> no_dash a"
  then have "\<And>c. c \<in> set a \<Longrightarrow> c \<noteq> CHR ''-''" by metis
  then show "split_dash s = Some (a, b)" using s by (simp add: split_dash_def takeWhile_append2 dropWhile_append2)
qed

lemma split_dash_None: "split_dash s = None \<longleftrightarrow> no_dash s"
  by (simp add: split_dash_def)

text \<open>Cutting a name at its dashes.\<close>

definition cut_name :: "string \<Rightarrow> (string \<times> string option \<times> string option) option" where
  "cut_name buffer =
     (case split_dash buffer of
        None \<Rightarrow> None
      | Some (part1, rest1) \<Rightarrow> Some
          (case split_dash rest1 of
             None \<Rightarrow> (buffer, None, None)
           | Some (part2, rest2) \<Rightarrow>
               (case split_dash rest2 of
                  None \<Rightarrow> (part1 @ ''-'' @ part2, Some rest2, None)
                | Some (part3, rest3) \<Rightarrow> (part1 @ ''-'' @ part2, Some part3, Some rest3))))"

lemma cut_name_parts: "cut_name s = Some (config, var, subvar) \<longleftrightarrow> tuple_parts s config var subvar"
proof
  assume "cut_name s = Some (config, var, subvar)"
  then show "tuple_parts s config var subvar"
    by (auto simp: cut_name_def split_dash_Some split_dash_None intro: tuple_parts.intros [simplified] split: option.splits prod.splits)
next
  have cut: "split_dash (a @ ''-'' @ b) = Some (a, b)" if "no_dash a" for a b using that by (simp only: split_dash_Some simp_thms)
  have whole: "split_dash a = None" if "no_dash a" for a using that by (simp add: split_dash_None)
  assume "tuple_parts s config var subvar"
  then show "cut_name s = Some (config, var, subvar)"
    by cases (simp_all only: cut_name_def cut whole option.case prod.case simp_thms)
qed

lemma DestructureInputSpec_names: "DestructureInputSpec input name = Some spec \<longleftrightarrow> names_tuple input name spec"
proof -
  let ?index = "\<lambda>(config, var, subvar). case (FindHash (tsi_ConfigNameHashes input) (Djb2Hash config),
      optional_index (tsi_VariantNameHashes input) var, optional_index (tsi_SubVariantNameHashes input) subvar) of
        (Some c, Some v, Some sv) \<Rightarrow> Some \<lparr>is_ConfigIndex = int c, is_VariantIndex = v, is_SubVariantIndex = sv\<rparr> | _ \<Rightarrow> None"
  have "DestructureInputSpec input name = Option.bind (cut_name (take 255 (c_str name))) ?index"
    by (auto simp: DestructureInputSpec_def cut_name_def Let_def split: option.splits)
  moreover have "?index (config, var, subvar) = Some spec \<longleftrightarrow>
      part_index (tsi_ConfigNameHashes input) (Some config) (is_ConfigIndex spec) \<and>
      part_index (tsi_VariantNameHashes input) var (is_VariantIndex spec) \<and>
      part_index (tsi_SubVariantNameHashes input) subvar (is_SubVariantIndex spec)" for config var subvar
    by (cases spec) (auto simp: optional_index_def [of _ "Some config"] simp flip: optional_index_Some split: option.splits)
  ultimately show ?thesis
    by (auto simp: bind_eq_Some_conv names_tuple_def cut_name_parts)
qed

text \<open>The request as the loop over the names finds it.\<close>

definition request_of :: "TargetSelectInput \<Rightarrow> string \<Rightarrow> request" where
  "request_of input n =
     (case FindHash (tsi_SubVariantNameHashes input) (Djb2Hash n) of Some i \<Rightarrow> Subvariant i
      | None \<Rightarrow> (case FindHash (tsi_VariantNameHashes input) (Djb2Hash n) of Some i \<Rightarrow> Variant i
      | None \<Rightarrow> (case DestructureInputSpec input n of Some spec \<Rightarrow> Tuple spec | None \<Rightarrow> Target n)))"

lemma request_of_asks: "request_of input n = r \<longleftrightarrow> asks_for input n r"
proof
  note found = FindHash_Some FindHash_None DestructureInputSpec_names
  have none: "DestructureInputSpec input n = None \<longleftrightarrow> (\<nexists>spec. names_tuple input n spec)" by (metis DestructureInputSpec_names not_None_eq)
  show "asks_for input n r" if "request_of input n = r"
    unfolding that [symmetric] request_of_def
    by (auto simp: found none simp del: not_ex split: option.splits intro: asks_for.intros)
  assume "asks_for input n r"
  then show "request_of input n = r"
    by cases (auto simp: request_of_def simp flip: found none split: option.splits)
qed

lemma requests_image: "requests input = request_of input ` set (tsi_InputNames input)"
  by (auto simp: requests_def simp flip: request_of_asks)

definition small :: "TargetSelectInput \<Rightarrow> bool" where
  "small input \<longleftrightarrow> length (tsi_ConfigNameHashes input) \<le> 32 \<and> length (tsi_VariantNameHashes input) \<le> 32 \<and>
     length (tsi_SubVariantNameHashes input) \<le> 32"

lemma request_of_bound:
  assumes "small input"
  shows "request_of input n = Variant i \<Longrightarrow> i < 32" "request_of input n = Subvariant i \<Longrightarrow> i < 32"
  using assms by (fastforce simp: request_of_def small_def split: option.splits dest!: FindHash_bound)+

lemma input_loop_Cons:
  "input_loop input (n # ns) sel = input_loop input ns
     (case request_of input n of
        Subvariant i \<Rightarrow> sel\<lparr>sel_subvariant_bits := sel_subvariant_bits sel OR bit_at (int i)\<rparr>
      | Variant i \<Rightarrow> sel\<lparr>sel_variant_bits := sel_variant_bits sel OR bit_at (int i)\<rparr>
      | Tuple spec \<Rightarrow> sel\<lparr>sel_specs := sel_specs sel @ [spec]\<rparr>
      | Target t \<Rightarrow> sel\<lparr>sel_target_names := sel_target_names sel @ [t]\<rparr>)"
  by (simp add: Let_def request_of_def split: option.split)

lemma input_loop_requests:
  assumes "small input"
  defines "R \<equiv> \<lambda>names. request_of input ` set names"
  shows "bits (sel_variant_bits (input_loop input names sel)) =
       bits (sel_variant_bits sel) \<union> {int i | i. Variant i \<in> R names}"
    and "bits (sel_subvariant_bits (input_loop input names sel)) =
       bits (sel_subvariant_bits sel) \<union> {int i | i. Subvariant i \<in> R names}"
    and "set (sel_specs (input_loop input names sel)) = set (sel_specs sel) \<union> {spec. Tuple spec \<in> R names}"
    and "sel_target_names (input_loop input names sel) =
       sel_target_names sel @ filter (\<lambda>n. request_of input n = Target n) names"
proof (induction names arbitrary: sel)
  case (Cons n names)
  note bound = request_of_bound [OF assms(1), of n]
  { case 1 show ?case
      using bound by (cases "request_of input n") (auto simp: R_def input_loop_Cons Cons(1) simp del: input_loop.simps) }
  { case 2 show ?case
      using bound by (cases "request_of input n") (auto simp: R_def input_loop_Cons Cons(2) simp del: input_loop.simps) }
  { case 3 show ?case
      by (cases "request_of input n") (auto simp: R_def input_loop_Cons Cons(3) simp del: input_loop.simps) }
  { case 4 show ?case
      by (cases "request_of input n")
        (auto simp: R_def input_loop_Cons Cons(4) request_of_def simp del: input_loop.simps split: option.splits) }
qed (simp_all add: R_def)

lemma bits_spec_bits: "index < 32 \<Longrightarrow> bits (spec_bits index b) = wanted index (bits b)"
  by (simp add: spec_bits_def wanted_def)

lemma optional_index_bound: "optional_index hashes name = Some i \<Longrightarrow> length hashes \<le> 32 \<Longrightarrow> i < 32"
  by (fastforce simp: optional_index_def split: option.splits dest: FindHash_bound)

lemma DestructureInputSpec_bound:
  assumes "DestructureInputSpec input n = Some spec" "small input"
  shows "is_VariantIndex spec < 32 \<and> is_SubVariantIndex spec < 32"
proof -
  obtain var subvar where
    "optional_index (tsi_VariantNameHashes input) var = Some (is_VariantIndex spec)"
    "optional_index (tsi_SubVariantNameHashes input) subvar = Some (is_SubVariantIndex spec)"
    using assms(1) by (auto simp: DestructureInputSpec_def Let_def split: option.splits prod.splits)
  then show ?thesis using assms(2) by (auto simp: small_def dest: optional_index_bound)
qed

lemma requested_specs_bound:
  "small input \<Longrightarrow> spec \<in> requested_specs input \<Longrightarrow> is_VariantIndex spec < 32 \<and> is_SubVariantIndex spec < 32"
  by (auto simp: requested_specs_def requests_image request_of_def Let_def
      split: option.splits if_splits dest: DestructureInputSpec_bound)

definition no_requests :: selection where
  "no_requests = \<lparr>sel_specs = [], sel_variant_bits = 0, sel_subvariant_bits = 0, sel_target_names = []\<rparr>"

lemma apply_defaults_requests:
  assumes "small input" "tsi_DefaultVariantIndex input < 32" "tsi_DefaultSubVariantIndex input < 32"
  defines "sel \<equiv> apply_defaults input (input_loop input (tsi_InputNames input) no_requests)"
  shows "bits (sel_variant_bits sel) =
      or_default (tsi_DefaultVariantIndex input) {int i | i. Variant i \<in> requests input}"
    and "bits (sel_subvariant_bits sel) =
      or_default (tsi_DefaultSubVariantIndex input) {int i | i. Subvariant i \<in> requests input}"
    and "set (sel_specs sel) = requested_specs input"
    and "sel_target_names sel = filter (\<lambda>n. request_of input n = Target n) (tsi_InputNames input)"
proof -
  note loop = input_loop_requests [OF assms(1), of "tsi_InputNames input" no_requests]
  note set_empty' = set_empty [of "sel_specs (input_loop input (tsi_InputNames input) no_requests)", symmetric]
  show "bits (sel_variant_bits sel) =
      or_default (tsi_DefaultVariantIndex input) {int i | i. Variant i \<in> requests input}"
    using assms(2) loop(1) by (simp add: sel_def apply_defaults_def or_default_def requests_image no_requests_def
        flip: bits_empty_iff)
  show "bits (sel_subvariant_bits sel) =
      or_default (tsi_DefaultSubVariantIndex input) {int i | i. Subvariant i \<in> requests input}"
    using assms(3) loop(2) by (simp add: sel_def apply_defaults_def or_default_def requests_image no_requests_def
        flip: bits_empty_iff)
  show "set (sel_specs sel) = requested_specs input"
    using loop(3) unfolding sel_def apply_defaults_def requested_specs_def requests_image no_requests_def
    by (auto simp: Let_def)
  show "sel_target_names sel = filter (\<lambda>n. request_of input n = Target n) (tsi_InputNames input)"
    using loop(4) by (simp add: sel_def apply_defaults_def no_requests_def)
qed

section \<open>Properties\<close>

text \<open>
  C19: With at most 32 configurations, variants and subvariants, \<open>SelectTargets\<close> returns, without
  duplicates, exactly the tuples that the names on the command line ask for: every requested
  configuration with every requested variant and subvariant, or those the tuple name itself
  gives, or the defaults; the names that ask for none of these come out as target names. A tuple
  name (its first 255 characters) is \<open>host-tool\<close>, \<open>host-tool-variant\<close> or
  \<open>host-tool-variant-subvariant\<close>.
\<close>

theorem SelectTargets_selects:
  assumes "length (tsi_ConfigNameHashes input) \<le> 32" "length (tsi_VariantNameHashes input) \<le> 32"
    "length (tsi_SubVariantNameHashes input) \<le> 32"
    and "tsi_DefaultVariantIndex input < 32" "tsi_DefaultSubVariantIndex input < 32"
  shows "\<exists>out. SelectTargets input [] [] =
      Inr (out, filter (\<lambda>n. asks_for input n (Target n)) (tsi_InputNames input))
    \<and> distinct out \<and> set out = selected input"
proof -
  define sel where "sel = apply_defaults input (input_loop input (tsi_InputNames input) no_requests)"
  define out where "out = spec_loop (sel_variant_bits sel) (sel_subvariant_bits sel) (sel_specs sel) []"
  have small: "small input" using assms by (simp add: small_def)
  note req = apply_defaults_requests [OF small assms(4,5), folded sel_def]
  have "SelectTargets input [] [] = Inr (out, sel_target_names sel)"
    using assms(1-3) by (simp add: SelectTargets_def Let_def out_def sel_def no_requests_def)
  moreover have "distinct out" by (simp add: out_def spec_loop_selects)
  moreover have "set out = selected input"
    unfolding out_def spec_loop_selects [THEN conjunct1] selected_def req(3)
    by (simp add: requested_specs_bound [OF small] bits_spec_bits req(1,2) cong: conj_cong)
  ultimately show ?thesis using req(4) by (auto simp: request_of_asks)
qed

definition ex_input :: "string list \<Rightarrow> TargetSelectInput" where
  "ex_input names = \<lparr>tsi_ConfigNameHashes = [Djb2Hash ''linux-gcc''],
     tsi_VariantNameHashes = [Djb2Hash ''debug'', Djb2Hash ''release''],
     tsi_SubVariantNameHashes = [Djb2Hash ''default''], tsi_InputNames = names,
     tsi_DefaultConfigIndex = 0, tsi_DefaultVariantIndex = 0, tsi_DefaultSubVariantIndex = 0\<rparr>"

theorem SelectTargets_selects_witness:
  "selected (ex_input [''linux-gcc-release'', ''app'']) = {\<lparr>ts_ConfigIndex = 0, ts_VariantIndex = 1, ts_SubVariantIndex = 0\<rparr>} \<and>
   filter (\<lambda>n. asks_for (ex_input [''linux-gcc-release'', ''app'']) n (Target n)) [''linux-gcc-release'', ''app''] = [''app'']"
proof -
  let ?input = "ex_input [''linux-gcc-release'', ''app'']"
  have run: "SelectTargets ?input [] [] = Inr ([\<lparr>ts_ConfigIndex = 0, ts_VariantIndex = 1, ts_SubVariantIndex = 0\<rparr>], [''app''])" by code_simp
  have "tsi_InputNames ?input = [''linux-gcc-release'', ''app'']" by (simp add: ex_input_def)
  then show ?thesis using SelectTargets_selects [of ?input] run by (simp add: ex_input_def)
qed

end
