(* ===== verification/T2_Ctype.thy ===== *)
theory T2_Ctype
  imports T2_Prelude
begin

text \<open>
  The character classes of \<open>ctype.h\<close> in the C locale and the prefix of a string that \<open>strtod\<close>
  reads.
\<close>

section \<open>Classes\<close>

definition isspace :: "char \<Rightarrow> bool" where
  "isspace ch \<longleftrightarrow> (let n = (of_char ch :: nat) in n = 32 \<or> (9 \<le> n \<and> n \<le> 13))"

definition isdigit :: "char \<Rightarrow> bool" where
  "isdigit ch \<longleftrightarrow> (let n = (of_char ch :: nat) in 48 \<le> n \<and> n \<le> 57)"

definition isalpha :: "char \<Rightarrow> bool" where
  "isalpha ch \<longleftrightarrow> (let n = (of_char ch :: nat) in (65 \<le> n \<and> n \<le> 90) \<or> (97 \<le> n \<and> n \<le> 122))"

definition isalnum :: "char \<Rightarrow> bool" where
  "isalnum ch \<longleftrightarrow> isalpha ch \<or> isdigit ch"

definition isxdigit :: "char \<Rightarrow> bool" where
  "isxdigit ch \<longleftrightarrow> (let n = (of_char ch :: nat) in isdigit ch \<or> (65 \<le> n \<and> n \<le> 70) \<or> (97 \<le> n \<and> n \<le> 102))"

definition tolower :: "char \<Rightarrow> char" where
  "tolower ch = (let n = (of_char ch :: nat) in if 65 \<le> n \<and> n \<le> 90 then char_of (n + 32) else ch)"

section \<open>Numbers\<close>

text \<open>
  The subject sequence of \<open>strtod\<close> (C11 7.22.1.3) without leading white space: an optional sign
  and a decimal or hexadecimal floating constant, \<open>inf\<close>, \<open>infinity\<close> or \<open>nan\<close>. The result is the
  number of characters read, 0 if there is no conversion.
\<close>

definition sign_len :: "string \<Rightarrow> nat" where
  "sign_len s = (if peek s = CHR ''+'' \<or> peek s = CHR ''-'' then 1 else 0)"

text \<open>Digits with at most one point and at least one digit, or nothing.\<close>

definition digits_len :: "(char \<Rightarrow> bool) \<Rightarrow> string \<Rightarrow> nat" where
  "digits_len digit s =
     (let whole = length (takeWhile digit s);
          point = (if peek (drop whole s) = CHR ''.'' then 1 else 0);
          frac = (if point = 1 then length (takeWhile digit (drop (whole + 1) s)) else 0)
      in if whole + frac = 0 then 0 else whole + point + frac)"

definition exponent_len :: "char \<Rightarrow> string \<Rightarrow> nat" where
  "exponent_len mark s =
     (if tolower (peek s) = mark then
        (let sign = sign_len (drop 1 s); n = length (takeWhile isdigit (drop (1 + sign) s))
         in if n = 0 then 0 else 1 + sign + n)
      else 0)"

definition unsigned_len :: "string \<Rightarrow> nat" where
  "unsigned_len s =
     (if peek s = CHR ''0'' \<and> tolower (peek (drop 1 s)) = CHR ''x'' \<and> digits_len isxdigit (drop 2 s) > 0
      then (let n = 2 + digits_len isxdigit (drop 2 s) in n + exponent_len (CHR ''p'') (drop n s))
      else if digits_len isdigit s > 0
      then (let n = digits_len isdigit s in n + exponent_len (CHR ''e'') (drop n s))
      else if map tolower (take 8 s) = ''infinity'' then 8
      else if map tolower (take 3 s) = ''inf'' \<or> map tolower (take 3 s) = ''nan'' then 3
      else 0)"

definition strtod_len :: "string \<Rightarrow> nat" where
  "strtod_len s = (let n = unsigned_len (drop (sign_len s) s) in if n = 0 then 0 else sign_len s + n)"

lemma NUL_class [simp]: "\<not> isspace NUL" "\<not> isdigit NUL" "\<not> isalpha NUL" "\<not> isalnum NUL" "\<not> isxdigit NUL"
  by (simp_all add: isspace_def isdigit_def isalpha_def isalnum_def isxdigit_def)

end
