(* ===== verification/T2_Path.thy ===== *)
theory T2_Path
  imports T2_PathUtil
begin

text \<open>
  What the path operations of \<open>T2_PathUtil\<close> compute: a path is the number of unresolved \<open>..\<close> and a
  stack of directory names. Parsing is a walk over the components of the string, concatenation a
  walk from the first path along the second.
\<close>

section \<open>The specification\<close>

fun walk :: "string \<Rightarrow> nat \<times> string list \<Rightarrow> nat \<times> string list" where
  "walk s (up, dirs) =
     (if s = ''.'' then (up, dirs)
      else if s = ''..'' then (if dirs = [] then (Suc up, []) else (up, butlast dirs))
      else (up, dirs @ [s]))"

fun comps :: "string \<Rightarrow> string \<Rightarrow> string list" where
  "comps cur [] = (if cur = [] then [] else [cur])"
| "comps cur (c # cs) =
     (if is_separator c \<or> c = NUL
      then (if cur = [] then [] else [cur]) @ (if c = NUL then [] else comps [] cs)
      else comps (cur @ [c]) cs)"

definition normalize :: "string \<Rightarrow> nat \<times> string list" where
  "normalize path = fold walk (comps [] path) (0, [])"

text \<open>The segments of a buffer.\<close>

fun cut :: "nat \<Rightarrow> nat list \<Rightarrow> string \<Rightarrow> string list" where
  "cut pos [] chars = []"
| "cut pos (e # es) chars = take (e - pos) (drop pos chars) # cut e es chars"

definition segs :: "PathBuffer \<Rightarrow> string list" where
  "segs buffer = cut 0 (take (pb_SegCount buffer) (pb_SegEnds buffer)) (pb_Data buffer)"

definition vpath :: "PathBuffer \<Rightarrow> nat \<times> string list" where
  "vpath buffer = (pb_LeadingDotDots buffer, segs buffer)"

text \<open>The invariant of path buffers: the arrays have their sizes and the ends are in order.\<close>

definition arrays_ok :: "PathBuffer \<Rightarrow> bool" where
  "arrays_ok buffer \<longleftrightarrow> length (pb_Data buffer) = 512 \<and> length (pb_SegEnds buffer) = 64"

definition ends_ok :: "nat list \<Rightarrow> bool" where
  "ends_ok es \<longleftrightarrow> sorted es \<and> (\<forall>e \<in> set es. e \<le> 512)"

definition path_ok :: "PathBuffer \<Rightarrow> bool" where
  "path_ok buffer \<longleftrightarrow> arrays_ok buffer \<and> pb_SegCount buffer \<le> 64 \<and>
     ends_ok (take (pb_SegCount buffer) (pb_SegEnds buffer))"

section \<open>Cutting\<close>

definition last_end :: "nat \<Rightarrow> nat list \<Rightarrow> nat" where
  "last_end pos es = (if es = [] then pos else last es)"

lemma cut_append: "cut pos (es @ fs) chars = cut pos es chars @ cut (last_end pos es) fs chars"
  by (induction pos es chars rule: cut.induct) (auto simp: last_end_def)

lemma cut_cong:
  assumes "\<forall>e \<in> set es. e \<le> m" "take m xs = take m ys"
  shows "cut pos es xs = cut pos es ys"
  using assms
proof (induction pos es xs rule: cut.induct)
  case (2 pos e es chars)
  have "take (e - pos) (drop pos xs) = drop pos (take e xs)" for xs :: string
    by (simp add: drop_take)
  moreover have "take e chars = take e ys"
    using 2(2,3) by (metis list.set_intros(1) min.absorb1 take_take)
  ultimately show ?case using 2 by simp
qed simp

lemma length_cut [simp]: "length (cut pos es chars) = length es"
  by (induction pos es chars rule: cut.induct) auto

lemma length_segs: "path_ok b \<Longrightarrow> length (segs b) = pb_SegCount b"
  by (simp add: segs_def path_ok_def arrays_ok_def)

section \<open>Segments of a string\<close>

definition seg_text :: "string \<Rightarrow> PathSeg \<Rightarrow> string" where
  "seg_text path s = take (ps_len s) (drop (ps_offset s) path)"

definition seg_ok :: "string \<Rightarrow> PathSeg \<Rightarrow> bool" where
  "seg_ok path s \<longleftrightarrow> ps_len s > 0 \<and> ps_offset s + ps_len s \<le> length path \<and>
     ps_dotdot s = (seg_text path s = ''..'') \<and> ps_drop s = (seg_text path s = ''.'')"

lemma length_seg_text [simp]: "seg_ok path s \<Longrightarrow> length (seg_text path s) = ps_len s"
  by (auto simp: seg_ok_def seg_text_def)

lemma take_1_eq: "n < length xs \<Longrightarrow> take (Suc 0) (drop n xs) = [xs ! n]"
  by (simp add: take_Suc_conv_app_nth)

lemma add_segment_spec:
  assumes "length path < 65536" "start \<le> pos" "pos \<le> length path" "length ss \<le> 64"
  defines "cur \<equiv> drop start (take pos path)"
  shows "case add_segment path start pos ss of
      Inl e \<Rightarrow> cur \<noteq> [] \<and> length ss = 64
    | Inr ss' \<Rightarrow> \<exists>new. ss' = ss @ new \<and> map (seg_text path) new = (if cur = [] then [] else [cur]) \<and>
        list_all (seg_ok path) new \<and> length ss' \<le> 64"
proof (cases "start < pos \<and> length ss < 64")
  case True
  define s where "s = \<lparr>ps_offset = start mod 65536, ps_len = (pos - start) mod 65536,
    ps_dotdot = (pos - start = 2 \<and> take 2 (drop start path) = ''..''),
    ps_drop = (pos - start = 1 \<and> path ! start = CHR ''.'')\<rparr>"
  have cur: "seg_text path s = cur" "cur \<noteq> []"
    using assms True by (simp_all add: s_def seg_text_def cur_def take_drop)
  have len: "length cur = pos - start" using assms(2,3) by (simp add: cur_def)
  have cur_take: "cur = take (pos - start) (drop start path)" by (simp add: cur_def drop_take)
  have sizes: "cur \<noteq> ''..''" if "pos - start \<noteq> 2" using that len by auto
  have sizes': "cur \<noteq> ''.''" if "pos - start \<noteq> 1" using that len by auto
  have "ps_dotdot s = (cur = ''..'')"
    using sizes by (cases "pos - start = 2") (auto simp: s_def cur_take)
  moreover have "ps_drop s = (cur = ''.'')"
    using sizes' True assms(3) by (cases "pos - start = 1") (auto simp: s_def cur_take take_1_eq)
  ultimately have "seg_ok path s"
    using assms True cur(1) by (simp add: seg_ok_def s_def)
  moreover have "add_segment path start pos ss = Inr (ss @ [s])"
    using True by (simp add: add_segment_def Let_def kMaxPathSegments_def s_def)
  ultimately show ?thesis using cur True by (auto intro!: exI [of _ "[s]"])
next
  case False
  then show ?thesis
    using assms by (auto simp: add_segment_def Let_def kMaxPathSegments_def)
qed

lemma PathGetSegments_loop_spec:
  assumes "length path < 65536" "start \<le> pos" "pos \<le> length path" "length ss \<le> 64" "drop pos path = rest"
  shows "case PathGetSegments_loop path rest pos start ss of
      Inl e \<Rightarrow> length ss + length (comps (drop start (take pos path)) rest) > 64
    | Inr ss' \<Rightarrow> \<exists>new. ss' = ss @ new \<and> map (seg_text path) new = comps (drop start (take pos path)) rest \<and>
        list_all (seg_ok path) new \<and> length ss' \<le> 64"
  using assms
proof (induction path rest pos start ss rule: PathGetSegments_loop.induct)
  case (1 path pos start ss)
  then show ?case using add_segment_spec [of path start pos ss] by (auto split: sum.splits)
next
  case (2 path ch scratch pos start ss)
  have pos1: "pos < length path" using 2(7) by (metis drop_all list.distinct(1) not_le)
  then have pos: "drop (Suc pos) path = scratch" "path ! pos = ch"
    using 2(7) by (simp_all add: Cons_nth_drop_Suc [symmetric])
  show ?case
  proof (cases "is_separator ch \<or> ch = NUL")
    case False
    have "drop start (take (Suc pos) path) = drop start (take pos path) @ [ch]"
      using pos1 pos 2(4) by (simp add: take_Suc_conv_app_nth)
    then show ?thesis using 2(2) [OF False] 2(3-6) pos1 pos False by (simp split: sum.splits)
  next
    case True
    note add = add_segment_spec [OF 2(3-6)]
    show ?thesis
    proof (cases "add_segment path start pos ss")
      case (Inl e)
      then show ?thesis using add True by auto
    next
      case (Inr ss')
      show ?thesis
      proof (cases "ch = NUL")
        case nul: True
        then show ?thesis using add True Inr by auto
      next
        case False
        obtain new where new: "ss' = ss @ new" "list_all (seg_ok path) new" "length ss' \<le> 64"
          "map (seg_text path) new = (if drop start (take pos path) = [] then [] else [drop start (take pos path)])"
          using add Inr by auto
        then have l: "length new = (if drop start (take pos path) = [] then 0 else 1)"
          by (metis One_nat_def length_0_conv length_Cons length_map)
        have "case PathGetSegments_loop path scratch (Suc pos) (Suc pos) ss' of
            Inl e \<Rightarrow> length ss' + length (comps [] scratch) > 64
          | Inr ss'' \<Rightarrow> \<exists>new. ss'' = ss' @ new \<and> map (seg_text path) new = comps [] scratch \<and>
              list_all (seg_ok path) new \<and> length ss'' \<le> 64"
          using 2(1) [OF True Inr False] 2(3) pos1 pos new(3) by (simp split: sum.splits)
        then show ?thesis
          using Inr False True new l by (auto split: sum.splits)
      qed
    qed
  qed
qed

lemma PathGetSegments_spec:
  assumes "length path < 65536"
  shows "case PathGetSegments path of
      Inl e \<Rightarrow> length (comps [] path) > 64
    | Inr ss \<Rightarrow> map (seg_text path) ss = comps [] path \<and> list_all (seg_ok path) ss \<and> length ss \<le> 64"
  using PathGetSegments_loop_spec [OF assms, of 0 0 "[]" path] by (auto simp: PathGetSegments_def split: sum.splits)

section \<open>Resolving \<open>..\<close> from the right\<close>

text \<open>What \<open>drop_loop\<close> keeps, on the texts of the segments.\<close>

fun resolve :: "string list \<Rightarrow> nat \<Rightarrow> string list \<times> nat" where
  "resolve [] d = ([], d)"
| "resolve (s # ss) d =
     (if s = ''.'' then resolve ss d
      else if s = ''..'' then resolve ss (Suc d)
      else if d > 0 then resolve ss (d - 1)
      else (s # fst (resolve ss d), snd (resolve ss d)))"

lemma drop_loop_resolve:
  assumes "list_all (seg_ok path) ss"
  shows "map (seg_text path) (filter (\<lambda>s. \<not> ps_drop s) (fst (drop_loop ss d))) = fst (resolve (map (seg_text path) ss) d)
    \<and> snd (drop_loop ss d) = snd (resolve (map (seg_text path) ss) d)
    \<and> list_all (\<lambda>s. ps_len s > 0 \<and> length (seg_text path s) = ps_len s) (fst (drop_loop ss d))
    \<and> length (fst (drop_loop ss d)) = length ss"
  using assms
proof (induction ss d rule: drop_loop.induct)
  case (2 s ss d)
  have s: "ps_len s > 0" "length (seg_text path s) = ps_len s" "ps_dotdot s = (seg_text path s = ''..'')"
    "ps_drop s = (seg_text path s = ''.'')" "list_all (seg_ok path) ss"
    using 2(5) by (auto simp: seg_ok_def [of path s])
  have upd: "seg_text path (s\<lparr>ps_drop := True\<rparr>) = seg_text path s"
    by (simp add: seg_text_def)
  consider "ps_drop s" | "\<not> ps_drop s" "ps_dotdot s" | "\<not> ps_drop s" "\<not> ps_dotdot s" "d > 0"
    | "\<not> ps_drop s" "\<not> ps_dotdot s" "d = 0" by blast
  then show ?case
    by cases (use 2(1-4) s upd in \<open>auto simp: split_beta Let_def\<close>)
qed simp

text \<open>
  Resolving from the right is walking from the left: \<open>d\<close> pending \<open>..\<close> take directories off the
  stack that the walk ends with.
\<close>

lemma resolve_walk:
  "resolve (rev ss) d = (let (up, dirs) = fold walk ss (0, []) in
     (rev (take (length dirs - d) dirs), up + (d - length dirs)))"
proof (induction ss arbitrary: d rule: rev_induct)
  case (snoc s ss)
  obtain up dirs where w: "fold walk ss (0, []) = (up, dirs)" by fastforce
  consider "s = ''.''" | "s = ''..''" "dirs = []" | "s = ''..''" "dirs \<noteq> []" | "s \<noteq> ''.''" "s \<noteq> ''..''" by blast
  then show ?case
  proof cases
    case 3
    then obtain x xs where d: "dirs = xs @ [x]" by (metis rev_exhaust)
    then show ?thesis using 3(1) w by (simp add: snoc)
  next
    case 4
    then show ?thesis using w by (cases d) (simp_all add: snoc)
  qed (use w in \<open>simp_all add: snoc\<close>)
qed simp

section \<open>Copying\<close>

definition part_ok :: "PathBuffer \<Rightarrow> nat \<Rightarrow> nat \<Rightarrow> bool" where
  "part_ok b n pos \<longleftrightarrow> arrays_ok b \<and> n \<le> 64 \<and> ends_ok (take n (pb_SegEnds b)) \<and> pos \<le> 512 \<and>
     last_end 0 (take n (pb_SegEnds b)) = pos"

abbreviation put_segment :: "PathBuffer \<Rightarrow> nat \<Rightarrow> nat \<Rightarrow> string \<Rightarrow> PathBuffer" where
  "put_segment b n pos t \<equiv>
     b\<lparr>pb_Data := take pos (pb_Data b) @ t @ drop (pos + length t) (pb_Data b),
       pb_SegEnds := (pb_SegEnds b)[n := pos + length t]\<rparr>"

lemma sorted_last: "sorted es \<Longrightarrow> e \<in> set es \<Longrightarrow> e \<le> last_end p es" for e :: nat
  by (induction es rule: rev_induct) (auto simp: last_end_def sorted_append)

lemma put_segment_ok:
  assumes "part_ok b n pos" "n < 64" "pos + length t \<le> 512"
  shows "part_ok (put_segment b n pos t) (Suc n) (pos + length t)"
    and "cut 0 (take (Suc n) (pb_SegEnds (put_segment b n pos t))) (pb_Data (put_segment b n pos t)) =
      cut 0 (take n (pb_SegEnds b)) (pb_Data b) @ [t]"
proof -
  let ?es = "take n (pb_SegEnds b)"
  let ?chars = "take pos (pb_Data b) @ t @ drop (pos + length t) (pb_Data b)"
  have es: "take (Suc n) ((pb_SegEnds b)[n := pos + length t]) = ?es @ [pos + length t]"
    using assms(1,2) by (simp add: part_ok_def arrays_ok_def take_Suc_conv_app_nth)
  have le: "e \<le> pos" if "e \<in> set ?es" for e
    using sorted_last [of ?es e 0] that assms(1) by (simp add: part_ok_def ends_ok_def)
  show "part_ok (put_segment b n pos t) (Suc n) (pos + length t)"
    using assms trans_le_add1 [OF le] unfolding part_ok_def by (auto simp: es arrays_ok_def ends_ok_def sorted_append last_end_def)
  have "cut 0 ?es ?chars = cut 0 ?es (pb_Data b)"
    by (rule cut_cong [of _ pos]) (use le assms in \<open>auto simp: part_ok_def arrays_ok_def\<close>)
  moreover have "drop pos ?chars = t @ drop (pos + length t) (pb_Data b)"
    using assms(1,3) by (simp add: part_ok_def arrays_ok_def)
  ultimately show "cut 0 (take (Suc n) (pb_SegEnds (put_segment b n pos t))) (pb_Data (put_segment b n pos t)) =
      cut 0 (take n (pb_SegEnds b)) (pb_Data b) @ [t]"
    using assms(1) by (simp add: es cut_append part_ok_def)
qed

definition same_head :: "PathBuffer \<Rightarrow> PathBuffer \<Rightarrow> bool" where
  "same_head b b' \<longleftrightarrow> pb_Type b' = pb_Type b \<and> pb_Flags b' = pb_Flags b \<and> pb_LeadingDotDots b' = pb_LeadingDotDots b"

definition kept :: "string \<Rightarrow> PathSeg list \<Rightarrow> string list" where
  "kept path ss = map (seg_text path) (filter (\<lambda>s. \<not> ps_drop s) ss)"

lemma kept_simps [simp]:
  "kept path [] = []"
  "kept path (s # ss) = (if ps_drop s then kept path ss else seg_text path s # kept path ss)"
  by (simp_all add: kept_def)

lemma copy_loop_spec:
  assumes "part_ok b n pos" "list_all (\<lambda>s. ps_len s > 0 \<and> length (seg_text path s) = ps_len s) ss" "n + length ss \<le> 64"
  shows "if pos + sum_list (map length (kept path ss)) \<le> 512
    then \<exists>b'. copy_loop path ss n pos b = Inr b' \<and> path_ok b' \<and> same_head b b' \<and>
      segs b' = cut 0 (take n (pb_SegEnds b)) (pb_Data b) @ kept path ss
    else \<exists>e. copy_loop path ss n pos b = Inl e"
  using assms
proof (induction ss arbitrary: n pos b)
  case Nil
  then show ?case
    by (auto simp: path_ok_def part_ok_def arrays_ok_def segs_def same_head_def)
next
  case (Cons s ss)
  show ?case
  proof (cases "ps_drop s")
    case True
    then show ?thesis using Cons.IH [OF Cons.prems(1)] Cons.prems(2,3) by simp
  next
    case keep: False
    let ?t = "seg_text path s"
    have t: "length ?t = ps_len s" "ps_len s > 0" "n < 64" using Cons.prems by auto
    show ?thesis
    proof (cases "pos + ps_len s \<le> 512")
      case False
      then show ?thesis using keep by (auto simp: kMaxPathLength_def t(1))
    next
      case True
      then have lt: "pos < 512" using t(2) by linarith
      define b1 where "b1 = put_segment b n pos ?t"
      have put: "part_ok b1 (Suc n) (pos + ps_len s)"
        using put_segment_ok(1) [OF Cons.prems(1) t(3), of ?t] True t(1) by (simp add: b1_def)
      have cut_b1: "cut 0 (take (Suc n) (pb_SegEnds b1)) (pb_Data b1) = cut 0 (take n (pb_SegEnds b)) (pb_Data b) @ [?t]"
        using put_segment_ok(2) [OF Cons.prems(1) t(3), of ?t] True t(1) by (simp add: b1_def)
      have head: "same_head b1 b' = same_head b b'" for b' by (simp add: b1_def same_head_def)
      have step: "copy_loop path (s # ss) n pos b = copy_loop path ss (Suc n) (pos + ps_len s) b1"
        using keep True lt t(1) by (simp add: kMaxPathLength_def Let_def seg_text_def b1_def)
      have rest: "list_all (\<lambda>s. ps_len s > 0 \<and> length (seg_text path s) = ps_len s) ss" "Suc n + length ss \<le> 64"
        using Cons.prems(2,3) by simp_all
      show ?thesis
        using Cons.IH [OF put rest] unfolding step head cut_b1 by (simp add: t(1) keep add.assoc split: if_splits)
    qed
  qed
qed

section \<open>Parsing\<close>

lemma PathInit_spec:
  fixes type :: PathType
  assumes "arrays_ok b" "length path0 < 65536"
  defines "path \<equiv> snd (path_root type path0)"
  shows "if length (comps [] path) \<le> 64 \<and> sum_list (map length (snd (normalize path))) \<le> 512
    then \<exists>b'. PathInit b path0 type = Inr b' \<and> path_ok b' \<and> vpath b' = normalize path \<and>
      pb_Type b' = type \<and> pb_Flags b' = fst (path_root type path0)
    else \<exists>e. PathInit b path0 type = Inl e"
proof -
  have len: "length path < 65536"
    using assms(2) by (auto simp: path_def path_root_def split: PathType.splits)
  obtain flags where root: "path_root type path0 = (flags, path)" by (metis path_def prod.collapse)
  note get = PathGetSegments_spec [OF len]
  show ?thesis
  proof (cases "PathGetSegments path")
    case (Inl e)
    then show ?thesis using get root by (auto simp: PathInit_def)
  next
    case (Inr ss)
    define ds where "ds = drop_loop (rev ss) 0"
    let ?b = "b\<lparr>pb_Type := type, pb_Flags := flags, pb_LeadingDotDots := snd ds\<rparr>"
    have ss: "map (seg_text path) ss = comps [] path" "list_all (seg_ok path) (rev ss)" "length ss \<le> 64"
      using get Inr by (simp_all add: list_all_rev)
    have len': "length (comps [] path) \<le> 64" using ss(1,3) by (metis length_map)
    have init: "PathInit b path0 type = copy_loop path (rev (fst ds)) 0 0 ?b"
      by (simp add: PathInit_def root Inr ds_def split_beta Let_def)
    note dl = drop_loop_resolve [OF ss(2), of 0, folded ds_def rev_map, unfolded ss(1) resolve_walk]
    have "rev (map (seg_text path) (filter (\<lambda>s. \<not> ps_drop s) (fst ds))) = snd (normalize path)"
      using dl by (simp add: normalize_def split_beta Let_def)
    note kept1 = this [unfolded rev_map rev_filter, folded kept_def]
    have kept2: "snd ds = fst (normalize path)"
      using dl by (simp add: normalize_def split_beta Let_def)
    have ok: "part_ok ?b 0 0" using assms(1) by (simp add: part_ok_def arrays_ok_def ends_ok_def last_end_def)
    have "list_all (\<lambda>s. ps_len s > 0 \<and> length (seg_text path s) = ps_len s) (rev (fst ds))" "0 + length (rev (fst ds)) \<le> 64"
      using dl ss(3) by (simp_all add: list_all_rev)
    from copy_loop_spec [OF ok this] show ?thesis
      unfolding kept1 init by (auto simp: len' root same_head_def vpath_def kept2)
  qed
qed

section \<open>Concatenation\<close>

lemma cut_shift: "cut (k + p) (map (\<lambda>e. e + k) es) xs = cut p es (drop k xs)"
  by (induction es arbitrary: p) (simp_all add: add.commute)

lemma seg_ends_loop_eq:
  assumes "i + length es \<le> length ends" "\<forall>e \<in> set es. e + keep < 65536"
  shows "seg_ends_loop es keep i ends = take i ends @ map (\<lambda>e. e + keep) es @ drop (i + length es) ends"
  using assms
proof (induction es arbitrary: i ends)
  case (Cons e es)
  have "take (Suc i) (ends[i := e + keep]) = take i ends @ [e + keep]"
    using Cons.prems(1) by (simp add: take_Suc_conv_app_nth)
  then show ?case using Cons.IH [of "Suc i" "ends[i := e + keep]"] Cons.prems by simp
qed simp

lemma sum_cut:
  assumes "sorted es" "\<forall>e \<in> set es. p \<le> e \<and> e \<le> length chars"
  shows "sum_list (map length (cut p es chars)) = last_end p es - p"
  using assms
proof (induction p es chars rule: cut.induct)
  case (2 p e es chars)
  then have "e \<le> last_end e es" by (auto simp: last_end_def)
  then show ?case using 2 by (auto simp: last_end_def)
qed (simp add: last_end_def)

lemma fold_walk_dotdots:
  "fold walk (replicate k ''..'') (up, dirs) = (up + (k - length dirs), take (length dirs - k) dirs)"
proof (induction k arbitrary: up dirs)
  case (Suc k)
  show ?case
  proof (cases dirs rule: rev_cases)
    case (snoc ds d)
    then show ?thesis using Suc [of up ds] by simp
  qed (use Suc in simp)
qed simp

lemma dotdot_loop_eq:
  "leading + k < 65536 \<Longrightarrow> dotdot_loop k 0 n leading = (n - k, leading + (k - n))"
  by (induction k "0 :: nat" n leading rule: dotdot_loop.induct) auto

definition plain :: "string list \<Rightarrow> bool" where
  "plain dirs \<longleftrightarrow> ''.'' \<notin> set dirs \<and> ''..'' \<notin> set dirs"

lemma fold_walk_plain: "plain ds \<Longrightarrow> fold walk ds (up, dirs) = (up, dirs @ ds)"
  by (induction ds arbitrary: dirs) (auto simp: plain_def)

lemma walk_plain: "plain dirs \<Longrightarrow> plain (snd (fold walk ss (up, dirs)))"
  by (induction ss arbitrary: up dirs) (auto simp: plain_def dest: in_set_butlastD)

text \<open>Walking from one path along another.\<close>

definition join :: "nat \<times> string list \<Rightarrow> nat \<times> string list \<Rightarrow> nat \<times> string list" where
  "join p q = fold walk (replicate (fst q) ''..'' @ snd q) p"

definition path_size :: "string list \<Rightarrow> nat" where
  "path_size dirs = sum_list (map length dirs)"

lemma path_ok_ends:
  assumes "path_ok b" "n \<le> pb_SegCount b"
  shows "last_end 0 (take n (pb_SegEnds b)) = path_size (take n (segs b))"
    and "take n (segs b) = cut 0 (take n (pb_SegEnds b)) (pb_Data b)"
    and "BufferSize b n = Inr (path_size (take n (segs b)))"
    and "ends_ok (take n (pb_SegEnds b))"
proof -
  let ?es = "take (pb_SegCount b) (pb_SegEnds b)"
  have es: "?es = take n (pb_SegEnds b) @ drop n ?es"
    using assms(2) by (metis append_take_drop_id min.absorb1 take_take)
  show t: "take n (segs b) = cut 0 (take n (pb_SegEnds b)) (pb_Data b)"
    unfolding segs_def
    by (subst es) (use assms in \<open>simp add: cut_append path_ok_def arrays_ok_def del: append_take_drop_id\<close>)
  show e: "ends_ok (take n (pb_SegEnds b))"
    using assms(1) unfolding path_ok_def by (metis (no_types) es ends_ok_def sorted_append Un_iff set_append)
  show l: "last_end 0 (take n (pb_SegEnds b)) = path_size (take n (segs b))"
    unfolding t path_size_def
    by (subst sum_cut) (use e assms(1) in \<open>auto simp: ends_ok_def path_ok_def arrays_ok_def\<close>)
  show "BufferSize b n = Inr (path_size (take n (segs b)))"
    unfolding l [symmetric] using assms
    by (auto simp: BufferSize_def last_end_def path_ok_def arrays_ok_def last_conv_nth)
qed

lemma cut_splice:
  assumes "\<forall>e \<in> set es. e \<le> keep" "last_end 0 es = keep" "\<forall>e \<in> set fs. e \<le> other"
    and "keep \<le> length xs" "other \<le> length ys"
  shows "cut 0 (es @ map (\<lambda>e. e + keep) fs) (take keep xs @ take other ys @ zs) = cut 0 es xs @ cut 0 fs ys"
proof -
  let ?w = "take keep xs @ take other ys @ zs"
  have "cut 0 es ?w = cut 0 es xs" by (rule cut_cong [OF assms(1)]) (use assms(4) in simp)
  moreover have "cut 0 fs (drop keep ?w) = cut 0 fs ys" by (rule cut_cong [OF assms(3)]) (use assms(4,5) in simp)
  ultimately show ?thesis using cut_shift [of keep 0 fs ?w] assms(2) by (simp add: cut_append)
qed

lemma PathConcatImpl_spec:
  assumes "path_ok a" "path_ok b" "\<not> PathIsAbsolute b" "min_seg_count a = 0" "plain (segs b)"
    and "pb_LeadingDotDots a + pb_LeadingDotDots b < 65536"
  defines "dirs \<equiv> snd (join (vpath a) (vpath b))"
  shows "if length dirs \<le> 64 \<and> path_size dirs \<le> 512
    then \<exists>c. PathConcatImpl a b = Inr c \<and> path_ok c \<and> segs c = dirs \<and> pb_Type c = pb_Type a \<and>
      pb_Flags c = pb_Flags a \<and>
      pb_LeadingDotDots c = (if PathIsAbsolute a then 0 else fst (join (vpath a) (vpath b)))
    else PathConcatImpl a b = Inl check_failure"
proof -
  let ?n = "pb_SegCount a - pb_LeadingDotDots b" and ?m = "pb_SegCount b"
  let ?keep = "path_size (take ?n (segs a))" and ?other = "path_size (segs b)"
  let ?c = "a\<lparr>pb_LeadingDotDots := (if PathIsAbsolute a then 0 else pb_LeadingDotDots a + (pb_LeadingDotDots b - pb_SegCount a)),
     pb_Data := take ?keep (pb_Data a) @ take ?other (pb_Data b) @ drop (?keep + ?other) (pb_Data a),
     pb_SegEnds := seg_ends_loop (take ?m (pb_SegEnds b)) ?keep ?n (pb_SegEnds a), pb_SegCount := (?n + ?m) mod 65536\<rparr>"
  have lens: "length (segs a) = pb_SegCount a" "length (segs b) = ?m" using assms(1,2) by (simp_all add: length_segs)
  have j: "join (vpath a) (vpath b) =
      (pb_LeadingDotDots a + (pb_LeadingDotDots b - pb_SegCount a), take ?n (segs a) @ segs b)"
    by (simp add: join_def vpath_def fold_walk_dotdots fold_walk_plain [OF assms(5)] lens del: fold_replicate)
  have dirs: "length dirs = ?n + ?m" "path_size dirs = ?keep + ?other"
    by (simp_all add: dirs_def j lens path_size_def)
  note ea = path_ok_ends [OF assms(1), of ?n, OF diff_le_self]
  note eb = path_ok_ends [OF assms(2) le_refl]
  have take_b: "take ?m (segs b) = segs b" by (simp add: lens)
  note eb = eb [unfolded take_b]
  have impl: "PathConcatImpl a b =
      (if \<not> ?n + ?m \<le> 64 then Inl check_failure else if \<not> ?keep + ?other \<le> 512 then Inl check_failure else Inr ?c)"
    using assms(3,4,6) ea(3) eb(3)
    by (simp add: PathConcatImpl_def dotdot_loop_eq kMaxPathSegments_def kMaxPathLength_def)
  show ?thesis
  proof (cases "?n + ?m \<le> 64 \<and> ?keep + ?other \<le> 512")
    case True
    have arr: "length (pb_Data a) = 512" "length (pb_Data b) = 512" "length (pb_SegEnds a) = 64" "length (pb_SegEnds b) = 64"
      using assms(1,2) by (simp_all add: path_ok_def arrays_ok_def)
    have le_a: "\<forall>e \<in> set (take ?n (pb_SegEnds a)). e \<le> ?keep"
      using sorted_last [of _ _ 0] ea(1,4) by (metis ends_ok_def)
    have le_b: "\<forall>e \<in> set (take ?m (pb_SegEnds b)). e \<le> ?other"
      using sorted_last [of _ _ 0] eb(1,4) by (metis ends_ok_def)
    have lt_b: "\<forall>e \<in> set (take ?m (pb_SegEnds b)). e + ?keep < 65536"
      using le_b True by fastforce
    have len_b: "length (take ?m (pb_SegEnds b)) = ?m" using assms(2) arr by (simp add: path_ok_def)
    have "seg_ends_loop (take ?m (pb_SegEnds b)) ?keep ?n (pb_SegEnds a) =
        take ?n (pb_SegEnds a) @ map (\<lambda>e. e + ?keep) (take ?m (pb_SegEnds b)) @ drop (?n + ?m) (pb_SegEnds a)"
      using seg_ends_loop_eq [OF _ lt_b, of ?n "pb_SegEnds a"] True arr len_b by simp
    moreover have "length (take ?n (pb_SegEnds a)) = ?n" using arr assms(1) by (auto simp: path_ok_def)
    ultimately have ends: "take (?n + ?m) (pb_SegEnds ?c) = take ?n (pb_SegEnds a) @ map (\<lambda>e. e + ?keep) (take ?m (pb_SegEnds b))"
      "length (pb_SegEnds ?c) = 64"
      using len_b True arr by simp_all
    have ok: "path_ok ?c"
      using True arr ends ea(4) eb(4) le_a le_b
      by (auto simp: path_ok_def arrays_ok_def ends_ok_def sorted_append sorted_map sorted_wrt_map
          intro: trans_le_add2 trans_le_add1)
    have "segs ?c = cut 0 (take ?n (pb_SegEnds a) @ map (\<lambda>e. e + ?keep) (take ?m (pb_SegEnds b))) (pb_Data ?c)"
      using True ends(1) unfolding segs_def [of ?c] by simp
    also have "\<dots> = cut 0 (take ?n (pb_SegEnds a)) (pb_Data a) @ cut 0 (take ?m (pb_SegEnds b)) (pb_Data b)"
      using cut_splice [OF le_a ea(1) le_b] True arr by simp
    also have "\<dots> = take ?n (segs a) @ segs b"
      by (simp only: ea(2) segs_def [of b])
    finally have "segs ?c = dirs" by (simp add: dirs_def j)
    then show ?thesis using True ok dirs by (auto simp: impl j)
  next
    case False
    then show ?thesis using dirs by (auto simp: impl)
  qed
qed

section \<open>Printing\<close>

definition dotdots :: "char \<Rightarrow> nat \<Rightarrow> string" where
  "dotdots c n = concat (replicate n [CHR ''.'', CHR ''.'', c])"

fun dirs_text :: "char \<Rightarrow> string list \<Rightarrow> string" where
  "dirs_text c [] = []"
| "dirs_text c (d # ds) = d @ concat (map (\<lambda>d. c # d) ds)"

definition path_text :: "bool \<Rightarrow> nat \<times> string list \<Rightarrow> string" where
  "path_text absolute p = (if absolute then ''/'' else []) @ dotdots (CHR ''/'') (fst p) @ dirs_text (CHR ''/'') (snd p)"

text \<open>Either the whole text comes out, or an error, and then the text is longer than \<open>n\<close>.\<close>

definition prints :: "nat \<Rightarrow> string result \<Rightarrow> string \<Rightarrow> bool" where
  "prints n res str \<longleftrightarrow> res = Inr str \<or> (\<exists>e. res = Inl e) \<and> length str > n"

lemma emit_dotdots_spec: "prints 512 (emit_dotdots c n out) (out @ dotdots c n)"
proof (induction n arbitrary: out)
  case (Suc n)
  have d: "dotdots c (Suc n) = [CHR ''.'', CHR ''.'', c] @ dotdots c n" by (simp add: dotdots_def)
  show ?case
    using Suc [of "out @ [CHR ''.'', CHR ''.'', c]"] unfolding d
    by (simp add: emit_def kMaxPathLength_def prints_def)
qed (simp add: dotdots_def prints_def)

lemma SegLength_spec:
  assumes "path_ok b" "i < pb_SegCount b"
  shows "SegLength b i = Inr (length (segs b ! i))"
    and "take (length (segs b ! i)) (drop (path_size (take i (segs b))) (pb_Data b)) = segs b ! i"
    and "path_size (take i (segs b)) + length (segs b ! i) = path_size (take (Suc i) (segs b))"
    and "path_size (take (Suc i) (segs b)) \<le> 512"
proof -
  have len: "i < length (segs b)" using assms by (simp add: length_segs)
  have e1: "last_end 0 (take (Suc i) (pb_SegEnds b)) = pb_SegEnds b ! i"
    using assms by (simp add: path_ok_def arrays_ok_def last_end_def take_Suc_conv_app_nth)
  have e0: "last_end 0 (take i (pb_SegEnds b)) = (if i = 0 then 0 else pb_SegEnds b ! (i - 1))"
    using assms by (auto simp: path_ok_def arrays_ok_def last_end_def last_conv_nth)
  note p0 = path_ok_ends [OF assms(1), of i] and p1 = path_ok_ends [OF assms(1), of "Suc i"]
  show size: "path_size (take i (segs b)) + length (segs b ! i) = path_size (take (Suc i) (segs b))"
    using len by (simp add: path_size_def take_Suc_conv_app_nth)
  have ends: "pb_SegEnds b ! i = path_size (take i (segs b)) + length (segs b ! i)" "pb_SegEnds b ! i \<le> 512"
    using p1(1,4) e1 size assms by (auto simp: ends_ok_def path_ok_def arrays_ok_def take_Suc_conv_app_nth)
  then show "path_size (take (Suc i) (segs b)) \<le> 512" using size by simp
  show "SegLength b i = Inr (length (segs b ! i))"
    using assms(2) p0(1) e0 ends by (auto simp: SegLength_def path_size_def split: if_splits)
  have "segs b ! i = cut 0 (take (Suc i) (pb_SegEnds b)) (pb_Data b) ! i"
    using p1(2) assms(2) by (metis Suc_leI lessI nth_take)
  also have "\<dots> = take (length (segs b ! i)) (drop (path_size (take i (segs b))) (pb_Data b))"
    using assms p0(1) ends(1)
    by (simp add: take_Suc_conv_app_nth path_ok_def arrays_ok_def cut_append nth_append)
  finally show "take (length (segs b ! i)) (drop (path_size (take i (segs b))) (pb_Data b)) = segs b ! i" by simp
qed

definition seg_tail :: "char \<Rightarrow> PathBuffer \<Rightarrow> nat \<Rightarrow> string" where
  "seg_tail c b i = concat (map (\<lambda>d. c # d) (drop i (segs b)))"

lemma emit_segments_spec:
  assumes "path_ok b" "0 < i" "i + n = pb_SegCount b"
  shows "prints 511 (emit_segments b c 0 n i (path_size (take i (segs b))) out) (out @ seg_tail c b i)"
  using assms(2,3)
proof (induction n arbitrary: i out)
  case 0
  then show ?case using length_segs [OF assms(1)] by (simp add: seg_tail_def prints_def)
next
  case (Suc n)
  have i: "i < pb_SegCount b" using Suc.prems by simp
  note seg = SegLength_spec [OF assms(1) i]
  have tail: "seg_tail c b i = (c # segs b ! i) @ seg_tail c b (Suc i)"
    using i by (simp add: seg_tail_def length_segs [OF assms(1)] Cons_nth_drop_Suc [symmetric])
  have step: "emit_segments b c 0 (Suc n) i (path_size (take i (segs b))) out =
      (if length out + length (segs b ! i) + 1 \<ge> 512 then Inl (Croak ''Path too long'')
       else emit_segments b c 0 n (Suc i) (path_size (take (Suc i) (segs b))) (out @ c # segs b ! i))"
    using Suc.prems(1) seg by (simp add: kMaxPathLength_def)
  have "prints 511 (emit_segments b c 0 n (Suc i) (path_size (take (Suc i) (segs b))) (out @ c # segs b ! i))
      ((out @ c # segs b ! i) @ seg_tail c b (Suc i))"
    using Suc.prems by (intro Suc.IH) simp_all
  then show ?case unfolding step tail by (auto simp: prints_def)
qed

lemma PathFormat_spec:
  assumes "path_ok b" "pb_Type b = kUnix" "pb_Flags b = (if PathIsAbsolute b then kFlagAbsolute else 0)"
  shows "prints 510 (PathFormat b) (path_text (PathIsAbsolute b) (vpath b))"
proof -
  let ?root = "if PathIsAbsolute b then ''/'' else []"
  let ?segments = "\<lambda>out. emit_segments b (CHR ''/'') 0 (pb_SegCount b) 0 0 out"
  have root: "(if pb_Flags b AND (kFlagAbsolute OR kFlagWindowsDevicePath) = kFlagAbsolute then ''/'' else []) = ?root"
    using assms(3) by (auto simp: kFlagAbsolute_def kFlagWindowsDevicePath_def)
  have fmt: "PathFormat b = (case emit_dotdots (CHR ''/'') (pb_LeadingDotDots b) ?root of Inl e \<Rightarrow> Inl e
      | Inr out \<Rightarrow> (case ?segments out of
          Inl e \<Rightarrow> Inl e | Inr r \<Rightarrow> if length r \<ge> 512 then Inl (Overrun ''output'') else Inr r))"
    using assms(2) by (simp add: PathFormat_def PathFormatPartial_def Let_def root kMaxPathLength_def cong: sum.case_cong)
  have segments: "prints 510 (?segments out) (out @ dirs_text (CHR ''/'') (segs b))" for out
  proof (cases "pb_SegCount b")
    case 0
    then show ?thesis using length_segs [OF assms(1)] by (simp add: prints_def)
  next
    case (Suc n)
    note seg = SegLength_spec [OF assms(1), of 0]
    have "segs b \<noteq> []" using length_segs [OF assms(1)] Suc by auto
    then have ds: "dirs_text (CHR ''/'') (segs b) = segs b ! 0 @ seg_tail (CHR ''/'') b 1"
      by (cases "segs b") (auto simp: seg_tail_def)
    have step: "?segments out = (if length out + length (segs b ! 0) + 1 \<ge> 512 then Inl (Croak ''Path too long'')
       else emit_segments b (CHR ''/'') 0 n 1 (path_size (take 1 (segs b))) (out @ segs b ! 0))"
      using seg Suc by (simp add: kMaxPathLength_def path_size_def)
    show ?thesis
      using emit_segments_spec [OF assms(1), of 1 n "CHR ''/''" "out @ segs b ! 0"] Suc
      unfolding step ds by (auto simp: prints_def)
  qed
  show ?thesis
    using emit_dotdots_spec [of "CHR ''/''" "pb_LeadingDotDots b" ?root] segments [of "?root @ dotdots (CHR ''/'') (pb_LeadingDotDots b)"]
    unfolding fmt path_text_def vpath_def by (auto simp: prints_def split: if_splits)
qed

section \<open>Parsing what was printed\<close>

definition clean_char :: "char \<Rightarrow> bool" where
  "clean_char c \<longleftrightarrow> \<not> is_separator c \<and> c \<noteq> NUL"

definition clean :: "string list \<Rightarrow> bool" where
  "clean dirs \<longleftrightarrow> (\<forall>d \<in> set dirs. d \<noteq> [] \<and> list_all clean_char d)"

lemma comps_clean_append: "list_all clean_char d \<Longrightarrow> comps cur (d @ rest) = comps (cur @ d) rest"
  by (induction d arbitrary: cur) (auto simp: clean_char_def)

lemma comps_separator: "is_separator c \<Longrightarrow> c \<noteq> NUL \<Longrightarrow> comps cur (c # rest) = (if cur = [] then [] else [cur]) @ comps [] rest"
  by simp

lemma slash [simp]: "is_separator (CHR ''/'')" "clean_char (CHR ''.'')"
  by (simp_all add: is_separator_def clean_char_def)

lemma comps_dirs_text:
  assumes "clean dirs" shows "comps [] (dirs_text (CHR ''/'') dirs) = dirs"
proof -
  have tail: "comps cur (concat (map (\<lambda>d. CHR ''/'' # d) ds)) = (if cur = [] then [] else [cur]) @ ds" if "clean ds" for cur ds
    using that
  proof (induction ds arbitrary: cur)
    case (Cons d ds)
    then have "list_all clean_char d" "d \<noteq> []" "clean ds" by (auto simp: clean_def)
    then show ?case using Cons.IH [of d] comps_clean_append [of d "[]"] by simp
  qed simp
  show ?thesis
  proof (cases dirs)
    case (Cons d ds)
    then have "list_all clean_char d" "d \<noteq> []" "clean ds" using assms by (auto simp: clean_def)
    then show ?thesis using tail [of ds d] comps_clean_append [of d "[]"] Cons by simp
  qed simp
qed

lemma comps_dotdots: "comps [] (dotdots (CHR ''/'') n @ rest) = replicate n ''..'' @ comps [] rest"
proof (induction n)
  case (Suc n)
  have "dotdots (CHR ''/'') (Suc n) @ rest = ''..'' @ CHR ''/'' # dotdots (CHR ''/'') n @ rest" by (simp add: dotdots_def)
  then show ?case using comps_clean_append [of "''..''" "[]" "CHR ''/'' # dotdots (CHR ''/'') n @ rest"] Suc
    by (simp add: list_all_def del: comps.simps) (simp add: comps_separator del: comps.simps)
qed (simp add: dotdots_def)

lemma comps_clean: "list_all clean_char cur \<Longrightarrow> clean (comps cur path)"
proof (induction cur path rule: comps.induct)
  case (2 cur c cs)
  then show ?case
    by (cases "is_separator c \<or> c = NUL") (auto simp: clean_def clean_char_def [of c])
qed (simp add: clean_def)

lemma walk_clean: "clean ss \<Longrightarrow> clean dirs \<Longrightarrow> clean (snd (fold walk ss (up, dirs)))"
proof (induction ss arbitrary: up dirs)
  case (Cons s ss)
  obtain up' dirs' where w: "walk s (up, dirs) = (up', dirs')" by fastforce
  then have "set dirs' \<subseteq> insert s (set dirs)" by (auto split: if_splits dest: in_set_butlastD)
  then have "clean dirs'" using Cons.prems unfolding clean_def by (metis insertE list.set_intros(1) subsetD)
  moreover have "clean ss" using Cons.prems(1) by (simp add: clean_def)
  ultimately show ?case using Cons.IH [of dirs' up'] w by simp
qed simp

lemma walk_size: "fst (fold walk ss (up, dirs)) + length (snd (fold walk ss (up, dirs))) \<le> up + length dirs + length ss"
proof (induction ss arbitrary: up dirs)
  case (Cons s ss)
  obtain up' dirs' where w: "walk s (up, dirs) = (up', dirs')" by fastforce
  then have "up' + length dirs' \<le> Suc (up + length dirs)" by (auto split: if_splits)
  then show ?case using Cons [of up' dirs'] w by simp
qed simp

lemma normalize_props:
  "clean (snd (normalize path))" "plain (snd (normalize path))"
  "fst (normalize path) + length (snd (normalize path)) \<le> length (comps [] path)"
  using walk_clean [OF comps_clean, of "[]" "[]" path 0] walk_plain [of "[]" "comps [] path" 0]
    walk_size [of "comps [] path" 0 "[]"]
  by (simp_all add: normalize_def clean_def plain_def)

lemma normalize_text:
  assumes "clean dirs" "plain dirs"
  shows "normalize (dotdots (CHR ''/'') up @ dirs_text (CHR ''/'') dirs) = (up, dirs)"
  using assms
  by (simp add: normalize_def comps_dotdots comps_dirs_text fold_walk_plain fold_walk_dotdots del: fold_replicate)

lemma peek_relative:
  assumes "clean dirs"
  shows "peek (dotdots (CHR ''/'') up @ dirs_text (CHR ''/'') dirs) \<noteq> CHR ''/''"
proof (cases up)
  case 0
  show ?thesis
  proof (cases dirs)
    case (Cons d ds)
    then obtain c cs where "d = c # cs" "clean_char c" using assms by (cases d) (auto simp: clean_def)
    then show ?thesis using 0 Cons by (auto simp: dotdots_def clean_char_def)
  qed (simp add: 0 dotdots_def)
qed (simp add: dotdots_def)

lemma path_root_text:
  assumes "clean (snd p)" "plain (snd p)"
  shows "fst (path_root kUnix (path_text absolute p)) = (if absolute then kFlagAbsolute else 0)"
    and "normalize (snd (path_root kUnix (path_text absolute p))) = p"
    and "comps [] (snd (path_root kUnix (path_text absolute p))) = replicate (fst p) ''..'' @ snd p"
  using peek_relative [OF assms(1), of "fst p"] normalize_text [OF assms, of "fst p"] assms(1)
  by (auto simp: path_root_def path_text_def comps_dotdots comps_dirs_text)

lemma PathFormat_length: "PathFormat b = Inr str \<Longrightarrow> length str < 512"
  by (auto simp: PathFormat_def PathFormatPartial_def Let_def kMaxPathLength_def split: sum.splits if_splits)

lemma PathInit_root:
  "fst (path_root kUnix path) = (if peek path = CHR ''/'' then kFlagAbsolute else 0)"
  by (simp add: path_root_def)

lemma last_end_le: "ends_ok es \<Longrightarrow> last_end 0 es \<le> 512"
  by (cases es rule: rev_cases) (auto simp: ends_ok_def last_end_def)

lemma path_size_segs: "path_ok b \<Longrightarrow> path_size (segs b) \<le> 512"
  using path_ok_ends(1,4) [of b "pb_SegCount b"] length_segs [of b] last_end_le by fastforce

section \<open>Properties\<close>

text \<open>
  C21: \<open>PathInit\<close> normalizes a path as walking it from the root or from the current directory
  does, although the code resolves \<open>..\<close> from the right: the segments left are the directories
  the walk ends in, and \<open>m_LeadingDotDots\<close> is how often it went above the start. It succeeds
  exactly if there are at most 64 components and the result has at most 512 characters.
\<close>

theorem PathInit_normalizes:
  assumes "arrays_ok buffer" "length path0 < 65536"
  shows "if length (comps [] (snd (path_root type path0))) \<le> 64 \<and>
      path_size (snd (normalize (snd (path_root type path0)))) \<le> 512
    then \<exists>b'. PathInit buffer path0 type = Inr b' \<and> path_ok b' \<and> vpath b' = normalize (snd (path_root type path0))
    else \<exists>e. PathInit buffer path0 type = Inl e"
  using PathInit_spec [OF assms, of type] by (auto simp: path_size_def split: if_splits)

definition blank :: PathBuffer where
  "blank = \<lparr>pb_Type = kUnix, pb_Flags = 0, pb_SegCount = 0, pb_LeadingDotDots = 0,
     pb_SegEnds = replicate 64 0, pb_Data = replicate 512 NUL\<rparr>"

theorem PathInit_normalizes_witness:
  "\<exists>b'. PathInit blank ''a//./b/../../../c'' kUnix = Inr b' \<and> path_ok b' \<and> vpath b' = (1, [''c''])"
proof -
  have "normalize (snd (path_root kUnix ''a//./b/../../../c'')) = (1, [''c''])"
    "length (comps [] (snd (path_root kUnix ''a//./b/../../../c''))) \<le> 64" by code_simp+
  then show ?thesis
    using PathInit_normalizes [of blank "''a//./b/../../../c''" kUnix]
    by (simp add: blank_def arrays_ok_def path_size_def)
qed

text \<open>
  C20: \<open>PathConcat\<close> of a relative path refines walking: the result is where one gets from the
  first path along the second, with \<open>..\<close> above the root dropped for an absolute path. Otherwise
  (the result does not fit) a \<open>CHECK\<close> fails. Paths with a Windows device are excluded: they
  never lose their first segment.
\<close>

theorem PathConcat_walks:
  assumes "path_ok a" "path_ok b" "\<not> PathIsAbsolute b" "min_seg_count a = 0" "plain (segs b)"
    and "pb_LeadingDotDots a + pb_LeadingDotDots b < 65536"
  shows "if length (snd (join (vpath a) (vpath b))) \<le> 64 \<and> path_size (snd (join (vpath a) (vpath b))) \<le> 512
    then \<exists>c. PathConcat a b = Inr c \<and> path_ok c \<and> pb_Flags c = pb_Flags a \<and>
      vpath c = (if PathIsAbsolute a then 0 else fst (join (vpath a) (vpath b)), snd (join (vpath a) (vpath b)))
    else PathConcat a b = Inl check_failure"
  using PathConcatImpl_spec [OF assms] assms(3) by (auto simp: PathConcat_def vpath_def split: if_splits)

theorem PathConcat_walks_witness:
  "\<exists>c. PathConcat (blank\<lparr>pb_SegCount := 1, pb_SegEnds := 1 # replicate 63 0, pb_Data := CHR ''a'' # replicate 511 NUL\<rparr>)
      (blank\<lparr>pb_LeadingDotDots := 2\<rparr>) = Inr c \<and> vpath c = (1, [])"
  (is "\<exists>c. PathConcat ?a ?b = Inr c \<and> _")
proof -
  have v: "vpath ?a = (0, [''a''])" "vpath ?b = (2, [])" by (simp_all add: vpath_def segs_def blank_def)
  have "path_ok ?a" "path_ok ?b" "\<not> PathIsAbsolute ?b" "\<not> PathIsAbsolute ?a" "min_seg_count ?a = 0" "plain (segs ?b)"
    "pb_LeadingDotDots ?a + pb_LeadingDotDots ?b < 65536"
    by (simp_all add: path_ok_def arrays_ok_def ends_ok_def blank_def PathIsAbsolute_def min_seg_count_def plain_def segs_def)
  moreover have "join (vpath ?a) (vpath ?b) = (1, [])" unfolding v join_def by (simp add: numeral_2_eq_2)
  ultimately show ?thesis
    using PathConcat_walks [of ?a ?b] by (auto simp: path_size_def)
qed

text \<open>
  C22: On Unix, printing a parsed path and parsing it again gives the same path: the same flags,
  unresolved \<open>..\<close> and segments.
\<close>

theorem format_parse_roundtrip:
  assumes "arrays_ok u" "arrays_ok u'" "length path < 65536"
    and "PathInit u path kUnix = Inr b" "PathFormat b = Inr str"
  shows "\<exists>b'. PathInit u' str kUnix = Inr b' \<and> vpath b' = vpath b \<and> pb_Flags b' = pb_Flags b"
proof -
  let ?p = "snd (path_root kUnix path)"
  have fits: "length (comps [] ?p) \<le> 64" and b: "path_ok b" "vpath b = normalize ?p" "pb_Type b = kUnix"
      "pb_Flags b = fst (path_root kUnix path)"
    using PathInit_spec [OF assms(1,3), of kUnix] assms(4) by (auto split: if_splits)
  have props: "clean (snd (vpath b))" "plain (snd (vpath b))" "fst (vpath b) + length (snd (vpath b)) \<le> 64"
    using normalize_props [of ?p] fits b(2) by auto
  have flags: "pb_Flags b = (if PathIsAbsolute b then kFlagAbsolute else 0)"
    using b(4) by (auto simp: PathInit_root PathIsAbsolute_def kFlagAbsolute_def)
  have str: "str = path_text (PathIsAbsolute b) (vpath b)"
    using PathFormat_spec [OF b(1,3) flags] assms(5) by (auto simp: prints_def)
  note root = path_root_text [OF props(1,2), of "PathIsAbsolute b", folded str]
  have "length str < 65536" using PathFormat_length [OF assms(5)] by simp
  from PathInit_spec [OF assms(2) this, of kUnix] show ?thesis
    using props(3) root flags path_size_segs [OF b(1)] by (auto simp: vpath_def path_size_def split: if_splits)
qed

theorem format_parse_roundtrip_witness:
  "\<exists>b str b'. PathInit blank ''/x/../y/./z'' kUnix = Inr b \<and> PathFormat b = Inr str \<and>
     PathInit blank str kUnix = Inr b' \<and> vpath b' = vpath b"
proof -
  have "normalize (snd (path_root kUnix ''/x/../y/./z'')) = (0, [''y'', ''z''])"
    "length (comps [] (snd (path_root kUnix ''/x/../y/./z''))) \<le> 64"
    "fst (path_root kUnix ''/x/../y/./z'') = kFlagAbsolute" by code_simp+
  then obtain b where b: "PathInit blank ''/x/../y/./z'' kUnix = Inr b" "path_ok b" "vpath b = (0, [''y'', ''z''])"
      "pb_Type b = kUnix" "pb_Flags b = kFlagAbsolute"
    using PathInit_spec [of blank "''/x/../y/./z''" kUnix] by (auto simp: blank_def arrays_ok_def)
  then have "PathIsAbsolute b" by (simp add: PathIsAbsolute_def kFlagAbsolute_def)
  then obtain str where "PathFormat b = Inr str"
    using PathFormat_spec [OF b(2,4)] b(3,5) by (auto simp: prints_def path_text_def dotdots_def)
  then show ?thesis
    using format_parse_roundtrip [of blank blank "''/x/../y/./z''" b str] b(1) by (auto simp: blank_def arrays_ok_def)
qed

text \<open>
  C23: A single segment of more than 512 characters passes the length check of \<open>PathInit\<close>, which
  looks at the position before the copy only, and is copied past the end of \<open>m_Data\<close>.
\<close>

theorem PathInit_overruns:
  assumes "512 < length path" "length path < 65536" "list_all clean_char path"
  shows "PathInit buffer path kUnix = Inl (Overrun ''m_Data'')"
proof -
  obtain c cs where path: "path = c # cs" "clean_char c" using assms(1,3) by (cases path) auto
  then have root: "path_root kUnix path = (0, path)" by (auto simp: path_root_def clean_char_def)
  have "path \<noteq> ''.''" "path \<noteq> ''..''" using assms(1) by auto
  then have comps: "comps [] path = [path]"
    using comps_clean_append [OF assms(3), of "[]" "[]"] path by simp
  obtain ss where ss: "PathGetSegments path = Inr ss" "map (seg_text path) ss = [path]" "list_all (seg_ok path) ss"
    using PathGetSegments_spec [OF assms(2)] comps by (auto split: sum.splits)
  then obtain s where s: "ss = [s]" "seg_text path s = path" "seg_ok path s" by auto
  then have "ps_len s = length path" "\<not> ps_drop s" "\<not> ps_dotdot s"
    using length_seg_text [OF s(3)] assms(1) by (auto simp: seg_ok_def)
  then show ?thesis using assms(1) by (simp add: PathInit_def root ss(1) s(1) kMaxPathLength_def)
qed

theorem PathInit_overruns_witness:
  "PathInit blank (replicate 513 CHR ''x'') kUnix = Inl (Overrun ''m_Data'')"
  by (rule PathInit_overruns) (simp_all add: list_all_length clean_char_def is_separator_def)

end
