(* ===== verification/T2_JsonParse.thy ===== *)
theory T2_JsonParse
  imports T2_Common T2_Ctype
begin

text \<open>
  Model of \<open>src/JsonParse.cpp\<close> and \<open>src/JsonParse.hpp\<close>: the lexer with one lexeme of lookahead and
  the recursive descent parser. The cursor is the rest of the buffer. A number is represented by
  the characters that \<open>strtod\<close> reads, whose value is a function of them; an error message by its
  line number and text; a null pointer by \<open>None\<close>. Recursion and loops of the parser take fuel;
  running out of it is the outer \<open>None\<close>. The linear allocators, which hold the values, do not
  occur: they never fail.
\<close>

section \<open>Values\<close>

datatype JsonValue =
    kNull
  | kBoolean bool
  | kObject "(string \<times> JsonValue) list"
  | kArray "JsonValue list"
  | kString string
  | kNumber string

definition AsObject :: "JsonValue \<Rightarrow> (string \<times> JsonValue) list option" where
  "AsObject v = (case v of kObject kvs \<Rightarrow> Some kvs | _ \<Rightarrow> None)"

definition AsArray :: "JsonValue \<Rightarrow> JsonValue list option" where
  "AsArray v = (case v of kArray vs \<Rightarrow> Some vs | _ \<Rightarrow> None)"

definition AsBoolean :: "JsonValue \<Rightarrow> bool option" where
  "AsBoolean v = (case v of kBoolean b \<Rightarrow> Some b | _ \<Rightarrow> None)"

definition AsString :: "JsonValue \<Rightarrow> string option" where
  "AsString v = (case v of kString s \<Rightarrow> Some s | _ \<Rightarrow> None)"

definition AsNumber :: "JsonValue \<Rightarrow> string option" where
  "AsNumber v = (case v of kNumber n \<Rightarrow> Some n | _ \<Rightarrow> None)"

text \<open>\<open>Elem\<close> and \<open>Find\<close> use \<open>AsArray\<close> and \<open>AsObject\<close> without a test for null.\<close>

definition Elem :: "JsonValue \<Rightarrow> nat \<Rightarrow> JsonValue result" where
  "Elem v index =
     (case AsArray v of
        None \<Rightarrow> Inl (Overrun ''null array'')
      | Some values \<Rightarrow> if index < length values then Inr (values ! index) else Inl (Croak ''check failure''))"

fun Find_loop :: "(string \<times> JsonValue) list \<Rightarrow> string \<Rightarrow> JsonValue option" where
  "Find_loop [] key = None"
| "Find_loop ((n, v) # kvs) key = (if c_str n = c_str key then Some v else Find_loop kvs key)"

definition Find :: "JsonValue \<Rightarrow> string \<Rightarrow> JsonValue option result" where
  "Find v key =
     (case AsObject v of None \<Rightarrow> Inl (Overrun ''null object'') | Some kvs \<Rightarrow> Inr (Find_loop kvs key))"

section \<open>Lexer\<close>

datatype JsonLexeme =
    LexString string
  | LexNumber string
  | LexValueSeparator
  | LexNameSeparator
  | LexBeginObject
  | LexBeginArray
  | LexEndObject
  | LexEndArray
  | LexBoolean bool
  | LexNull
  | LexEof
  | LexError
  | LexInvalid

record JsonLexerState =
  jl_Cursor :: string
  jl_LineNumber :: nat
  jl_Lexeme :: JsonLexeme
  jl_Error :: "(nat \<times> string) option"

definition JsonLexerStateInit :: "string \<Rightarrow> JsonLexerState" where
  "JsonLexerStateInit buffer = \<lparr>jl_Cursor = buffer, jl_LineNumber = 1, jl_Lexeme = LexInvalid, jl_Error = None\<rparr>"

fun SkipWhitespace_loop :: "string \<Rightarrow> nat \<Rightarrow> string \<times> nat" where
  "SkipWhitespace_loop [] line = ([], line)"
| "SkipWhitespace_loop (ch # ptr) line =
     (if ch = NUL then (ch # ptr, line)
      else let line' = (if ch = CHR 0x0A then line + 1 else line)
           in if isspace ch then SkipWhitespace_loop ptr line' else (ch # ptr, line'))"

definition SkipWhitespace :: "JsonLexerState \<Rightarrow> JsonLexerState" where
  "SkipWhitespace state =
     (let (ptr, line) = SkipWhitespace_loop (jl_Cursor state) (jl_LineNumber state)
      in state\<lparr>jl_Cursor := ptr, jl_LineNumber := line\<rparr>)"

definition JsonLexerError :: "JsonLexerState \<Rightarrow> string \<Rightarrow> JsonLexeme \<times> JsonLexerState" where
  "JsonLexerError state error = (LexError, state\<lparr>jl_Error := Some (jl_LineNumber state, error)\<rparr>)"

definition GetNumberLexeme :: "JsonLexerState \<Rightarrow> JsonLexeme \<times> JsonLexerState" where
  "GetNumberLexeme state =
     (let start = jl_Cursor state; n = strtod_len start; state' = state\<lparr>jl_Cursor := drop n start\<rparr>
      in if n \<noteq> 0 then (LexNumber (take n start), state') else JsonLexerError state' ''bad number'')"

fun hex_loop :: "nat \<Rightarrow> string \<Rightarrow> u32 \<Rightarrow> string + (u32 \<times> string)" where
  "hex_loop 0 rptr hex_code = Inr (hex_code, rptr)"
| "hex_loop (Suc n) rptr hex_code =
     (let code = peek rptr
      in if code = NUL then Inl ''end of file inside escape''
         else if isxdigit code then
           (let lc = (of_char (tolower code) :: nat)
            in hex_loop n (tl rptr)
                 (push_bit 4 hex_code OR (if 97 \<le> lc \<and> lc \<le> 102 then of_nat (lc - 97 + 10) else of_nat (lc - 48))))
         else Inl ''expected hex number in escape'')"

text \<open>The characters that follow a backslash and what they stand for.\<close>

definition simple_escape :: "char \<Rightarrow> char option" where
  "simple_escape next =
     (if next = CHR 0x5C then Some (CHR 0x5C)
      else if next = CHR 0x22 then Some (CHR 0x22)
      else if next = CHR ''/'' then Some (CHR ''/'')
      else if next = CHR ''b'' then Some (CHR 0x08)
      else if next = CHR ''f'' then Some (CHR 0x0C)
      else if next = CHR ''n'' then Some (CHR 0x0A)
      else if next = CHR ''r'' then Some (CHR 0x0D)
      else if next = CHR ''t'' then Some (CHR 0x09)
      else None)"

lemma hex_loop_length: "hex_loop n rptr h = Inr (h', rest) \<Longrightarrow> length rest \<le> length rptr"
  by (induction n arbitrary: rptr h) (fastforce simp: Let_def split: if_splits)+

function string_loop :: "string \<Rightarrow> string \<Rightarrow> string + (string \<times> string)" where
  "string_loop rptr written =
     (case rptr of
        [] \<Rightarrow> Inl ''end of file inside string''
      | ch # rptr1 \<Rightarrow>
          if ch = NUL then Inl ''end of file inside string''
          else if ch = CHR 0x22 then Inr (written, rptr1)
          else if ch = CHR 0x5C then
            (let next = peek rptr1; rptr2 = tl rptr1
             in case simple_escape next of
                  Some c \<Rightarrow> string_loop rptr2 (written @ [c])
                | None \<Rightarrow>
                    if next = CHR ''u'' then
                      (case hex_loop 4 rptr2 0 of
                         Inl e \<Rightarrow> Inl e
                       | Inr (hex_code, rptr3) \<Rightarrow>
                           if hex_code > 127 then Inl ''we currently only support ASCII''
                           else string_loop rptr3 (written @ [char_of (unat hex_code)]))
                    else Inl ''unsupported escape code'')
          else string_loop rptr1 (written @ [ch]))"
  by pat_completeness auto
termination
  by (relation "measure (\<lambda>(rptr, _). length rptr)") (auto dest!: hex_loop_length)

declare string_loop.simps [simp del]

definition GetStringLexeme :: "JsonLexerState \<Rightarrow> JsonLexeme \<times> JsonLexerState" where
  "GetStringLexeme state =
     (case string_loop (tl (jl_Cursor state)) [] of
        Inl e \<Rightarrow> JsonLexerError state e
      | Inr (s, rptr) \<Rightarrow> (LexString s, state\<lparr>jl_Cursor := rptr\<rparr>))"

definition GetLiteralLexeme :: "JsonLexerState \<Rightarrow> JsonLexeme \<times> JsonLexerState" where
  "GetLiteralLexeme state =
     (let rptr = jl_Cursor state;
          kwlen = length (takeWhile isalnum rptr);
          state' = state\<lparr>jl_Cursor := drop kwlen rptr\<rparr>
      in if kwlen = 4 \<and> take 4 rptr = ''true'' then (LexBoolean True, state')
         else if kwlen = 4 \<and> take 4 rptr = ''null'' then (LexNull, state')
         else if kwlen = 5 \<and> take 5 rptr = ''false'' then (LexBoolean False, state')
         else JsonLexerError state ''invalid literal, expected one of false, true or null'')"

definition JsonLexerFetchNext :: "JsonLexerState \<Rightarrow> JsonLexeme \<times> JsonLexerState" where
  "JsonLexerFetchNext state0 =
     (let state = SkipWhitespace state0; p = jl_Cursor state; ch = peek p; step = state\<lparr>jl_Cursor := tl p\<rparr>
      in if ch = CHR ''-'' \<or> isdigit ch then GetNumberLexeme state
         else if ch = CHR 0x22 then GetStringLexeme state
         else if ch = CHR ''{'' then (LexBeginObject, step)
         else if ch = CHR ''}'' then (LexEndObject, step)
         else if ch = CHR ''['' then (LexBeginArray, step)
         else if ch = CHR '']'' then (LexEndArray, step)
         else if ch = CHR '','' then (LexValueSeparator, step)
         else if ch = CHR '':'' then (LexNameSeparator, step)
         else if ch = NUL then (LexEof, state)
         else GetLiteralLexeme state)"

definition JsonLexerPeek :: "JsonLexerState \<Rightarrow> JsonLexeme \<times> JsonLexerState" where
  "JsonLexerPeek state =
     (let state' = (if jl_Lexeme state = LexInvalid
                    then (let (l, s) = JsonLexerFetchNext state in s\<lparr>jl_Lexeme := l\<rparr>) else state)
      in (jl_Lexeme state', state'))"

definition JsonLexerNext :: "JsonLexerState \<Rightarrow> JsonLexeme \<times> JsonLexerState" where
  "JsonLexerNext state =
     (if jl_Lexeme state \<noteq> LexInvalid then (jl_Lexeme state, state\<lparr>jl_Lexeme := LexInvalid\<rparr>)
      else JsonLexerFetchNext state)"

definition JsonLexerSkip :: "JsonLexerState \<Rightarrow> JsonLexerState" where
  "JsonLexerSkip state =
     (if jl_Lexeme state \<noteq> LexInvalid then state\<lparr>jl_Lexeme := LexInvalid\<rparr> else snd (JsonLexerNext state))"

text \<open>The types of the lexemes that the parser expects carry no value.\<close>

definition JsonLexerExpect :: "JsonLexerState \<Rightarrow> JsonLexeme \<Rightarrow> bool \<times> JsonLexerState" where
  "JsonLexerExpect state type = (let (l, state') = JsonLexerNext state in (l = type, state'))"

section \<open>Parser\<close>

record JsonState =
  js_Lexer :: JsonLexerState
  js_ErrorMessage :: "(nat \<times> string) option"

definition JsonStateInit :: "string \<Rightarrow> JsonState" where
  "JsonStateInit buffer = \<lparr>js_Lexer = JsonLexerStateInit buffer, js_ErrorMessage = None\<rparr>"

type_synonym parsed = "(JsonState \<times> JsonValue option) option"

definition JsonError :: "JsonState \<Rightarrow> string \<Rightarrow> parsed" where
  "JsonError state error =
     Some (state\<lparr>js_ErrorMessage := Some (jl_LineNumber (js_Lexer state), error)\<rparr>, None)"

text \<open>A leaf: the value, and \<open>JsonLexerSkip\<close> over the lexeme.\<close>

definition leaf :: "JsonState \<Rightarrow> JsonLexerState \<Rightarrow> JsonValue \<Rightarrow> parsed" where
  "leaf state lexer value = Some (state\<lparr>js_Lexer := JsonLexerSkip lexer\<rparr>, Some value)"

fun JsonParseValue :: "nat \<Rightarrow> JsonState \<Rightarrow> parsed"
  and JsonParseObject :: "nat \<Rightarrow> JsonState \<Rightarrow> parsed"
  and object_loop :: "nat \<Rightarrow> JsonState \<Rightarrow> bool \<Rightarrow> bool \<Rightarrow> (string \<times> JsonValue) list \<Rightarrow> parsed"
  and JsonParseArray :: "nat \<Rightarrow> JsonState \<Rightarrow> parsed"
  and array_loop :: "nat \<Rightarrow> JsonState \<Rightarrow> JsonValue list \<Rightarrow> parsed" where
  "JsonParseValue 0 json_state = None"
| "JsonParseValue (Suc fuel) json_state =
     (let (l, lexer) = JsonLexerPeek (js_Lexer json_state); state = json_state\<lparr>js_Lexer := lexer\<rparr>
      in case l of
           LexBeginObject \<Rightarrow> JsonParseObject fuel state
         | LexBeginArray \<Rightarrow> JsonParseArray fuel state
         | LexString s \<Rightarrow> leaf state lexer (kString s)
         | LexNumber n \<Rightarrow> leaf state lexer (kNumber n)
         | LexBoolean b \<Rightarrow> leaf state lexer (kBoolean b)
         | LexNull \<Rightarrow> leaf state lexer kNull
         | _ \<Rightarrow> JsonError state ''invalid document'')"
| "JsonParseObject 0 json_state = None"
| "JsonParseObject (Suc fuel) json_state =
     (let (ok, lexer) = JsonLexerExpect (js_Lexer json_state) LexBeginObject; state = json_state\<lparr>js_Lexer := lexer\<rparr>
      in if \<not> ok then JsonError state ''expected {'' else object_loop fuel state False False [])"
| "object_loop 0 json_state seen_value seen_comma kv_pairs = None"
| "object_loop (Suc fuel) json_state seen_value seen_comma kv_pairs =
     (let (l, lexer) = JsonLexerNext (js_Lexer json_state); state = json_state\<lparr>js_Lexer := lexer\<rparr>
      in case l of
           LexString key \<Rightarrow>
             if seen_value \<and> \<not> seen_comma then JsonError state ''expected ,''
             else (let (ok, lexer) = JsonLexerExpect lexer LexNameSeparator; state = state\<lparr>js_Lexer := lexer\<rparr>
                   in if \<not> ok then JsonError state ''expected :''
                      else case JsonParseValue fuel state of
                             None \<Rightarrow> None
                           | Some (state, None) \<Rightarrow> Some (state, None)
                           | Some (state, Some value) \<Rightarrow>
                               object_loop fuel state True False (kv_pairs @ [(key, value)]))
         | LexEndObject \<Rightarrow> Some (state, Some (kObject kv_pairs))
         | LexValueSeparator \<Rightarrow>
             if \<not> seen_value then JsonError state ''expected key name''
             else if seen_comma then JsonError state ''duplicate comma''
             else object_loop fuel state False True kv_pairs
         | _ \<Rightarrow> JsonError state ''expected object to continue'')"
| "JsonParseArray 0 json_state = None"
| "JsonParseArray (Suc fuel) json_state =
     (let (ok, lexer) = JsonLexerExpect (js_Lexer json_state) LexBeginArray; state = json_state\<lparr>js_Lexer := lexer\<rparr>
      in if \<not> ok then JsonError state ''expected ['' else array_loop fuel state [])"
| "array_loop 0 json_state values = None"
| "array_loop (Suc fuel) json_state values =
     (let (l, lexer) = JsonLexerPeek (js_Lexer json_state); state = json_state\<lparr>js_Lexer := lexer\<rparr>
      in if l = LexEndArray then Some (state\<lparr>js_Lexer := JsonLexerSkip lexer\<rparr>, Some (kArray values))
         else if values \<noteq> [] \<and> l \<noteq> LexValueSeparator then JsonError state ''expected ,''
         else let state = (if values \<noteq> [] then state\<lparr>js_Lexer := JsonLexerSkip lexer\<rparr> else state)
              in case JsonParseValue fuel state of
                   None \<Rightarrow> None
                 | Some (state, None) \<Rightarrow> Some (state, None)
                 | Some (state, Some value) \<Rightarrow> array_loop fuel state (values @ [value]))"

text \<open>The value and the error message.\<close>

definition JsonParse :: "nat \<Rightarrow> string \<Rightarrow> (JsonValue option \<times> (nat \<times> string) option) option" where
  "JsonParse fuel buffer =
     (case JsonParseValue fuel (JsonStateInit buffer) of
        None \<Rightarrow> None
      | Some (state, None) \<Rightarrow> Some (None, js_ErrorMessage state)
      | Some (state, Some root) \<Rightarrow>
          (let (ok, lexer) = JsonLexerExpect (js_Lexer state) LexEof
           in if ok then Some (Some root, None)
              else case JsonError (state\<lparr>js_Lexer := lexer\<rparr>) ''data after document'' of
                     None \<Rightarrow> None
                   | Some (state, v) \<Rightarrow> Some (v, js_ErrorMessage state)))"

end
