(* ===== verification/T2_Json.thy ===== *)
theory T2_Json
  imports T2_JsonParse
begin

text \<open>
  The JSON parser returns on every input, the fuel it needs being linear in the length of the
  buffer; it returns a value or an error message, never both.
\<close>

section \<open>Lexemes shorten the buffer\<close>

lemma string_loop_shorter: "string_loop rptr w = Inr (s, rest) \<Longrightarrow> length rest < length rptr"
proof (induction rptr w arbitrary: s rest rule: string_loop.induct)
  case (1 rptr w)
  show ?case
  proof (cases rptr)
    case Nil
    then show ?thesis using 1(4) by (simp add: string_loop.simps)
  next
    case (Cons ch r)
    note step = string_loop.simps [of rptr w]
    consider "ch = NUL" | "ch = CHR 0x22" | "ch = CHR 0x5C" | "ch \<noteq> NUL" "ch \<noteq> CHR 0x22" "ch \<noteq> CHR 0x5C" by blast
    then show ?thesis
    proof cases
      case 3
      note ih = 1(1,2) [OF Cons, unfolded 3, simplified, OF refl refl]
      have tl: "length (tl r) \<le> length r" by simp
      show ?thesis
      proof (cases "simple_escape (peek r)")
        case (Some c)
        then have "string_loop (tl r) (w @ [c]) = Inr (s, rest)" using 1(4) step Cons 3 by (simp add: Let_def)
        then have "length rest < length (tl r)" using ih(2) Some by blast
        then show ?thesis using Cons tl by simp
      next
        case None
        then obtain hex_code rptr3 where h: "hex_loop 4 (tl r) 0 = Inr (hex_code, rptr3)" "\<not> hex_code > 127"
            "string_loop rptr3 (w @ [char_of (unat hex_code)]) = Inr (s, rest)" "peek r = CHR ''u''"
          using 1(4) step Cons 3 by (auto simp: Let_def split: if_splits sum.splits prod.splits)
        then have "length rest < length rptr3" using ih(1) None by blast
        then show ?thesis using hex_loop_length [OF h(1)] Cons tl by simp
      qed
    next
      case 4
      then have "string_loop r (w @ [ch]) = Inr (s, rest)" using 1(4) step Cons by simp
      then have "length rest < length r" using 1(3) [OF Cons] 4 by blast
      then show ?thesis using Cons by simp
    qed (use 1(4) step Cons in auto)
  qed
qed

lemma SkipWhitespace_loop_length: "length (fst (SkipWhitespace_loop ptr line)) \<le> length ptr"
  by (induction ptr line rule: SkipWhitespace_loop.induct) (auto simp: Let_def)

lemma SkipWhitespace_props:
  "length (jl_Cursor (SkipWhitespace s)) \<le> length (jl_Cursor s)" "jl_Lexeme (SkipWhitespace s) = jl_Lexeme s"
  using SkipWhitespace_loop_length [of "jl_Cursor s" "jl_LineNumber s"]
  by (simp_all add: SkipWhitespace_def split_beta Let_def)

text \<open>Every lexeme but an error and the end of the buffer takes at least one character.\<close>

lemma GetNumberLexeme_shorter:
  "GetNumberLexeme s = (l, s') \<Longrightarrow> jl_Cursor s \<noteq> [] \<Longrightarrow>
    l \<noteq> LexInvalid \<and> jl_Lexeme s' = jl_Lexeme s \<and> length (jl_Cursor s') \<le> length (jl_Cursor s) \<and>
    (l \<noteq> LexError \<longrightarrow> length (jl_Cursor s') < length (jl_Cursor s))"
  by (auto simp: GetNumberLexeme_def JsonLexerError_def Let_def split: if_splits)

lemma GetStringLexeme_shorter:
  "GetStringLexeme s = (l, s') \<Longrightarrow> jl_Cursor s \<noteq> [] \<Longrightarrow>
    l \<noteq> LexInvalid \<and> jl_Lexeme s' = jl_Lexeme s \<and> length (jl_Cursor s') \<le> length (jl_Cursor s) \<and>
    (l \<noteq> LexError \<longrightarrow> length (jl_Cursor s') < length (jl_Cursor s))"
  by (cases "jl_Cursor s") (auto simp: GetStringLexeme_def JsonLexerError_def split: sum.splits dest!: string_loop_shorter)

lemma GetLiteralLexeme_shorter:
  "GetLiteralLexeme s = (l, s') \<Longrightarrow> jl_Cursor s \<noteq> [] \<Longrightarrow>
    l \<noteq> LexInvalid \<and> jl_Lexeme s' = jl_Lexeme s \<and> length (jl_Cursor s') \<le> length (jl_Cursor s) \<and>
    (l \<noteq> LexError \<longrightarrow> length (jl_Cursor s') < length (jl_Cursor s))"
  by (auto simp: GetLiteralLexeme_def JsonLexerError_def Let_def split: if_splits)

lemma JsonLexerFetchNext_shorter:
  assumes "JsonLexerFetchNext s = (l, s')"
  shows "l \<noteq> LexInvalid \<and> jl_Lexeme s' = jl_Lexeme s \<and> length (jl_Cursor s') \<le> length (jl_Cursor s) \<and>
    (l \<noteq> LexError \<and> l \<noteq> LexEof \<longrightarrow> length (jl_Cursor s') < length (jl_Cursor s))"
proof -
  define t where "t = SkipWhitespace s"
  have t: "length (jl_Cursor t) \<le> length (jl_Cursor s)" "jl_Lexeme t = jl_Lexeme s"
    using SkipWhitespace_props by (simp_all add: t_def)
  show ?thesis
  proof (cases "jl_Cursor t")
    case Nil
    then show ?thesis using assms t by (auto simp: JsonLexerFetchNext_def t_def [symmetric] Let_def split: if_splits)
  next
    case (Cons c cs)
    then have ne: "jl_Cursor t \<noteq> []" by simp
    note lexers = GetNumberLexeme_shorter [OF _ ne] GetStringLexeme_shorter [OF _ ne] GetLiteralLexeme_shorter [OF _ ne]
    have "l \<noteq> LexInvalid \<and> jl_Lexeme s' = jl_Lexeme t \<and> length (jl_Cursor s') \<le> length (jl_Cursor t) \<and>
        (l \<noteq> LexError \<and> l \<noteq> LexEof \<longrightarrow> length (jl_Cursor s') < length (jl_Cursor t))"
      using assms Cons unfolding JsonLexerFetchNext_def t_def [symmetric] Let_def
      by (auto split: if_splits dest!: lexers)
    then show ?thesis using t by auto
  qed
qed

section \<open>Lookahead\<close>

definition toks :: "JsonLexerState \<Rightarrow> nat" where
  "toks s = length (jl_Cursor s) + (if jl_Lexeme s = LexInvalid then 0 else 1)"

definition stopper :: "JsonLexeme \<Rightarrow> bool" where
  "stopper l \<longleftrightarrow> l = LexError \<or> l = LexEof"

lemma JsonLexerPeek_toks:
  assumes "JsonLexerPeek s = (l, s')"
  shows "l = jl_Lexeme s'" "l \<noteq> LexInvalid" "\<not> stopper l \<Longrightarrow> toks s' \<le> toks s"
  using assms JsonLexerFetchNext_shorter [of s]
  by (fastforce simp: JsonLexerPeek_def Let_def toks_def stopper_def split: if_splits prod.splits)+

lemma JsonLexerNext_toks:
  assumes "JsonLexerNext s = (l, s')"
  shows "jl_Lexeme s' = LexInvalid" "\<not> stopper l \<Longrightarrow> toks s' < toks s"
  using assms JsonLexerFetchNext_shorter [of s l s']
  by (auto simp: JsonLexerNext_def toks_def stopper_def split: if_splits)

lemma JsonLexerSkip_toks:
  "jl_Lexeme s \<noteq> LexInvalid \<Longrightarrow> toks (JsonLexerSkip s) < toks s \<and> jl_Lexeme (JsonLexerSkip s) = LexInvalid"
  by (simp add: JsonLexerSkip_def toks_def)

lemma JsonLexerExpect_toks:
  "JsonLexerExpect s t = (True, s') \<Longrightarrow> \<not> stopper t \<Longrightarrow> toks s' < toks s \<and> jl_Lexeme s' = LexInvalid"
  using JsonLexerNext_toks [of s] by (auto simp: JsonLexerExpect_def split: prod.splits)

section \<open>Enough fuel\<close>

text \<open>
  The parser returned, and a value took at least one lexeme.
\<close>

definition returns :: "JsonState \<Rightarrow> parsed \<Rightarrow> bool" where
  "returns state r \<longleftrightarrow> (\<exists>state' v. r = Some (state', v) \<and>
     (v \<noteq> None \<longrightarrow> toks (js_Lexer state') < toks (js_Lexer state)))"

lemma returns_error [simp]: "returns state (JsonError state' msg)"
  by (simp add: returns_def JsonError_def)

lemma returns_weaken: "returns state r \<Longrightarrow> toks (js_Lexer state) \<le> toks (js_Lexer state') \<Longrightarrow> returns state' r"
  by (auto simp: returns_def)

definition value_fuel :: "nat \<Rightarrow> JsonState \<Rightarrow> bool" where
  "value_fuel fuel state \<longleftrightarrow>
     3 * toks (js_Lexer state) + 2 \<le> fuel \<or> 0 < fuel \<and> stopper (jl_Lexeme (js_Lexer state))"

lemma peeked:
  assumes "JsonLexerPeek s = (l, s')"
  shows "\<not> stopper l \<Longrightarrow> toks s' \<le> toks s \<and> 1 \<le> toks s'"
  using JsonLexerPeek_toks [OF assms] by (auto simp: toks_def)

lemma stopped_peek: "stopper (jl_Lexeme s) \<Longrightarrow> JsonLexerPeek s = (jl_Lexeme s, s)"
  by (auto simp: JsonLexerPeek_def stopper_def)

lemma stopped_value:
  "stopper (jl_Lexeme (js_Lexer state)) \<Longrightarrow> JsonParseValue fuel state \<noteq> Some (state', Some v)"
  by (cases fuel) (auto simp: stopped_peek, auto simp: stopper_def JsonError_def)

lemma value_step:
  assumes obj: "\<And>state. 3 * toks (js_Lexer state) + 1 \<le> fuel \<Longrightarrow> returns state (JsonParseObject fuel state)"
    and arr: "\<And>state. 3 * toks (js_Lexer state) + 1 \<le> fuel \<Longrightarrow> returns state (JsonParseArray fuel state)"
    and fuel: "value_fuel (Suc fuel) state"
  shows "returns state (JsonParseValue (Suc fuel) state)"
proof -
  obtain l lexer where p: "JsonLexerPeek (js_Lexer state) = (l, lexer)" by fastforce
  define st where "st = state\<lparr>js_Lexer := lexer\<rparr>"
  note l = JsonLexerPeek_toks [OF p] peeked [OF p]
  have leaf: "\<not> stopper l \<Longrightarrow> returns state (leaf st lexer v)" for v
    using l JsonLexerSkip_toks [of lexer] by (auto simp: returns_def leaf_def st_def)
  have fuel': "3 * toks lexer + 1 \<le> fuel" if "\<not> stopper l"
    using fuel that l(4) stopped_peek [of "js_Lexer state"] p by (auto simp: value_fuel_def)
  have st: "toks (js_Lexer st) = toks lexer" by (simp add: st_def)
  note unfold1 = JsonParseValue.simps(2) [of fuel state, unfolded p Let_def prod.case, folded st_def]
  show ?thesis
  proof (cases l)
    case LexBeginObject
    then have "\<not> stopper l" by (simp add: stopper_def)
    then have "returns st (JsonParseObject fuel st)" using obj fuel' st by simp
    then have "returns state (JsonParseObject fuel st)"
      by (rule returns_weaken) (use l(4) \<open>\<not> stopper l\<close> st in simp)
    then show ?thesis using LexBeginObject unfold1 by simp
  next
    case LexBeginArray
    then have "\<not> stopper l" by (simp add: stopper_def)
    then have "returns st (JsonParseArray fuel st)" using arr fuel' st by simp
    then have "returns state (JsonParseArray fuel st)"
      by (rule returns_weaken) (use l(4) \<open>\<not> stopper l\<close> st in simp)
    then show ?thesis using LexBeginArray unfold1 by simp
  qed (use unfold1 leaf in \<open>simp_all add: stopper_def\<close>)
qed

lemma object_step:
  assumes "\<And>state. 3 * toks (js_Lexer state) + 3 \<le> fuel \<Longrightarrow> returns state (object_loop fuel state False False [])"
    and "3 * toks (js_Lexer state) + 1 \<le> Suc fuel"
  shows "returns state (JsonParseObject (Suc fuel) state)"
proof -
  obtain ok lexer where e: "JsonLexerExpect (js_Lexer state) LexBeginObject = (ok, lexer)" by fastforce
  show ?thesis
  proof (cases ok)
    case True
    then have "toks lexer < toks (js_Lexer state)" using JsonLexerExpect_toks e by (auto simp: stopper_def)
    then show ?thesis
      using assms(1) [of "state\<lparr>js_Lexer := lexer\<rparr>"] assms(2) True e
      by (auto intro: returns_weaken)
  qed (simp add: e)
qed

lemma array_step:
  assumes "\<And>state. 3 * toks (js_Lexer state) + 3 \<le> fuel \<Longrightarrow> returns state (array_loop fuel state [])"
    and "3 * toks (js_Lexer state) + 1 \<le> Suc fuel"
  shows "returns state (JsonParseArray (Suc fuel) state)"
proof -
  obtain ok lexer where e: "JsonLexerExpect (js_Lexer state) LexBeginArray = (ok, lexer)" by fastforce
  show ?thesis
  proof (cases ok)
    case True
    then have "toks lexer < toks (js_Lexer state)" using JsonLexerExpect_toks e by (auto simp: stopper_def)
    then show ?thesis
      using assms(1) [of "state\<lparr>js_Lexer := lexer\<rparr>"] assms(2) True e
      by (auto intro: returns_weaken)
  qed (simp add: e)
qed

lemma object_loop_step:
  assumes val: "\<And>state. value_fuel fuel state \<Longrightarrow> returns state (JsonParseValue fuel state)"
    and loop: "\<And>state sv sc kvs. 3 * toks (js_Lexer state) + 3 \<le> fuel \<Longrightarrow> returns state (object_loop fuel state sv sc kvs)"
    and fuel: "3 * toks (js_Lexer state) + 3 \<le> Suc fuel"
  shows "returns state (object_loop (Suc fuel) state sv sc kvs)"
proof -
  obtain l lexer where n: "JsonLexerNext (js_Lexer state) = (l, lexer)" by fastforce
  define st where "st = state\<lparr>js_Lexer := lexer\<rparr>"
  have st: "js_Lexer st = lexer" by (simp add: st_def)
  have less: "\<not> stopper l \<Longrightarrow> toks lexer < toks (js_Lexer state)" using JsonLexerNext_toks [OF n] by blast
  note unfold1 = object_loop.simps(2) [of fuel state sv sc kvs, unfolded n Let_def prod.case, folded st_def]
  show ?thesis
  proof (cases l)
    case (LexString key)
    then have lt: "toks lexer < toks (js_Lexer state)" using less by (simp add: stopper_def)
    obtain ok lexer2 where e: "JsonLexerExpect lexer LexNameSeparator = (ok, lexer2)" by fastforce
    define st2 where "st2 = st\<lparr>js_Lexer := lexer2\<rparr>"
    show ?thesis
    proof (cases "ok \<and> \<not> (sv \<and> \<not> sc)")
      case True
      then have lt2: "toks lexer2 < toks lexer" using JsonLexerExpect_toks e by (auto simp: stopper_def)
      then have "returns st2 (JsonParseValue fuel st2)"
        using val lt fuel by (auto simp: value_fuel_def st2_def)
      then obtain st3 v where v: "JsonParseValue fuel st2 = Some (st3, v)"
          "v \<noteq> None \<Longrightarrow> toks (js_Lexer st3) < toks lexer2"
        by (auto simp: returns_def st2_def)
      have "returns st3 (object_loop fuel st3 True False (kvs @ [(key, x)]))" if "v = Some x" for x
        using loop v(2) that lt2 lt fuel by simp
      then show ?thesis
        using LexString unfold1 e True v lt lt2
        by (cases v) (auto simp: st2_def [symmetric] returns_def)
    next
      case False
      then show ?thesis using LexString unfold1 e by auto
    qed
  next
    case LexEndObject
    then show ?thesis using unfold1 less st by (simp add: returns_def stopper_def)
  next
    case LexValueSeparator
    then have lt: "toks lexer < toks (js_Lexer state)" using less by (simp add: stopper_def)
    then have "returns st (object_loop fuel st False True kvs)" using loop fuel st by simp
    then have "returns state (object_loop fuel st False True kvs)" by (rule returns_weaken) (use lt st in simp)
    then show ?thesis using LexValueSeparator unfold1 by simp
  qed (use unfold1 in simp_all)
qed

lemma array_loop_step:
  assumes val: "\<And>state. value_fuel fuel state \<Longrightarrow> returns state (JsonParseValue fuel state)"
    and loop: "\<And>state vs. 3 * toks (js_Lexer state) + 3 \<le> fuel \<Longrightarrow> returns state (array_loop fuel state vs)"
    and fuel: "3 * toks (js_Lexer state) + 3 \<le> Suc fuel"
  shows "returns state (array_loop (Suc fuel) state vs)"
proof -
  obtain l lexer where p: "JsonLexerPeek (js_Lexer state) = (l, lexer)" by fastforce
  define st where "st = state\<lparr>js_Lexer := lexer\<rparr>"
  note l = JsonLexerPeek_toks [OF p] peeked [OF p]
  have skip: "toks (JsonLexerSkip lexer) < toks lexer" using l(1,2) JsonLexerSkip_toks by blast
  note unfold1 = array_loop.simps(2) [of fuel state vs, unfolded p Let_def prod.case, folded st_def]
  have go: "returns state (case JsonParseValue fuel st1 of None \<Rightarrow> None | Some (s, None) \<Rightarrow> Some (s, None)
      | Some (s, Some x) \<Rightarrow> array_loop fuel s (vs @ [x]))"
    if st1: "value_fuel fuel st1" "\<not> stopper l \<Longrightarrow> toks (js_Lexer st1) \<le> toks (js_Lexer state)"
      "stopper l \<Longrightarrow> stopper (jl_Lexeme (js_Lexer st1))" for st1
  proof -
    obtain st2 v where v: "JsonParseValue fuel st1 = Some (st2, v)" "v \<noteq> None \<Longrightarrow> toks (js_Lexer st2) < toks (js_Lexer st1)"
      using val [OF st1(1)] by (auto simp: returns_def)
    show ?thesis
    proof (cases v)
      case (Some x)
      have "\<not> stopper l"
        using v(1) Some stopped_value st1(3) by fastforce
      then have lt: "toks (js_Lexer st2) < toks (js_Lexer state)" using v(2) Some st1(2) by simp
      then have "returns st2 (array_loop fuel st2 (vs @ [x]))" using loop fuel by simp
      then show ?thesis using lt v(1) Some by (auto simp: returns_def)
    qed (simp add: v(1) returns_def)
  qed
  consider "l = LexEndArray" | "l \<noteq> LexEndArray" "vs \<noteq> []" "l \<noteq> LexValueSeparator"
    | "vs \<noteq> []" "l = LexValueSeparator" | "l \<noteq> LexEndArray" "vs = []" by blast
  then show ?thesis
  proof cases
    case 1
    then show ?thesis using unfold1 skip l(4) by (simp add: returns_def stopper_def)
  next
    case 3
    let ?st1 = "st\<lparr>js_Lexer := JsonLexerSkip lexer\<rparr>"
    have "value_fuel fuel ?st1" "toks (js_Lexer ?st1) \<le> toks (js_Lexer state)" "\<not> stopper l"
      using 3 skip l(4) fuel by (auto simp: value_fuel_def stopper_def)
    then show ?thesis using go [of ?st1] unfold1 3 by simp
  next
    case 4
    have "value_fuel fuel st"
      using l(1,4) fuel by (cases "stopper l") (auto simp: value_fuel_def st_def)
    then show ?thesis using go [of st] unfold1 4 l(1,4) by (simp add: st_def)
  qed (use unfold1 in simp)
qed

lemma all_return:
  "(\<forall>state. value_fuel fuel state \<longrightarrow> returns state (JsonParseValue fuel state)) \<and>
   (\<forall>state. 3 * toks (js_Lexer state) + 1 \<le> fuel \<longrightarrow> returns state (JsonParseObject fuel state)) \<and>
   (\<forall>state sv sc kvs. 3 * toks (js_Lexer state) + 3 \<le> fuel \<longrightarrow> returns state (object_loop fuel state sv sc kvs)) \<and>
   (\<forall>state. 3 * toks (js_Lexer state) + 1 \<le> fuel \<longrightarrow> returns state (JsonParseArray fuel state)) \<and>
   (\<forall>state vs. 3 * toks (js_Lexer state) + 3 \<le> fuel \<longrightarrow> returns state (array_loop fuel state vs))"
proof (induction fuel)
  case 0
  then show ?case by (simp add: value_fuel_def)
next
  case (Suc fuel)
  show ?case
    by (intro conjI allI impI)
      (rule value_step object_step object_loop_step array_step array_loop_step; use Suc in blast)+
qed

section \<open>Errors\<close>

text \<open>A null result comes with a message.\<close>

definition explained :: "parsed \<Rightarrow> bool" where
  "explained r \<longleftrightarrow> (\<forall>state. r = Some (state, None) \<longrightarrow> js_ErrorMessage state \<noteq> None)"

lemma explained_simps [simp]:
  "explained None" "explained (JsonError state msg)" "explained (leaf state lexer v)" "explained (Some (state, Some v))"
  by (auto simp: explained_def JsonError_def leaf_def)

lemma explained_bind:
  assumes "explained r" "\<And>state v. explained (k state v)"
  shows "explained (case r of None \<Rightarrow> None | Some (s, None) \<Rightarrow> Some (s, None) | Some (s, Some x) \<Rightarrow> k s x)"
  using assms by (auto simp: explained_def split: option.splits)

lemma all_explained:
  "(\<forall>state. explained (JsonParseValue fuel state)) \<and> (\<forall>state. explained (JsonParseObject fuel state)) \<and>
   (\<forall>state sv sc kvs. explained (object_loop fuel state sv sc kvs)) \<and>
   (\<forall>state. explained (JsonParseArray fuel state)) \<and> (\<forall>state vs. explained (array_loop fuel state vs))"
proof (induction fuel)
  case (Suc fuel)
  show ?case
    by (intro conjI allI)
      (use Suc in \<open>auto simp: Let_def split_beta intro!: explained_bind split: JsonLexeme.split\<close>)
qed simp

section \<open>More fuel\<close>

definition extends :: "parsed \<Rightarrow> parsed \<Rightarrow> bool" where
  "extends r r' \<longleftrightarrow> r = None \<or> r' = r"

lemma extends_refl [simp]: "extends r r" "extends None r"
  by (simp_all add: extends_def)

lemma extends_bind:
  assumes "extends r r'" "\<And>state v. extends (k state v) (k' state v)"
  shows "extends (case r of None \<Rightarrow> None | Some (s, None) \<Rightarrow> Some (s, None) | Some (s, Some x) \<Rightarrow> k s x)
    (case r' of None \<Rightarrow> None | Some (s, None) \<Rightarrow> Some (s, None) | Some (s, Some x) \<Rightarrow> k' s x)"
  using assms by (auto simp: extends_def split: option.splits)

lemma all_extend:
  "(\<forall>state. extends (JsonParseValue fuel state) (JsonParseValue (Suc fuel) state)) \<and>
   (\<forall>state. extends (JsonParseObject fuel state) (JsonParseObject (Suc fuel) state)) \<and>
   (\<forall>state sv sc kvs. extends (object_loop fuel state sv sc kvs) (object_loop (Suc fuel) state sv sc kvs)) \<and>
   (\<forall>state. extends (JsonParseArray fuel state) (JsonParseArray (Suc fuel) state)) \<and>
   (\<forall>state vs. extends (array_loop fuel state vs) (array_loop (Suc fuel) state vs))"
proof (induction fuel)
  case (Suc fuel)
  note u = JsonParseValue.simps(2) JsonParseObject.simps(2) object_loop.simps(2) JsonParseArray.simps(2) array_loop.simps(2)
  have ih: "extends (JsonParseValue fuel state) (JsonParseValue (Suc fuel) state)"
    "extends (JsonParseObject fuel state) (JsonParseObject (Suc fuel) state)"
    "extends (object_loop fuel state sv sc kvs) (object_loop (Suc fuel) state sv sc kvs)"
    "extends (JsonParseArray fuel state) (JsonParseArray (Suc fuel) state)"
    "extends (array_loop fuel state vs) (array_loop (Suc fuel) state vs)" for state sv sc kvs vs
    using Suc by blast+
  have j0: "extends (JsonParseValue (Suc fuel) state) (JsonParseValue (Suc (Suc fuel)) state)" for state
    unfolding u(1) [of fuel state] u(1) [of "Suc fuel" state]
    by (auto simp: Let_def split_beta ih simp del: u intro!: extends_bind split: JsonLexeme.split)
  have j1: "extends (JsonParseObject (Suc fuel) state) (JsonParseObject (Suc (Suc fuel)) state)" for state
    unfolding u(2) [of fuel state] u(2) [of "Suc fuel" state]
    by (auto simp: Let_def split_beta ih simp del: u intro!: extends_bind split: JsonLexeme.split)
  have o2: "extends (object_loop (Suc fuel) state sv sc kvs) (object_loop (Suc (Suc fuel)) state sv sc kvs)" for state sv sc kvs
    unfolding u(3) [of fuel state sv sc kvs] u(3) [of "Suc fuel" state sv sc kvs]
    by (auto simp: Let_def split_beta ih simp del: u intro!: extends_bind split: JsonLexeme.split)
  have j3: "extends (JsonParseArray (Suc fuel) state) (JsonParseArray (Suc (Suc fuel)) state)" for state
    unfolding u(4) [of fuel state] u(4) [of "Suc fuel" state]
    by (auto simp: Let_def split_beta ih simp del: u intro!: extends_bind split: JsonLexeme.split)
  have a4: "extends (array_loop (Suc fuel) state vs) (array_loop (Suc (Suc fuel)) state vs)" for state vs
    unfolding u(5) [of fuel state vs] u(5) [of "Suc fuel" state vs]
    by (auto simp: Let_def split_beta ih simp del: u intro!: extends_bind split: JsonLexeme.split)
  show ?case using j0 j1 o2 j3 a4 by blast
qed simp

lemma JsonParseValue_more:
  assumes "JsonParseValue fuel state = Some r" "fuel \<le> fuel'"
  shows "JsonParseValue fuel' state = Some r"
  using assms(2)
proof (induction rule: dec_induct)
  case (step n)
  then show ?case using all_extend [of n] by (metis extends_def option.distinct(1))
qed (rule assms(1))

section \<open>Properties\<close>

text \<open>
  C25: \<open>JsonParse\<close> returns on every buffer: with fuel three times the length of the buffer plus
  two it has a result, and more fuel gives the same one. The result is a value without an error
  message, or no value and a message.
\<close>

theorem JsonParse_returns:
  "\<exists>v e. (\<forall>fuel \<ge> 3 * length buffer + 2. JsonParse fuel buffer = Some (v, e)) \<and> (v = None \<longleftrightarrow> e \<noteq> None)"
proof -
  let ?st = "JsonStateInit buffer" and ?fuel = "3 * length buffer + 2"
  have "value_fuel ?fuel ?st"
    by (simp add: value_fuel_def toks_def JsonStateInit_def JsonLexerStateInit_def)
  then have "returns ?st (JsonParseValue ?fuel ?st)"
    using all_return [of ?fuel] by blast
  then obtain st v where p: "JsonParseValue ?fuel ?st = Some (st, v)" by (auto simp: returns_def)
  then have more: "JsonParseValue fuel ?st = Some (st, v)" if "?fuel \<le> fuel" for fuel
    using that by (rule JsonParseValue_more)
  have err: "v = None \<Longrightarrow> js_ErrorMessage st \<noteq> None"
    using all_explained [of ?fuel] p unfolding explained_def by blast
  show ?thesis
  proof (cases v)
    case None
    then show ?thesis using more err by (intro exI [of _ None] exI [of _ "js_ErrorMessage st"]) (simp add: JsonParse_def)
  next
    case (Some root)
    obtain ok lexer where "JsonLexerExpect (js_Lexer st) LexEof = (ok, lexer)" by fastforce
    then show ?thesis
      using more Some
      by (cases ok) (auto simp: JsonParse_def JsonError_def)
  qed
qed

theorem JsonParse_returns_witness:
  "\<exists>v e. JsonParse 1000 ''{}'' = Some (v, e) \<and> (v = None \<longleftrightarrow> e \<noteq> None)"
  using JsonParse_returns [of "''{}''"] by auto

end
