(* ===== verification/T2_JsonWriter.thy ===== *)
theory T2_JsonWriter
  imports T2_JsonParse
begin

text \<open>
  Model of \<open>src/LuaJsonWriter.cpp\<close>, with which the build scripts write the DAG that \<open>JsonParse\<close>
  reads: the buffered file, escaping of strings and the methods of the writer object. The Lua
  stack is replaced by the arguments of the methods; a name is \<open>None\<close> where the call has no name
  argument. The text that \<open>lua_number2str\<close> gives is the argument of \<open>LuaJsonWriteNumber\<close>. A file
  that accepts all that is written is assumed; characters are signed, as they are on x86.
\<close>

section \<open>Buffered output\<close>

record BufferedWriter =
  bw_Buffer :: string
  bw_File :: string

definition BufferedWriterInit :: BufferedWriter where
  "BufferedWriterInit = \<lparr>bw_Buffer = [], bw_File = []\<rparr>"

definition BufferedWriterFlush :: "BufferedWriter \<Rightarrow> BufferedWriter" where
  "BufferedWriterFlush w = w\<lparr>bw_File := bw_File w @ bw_Buffer w, bw_Buffer := []\<rparr>"

definition BufferedWriterAppend :: "BufferedWriter \<Rightarrow> char \<Rightarrow> BufferedWriter" where
  "BufferedWriterAppend w ch =
     (let w' = (if length (bw_Buffer w) = 8192 then BufferedWriterFlush w else w)
      in w'\<lparr>bw_Buffer := bw_Buffer w' @ [ch]\<rparr>)"

definition BufferedWriterAppendString :: "BufferedWriter \<Rightarrow> string \<Rightarrow> BufferedWriter" where
  "BufferedWriterAppendString w str = fold (\<lambda>ch w. BufferedWriterAppend w ch) (c_str str) w"

section \<open>Escaping\<close>

text \<open>
  The table of 256 characters indexed by \<open>(uint32_t) ch\<close>; 0 where a character is not escaped.
\<close>

definition escape_code :: "char \<Rightarrow> char" where
  "escape_code ch =
     (if ch = CHR 0x0A then CHR ''n''
      else if ch = CHR 0x0D then CHR ''r''
      else if ch = CHR 0x09 then CHR ''t''
      else if ch = CHR 0x0B then CHR ''v''
      else if ch = CHR 0x0C then CHR ''f''
      else if ch = CHR 0x5C then CHR 0x5C
      else if ch = CHR 0x22 then CHR 0x22
      else NUL)"

definition s_EscapeTable :: "u32 \<Rightarrow> char result" where
  "s_EscapeTable index =
     (if unat index < 256 then Inr (escape_code (char_of (unat index))) else Inl (Overrun ''s_EscapeTable''))"

fun escaped_loop :: "BufferedWriter \<Rightarrow> string \<Rightarrow> BufferedWriter result" where
  "escaped_loop w [] = Inr w"
| "escaped_loop w (ch # str) =
     (case s_EscapeTable (scast (of_char ch :: u8)) of
        Inl e \<Rightarrow> Inl e
      | Inr code \<Rightarrow>
          escaped_loop (if code \<noteq> NUL then BufferedWriterAppend (BufferedWriterAppend w (CHR 0x5C)) code
                        else BufferedWriterAppend w ch) str)"

definition WriteEscapedString :: "BufferedWriter \<Rightarrow> string \<Rightarrow> BufferedWriter result" where
  "WriteEscapedString w str =
     (case escaped_loop (BufferedWriterAppend w (CHR 0x22)) str of
        Inl e \<Rightarrow> Inl e
      | Inr w' \<Rightarrow> Inr (BufferedWriterAppend w' (CHR 0x22)))"

section \<open>The writer object\<close>

record LuaJsonWriter =
  jw_FirstElem :: bool
  jw_Writer :: BufferedWriter

definition LuaJsonWriterNew :: LuaJsonWriter where
  "LuaJsonWriterNew = \<lparr>jw_FirstElem = True, jw_Writer = BufferedWriterInit\<rparr>"

text \<open>The contents of the file after \<open>close\<close>.\<close>

definition LuaJsonGc :: "LuaJsonWriter \<Rightarrow> string" where
  "LuaJsonGc self = bw_File (BufferedWriterFlush (jw_Writer self))"

definition put_char :: "LuaJsonWriter \<Rightarrow> char \<Rightarrow> LuaJsonWriter" where
  "put_char self ch = self\<lparr>jw_Writer := BufferedWriterAppend (jw_Writer self) ch\<rparr>"

definition WriteComma :: "LuaJsonWriter \<Rightarrow> LuaJsonWriter" where
  "WriteComma self = (if jw_FirstElem self then self\<lparr>jw_FirstElem := False\<rparr> else put_char self (CHR '',''))"

definition WriteCommon :: "LuaJsonWriter \<Rightarrow> string option \<Rightarrow> LuaJsonWriter result" where
  "WriteCommon self0 nm =
     (let self = WriteComma self0
      in case nm of
           None \<Rightarrow> Inr self
         | Some str \<Rightarrow>
             (case WriteEscapedString (jw_Writer self) str of
                Inl e \<Rightarrow> Inl e
              | Inr w \<Rightarrow> Inr (put_char (self\<lparr>jw_Writer := w\<rparr>) (CHR '':''))))"

definition LuaJsonWriteNumber :: "LuaJsonWriter \<Rightarrow> string \<Rightarrow> string option \<Rightarrow> LuaJsonWriter result" where
  "LuaJsonWriteNumber self num nm =
     (case WriteCommon self nm of
        Inl e \<Rightarrow> Inl e
      | Inr self \<Rightarrow> Inr (self\<lparr>jw_Writer := BufferedWriterAppendString (jw_Writer self) num\<rparr>))"

definition LuaJsonWriteBool :: "LuaJsonWriter \<Rightarrow> bool \<Rightarrow> string option \<Rightarrow> LuaJsonWriter result" where
  "LuaJsonWriteBool self value nm =
     (case WriteCommon self nm of
        Inl e \<Rightarrow> Inl e
      | Inr self \<Rightarrow>
          Inr (self\<lparr>jw_Writer := BufferedWriterAppendString (jw_Writer self) (if value then ''true'' else ''false'')\<rparr>))"

definition LuaJsonWriteString :: "LuaJsonWriter \<Rightarrow> string \<Rightarrow> string option \<Rightarrow> LuaJsonWriter result" where
  "LuaJsonWriteString self value nm =
     (case WriteCommon self nm of
        Inl e \<Rightarrow> Inl e
      | Inr self \<Rightarrow>
          (case WriteEscapedString (jw_Writer self) value of
             Inl e \<Rightarrow> Inl e
           | Inr w \<Rightarrow> Inr (self\<lparr>jw_Writer := w\<rparr>)))"

definition LuaJsonBeginObject :: "LuaJsonWriter \<Rightarrow> string option \<Rightarrow> LuaJsonWriter result" where
  "LuaJsonBeginObject self nm =
     (case WriteCommon self nm of Inl e \<Rightarrow> Inl e | Inr self \<Rightarrow> Inr ((put_char self (CHR ''{''))\<lparr>jw_FirstElem := True\<rparr>))"

definition LuaJsonEndObject :: "LuaJsonWriter \<Rightarrow> LuaJsonWriter result" where
  "LuaJsonEndObject self = Inr ((put_char self (CHR ''}''))\<lparr>jw_FirstElem := False\<rparr>)"

definition LuaJsonBeginArray :: "LuaJsonWriter \<Rightarrow> string option \<Rightarrow> LuaJsonWriter result" where
  "LuaJsonBeginArray self nm =
     (case WriteCommon self nm of Inl e \<Rightarrow> Inl e | Inr self \<Rightarrow> Inr ((put_char self (CHR ''[''))\<lparr>jw_FirstElem := True\<rparr>))"

definition LuaJsonEndArray :: "LuaJsonWriter \<Rightarrow> LuaJsonWriter result" where
  "LuaJsonEndArray self = Inr ((put_char self (CHR '']''))\<lparr>jw_FirstElem := False\<rparr>)"

section \<open>Writing a value\<close>

text \<open>A call of a method, and the calls by which a script writes a value under a name.\<close>

datatype json_call =
    write_number string "string option"
  | write_bool bool "string option"
  | write_string string "string option"
  | begin_object "string option"
  | end_object
  | begin_array "string option"
  | end_array

fun json_method :: "json_call \<Rightarrow> LuaJsonWriter \<Rightarrow> LuaJsonWriter result" where
  "json_method (write_number num nm) self = LuaJsonWriteNumber self num nm"
| "json_method (write_bool b nm) self = LuaJsonWriteBool self b nm"
| "json_method (write_string s nm) self = LuaJsonWriteString self s nm"
| "json_method (begin_object nm) self = LuaJsonBeginObject self nm"
| "json_method end_object self = LuaJsonEndObject self"
| "json_method (begin_array nm) self = LuaJsonBeginArray self nm"
| "json_method end_array self = LuaJsonEndArray self"

fun json_calls :: "json_call list \<Rightarrow> LuaJsonWriter \<Rightarrow> LuaJsonWriter result" where
  "json_calls [] self = Inr self"
| "json_calls (c # cs) self = (case json_method c self of Inl e \<Rightarrow> Inl e | Inr self \<Rightarrow> json_calls cs self)"

fun calls_of :: "string option \<Rightarrow> JsonValue \<Rightarrow> json_call list" where
  "calls_of nm kNull = []"
| "calls_of nm (kBoolean b) = [write_bool b nm]"
| "calls_of nm (kNumber num) = [write_number num nm]"
| "calls_of nm (kString s) = [write_string s nm]"
| "calls_of nm (kArray vs) = begin_array nm # concat (map (calls_of None) vs) @ [end_array]"
| "calls_of nm (kObject kvs) = begin_object nm # concat (map (\<lambda>(k, v). calls_of (Some k) v) kvs) @ [end_object]"

definition write_json :: "JsonValue \<Rightarrow> string result" where
  "write_json v =
     (case json_calls (calls_of None v) LuaJsonWriterNew of Inl e \<Rightarrow> Inl e | Inr self \<Rightarrow> Inr (LuaJsonGc self))"

section \<open>What is written\<close>

definition contents :: "LuaJsonWriter \<Rightarrow> string" where
  "contents self = bw_File (jw_Writer self) @ bw_Buffer (jw_Writer self)"

definition bw_contents :: "BufferedWriter \<Rightarrow> string" where
  "bw_contents w = bw_File w @ bw_Buffer w"

lemma contents_bw: "contents self = bw_contents (jw_Writer self)"
  by (simp add: contents_def bw_contents_def)

lemma LuaJsonGc_contents: "LuaJsonGc self = contents self"
  by (simp add: LuaJsonGc_def BufferedWriterFlush_def contents_def)

lemma bw_append [simp]: "bw_contents (BufferedWriterAppend w ch) = bw_contents w @ [ch]"
  by (simp add: BufferedWriterAppend_def BufferedWriterFlush_def bw_contents_def Let_def)

lemma bw_append_string: "bw_contents (BufferedWriterAppendString w s) = bw_contents w @ c_str s"
proof -
  have "bw_contents (fold (\<lambda>ch w. BufferedWriterAppend w ch) cs w) = bw_contents w @ cs" for cs
    by (induction cs arbitrary: w) simp_all
  then show ?thesis by (simp add: BufferedWriterAppendString_def)
qed

text \<open>The buffer never holds more than its 8192 characters.\<close>

lemma buffer_bound: "length (bw_Buffer w) \<le> 8192 \<Longrightarrow> length (bw_Buffer (BufferedWriterAppend w ch)) \<le> 8192"
  by (simp add: BufferedWriterAppend_def BufferedWriterFlush_def Let_def)

definition ascii :: "string \<Rightarrow> bool" where
  "ascii s \<longleftrightarrow> (\<forall>c \<in> set s. (of_char c :: nat) < 128)"

definition esc :: "char \<Rightarrow> string" where
  "esc c = (if escape_code c \<noteq> NUL then [CHR 0x5C, escape_code c] else [c])"

definition estr :: "string \<Rightarrow> string" where
  "estr s = CHR 0x22 # concat (map esc s) @ [CHR 0x22]"

text \<open>\<open>(uint32_t) ch\<close> is the character code up to 127 and beyond the table above.\<close>

lemma index_of_byte: "if unat w < 128 then unat (scast w :: u32) = unat w else unat (scast w :: u32) \<ge> 256" for w :: u8
proof -
  have u: "0 \<le> uint w" "uint w < 256" using unsigned_less [of w] by simp_all
  have "bit (uint w) 7 \<longleftrightarrow> odd (uint w div 128)" by (simp add: bit_iff_odd)
  also have "\<dots> \<longleftrightarrow> 128 \<le> uint w" using u by presburger
  finally have b: "bit (uint w) 7 \<longleftrightarrow> 128 \<le> uint w" .
  have "sint w = signed_take_bit 7 (uint w)" by (simp add: sint_uint)
  also have "\<dots> = uint w - 256 * of_bool (128 \<le> uint w)"
    using u b by (simp add: signed_take_bit_eq_take_bit_minus take_bit_eq_mod)
  finally have s: "sint w = uint w - 256 * of_bool (128 \<le> uint w)" .
  have neg: "(k - 256) mod 4294967296 = k + 4294967040" if "0 \<le> k" "k < 256" for k :: int
  proof -
    have "(k - 256) mod 4294967296 = (k + 4294967040) mod 4294967296"
      using mod_add_self2 [of "k - 256" 4294967296] by (simp add: add.commute)
    also have "\<dots> = k + 4294967040" using that by (intro mod_pos_pos_trivial) auto
    finally show ?thesis .
  qed
  have "uint (scast w :: u32) = sint w mod 2 ^ 32"
    using uint_word_of_int [of "sint w", where 'a = 32] by simp
  then have eq: "uint (scast w :: u32) = (if 128 \<le> uint w then uint w - 256 + 2 ^ 32 else uint w)"
    using u neg [of "uint w"] unfolding s by auto
  have i: "int (unat (scast w :: u32)) = uint (scast w :: u32)" "int (unat w) = uint w" by simp_all
  show ?thesis
  proof (cases "128 \<le> uint w")
    case True
    then have "uint (scast w :: u32) \<ge> 256" using eq u by simp
    then have "\<not> unat w < 128" "256 \<le> unat (scast w :: u32)" using i True by linarith+
    then show ?thesis by simp
  next
    case False
    then have "uint (scast w :: u32) = uint w" using eq by simp
    then have "unat w < 128" "unat (scast w :: u32) = unat w" using i False by linarith+
    then show ?thesis by simp
  qed
qed

lemma escape_index:
  "s_EscapeTable (scast (of_char c :: u8)) =
    (if (of_char c :: nat) < 128 then Inr (escape_code c) else Inl (Overrun ''s_EscapeTable''))"
  using index_of_byte [of "of_char c"] by (auto simp: s_EscapeTable_def unat_of_char split: if_splits)

lemma escaped_loop_ok:
  "ascii s \<Longrightarrow> \<exists>w'. escaped_loop w s = Inr w' \<and> bw_contents w' = bw_contents w @ concat (map esc s)"
proof (induction s arbitrary: w)
  case (Cons c s)
  then have "(of_char c :: nat) < 128" "ascii s" by (auto simp: ascii_def)
  then show ?case
    using Cons.IH [of "BufferedWriterAppend (BufferedWriterAppend w (CHR 0x5C)) (escape_code c)"]
      Cons.IH [of "BufferedWriterAppend w c"]
    by (cases "escape_code c = NUL") (auto simp: escape_index esc_def)
qed simp

lemma WriteEscapedString_ok:
  "ascii s \<Longrightarrow> \<exists>w'. WriteEscapedString w s = Inr w' \<and> bw_contents w' = bw_contents w @ estr s"
  using escaped_loop_ok [of s "BufferedWriterAppend w (CHR 0x22)"]
  by (auto simp: WriteEscapedString_def estr_def)

lemma escaped_loop_overrun:
  "\<not> ascii s \<Longrightarrow> escaped_loop w s = Inl (Overrun ''s_EscapeTable'')"
proof (induction s arbitrary: w)
  case (Cons c s)
  then show ?case by (cases "(of_char c :: nat) < 128") (auto simp: escape_index ascii_def)
qed (simp add: ascii_def)

text \<open>The text of a value.\<close>

definition label :: "string option \<Rightarrow> string" where
  "label nm = (case nm of None \<Rightarrow> [] | Some n \<Rightarrow> estr n @ '':'')"

fun commas :: "bool \<Rightarrow> string list \<Rightarrow> string" where
  "commas first [] = []"
| "commas first (t # ts) = (if first then [] else '','') @ t @ commas False ts"

fun json_text :: "JsonValue \<Rightarrow> string" where
  "json_text kNull = []"
| "json_text (kBoolean b) = (if b then ''true'' else ''false'')"
| "json_text (kNumber num) = c_str num"
| "json_text (kString s) = estr s"
| "json_text (kArray vs) = ''['' @ commas True (map json_text vs) @ '']''"
| "json_text (kObject kvs) = ''{'' @ commas True (map (\<lambda>(k, v). estr k @ '':'' @ json_text v) kvs) @ ''}''"

text \<open>Values that the writer can write: without null, and with strings of 7 bit characters.\<close>

fun writable :: "JsonValue \<Rightarrow> bool" where
  "writable kNull = False"
| "writable (kBoolean b) = True"
| "writable (kNumber num) = True"
| "writable (kString s) = ascii s"
| "writable (kArray vs) = list_all writable vs"
| "writable (kObject kvs) = list_all (\<lambda>(k, v). ascii k \<and> writable v) kvs"

lemma put_char_simps [simp]: "contents (put_char self ch) = contents self @ [ch]" "jw_FirstElem (put_char self ch) = jw_FirstElem self"
  by (simp_all add: put_char_def contents_bw)

lemma contents_first [simp]: "contents (self\<lparr>jw_FirstElem := b\<rparr>) = contents self"
  by (simp add: contents_def)

lemma WriteCommon_ok:
  assumes "pred_option ascii nm"
  shows "\<exists>w. WriteCommon self nm = Inr w \<and> \<not> jw_FirstElem w \<and>
    contents w = contents self @ (if jw_FirstElem self then [] else '','') @ label nm"
proof (cases nm)
  case None
  then show ?thesis by (simp add: WriteCommon_def WriteComma_def label_def)
next
  case (Some n)
  let ?c = "WriteComma self"
  have c: "\<not> jw_FirstElem ?c" "contents ?c = contents self @ (if jw_FirstElem self then [] else '','')"
    by (simp_all add: WriteComma_def)
  obtain w where w: "WriteEscapedString (jw_Writer ?c) n = Inr w" "bw_contents w = bw_contents (jw_Writer ?c) @ estr n"
    using WriteEscapedString_ok assms Some by fastforce
  then have "contents (put_char (?c\<lparr>jw_Writer := w\<rparr>) (CHR '':'')) = contents ?c @ estr n @ '':''"
    by (simp add: contents_bw put_char_def)
  then show ?thesis using Some w(1) c by (auto simp: WriteCommon_def label_def Let_def)
qed

definition writes :: "json_call list \<Rightarrow> string \<Rightarrow> bool" where
  "writes cs t \<longleftrightarrow> (\<forall>self. \<exists>w. json_calls cs self = Inr w \<and> \<not> jw_FirstElem w \<and>
     contents w = contents self @ (if jw_FirstElem self then [] else '','') @ t)"

lemma json_calls_append:
  "json_calls (cs @ ds) self = (case json_calls cs self of Inl e \<Rightarrow> Inl e | Inr w \<Rightarrow> json_calls ds w)"
  by (induction cs arbitrary: self) (auto split: sum.splits)

lemma writes_many:
  assumes "\<And>x. x \<in> set xs \<Longrightarrow> writes (f x) (t x)"
  shows "\<exists>w. json_calls (concat (map f xs)) self = Inr w \<and> (jw_FirstElem w \<longrightarrow> jw_FirstElem self) \<and>
    contents w = contents self @ commas (jw_FirstElem self) (map t xs)"
  using assms
proof (induction xs arbitrary: self)
  case (Cons x xs)
  obtain w where w: "json_calls (f x) self = Inr w" "\<not> jw_FirstElem w"
      "contents w = contents self @ (if jw_FirstElem self then [] else '','') @ t x"
    using Cons.prems unfolding writes_def by (meson list.set_intros(1))
  then show ?case using Cons.IH [of w] Cons.prems by (auto simp: json_calls_append)
qed simp

lemma writes_block:
  assumes "\<And>self. json_method c self = (case WriteCommon self nm of Inl e \<Rightarrow> Inl e
      | Inr self \<Rightarrow> Inr ((put_char self left)\<lparr>jw_FirstElem := True\<rparr>))"
    and "\<And>self. json_method d self = Inr ((put_char self right)\<lparr>jw_FirstElem := False\<rparr>)"
    and "pred_option ascii nm" "\<And>x. x \<in> set xs \<Longrightarrow> writes (f x) (t x)"
  shows "writes (c # concat (map f xs) @ [d]) (label nm @ [left] @ commas True (map t xs) @ [right])"
  unfolding writes_def
proof
  fix self
  obtain w where w: "WriteCommon self nm = Inr w" "contents w = contents self @ (if jw_FirstElem self then [] else '','') @ label nm"
    using WriteCommon_ok [OF assms(3)] by blast
  let ?w = "(put_char w left)\<lparr>jw_FirstElem := True\<rparr>"
  obtain w2 where "json_calls (concat (map f xs)) ?w = Inr w2" "contents w2 = contents ?w @ commas True (map t xs)"
    using writes_many [where f = f and t = t and xs = xs and self = ?w, OF assms(4)] by auto
  then show "\<exists>w. json_calls (c # concat (map f xs) @ [d]) self = Inr w \<and> \<not> jw_FirstElem w \<and>
      contents w = contents self @ (if jw_FirstElem self then [] else '','') @ label nm @ [left] @ commas True (map t xs) @ [right]"
    using w by (simp add: assms(1,2) json_calls_append)
qed

lemma writes_leaf:
  assumes "\<And>self. json_method c self = (case WriteCommon self nm of Inl e \<Rightarrow> Inl e | Inr self \<Rightarrow> k self)"
    and "\<And>self. \<exists>w. k self = Inr w \<and> jw_FirstElem w = jw_FirstElem self \<and> contents w = contents self @ t"
    and "pred_option ascii nm"
  shows "writes [c] (label nm @ t)"
  unfolding writes_def
proof
  fix self
  obtain w where w: "WriteCommon self nm = Inr w" "\<not> jw_FirstElem w"
      "contents w = contents self @ (if jw_FirstElem self then [] else '','') @ label nm"
    using WriteCommon_ok [OF assms(3)] by blast
  obtain w2 where "k w = Inr w2" "jw_FirstElem w2 = jw_FirstElem w" "contents w2 = contents w @ t"
    using assms(2) by blast
  then show "\<exists>w. json_calls [c] self = Inr w \<and> \<not> jw_FirstElem w \<and>
      contents w = contents self @ (if jw_FirstElem self then [] else '','') @ label nm @ t"
    using w by (simp add: assms(1))
qed

lemma writes_value:
  "writable v \<Longrightarrow> pred_option ascii nm \<Longrightarrow> writes (calls_of nm v) (label nm @ json_text v)"
proof (induction v arbitrary: nm)
  case (kBoolean b)
  have "writes [write_bool b nm] (label nm @ (if b then ''true'' else ''false''))"
    by (rule writes_leaf [OF _ _ kBoolean.prems(2)]) (auto simp: LuaJsonWriteBool_def contents_bw bw_append_string)
  then show ?case by simp
next
  case (kNumber num)
  have "writes [write_number num nm] (label nm @ c_str num)"
    by (rule writes_leaf [OF _ _ kNumber.prems(2)]) (auto simp: LuaJsonWriteNumber_def contents_bw bw_append_string)
  then show ?case by simp
next
  case (kString s)
  let ?k = "\<lambda>self. case WriteEscapedString (jw_Writer self) s of Inl e \<Rightarrow> Inl e | Inr w \<Rightarrow> Inr (self\<lparr>jw_Writer := w\<rparr>)"
  have "\<exists>w. ?k self = Inr w \<and> jw_FirstElem w = jw_FirstElem self \<and> contents w = contents self @ estr s" for self
    using WriteEscapedString_ok [of s "jw_Writer self"] kString.prems(1) by (auto simp: contents_bw)
  from writes_leaf [OF _ this kString.prems(2), of "write_string s nm"] show ?case
    by (simp add: LuaJsonWriteString_def)
next
  case (kArray vs)
  have "writes (calls_of None v) (json_text v)" if "v \<in> set vs" for v
    using kArray.IH [OF that, of None] kArray.prems(1) that by (auto simp: list_all_iff label_def)
  then show ?case
    using writes_block [where c = "begin_array nm" and d = end_array and nm = nm and left = "CHR ''[''" and
        right = "CHR '']''" and xs = vs and f = "calls_of None" and t = json_text] kArray.prems(2)
    by (simp add: LuaJsonBeginArray_def LuaJsonEndArray_def)
next
  case (kObject kvs)
  have "writes (case p of (k, v) \<Rightarrow> calls_of (Some k) v) (case p of (k, v) \<Rightarrow> estr k @ '':'' @ json_text v)" if "p \<in> set kvs" for p
  proof (cases p)
    case (Pair k v)
    then show ?thesis
      using kObject.IH [OF that, of v "Some k"] kObject.prems(1) that by (auto simp: list_all_iff label_def)
  qed
  then show ?case
    using writes_block [where c = "begin_object nm" and d = end_object and nm = nm and left = "CHR ''{''" and
        right = "CHR ''}''" and xs = kvs and f = "\<lambda>(k, v). calls_of (Some k) v" and
        t = "\<lambda>(k, v). estr k @ '':'' @ json_text v"] kObject.prems(2)
    by (simp add: LuaJsonBeginObject_def LuaJsonEndObject_def)
qed simp

lemma write_json_text: "writable v \<Longrightarrow> write_json v = Inr (json_text v)"
  using writes_value [of v None] unfolding writes_def
  by (auto simp: write_json_def LuaJsonGc_contents label_def LuaJsonWriterNew_def contents_def BufferedWriterInit_def
      dest!: spec [of _ LuaJsonWriterNew])

end
