(* ===== verification/T2_JsonRoundtrip.thy ===== *)
theory T2_JsonRoundtrip
  imports T2_Json T2_JsonWriter
begin

text \<open>
  What the build scripts write with \<open>LuaJsonWriter\<close> is what \<open>JsonParse\<close> reads, for strings of 7 bit
  characters without NUL and vertical tab and for integer numbers; the two exceptions are faults of
  the pair.
\<close>

section \<open>Lexing what was written\<close>

definition lex_at :: "JsonLexerState \<Rightarrow> string \<Rightarrow> JsonLexerState" where
  "lex_at s cs = s\<lparr>jl_Cursor := cs, jl_Lexeme := LexInvalid\<rparr>"

definition lexes :: "string \<Rightarrow> JsonLexeme \<Rightarrow> string \<Rightarrow> bool" where
  "lexes cs l rest \<longleftrightarrow> (\<forall>s. JsonLexerFetchNext (lex_at s cs) = (l, lex_at s rest)) \<and> l \<noteq> LexInvalid"

text \<open>The rest of the text after a value.\<close>

definition delimited :: "string \<Rightarrow> bool" where
  "delimited rest \<longleftrightarrow> peek rest \<in> {NUL, CHR '','', CHR '']'', CHR ''}''}"

lemma cursor_at [simp]: "jl_Cursor (lex_at s cs) = cs"
  by (simp add: lex_at_def)

lemma SkipWhitespace_at: "\<not> isspace (peek cs) \<Longrightarrow> SkipWhitespace (lex_at s cs) = lex_at s cs"
  by (cases cs) (auto simp: SkipWhitespace_def lex_at_def isspace_def)

lemmas char_class = isspace_def isdigit_def isalnum_def isalpha_def

lemma lexes_punctuation:
  "lexes (CHR ''['' # r) LexBeginArray r" "lexes (CHR '']'' # r) LexEndArray r"
  "lexes (CHR ''{'' # r) LexBeginObject r" "lexes (CHR ''}'' # r) LexEndObject r"
  "lexes (CHR '','' # r) LexValueSeparator r" "lexes (CHR '':'' # r) LexNameSeparator r"
  by (simp_all add: lexes_def JsonLexerFetchNext_def SkipWhitespace_at char_class Let_def)
    (simp_all add: lex_at_def)

definition plain_string :: "string \<Rightarrow> bool" where
  "plain_string s \<longleftrightarrow> (\<forall>c \<in> set s. c \<noteq> NUL \<and> c \<noteq> CHR 0x0B)"

lemma string_loop_char:
  "c \<noteq> NUL \<Longrightarrow> c \<noteq> CHR 0x22 \<Longrightarrow> c \<noteq> CHR 0x5C \<Longrightarrow> string_loop (c # r) w = string_loop r (w @ [c])"
  by (simp add: string_loop.simps [of "c # r"])

lemma string_loop_escape:
  "simple_escape e = Some c \<Longrightarrow> string_loop (CHR 0x5C # e # r) w = string_loop r (w @ [c])"
  by (simp add: string_loop.simps [of "CHR 0x5C # e # r"] Let_def)

lemma string_loop_esc:
  "plain_string s \<Longrightarrow> string_loop (concat (map esc s) @ CHR 0x22 # rest) w = Inr (w @ s, rest)"
proof (induction s arbitrary: w)
  case Nil
  then show ?case by (simp add: string_loop.simps)
next
  case (Cons c s)
  then have c: "c \<noteq> NUL" "c \<noteq> CHR 0x0B" "plain_string s" by (auto simp: plain_string_def)
  show ?case
  proof (cases "escape_code c = NUL")
    case True
    then have "c \<noteq> CHR 0x22" "c \<noteq> CHR 0x5C" by (auto simp: escape_code_def)
    then show ?thesis using True c Cons.IH by (simp add: esc_def [of c] string_loop_char)
  next
    case False
    then have "simple_escape (escape_code c) = Some c"
      using c(2) by (auto simp: escape_code_def simple_escape_def split: if_splits)
    then show ?thesis using False c Cons.IH by (simp add: esc_def [of c] string_loop_escape)
  qed
qed

lemma lexes_string: "plain_string s \<Longrightarrow> lexes (estr s @ rest) (LexString s) rest"
  by (simp add: lexes_def JsonLexerFetchNext_def SkipWhitespace_at char_class estr_def Let_def GetStringLexeme_def)
    (simp add: lex_at_def string_loop_esc)

lemma takeWhile_delimited:
  "delimited rest \<Longrightarrow> list_all isalnum cs \<Longrightarrow> takeWhile isalnum (cs @ rest) = cs"
  by (cases rest) (auto simp: delimited_def char_class list_all_iff takeWhile_append)

lemma lexes_literal:
  assumes "delimited rest"
  shows "lexes (''true'' @ rest) (LexBoolean True) rest" "lexes (''false'' @ rest) (LexBoolean False) rest"
proof -
  have tw: "takeWhile isalnum (''true'' @ rest) = ''true''" "takeWhile isalnum (''false'' @ rest) = ''false''"
    by (rule takeWhile_delimited [OF assms]; simp add: char_class)+
  show "lexes (''true'' @ rest) (LexBoolean True) rest" "lexes (''false'' @ rest) (LexBoolean False) rest"
    using tw by (simp_all add: lexes_def JsonLexerFetchNext_def SkipWhitespace_at isspace_def isdigit_def Let_def GetLiteralLexeme_def)
      (simp_all add: lex_at_def)
qed

text \<open>Integers: an optional minus and digits.\<close>

definition integer_text :: "string \<Rightarrow> bool" where
  "integer_text num \<longleftrightarrow> (let ds = (if peek num = CHR ''-'' then tl num else num) in ds \<noteq> [] \<and> list_all isdigit ds)"

lemma isdigit_tolower: "isdigit c \<Longrightarrow> tolower c = c \<and> c \<noteq> CHR ''x'' \<and> c \<noteq> CHR ''-'' \<and> c \<noteq> CHR ''+'' \<and> \<not> isspace c"
  by (auto simp: isdigit_def tolower_def isspace_def Let_def)

lemma delimited_peek:
  "delimited rest \<Longrightarrow> \<not> isdigit (peek rest) \<and> peek rest \<noteq> CHR ''.'' \<and> tolower (peek rest) \<noteq> CHR ''e'' \<and> tolower (peek rest) \<noteq> CHR ''x''"
  by (auto simp: delimited_def isdigit_def tolower_def Let_def)

lemma unsigned_len_delimited:
  assumes "delimited rest" "list_all isdigit ds" "ds \<noteq> []"
  shows "unsigned_len (ds @ rest) = length ds"
proof -
  note rest = delimited_peek [OF assms(1)]
  obtain d es where ds: "ds = d # es" using assms(3) by (cases ds) auto
  have "tolower (peek (es @ rest)) \<noteq> CHR ''x''"
    using rest assms(2) isdigit_tolower ds by (cases es) auto
  then have hex: "tolower (peek (drop 1 (ds @ rest))) \<noteq> CHR ''x''" using ds by simp
  have "takeWhile isdigit (ds @ rest) = ds"
    using assms(2) rest by (cases rest) (auto simp: list_all_iff takeWhile_append)
  then have len: "digits_len isdigit (ds @ rest) = length ds"
    using rest assms(3) by (simp add: digits_len_def Let_def)
  have "exponent_len (CHR ''e'') rest = 0" using rest by (simp add: exponent_len_def)
  then show ?thesis using hex len assms(3) by (simp add: unsigned_len_def Let_def)
qed

lemma fetch_number:
  assumes "peek cs = CHR ''-'' \<or> isdigit (peek cs)"
  shows "JsonLexerFetchNext (lex_at s cs) = GetNumberLexeme (lex_at s cs)"
proof -
  have "\<not> isspace (peek cs)" using assms isdigit_tolower [of "peek cs"] by (auto simp: isspace_def)
  then have "SkipWhitespace (lex_at s cs) = lex_at s cs" by (rule SkipWhitespace_at)
  moreover have "jl_Cursor (lex_at s cs) = cs" by (simp add: lex_at_def)
  ultimately show ?thesis unfolding JsonLexerFetchNext_def Let_def using assms by simp
qed

lemma lexes_number:
  assumes "delimited rest" "integer_text num"
  shows "lexes (num @ rest) (LexNumber num) rest"
proof -
  define ds where "ds = (if peek num = CHR ''-'' then tl num else num)"
  have ds: "ds \<noteq> []" "list_all isdigit ds" using assms(2) by (simp_all add: integer_text_def ds_def Let_def)
  have u: "unsigned_len (ds @ rest) = length ds" by (rule unsigned_len_delimited [OF assms(1) ds(2,1)])
  have "(peek num = CHR ''-'' \<or> isdigit (peek num)) \<and> num \<noteq> [] \<and> strtod_len (num @ rest) = length num"
  proof (cases "peek num = CHR ''-''")
    case True
    then have "num = CHR ''-'' # ds" by (cases num) (auto simp: ds_def)
    then show ?thesis using u ds by (simp add: strtod_len_def sign_len_def Let_def)
  next
    case False
    then obtain d es where num: "num = d # es" "isdigit d" "ds = num" using ds by (cases num) (auto simp: ds_def)
    then show ?thesis using u ds isdigit_tolower [OF num(2)] by (simp add: strtod_len_def sign_len_def Let_def)
  qed
  then have n: "peek (num @ rest) = CHR ''-'' \<or> isdigit (peek (num @ rest))" "strtod_len (num @ rest) = length num" "num \<noteq> []"
    by (cases num; auto)+
  show ?thesis
    unfolding lexes_def fetch_number [OF n(1)] using n(2,3) by (simp add: GetNumberLexeme_def Let_def lex_at_def)
qed

section \<open>Parsing what was written\<close>

definition at :: "JsonState \<Rightarrow> string \<Rightarrow> JsonState" where
  "at st cs = st\<lparr>js_Lexer := lex_at (js_Lexer st) cs\<rparr>"

lemma at_lexer [simp]: "js_Lexer (at st cs) = lex_at (js_Lexer st) cs" "(at st cs)\<lparr>js_Lexer := lex_at (js_Lexer st) ds\<rparr> = at st ds"
  by (simp_all add: at_def)

lemma lex_at_simps [simp]: "jl_Lexeme (lex_at s cs) = LexInvalid" "(lex_at s cs)\<lparr>jl_Lexeme := LexInvalid\<rparr> = lex_at s cs"
  by (simp_all add: lex_at_def)

lemma peek_at: "lexes cs l rest \<Longrightarrow> JsonLexerPeek (lex_at s cs) = (l, (lex_at s rest)\<lparr>jl_Lexeme := l\<rparr>)"
  by (simp add: JsonLexerPeek_def lexes_def Let_def)

lemma next_at: "lexes cs l rest \<Longrightarrow> JsonLexerNext (lex_at s cs) = (l, lex_at s rest)"
  by (simp add: JsonLexerNext_def lexes_def)

lemma cached:
  "l \<noteq> LexInvalid \<Longrightarrow> JsonLexerNext ((lex_at s rest)\<lparr>jl_Lexeme := l\<rparr>) = (l, lex_at s rest)"
  "l \<noteq> LexInvalid \<Longrightarrow> JsonLexerSkip ((lex_at s rest)\<lparr>jl_Lexeme := l\<rparr>) = lex_at s rest"
  "l \<noteq> LexInvalid \<Longrightarrow> JsonLexerPeek ((lex_at s rest)\<lparr>jl_Lexeme := l\<rparr>) = (l, (lex_at s rest)\<lparr>jl_Lexeme := l\<rparr>)"
  by (simp_all add: JsonLexerNext_def JsonLexerSkip_def JsonLexerPeek_def Let_def)

lemma value_leaf:
  assumes "lexes cs l rest"
    and "(l, v) \<in> {(LexString s, kString s), (LexNumber n, kNumber n), (LexBoolean b, kBoolean b)}"
  shows "JsonParseValue (Suc fuel) (at st cs) = Some (at st rest, Some v)"
  using assms(2) peek_at [OF assms(1)] by (auto simp: leaf_def cached at_def)

lemma value_block:
  "lexes cs LexBeginArray rest \<Longrightarrow> JsonParseValue (Suc (Suc fuel)) (at st cs) = array_loop fuel (at st rest) []"
  "lexes cs LexBeginObject rest \<Longrightarrow> JsonParseValue (Suc (Suc fuel)) (at st cs) = object_loop fuel (at st rest) False False []"
  by (simp_all add: peek_at JsonLexerExpect_def cached at_def)

abbreviation eventual :: "(nat \<Rightarrow> bool) \<Rightarrow> bool" where
  "eventual P \<equiv> eventually P sequentially"

abbreviation reads :: "JsonState \<Rightarrow> string \<Rightarrow> JsonValue \<Rightarrow> string \<Rightarrow> bool" where
  "reads st cs v rest \<equiv> eventual (\<lambda>n. JsonParseValue n (at st cs) = Some (at st rest, Some v))"

lemma eventual_Suc: "eventual (\<lambda>n. P (Suc n)) \<Longrightarrow> eventual P"
  by (simp add: eventually_sequentially_Suc)

lemma reads_leaf:
  assumes "lexes cs l rest"
    and "(l, v) \<in> {(LexString s, kString s), (LexNumber n, kNumber n), (LexBoolean b, kBoolean b)}"
  shows "reads st cs v rest"
  by (rule eventual_Suc) (simp only: value_leaf [OF assms] eventually_True simp_thms)

lemma reads_block:
  "lexes cs LexBeginArray rest \<Longrightarrow> eventual (\<lambda>n. array_loop n (at st rest) [] = Some (at st rest', Some v)) \<Longrightarrow>
     reads st cs v rest'"
  "lexes cs LexBeginObject rest \<Longrightarrow> eventual (\<lambda>n. object_loop n (at st rest) False False [] = Some (at st rest', Some v)) \<Longrightarrow>
     reads st cs v rest'"
  by (rule eventual_Suc, rule eventual_Suc, simp only: value_block)+

lemma array_loop_end: "eventual (\<lambda>n. array_loop n (at st (CHR '']'' # rest)) vs = Some (at st rest, Some (kArray vs)))"
  by (rule eventual_Suc) (simp add: peek_at [OF lexes_punctuation(2)] cached)

lemma array_loop_comma:
  assumes "vs \<noteq> []" "reads st r v r'" "eventual (\<lambda>n. array_loop n (at st r') (vs @ [v]) = res)"
  shows "eventual (\<lambda>n. array_loop n (at st (CHR '','' # r)) vs = res)"
  using eventually_conj [OF assms(2,3)]
  by (rule eventual_Suc [OF eventually_mono])
    (simp add: peek_at [OF lexes_punctuation(5)] cached assms(1))

text \<open>The first value of an array is read with its first lexeme already looked at.\<close>

lemma value_cached:
  assumes "lexes cs l rest"
  shows "JsonParseValue n ((at st cs)\<lparr>js_Lexer := (lex_at (js_Lexer st) rest)\<lparr>jl_Lexeme := l\<rparr>\<rparr>) = JsonParseValue n (at st cs)"
proof (cases n)
  case (Suc m)
  have "l \<noteq> LexInvalid" using assms by (simp add: lexes_def)
  then show ?thesis using peek_at [OF assms, of "js_Lexer st"] by (simp add: Suc cached at_def)
qed simp

lemma array_loop_first:
  assumes "lexes r l r0" "l \<noteq> LexEndArray" "reads st r v r'" "eventual (\<lambda>n. array_loop n (at st r') [v] = res)"
  shows "eventual (\<lambda>n. array_loop n (at st r) [] = res)"
  using eventually_conj [OF assms(3,4)]
  by (rule eventual_Suc [OF eventually_mono])
    (simp add: peek_at [OF assms(1)] value_cached [OF assms(1)] assms(2))

lemma object_loop_end: "eventual (\<lambda>n. object_loop n (at st (CHR ''}'' # rest)) sv sc kvs = Some (at st rest, Some (kObject kvs)))"
  by (rule eventual_Suc) (simp add: next_at [OF lexes_punctuation(4)])

lemma object_loop_pair:
  assumes "plain_string k" "reads st r v r'" "eventual (\<lambda>n. object_loop n (at st r') True False (kvs @ [(k, v)]) = res)"
  shows "eventual (\<lambda>n. object_loop n (at st (estr k @ CHR '':'' # r)) False sc kvs = res)"
  using eventually_conj [OF assms(2,3)]
  by (rule eventual_Suc [OF eventually_mono])
    (simp add: next_at [OF lexes_string [OF assms(1)]] JsonLexerExpect_def next_at [OF lexes_punctuation(6)])

lemma object_loop_comma:
  assumes "eventual (\<lambda>n. object_loop n (at st r) False True kvs = res)"
  shows "eventual (\<lambda>n. object_loop n (at st (CHR '','' # r)) True False kvs = res)"
  using assms
  by (rule eventual_Suc [OF eventually_mono]) (simp add: next_at [OF lexes_punctuation(5)])

fun readable :: "JsonValue \<Rightarrow> bool" where
  "readable kNull = False"
| "readable (kBoolean b) = True"
| "readable (kNumber num) = integer_text num"
| "readable (kString s) = (plain_string s \<and> ascii s)"
| "readable (kArray vs) = list_all readable vs"
| "readable (kObject kvs) = list_all (\<lambda>(k, v). plain_string k \<and> ascii k \<and> readable v) kvs"

lemma readable_writable: "readable v \<Longrightarrow> writable v"
  by (induction v rule: readable.induct) (auto simp: list_all_iff)

lemma integer_text_c_str: "integer_text num \<Longrightarrow> c_str num = num"
proof (rule c_str_id)
  assume "integer_text num"
  then have "list_all isdigit (if peek num = CHR ''-'' then tl num else num)" by (simp add: integer_text_def Let_def)
  then show "NUL \<notin> set num" by (cases num) (auto simp: list_all_iff split: if_splits)
qed

lemma first_lexeme:
  assumes "readable v" "delimited rest"
  shows "\<exists>l r. lexes (json_text v @ rest) l r \<and> l \<noteq> LexEndArray"
proof (cases v)
  case (kNumber num)
  then show ?thesis using assms lexes_number [of rest num] by (auto simp: integer_text_c_str)
next
  case (kBoolean b)
  then show ?thesis using lexes_literal [OF assms(2)] by (cases b) auto
next
  case (kString s)
  then show ?thesis using assms(1) lexes_string [of s rest] by auto
next
  case (kArray vs)
  then show ?thesis using lexes_punctuation(1) [of "commas True (map json_text vs) @ '']'' @ rest"] by auto
next
  case (kObject kvs)
  then show ?thesis
    using lexes_punctuation(3) [of "commas True (map (\<lambda>(k, v). estr k @ '':'' @ json_text v) kvs) @ ''}'' @ rest"] by auto
qed (use assms in simp)

lemma array_tail:
  assumes "\<And>v rest. v \<in> set vs \<Longrightarrow> delimited rest \<Longrightarrow> reads st (json_text v @ rest) v rest" "ws \<noteq> []"
  shows "eventual (\<lambda>n. array_loop n (at st (commas False (map json_text vs) @ CHR '']'' # rest)) ws =
    Some (at st rest, Some (kArray (ws @ vs))))"
  using assms
proof (induction vs arbitrary: ws)
  case Nil
  then show ?case using array_loop_end by simp
next
  case (Cons v vs)
  let ?r = "commas False (map json_text vs) @ CHR '']'' # rest"
  have "delimited ?r" by (cases vs) (auto simp: delimited_def)
  then have "reads st (json_text v @ ?r) v ?r" using Cons.prems(1) by simp
  moreover have "eventual (\<lambda>n. array_loop n (at st ?r) (ws @ [v]) = Some (at st rest, Some (kArray (ws @ v # vs))))"
    using Cons.IH [of "ws @ [v]"] Cons.prems(1) by simp
  ultimately show ?case using array_loop_comma [OF Cons.prems(2)] by simp
qed

lemma object_tail:
  assumes "\<And>k v rest. (k, v) \<in> set kvs \<Longrightarrow> plain_string k \<and> (delimited rest \<longrightarrow> reads st (json_text v @ rest) v rest)"
  defines "t \<equiv> \<lambda>(k, v). estr k @ '':'' @ json_text v"
  shows "eventual (\<lambda>n. object_loop n (at st (commas False (map t kvs) @ CHR ''}'' # rest)) True False ws =
    Some (at st rest, Some (kObject (ws @ kvs))))"
  using assms(1)
proof (induction kvs arbitrary: ws)
  case Nil
  then show ?case using object_loop_end by simp
next
  case (Cons p kvs)
  obtain k v where p: "p = (k, v)" by fastforce
  let ?r = "commas False (map t kvs) @ CHR ''}'' # rest"
  have "delimited ?r" by (cases kvs) (auto simp: delimited_def)
  then have kv: "plain_string k" "reads st (json_text v @ ?r) v ?r" using Cons.prems p by auto
  have "eventual (\<lambda>n. object_loop n (at st ?r) True False (ws @ [(k, v)]) = Some (at st rest, Some (kObject (ws @ p # kvs))))"
    using Cons.IH [of "ws @ [(k, v)]"] Cons.prems p by (metis append.assoc append_Cons append_Nil list.set_intros(2))
  from object_loop_comma [OF object_loop_pair [OF kv this]] show ?case by (simp add: p t_def)
qed

lemma reads_text: "readable v \<Longrightarrow> delimited rest \<Longrightarrow> reads st (json_text v @ rest) v rest"
proof (induction v arbitrary: rest)
  case (kNumber num)
  then have "lexes (json_text (kNumber num) @ rest) (LexNumber num) rest"
    by (simp add: integer_text_c_str lexes_number)
  then show ?case by (rule reads_leaf) simp
next
  case (kBoolean b)
  have "lexes (json_text (kBoolean b) @ rest) (LexBoolean b) rest"
    using lexes_literal [OF kBoolean.prems(2)] by (cases b) simp_all
  then show ?case by (rule reads_leaf) simp
next
  case (kString s)
  then have "lexes (json_text (kString s) @ rest) (LexString s) rest"
    by (simp add: lexes_string)
  then show ?case by (rule reads_leaf) simp
next
  case (kArray vs)
  have ih: "v \<in> set vs \<Longrightarrow> delimited r \<Longrightarrow> reads st (json_text v @ r) v r" for v r
    using kArray.IH kArray.prems(1) by (simp add: list_all_iff)
  have "eventual (\<lambda>n. array_loop n (at st (commas True (map json_text vs) @ CHR '']'' # rest)) [] =
      Some (at st rest, Some (kArray vs)))"
  proof (cases vs)
    case Nil
    then show ?thesis using array_loop_end by simp
  next
    case (Cons v us)
    let ?r = "commas False (map json_text us) @ CHR '']'' # rest"
    have d: "delimited ?r" by (cases us) (auto simp: delimited_def)
    obtain l r0 where "lexes (json_text v @ ?r) l r0" "l \<noteq> LexEndArray"
      using first_lexeme [OF _ d, of v] kArray.prems(1) Cons by auto
    moreover have "reads st (json_text v @ ?r) v ?r" using ih d Cons by simp
    moreover have "eventual (\<lambda>n. array_loop n (at st ?r) [v] = Some (at st rest, Some (kArray ([v] @ us))))"
      by (rule array_tail) (use ih Cons in auto)
    ultimately show ?thesis using array_loop_first Cons by simp
  qed
  then show ?case using reads_block(1) [OF lexes_punctuation(1)] by simp
next
  case (kObject kvs)
  let ?t = "\<lambda>(k, v). estr k @ '':'' @ json_text v"
  have ih: "plain_string k \<and> (delimited r \<longrightarrow> reads st (json_text v @ r) v r)" if "(k, v) \<in> set kvs" for k v r
    using kObject.IH [OF that, of v] kObject.prems(1) that by (auto simp: list_all_iff)
  have "eventual (\<lambda>n. object_loop n (at st (commas True (map ?t kvs) @ CHR ''}'' # rest)) False False [] =
      Some (at st rest, Some (kObject kvs)))"
  proof (cases kvs)
    case Nil
    then show ?thesis using object_loop_end by simp
  next
    case (Cons p us)
    obtain k v where p: "p = (k, v)" by fastforce
    let ?r = "commas False (map ?t us) @ CHR ''}'' # rest"
    have "delimited ?r" by (cases us) (auto simp: delimited_def)
    then have kv: "plain_string k" "reads st (json_text v @ ?r) v ?r" using ih Cons p by auto
    have "eventual (\<lambda>n. object_loop n (at st ?r) True False ([] @ [(k, v)]) = Some (at st rest, Some (kObject ([(k, v)] @ us))))"
      unfolding append_Nil by (rule object_tail) (use ih Cons in auto)
    from object_loop_pair [OF kv this] show ?thesis using Cons p by simp
  qed
  then show ?case using reads_block(2) [OF lexes_punctuation(3)] by simp
qed simp

section \<open>Properties\<close>

text \<open>
  C24: What the scripts write is what the parser reads: for every value without null whose strings
  are 7 bit characters without NUL and vertical tab and whose numbers are integers, writing
  succeeds and \<open>JsonParse\<close> of the file gives the value back, without an error message.
\<close>

theorem write_parse_roundtrip:
  assumes "readable v"
  shows "\<exists>file. write_json v = Inr file \<and> (\<forall>fuel \<ge> 3 * length file + 2. JsonParse fuel file = Some (Some v, None))"
proof -
  let ?file = "json_text v"
  have init: "at (JsonStateInit ?file) ?file = JsonStateInit ?file"
    by (simp add: at_def lex_at_def JsonStateInit_def JsonLexerStateInit_def)
  have "delimited []" by (simp add: delimited_def)
  from reads_text [OF assms this, of "JsonStateInit ?file"]
  obtain n where "\<forall>m \<ge> n. JsonParseValue m (JsonStateInit ?file) = Some (at (JsonStateInit ?file) [], Some v)"
    by (auto simp: eventually_sequentially init)
  moreover have "lexes [] LexEof []"
    by (simp add: lexes_def JsonLexerFetchNext_def SkipWhitespace_at char_class Let_def)
  ultimately have n: "\<forall>m \<ge> n. JsonParse m ?file = Some (Some v, None)"
    by (simp add: JsonParse_def JsonLexerExpect_def next_at)
  obtain w e where we: "\<forall>fuel \<ge> 3 * length ?file + 2. JsonParse fuel ?file = Some (w, e)"
    using JsonParse_returns [of ?file] by blast
  have "JsonParse (max n (3 * length ?file + 2)) ?file = Some (Some v, None)" using n by simp
  moreover have "JsonParse (max n (3 * length ?file + 2)) ?file = Some (w, e)" using we by simp
  ultimately show ?thesis using we write_json_text [OF readable_writable [OF assms]] by auto
qed

definition ex_value :: JsonValue where
  "ex_value = kObject [(''Nodes'', kArray [kNumber ''-12'', kString ''a b'', kBoolean True, kArray []]), (''x'', kObject [])]"

theorem write_parse_roundtrip_witness:
  "\<exists>file. write_json ex_value = Inr file \<and> (\<forall>fuel \<ge> 3 * length file + 2. JsonParse fuel file = Some (Some ex_value, None))"
  by (rule write_parse_roundtrip)
    (simp add: ex_value_def integer_text_def plain_string_def ascii_def isdigit_def)

lemma string_loop_vertical_tab:
  "CHR 0x0B \<in> set s \<Longrightarrow> NUL \<notin> set s \<Longrightarrow> string_loop (concat (map esc s) @ rest) w = Inl ''unsupported escape code''"
proof (induction s arbitrary: w)
  case (Cons c s)
  show ?case
  proof (cases "c = CHR 0x0B")
    case True
    then show ?thesis by (simp add: esc_def escape_code_def string_loop.simps simple_escape_def Let_def)
  next
    case False
    then have ih: "string_loop (concat (map esc s) @ rest) w = Inl ''unsupported escape code''" for w
      using Cons by auto
    show ?thesis
    proof (cases "escape_code c = NUL")
      case True
      then have "c \<noteq> CHR 0x22" "c \<noteq> CHR 0x5C" "c \<noteq> NUL" using Cons.prems(2) by (auto simp: escape_code_def)
      then show ?thesis using True ih by (simp add: esc_def [of c] string_loop_char)
    next
      case escaped: False
      then have "simple_escape (escape_code c) = Some c"
        using False by (auto simp: escape_code_def simple_escape_def split: if_splits)
      then show ?thesis using escaped ih by (simp add: esc_def [of c] string_loop_escape)
    qed
  qed
qed simp

text \<open>
  C26: A string with a vertical tab is written with an escape that the parser does not know: the
  file that comes out is rejected.
\<close>

theorem vertical_tab_rejected:
  assumes "ascii s" "CHR 0x0B \<in> set s" "NUL \<notin> set s"
  shows "\<exists>file. write_json (kString s) = Inr file \<and>
    (\<forall>fuel > 0. JsonParse fuel file = Some (None, Some (1, ''invalid document'')))"
proof -
  let ?st = "JsonStateInit (estr s)"
  have lexer: "js_Lexer ?st = lex_at (js_Lexer ?st) (estr s)" "jl_LineNumber (js_Lexer ?st) = 1"
    by (simp_all add: lex_at_def JsonStateInit_def JsonLexerStateInit_def)
  have "fst (JsonLexerPeek (js_Lexer ?st)) = LexError \<and> jl_LineNumber (snd (JsonLexerPeek (js_Lexer ?st))) = 1"
    using string_loop_vertical_tab [OF assms(2,3), of "[CHR 0x22]" "[]"] lexer(2)
    by (subst (1 2) lexer(1))
      (simp add: JsonLexerPeek_def JsonLexerFetchNext_def SkipWhitespace_at char_class estr_def Let_def
        GetStringLexeme_def JsonLexerError_def, simp add: lex_at_def estr_def)
  then have "JsonParse (Suc n) (estr s) = Some (None, Some (1, ''invalid document''))" for n
    by (simp add: JsonParse_def split_beta Let_def JsonError_def)
  then show ?thesis
    using write_json_text [of "kString s"] assms(1) by (metis gr0_conv_Suc json_text.simps(4) writable.simps(4))
qed

theorem vertical_tab_rejected_witness:
  "\<exists>file. write_json (kString [CHR 0x0B]) = Inr file \<and>
    (\<forall>fuel > 0. JsonParse fuel file = Some (None, Some (1, ''invalid document'')))"
  by (rule vertical_tab_rejected) (simp_all add: ascii_def)

text \<open>
  C27: Writing a string with a character above 127 (any name in UTF-8 that is not ASCII) reads
  outside the table of escapes, because the character is sign-extended before it is used as an
  index.
\<close>

theorem non_ascii_overruns:
  assumes "\<not> ascii s"
  shows "write_json (kString s) = Inl (Overrun ''s_EscapeTable'')"
  by (simp add: write_json_def LuaJsonWriteString_def WriteCommon_def WriteEscapedString_def escaped_loop_overrun [OF assms] Let_def)

theorem non_ascii_overruns_witness:
  "write_json (kString [CHR ''n'', CHR 0xC3, CHR 0xA9]) = Inl (Overrun ''s_EscapeTable'')"
  by (rule non_ascii_overruns) (simp add: ascii_def)

end
