(* ===== verification/T2_IncludeScanner.thy ===== *)
theory T2_IncludeScanner
  imports T2_DagData T2_Ctype
begin

text \<open>
  Model of \<open>src/IncludeScanner.cpp\<close> and \<open>src/IncludeScanner.hpp\<close>: finding the files that a source
  file includes, line by line, for C and C++ and for the configurable scanner. A pointer into the
  buffer is the rest of the buffer; cutting a line off by writing a terminator leaves its
  characters as the line. The lemmas show that a buffer is scanned line by line, that an include
  directive is found whatever white space it has, and that nothing else is.
\<close>

section \<open>Data\<close>

record IncludeData =
  inc_String :: string
  inc_StringLen :: nat
  inc_IsSystemInclude :: bool
  inc_ShouldFollow :: bool

definition skip_space :: "string \<Rightarrow> string" where
  "skip_space start = dropWhile isspace start"

text \<open>
  The characters before the closing separator and the rest from it on; \<open>None\<close> at the end of the
  line.
\<close>

fun until_separator :: "char \<Rightarrow> string \<Rightarrow> (string \<times> string) option" where
  "until_separator closing [] = None"
| "until_separator closing (ch # start) =
     (if ch = closing then Some ([], ch # start)
      else if ch = NUL then None
      else case until_separator closing start of None \<Rightarrow> None | Some (s, rest) \<Rightarrow> Some (ch # s, rest))"

section \<open>C and C++\<close>

definition ScanCppLine :: "string \<Rightarrow> IncludeData option" where
  "ScanCppLine start0 =
     (let start1 = skip_space start0
      in if peek start1 \<noteq> CHR ''#'' then None
         else let start2 = skip_space (tl start1)
              in if take 7 start2 \<noteq> ''include'' then None
                 else let start3 = drop 7 start2
                      in if \<not> isspace (peek start3) then None
                         else let start4 = skip_space (tl start3)
                              in case (if peek start4 = CHR ''<'' then Some (CHR ''>'')
                                       else if peek start4 = CHR 0x22 then Some (CHR 0x22) else None) of
                                   None \<Rightarrow> None
                                 | Some closing_separator \<Rightarrow>
                                     (case until_separator closing_separator (tl start4) of
                                        None \<Rightarrow> None
                                      | Some (str, _) \<Rightarrow>
                                          Some \<lparr>inc_String = str, inc_StringLen = length str,
                                            inc_IsSystemInclude = (closing_separator = CHR ''>''),
                                            inc_ShouldFollow = True\<rparr>))"

text \<open>The line that starts at \<open>p\<close> and the start of the next one.\<close>

definition GetNextLine :: "string \<Rightarrow> string \<times> string option" where
  "GetNextLine p =
     (let p = c_str p
      in if CHR 0x0A \<in> set p
         then (takeWhile (\<lambda>c. c \<noteq> CHR 0x0A) p, Some (tl (dropWhile (\<lambda>c. c \<noteq> CHR 0x0A) p)))
         else (p, None))"

lemma GetNextLine_shorter: "GetNextLine p = (line, Some q) \<Longrightarrow> length q < length p"
proof -
  assume a: "GetNextLine p = (line, Some q)"
  then have q: "q = tl (dropWhile (\<lambda>c. c \<noteq> CHR 0x0A) (c_str p))" "CHR 0x0A \<in> set (c_str p)"
    by (auto simp: GetNextLine_def Let_def split: if_splits)
  then have "dropWhile (\<lambda>c. c \<noteq> CHR 0x0A) (c_str p) \<noteq> []" by auto
  then have "length q < length (dropWhile (\<lambda>c. c \<noteq> CHR 0x0A) (c_str p))" unfolding q(1) by simp
  also have "\<dots> \<le> length (c_str p)" by (rule length_dropWhile_le)
  also have "\<dots> \<le> length p" unfolding c_str_def by (rule length_takeWhile_le)
  finally show ?thesis .
qed

text \<open>The loop over the lines, the same for both scanners; the list is built in order.\<close>

function scan_loop :: "(string \<Rightarrow> IncludeData option) \<Rightarrow> string option \<Rightarrow> IncludeData list \<Rightarrow> IncludeData list" where
  "scan_loop scan_line None found = found"
| "scan_loop scan_line (Some linep) found =
     (let (line, linep') = GetNextLine linep
      in scan_loop scan_line linep' (case scan_line line of None \<Rightarrow> found | Some d \<Rightarrow> found @ [d]))"
  by pat_completeness auto
termination
  by (relation "measure (\<lambda>(_, linep, _). case linep of None \<Rightarrow> 0 | Some p \<Rightarrow> Suc (length p))")
    (auto split: option.split dest!: GetNextLine_shorter [OF sym])

definition ScanIncludesCpp :: "string \<Rightarrow> IncludeData list" where
  "ScanIncludesCpp buffer = scan_loop ScanCppLine (Some buffer) []"

section \<open>The configurable scanner\<close>

definition has_flag :: "ScannerData \<Rightarrow> u32 \<Rightarrow> bool" where
  "has_flag config flag \<longleftrightarrow> sc_Flags config AND flag \<noteq> 0"

definition find_keyword :: "ScannerData \<Rightarrow> string \<Rightarrow> KeywordData option" where
  "find_keyword config start =
     find (\<lambda>kw. take (kw_StringLength kw) (c_str (kw_String kw)) = take (kw_StringLength kw) (c_str start)) (sc_Keywords config)"

definition include_data :: "KeywordData \<Rightarrow> string \<Rightarrow> bool \<Rightarrow> IncludeData" where
  "include_data keyword str sys =
     (let len = length str mod 65536
      in \<lparr>inc_String = take len str, inc_StringLen = len, inc_IsSystemInclude = sys,
          inc_ShouldFollow = kw_ShouldFollow keyword\<rparr>)"

definition ScanLineGeneric :: "string \<Rightarrow> ScannerData \<Rightarrow> IncludeData option" where
  "ScanLineGeneric start_in config =
     (let start1 = skip_space start_in
      in if has_flag config kFlagRequireWhitespace \<and> start1 = start_in then None
         else case find_keyword config start1 of
           None \<Rightarrow> None
         | Some keyword \<Rightarrow>
             (let start2 = drop (kw_StringLength keyword) start1
              in if \<not> isspace (peek start2) then None
                 else let start3 = skip_space (tl start2)
                      in if has_flag config kFlagUseSeparators then
                           (case (if peek start3 = CHR ''<'' then Some (CHR ''>'')
                                  else if peek start3 = CHR ''>'' then Some (CHR ''<'')
                                  else if peek start3 = CHR 0x22 then Some (CHR 0x22) else None) of
                              None \<Rightarrow> None
                            | Some closing_separator \<Rightarrow>
                                (case until_separator closing_separator (tl start3) of
                                   None \<Rightarrow> None
                                 | Some (str, _) \<Rightarrow> Some (include_data keyword str (closing_separator = CHR ''>''))))
                         else let str = takeWhile (\<lambda>c. c \<noteq> NUL \<and> \<not> isspace c) start3
                              in if str = [] then None
                                 else Some (include_data keyword str (has_flag config kFlagBareMeansSystem))))"

definition ScanIncludesGeneric :: "string \<Rightarrow> ScannerData \<Rightarrow> IncludeData list" where
  "ScanIncludesGeneric buffer config = scan_loop (\<lambda>line. ScanLineGeneric line config) (Some buffer) []"

section \<open>Lines\<close>

text \<open>The lines of a buffer up to its terminator.\<close>

fun split_lines :: "string \<Rightarrow> string list" where
  "split_lines [] = [[]]"
| "split_lines (c # cs) =
     (if c = CHR 0x0A then [] # split_lines cs
      else (c # hd (split_lines cs)) # tl (split_lines cs))"

lemma split_lines_ne [simp]: "split_lines cs \<noteq> []"
  by (induction cs) auto

lemma split_lines_prefix:
  "CHR 0x0A \<notin> set xs \<Longrightarrow> split_lines (xs @ CHR 0x0A # ys) = xs # split_lines ys"
  by (induction xs) auto

lemma split_lines_last: "CHR 0x0A \<notin> set xs \<Longrightarrow> split_lines xs = [xs]"
  by (induction xs) auto

lemma split_newline:
  assumes "CHR 0x0A \<in> set p"
  shows "p = takeWhile (\<lambda>c. c \<noteq> CHR 0x0A) p @ CHR 0x0A # tl (dropWhile (\<lambda>c. c \<noteq> CHR 0x0A) p)"
proof -
  have "dropWhile (\<lambda>c. c \<noteq> CHR 0x0A) p \<noteq> []" using assms by (simp add: dropWhile_eq_Nil_conv)
  moreover from this have "hd (dropWhile (\<lambda>c. c \<noteq> CHR 0x0A) p) = CHR 0x0A"
    using hd_dropWhile by blast
  ultimately have "dropWhile (\<lambda>c. c \<noteq> CHR 0x0A) p = CHR 0x0A # tl (dropWhile (\<lambda>c. c \<noteq> CHR 0x0A) p)"
    by (metis list.collapse)
  then show ?thesis by (metis takeWhile_dropWhile_id)
qed

lemma GetNextLine_split:
  assumes "GetNextLine p = (line, nxt)"
  shows "split_lines (c_str p) = line # (case nxt of None \<Rightarrow> [] | Some q \<Rightarrow> split_lines (c_str q))"
proof (cases "CHR 0x0A \<in> set (c_str p)")
  case True
  define xs where "xs = takeWhile (\<lambda>c. c \<noteq> CHR 0x0A) (c_str p)"
  define q where "q = tl (dropWhile (\<lambda>c. c \<noteq> CHR 0x0A) (c_str p))"
  have p: "c_str p = xs @ CHR 0x0A # q" unfolding xs_def q_def by (rule split_newline [OF True])
  have "CHR 0x0A \<notin> set xs" unfolding xs_def by (auto dest: set_takeWhileD)
  moreover have "NUL \<notin> set q" using p c_str_no_nul [of p] by (metis Un_iff list.set_intros(2) set_append)
  moreover have "line = xs" "nxt = Some q" using assms True by (auto simp: GetNextLine_def xs_def q_def Let_def)
  ultimately show ?thesis using p by (simp add: split_lines_prefix)
next
  case False
  then show ?thesis using assms by (auto simp: GetNextLine_def split_lines_last Let_def)
qed

lemma scan_loop_lines:
  "scan_loop f (Some p) found = found @ List.map_filter f (split_lines (c_str p))"
proof (induction "length p" arbitrary: p found rule: less_induct)
  case less
  obtain line nxt where g: "GetNextLine p = (line, nxt)" by fastforce
  then show ?case
    using less GetNextLine_split [OF g] GetNextLine_shorter [of p line]
    by (cases nxt) (auto simp: map_filter_simps split: option.splits)
qed

section \<open>Include directives\<close>

text \<open>The lines that include a file, and what they include.\<close>

inductive directive :: "string \<Rightarrow> IncludeData \<Rightarrow> bool" where
  "list_all isspace w1 \<Longrightarrow> list_all isspace w2 \<Longrightarrow> isspace s \<Longrightarrow> list_all isspace w3 \<Longrightarrow>
   (left, right) \<in> {(CHR ''<'', CHR ''>''), (CHR 0x22, CHR 0x22)} \<Longrightarrow> right \<notin> set fname \<Longrightarrow> NUL \<notin> set fname \<Longrightarrow>
   directive (w1 @ ''#'' @ w2 @ ''include'' @ [s] @ w3 @ [left] @ fname @ [right] @ rest)
     \<lparr>inc_String = fname, inc_StringLen = length fname, inc_IsSystemInclude = (right = CHR ''>''), inc_ShouldFollow = True\<rparr>"

lemma skip_space_append: "list_all isspace w \<Longrightarrow> \<not> isspace (peek r) \<Longrightarrow> skip_space (w @ r) = r"
  unfolding skip_space_def by (induction w) (cases r; auto)+

lemma skip_space_split: "\<exists>w. list_all isspace w \<and> start = w @ skip_space start"
  unfolding skip_space_def
  by (rule exI [of _ "takeWhile isspace start"]) (auto simp: list_all_iff dest: set_takeWhileD)

lemma until_separator_found:
  "right \<notin> set fname \<Longrightarrow> NUL \<notin> set fname \<Longrightarrow> until_separator right (fname @ right # rest) = Some (fname, right # rest)"
  by (induction fname) auto

lemma until_separator_split:
  "until_separator right start = Some (fname, rest) \<Longrightarrow>
    start = fname @ rest \<and> right \<notin> set fname \<and> NUL \<notin> set fname \<and> peek rest = right \<and> rest \<noteq> []"
  by (induction right start arbitrary: fname rest rule: until_separator.induct) (auto split: if_splits option.splits)

lemma not_space [simp]:
  "\<not> isspace (CHR ''#'')" "\<not> isspace (CHR ''i'')" "\<not> isspace (CHR ''<'')" "\<not> isspace (CHR 0x22)"
  by (simp_all add: isspace_def)

lemma ScanCppLine_finds: "directive line d \<Longrightarrow> ScanCppLine line = Some d"
proof (induction rule: directive.induct)
  case (1 w1 w2 s w3 left right fname rest)
  have sep: "\<not> isspace left" using 1(5) by auto
  have tl3: "skip_space (w3 @ left # fname @ right # rest) = left # fname @ right # rest"
    using sep by (intro skip_space_append [OF 1(4)]) simp
  have tl2: "skip_space (w2 @ CHR ''i'' # r) = CHR ''i'' # r" for r
    by (intro skip_space_append [OF 1(2)]) simp
  have tl1: "skip_space (w1 @ CHR ''#'' # r) = CHR ''#'' # r" for r
    by (intro skip_space_append [OF 1(1)]) simp
  consider "left = CHR ''<''" "right = CHR ''>''" | "left = CHR 0x22" "right = CHR 0x22" using 1(5) by blast
  then show ?case
    by cases (use 1(3,6,7) tl3 in \<open>simp_all add: ScanCppLine_def Let_def tl1 tl2 until_separator_found\<close>)
qed

lemma ScanCppLine_only:
  assumes "ScanCppLine line = Some d" shows "directive line d"
proof -
  define s1 where "s1 = skip_space line"
  define s2 where "s2 = skip_space (tl s1)"
  define s3 where "s3 = drop 7 s2"
  define s4 where "s4 = skip_space (tl s3)"
  have cond: "peek s1 = CHR ''#''" "take 7 s2 = ''include''" "isspace (peek s3)"
    using assms by (auto simp: ScanCppLine_def Let_def s1_def s2_def s3_def split: if_splits)
  obtain right where right: "(if peek s4 = CHR ''<'' then Some (CHR ''>'') else if peek s4 = CHR 0x22 then Some (CHR 0x22) else None) = Some right"
    using assms cond unfolding ScanCppLine_def Let_def s1_def s2_def s3_def s4_def by (auto split: option.splits if_splits)
  obtain fname rest where fname: "until_separator right (tl s4) = Some (fname, rest)"
      "d = \<lparr>inc_String = fname, inc_StringLen = length fname, inc_IsSystemInclude = (right = CHR ''>''), inc_ShouldFollow = True\<rparr>"
    using assms cond right unfolding ScanCppLine_def Let_def s1_def s2_def s3_def s4_def by (auto split: option.splits)
  obtain w1 where w1: "list_all isspace w1" "line = w1 @ s1" using skip_space_split s1_def by blast
  obtain w2 where w2: "list_all isspace w2" "tl s1 = w2 @ s2" using skip_space_split s2_def by blast
  obtain w3 where w3: "list_all isspace w3" "tl s3 = w3 @ s4" using skip_space_split s4_def by blast
  have cons: "s = peek s # tl s" if "peek s \<noteq> NUL" for s using that by (cases s) auto
  have "s1 = ''#'' @ w2 @ s2" using cons [of s1] cond(1) w2(2) by simp
  moreover have "s2 = ''include'' @ s3" using cond(2) s3_def by (metis append_take_drop_id)
  moreover have "s3 = [peek s3] @ w3 @ s4" using cons [of s3] cond(3) w3(2) by force
  moreover have "s4 = [peek s4] @ tl s4" using cons [of s4] right by (auto split: if_splits)
  moreover have "tl s4 = fname @ [right] @ tl rest" "right \<notin> set fname" "NUL \<notin> set fname"
    using until_separator_split [OF fname(1)] by (auto simp: neq_Nil_conv)
  ultimately have line: "line = w1 @ ''#'' @ w2 @ ''include'' @ [peek s3] @ w3 @ [peek s4] @ fname @ [right] @ tl rest"
    using w1(2) by (metis append.assoc)
  have "(peek s4, right) \<in> {(CHR ''<'', CHR ''>''), (CHR 0x22, CHR 0x22)}" using right by (auto split: if_splits)
  then show ?thesis
    unfolding line fname(2)
    using w1(1) w2(1) cond(3) w3(1) \<open>right \<notin> set fname\<close> \<open>NUL \<notin> set fname\<close> by (intro directive.intros)
qed

section \<open>Properties\<close>

text \<open>
  C28: \<open>ScanIncludesCpp\<close> returns, in the order of the lines, what the include directives of the
  buffer name, and nothing else: white space may precede and follow the hash and must follow the
  keyword, and the name ends at the first closing separator.
\<close>

theorem ScanIncludesCpp_directives:
  "ScanIncludesCpp buffer = List.map_filter ScanCppLine (split_lines (c_str buffer)) \<and>
   (\<forall>line d. ScanCppLine line = Some d \<longleftrightarrow> directive line d)"
proof
  show "ScanIncludesCpp buffer = List.map_filter ScanCppLine (split_lines (c_str buffer))"
    unfolding ScanIncludesCpp_def scan_loop_lines by simp
  show "\<forall>line d. ScanCppLine line = Some d \<longleftrightarrow> directive line d"
    by (intro allI iffI) (erule ScanCppLine_only, erule ScanCppLine_finds)
qed

text \<open>
  The configurable scanner without separators finds, on a line that starts with one of its
  keywords and white space, the word that follows.
\<close>

theorem ScanLineGeneric_word:
  assumes "list_all isspace w" "has_flag config kFlagRequireWhitespace \<longrightarrow> w \<noteq> []"
    and "\<not> has_flag config kFlagUseSeparators"
    and "find_keyword config (kw @ [s] @ w' @ fname @ rest) = Some keyword" "kw_StringLength keyword = length kw"
    and "kw \<noteq> []" "\<not> isspace (hd kw)" "isspace s" "list_all isspace w'"
    and "fname \<noteq> []" "length fname < 65536" "\<forall>c \<in> set fname. c \<noteq> NUL \<and> \<not> isspace c" "rest = [] \<or> isspace (hd rest)"
  shows "ScanLineGeneric (w @ kw @ [s] @ w' @ fname @ rest) config =
    Some \<lparr>inc_String = fname, inc_StringLen = length fname,
      inc_IsSystemInclude = has_flag config kFlagBareMeansSystem, inc_ShouldFollow = kw_ShouldFollow keyword\<rparr>"
proof -
  let ?r = "kw @ [s] @ w' @ fname @ rest"
  have "peek ?r = hd kw" using assms(6) by (cases kw) auto
  then have skip1: "skip_space (w @ ?r) = ?r" using assms(7) by (intro skip_space_append [OF assms(1)]) simp
  have moved: "has_flag config kFlagRequireWhitespace \<longrightarrow> ?r \<noteq> w @ ?r" using assms(2) by auto
  have "peek (fname @ rest) = hd fname" using assms(10) by (cases fname) auto
  then have skip2: "skip_space (w' @ fname @ rest) = fname @ rest"
    using assms(10,12) by (intro skip_space_append [OF assms(9)]) simp
  have word: "takeWhile (\<lambda>c. c \<noteq> NUL \<and> \<not> isspace c) (fname @ rest) = fname"
    using assms(12,13) by (cases rest) (auto simp: takeWhile_append)
  have after: "drop (kw_StringLength keyword) ?r = s # w' @ fname @ rest" using assms(5) by simp
  show ?thesis
    unfolding ScanLineGeneric_def Let_def skip1 assms(4) option.case after
    using moved assms(3,8,10,11) skip2 word by (simp add: include_data_def)
qed

definition ex_scanner :: ScannerData where
  "ex_scanner = \<lparr>sc_ScannerType = kGeneric, sc_IncludePaths = [], sc_ScannerGuid = (0, 0), sc_Flags = 0,
     sc_Keywords = [\<lparr>kw_String = ''import'', kw_StringLength = 6, kw_ShouldFollow = True\<rparr>]\<rparr>"

theorem ScanLineGeneric_word_witness:
  "ScanLineGeneric ([CHR '' ''] @ ''import'' @ [CHR '' ''] @ [] @ ''foo'' @ []) ex_scanner =
    Some \<lparr>inc_String = ''foo'', inc_StringLen = length ''foo'',
      inc_IsSystemInclude = has_flag ex_scanner kFlagBareMeansSystem,
      inc_ShouldFollow = kw_ShouldFollow \<lparr>kw_String = ''import'', kw_StringLength = 6, kw_ShouldFollow = True\<rparr>\<rparr>"
  by (rule ScanLineGeneric_word)
    (simp_all add: ex_scanner_def has_flag_def find_keyword_def isspace_def)

end
