(* ===== verification/T2_Buffer.thy ===== *)
theory T2_Buffer
  imports T2_Common
begin

text \<open>
  Model of \<open>src/Buffer.hpp\<close> (growing arrays) and \<open>src/MemAllocLinear.hpp\<close> and \<open>.cpp\<close> (allocation
  by moving an offset in one block). The heap is the source of storage whose contents are
  arbitrary: uninitialized elements are given by a function. Sizes of buffers are unbounded (they
  are bounded by memory); offsets of the linear allocator are 64 bit words. The lemmas show that a
  buffer is a list and that blocks of a linear allocator are aligned, inside and disjoint.
\<close>

section \<open>Growing arrays\<close>

record 'a Buffer =
  bf_Storage :: "'a list"
  bf_Size :: nat
  bf_Capacity :: nat

definition BufferInit :: "'a Buffer" where
  "BufferInit = \<lparr>bf_Storage = [], bf_Size = 0, bf_Capacity = 0\<rparr>"

definition BufferClear :: "'a Buffer \<Rightarrow> 'a Buffer" where
  "BufferClear buffer = buffer\<lparr>bf_Size := 0\<rparr>"

definition BufferInitWithCapacity :: "(nat \<Rightarrow> 'a) \<Rightarrow> nat \<Rightarrow> 'a Buffer" where
  "BufferInitWithCapacity junk capacity =
     \<lparr>bf_Storage = map junk [0..<capacity], bf_Size = 0, bf_Capacity = capacity\<rparr>"

definition BufferDestroy :: "'a Buffer \<Rightarrow> 'a Buffer" where
  "BufferDestroy buffer = (if bf_Storage buffer \<noteq> [] then BufferInit else buffer)"

definition BufferAlloc :: "(nat \<Rightarrow> 'a) \<Rightarrow> 'a Buffer \<Rightarrow> nat \<Rightarrow> 'a Buffer \<times> nat" where
  "BufferAlloc junk buffer n =
     (let old_size = bf_Size buffer; capacity = bf_Capacity buffer;
          buffer' =
            (if old_size + n > capacity then
               (let doubled = (if capacity \<noteq> 0 then capacity * 2 else 8);
                    new_capacity = (if doubled < old_size + n then old_size + n else doubled)
                in buffer\<lparr>bf_Storage := bf_Storage buffer @ map junk [capacity..<new_capacity],
                          bf_Capacity := new_capacity\<rparr>)
             else buffer)
      in (buffer'\<lparr>bf_Size := old_size + n\<rparr>, old_size))"

definition store :: "'a Buffer \<Rightarrow> nat \<Rightarrow> 'a list \<Rightarrow> 'a Buffer" where
  "store buffer at xs =
     buffer\<lparr>bf_Storage := take at (bf_Storage buffer) @ xs @ drop (at + length xs) (bf_Storage buffer)\<rparr>"

definition BufferAllocFill :: "(nat \<Rightarrow> 'a) \<Rightarrow> 'a Buffer \<Rightarrow> nat \<Rightarrow> 'a \<Rightarrow> 'a Buffer" where
  "BufferAllocFill junk buffer n fill_value =
     (let (buffer', result) = BufferAlloc junk buffer n in store buffer' result (replicate n fill_value))"

definition BufferAllocZero :: "(nat \<Rightarrow> 'a::zero) \<Rightarrow> 'a Buffer \<Rightarrow> nat \<Rightarrow> 'a Buffer" where
  "BufferAllocZero junk buffer n =
     (let (buffer', result) = BufferAlloc junk buffer n in store buffer' result (replicate n 0))"

definition BufferAppend :: "(nat \<Rightarrow> 'a) \<Rightarrow> 'a Buffer \<Rightarrow> 'a list \<Rightarrow> 'a Buffer" where
  "BufferAppend junk buffer elems =
     (let (buffer', dest) = BufferAlloc junk buffer (length elems) in store buffer' dest elems)"

definition BufferAppendOne :: "(nat \<Rightarrow> 'a) \<Rightarrow> 'a Buffer \<Rightarrow> 'a \<Rightarrow> 'a Buffer" where
  "BufferAppendOne junk buffer elem =
     (let (buffer', dest) = BufferAlloc junk buffer 1 in store buffer' dest [elem])"

definition BufferPopOne :: "'a Buffer \<Rightarrow> ('a Buffer \<times> 'a) option" where
  "BufferPopOne buffer =
     (if \<not> bf_Size buffer > 0 then None
      else Some (buffer\<lparr>bf_Size := bf_Size buffer - 1\<rparr>, bf_Storage buffer ! (bf_Size buffer - 1)))"

section \<open>Linear allocation\<close>

definition kMaxAlignment :: u64 where "kMaxAlignment = 64"

text \<open>Addresses are 64 bit words; the owner is 0 where any thread may allocate.\<close>

record MemAllocLinear =
  la_BasePointer :: u64
  la_Pointer :: u64
  la_Size :: u64
  la_Offset :: u64
  la_OwnerThread :: nat

text \<open>\<open>base\<close> is the address that the heap returns for \<open>alloc_size\<close> bytes.\<close>

definition LinearAllocInit :: "u64 \<Rightarrow> u64 \<Rightarrow> MemAllocLinear" where
  "LinearAllocInit base max_size =
     (let aligned_base = (base + kMaxAlignment - 1) AND NOT (kMaxAlignment - 1);
          delta = aligned_base - base
      in \<lparr>la_BasePointer = base, la_Pointer = base + delta, la_Size = max_size - delta, la_Offset = 0, la_OwnerThread = 0\<rparr>)"

definition LinearAllocSetOwner :: "MemAllocLinear \<Rightarrow> nat \<Rightarrow> MemAllocLinear" where
  "LinearAllocSetOwner allocator thread_id = allocator\<lparr>la_OwnerThread := thread_id\<rparr>"

definition owned :: "MemAllocLinear \<Rightarrow> nat \<Rightarrow> bool" where
  "owned self thread \<longleftrightarrow> la_OwnerThread self = 0 \<or> thread = la_OwnerThread self"

definition LinearAllocate :: "nat \<Rightarrow> MemAllocLinear \<Rightarrow> u64 \<Rightarrow> u64 \<Rightarrow> (MemAllocLinear \<times> u64) result" where
  "LinearAllocate thread self size' align =
     (if \<not> owned self thread \<or> align AND (align - 1) \<noteq> 0 \<or> align = 0 then Inl (Croak ''check failure'')
      else let offset = (la_Offset self + align - 1) AND NOT (align - 1)
           in if offset AND (align - 1) \<noteq> 0 then Inl (Croak ''check failure'')
              else if offset + size' \<le> la_Size self
              then Inr (self\<lparr>la_Offset := offset + size'\<rparr>, la_Pointer self + offset)
              else Inl (Croak ''Out of memory in linear allocator''))"

definition LinearAllocReset :: "nat \<Rightarrow> MemAllocLinear \<Rightarrow> MemAllocLinear result" where
  "LinearAllocReset thread allocator =
     (if \<not> owned allocator thread then Inl (Croak ''check failure'') else Inr (allocator\<lparr>la_Offset := 0\<rparr>))"

text \<open>\<open>MemAllocLinearScope\<close>: the offset is saved when the scope is entered and restored at its end.\<close>

definition linear_scope :: "MemAllocLinear \<Rightarrow> MemAllocLinear \<Rightarrow> MemAllocLinear" where
  "linear_scope before after = after\<lparr>la_Offset := la_Offset before\<rparr>"

section \<open>A buffer is a list\<close>

definition buffer_ok :: "'a Buffer \<Rightarrow> bool" where
  "buffer_ok b \<longleftrightarrow> length (bf_Storage b) = bf_Capacity b \<and> bf_Size b \<le> bf_Capacity b"

definition elements :: "'a Buffer \<Rightarrow> 'a list" where
  "elements b = take (bf_Size b) (bf_Storage b)"

lemma BufferAlloc_ok:
  assumes "buffer_ok b" "BufferAlloc junk b n = (b', at)"
  shows "at = bf_Size b" "bf_Size b' = bf_Size b + n" "buffer_ok b'"
    "take (bf_Size b) (bf_Storage b') = elements b"
  using assms by (auto simp: BufferAlloc_def Let_def buffer_ok_def elements_def split: if_splits)

lemma alloc_store:
  assumes "buffer_ok b" "BufferAlloc junk b (length xs) = (b', at)"
  shows "buffer_ok (store b' at xs) \<and> elements (store b' at xs) = elements b @ xs"
proof -
  note a = BufferAlloc_ok [OF assms]
  have "bf_Size b + length xs \<le> length (bf_Storage b')" using a(2,3) by (simp add: buffer_ok_def)
  moreover have "bf_Size b \<le> length (bf_Storage b)" using assms(1) by (simp add: buffer_ok_def)
  ultimately show ?thesis using a by (simp add: store_def buffer_ok_def elements_def)
qed

lemma BufferAppend_ok:
  "buffer_ok b \<Longrightarrow> buffer_ok (BufferAppend junk b xs) \<and> elements (BufferAppend junk b xs) = elements b @ xs"
  using alloc_store [of b junk xs] by (auto simp: BufferAppend_def split: prod.splits)

lemma BufferAppendOne_ok:
  "buffer_ok b \<Longrightarrow> buffer_ok (BufferAppendOne junk b x) \<and> elements (BufferAppendOne junk b x) = elements b @ [x]"
  using alloc_store [of b junk "[x]"] by (auto simp: BufferAppendOne_def split: prod.splits)

lemma BufferAllocFill_ok:
  "buffer_ok b \<Longrightarrow> elements (BufferAllocFill junk b n x) = elements b @ replicate n x"
  using alloc_store [of b junk "replicate n x"] by (auto simp: BufferAllocFill_def split: prod.splits)

lemma BufferPopOne_ok:
  assumes "buffer_ok b" "elements b \<noteq> []"
  shows "\<exists>b'. BufferPopOne b = Some (b', last (elements b)) \<and> buffer_ok b' \<and> elements b' = butlast (elements b)"
  using assms
  by (auto simp: BufferPopOne_def buffer_ok_def elements_def butlast_take last_conv_nth min_def)

text \<open>The contract of a stack, and what follows for a client that pushes and pops.\<close>

locale stack =
  fixes ok :: "'s \<Rightarrow> bool" and content :: "'s \<Rightarrow> 'a list" and push :: "'s \<Rightarrow> 'a \<Rightarrow> 's" and pop :: "'s \<Rightarrow> ('s \<times> 'a) option"
  assumes push: "ok s \<Longrightarrow> ok (push s x) \<and> content (push s x) = content s @ [x]"
    and pop: "ok s \<Longrightarrow> content s \<noteq> [] \<Longrightarrow> \<exists>s'. pop s = Some (s', last (content s)) \<and> ok s' \<and> content s' = butlast (content s)"
begin

lemma push_all: "ok s \<Longrightarrow> ok (fold (\<lambda>x s. push s x) xs s) \<and> content (fold (\<lambda>x s. push s x) xs s) = content s @ xs"
proof (induction xs arbitrary: s)
  case (Cons x xs)
  then show ?case using push [of s x] Cons.IH [of "push s x"] by simp
qed simp

lemma pop_push: "ok s \<Longrightarrow> \<exists>s'. pop (push s x) = Some (s', x) \<and> ok s' \<and> content s' = content s"
  using push [of s x] pop [of "push s x"] by auto

end

interpretation buffer: stack buffer_ok elements "BufferAppendOne junk" BufferPopOne for junk
  by unfold_locales (simp_all add: BufferAppendOne_ok BufferPopOne_ok)

section \<open>Blocks of a linear allocator\<close>

lemma and_not_mask:
  fixes x :: u64
  shows "unat (x AND NOT (2 ^ k - 1)) = unat x div 2 ^ k * 2 ^ k"
proof -
  have "unat x < 2 ^ 64" using unsigned_less [of x, where ?'a = nat] by simp
  then have le: "unat x div 2 ^ k * 2 ^ k < 2 ^ 64"
    using div_mult_mod_eq [of "unat x" "2 ^ k"] by linarith
  have "x AND NOT (2 ^ k - 1) = push_bit k (drop_bit k x)"
    by (rule bit_word_eqI) (auto simp: bit_simps mask_eq_exp_minus_1 [symmetric])
  then have "unat (x AND NOT (2 ^ k - 1)) = take_bit 64 (unat x div 2 ^ k * 2 ^ k)"
    by (simp only: unsigned_push_bit_eq unat_drop_bit_eq) (simp add: push_bit_eq_mult drop_bit_eq_div)
  then show ?thesis using le by (simp add: take_bit_nat_eq_self)
qed

lemma align_up:
  fixes x :: u64
  assumes "unat x + 2 ^ k < 2 ^ 64" "k < 64"
  defines "y \<equiv> (x + 2 ^ k - 1) AND NOT (2 ^ k - 1)"
  shows "unat x \<le> unat y" "unat y < unat x + 2 ^ k" "2 ^ k dvd unat y"
proof -
  have p: "unat (2 ^ k :: u64) = 2 ^ k" 
  proof -
    have "(2 :: nat) ^ k < 2 ^ 64" using assms(2) by (simp only: power_strict_increasing_iff one_less_numeral_iff semiring_norm)
    then have "unat (word_of_nat (2 ^ k) :: u64) = 2 ^ k" by (simp only: unat_of_nat) (simp add: take_bit_nat_eq_self)
    then show ?thesis by simp
  qed
  have "unat (x + 2 ^ k) = unat x + 2 ^ k" using assms(1) p by (simp add: unat_word_ariths)
  moreover have "1 \<le> x + 2 ^ k" using calculation by (simp add: word_le_nat_alt Suc_le_eq)
  ultimately have s: "unat (x + 2 ^ k - 1) = unat x + 2 ^ k - 1" by (simp add: unat_sub)
  have y: "unat y = (unat x + 2 ^ k - 1) div 2 ^ k * 2 ^ k" unfolding y_def and_not_mask s by simp
  have r: "(unat x + 2 ^ k - 1) div 2 ^ k * 2 ^ k + (unat x + 2 ^ k - 1) mod 2 ^ k = unat x + 2 ^ k - 1"
    by (rule div_mult_mod_eq)
  have m: "(unat x + 2 ^ k - 1) mod 2 ^ k < 2 ^ k" by simp
  show "unat x \<le> unat y" using y r m by linarith
  have "(0 :: nat) < 2 ^ k" by simp
  then show "unat y < unat x + 2 ^ k" using y r by linarith
  show "2 ^ k dvd unat y" using y by simp
qed

definition linear_ok :: "MemAllocLinear \<Rightarrow> bool" where
  "linear_ok self \<longleftrightarrow> unat (la_Offset self) \<le> unat (la_Size self) \<and> unat (la_Size self) < 2 ^ 62"

lemma LinearAllocate_ok:
  assumes "linear_ok self" "k < 62" "unat size' < 2 ^ 63"
    and "LinearAllocate thread self size' (2 ^ k) = Inr (self', p)"
  defines "at \<equiv> unat (p - la_Pointer self)"
  shows "unat (la_Offset self) \<le> at" "2 ^ k dvd at" "unat (la_Offset self') = at + unat size'"
    "at + unat size' \<le> unat (la_Size self)" "linear_ok self'" "la_Size self' = la_Size self" "la_Pointer self' = la_Pointer self"
proof -
  let ?off = "(la_Offset self + 2 ^ k - 1) AND NOT (2 ^ k - 1)"
  have res: "?off + size' \<le> la_Size self" "self' = self\<lparr>la_Offset := ?off + size'\<rparr>" "p = la_Pointer self + ?off"
    using assms(4) by (auto simp: LinearAllocate_def Let_def split: if_splits)
  have at: "at = unat ?off" by (simp add: at_def res(3))
  have o62: "unat (la_Offset self) < 2 ^ 62" using assms(1) by (simp add: linear_ok_def)
  have k62: "(2 :: nat) ^ k < 2 ^ 62" using assms(2) by (simp only: power_strict_increasing_iff one_less_numeral_iff semiring_norm)
  have "unat (la_Offset self) + 2 ^ k < 2 ^ 64" using o62 k62 by simp
  note up = align_up [OF this, folded at]
  have up': "unat (la_Offset self) \<le> at" "at < unat (la_Offset self) + 2 ^ k" "2 ^ k dvd at"
    using up assms(2) by simp_all
  have "at < 2 ^ 63" using up'(2) o62 k62 by simp
  then have "unat (?off + size') = at + unat size'" using assms(3) at by (simp add: unat_word_ariths)
  then show "unat (la_Offset self) \<le> at" "2 ^ k dvd at" "unat (la_Offset self') = at + unat size'"
    "at + unat size' \<le> unat (la_Size self)" "linear_ok self'" "la_Size self' = la_Size self" "la_Pointer self' = la_Pointer self"
    using up' res assms(1) by (simp_all add: linear_ok_def word_le_nat_alt)
qed

text \<open>
  The allocator that \<open>LinearAllocInit\<close> makes from a block of the heap. The block has
  \<open>max_size + kMaxAlignment - 1\<close> bytes and does not reach the end of the address space.
\<close>

lemma LinearAllocInit_ok:
  assumes "64 \<le> unat max_size" "unat max_size < 2 ^ 62" "unat base + unat max_size + 63 < 2 ^ 64"
  defines "self \<equiv> LinearAllocInit base max_size"
  shows "64 dvd unat (la_Pointer self)" "unat base \<le> unat (la_Pointer self)"
    "unat (la_Pointer self) + unat (la_Size self) = unat base + unat max_size" "linear_ok self" "la_Offset self = 0"
proof -
  let ?p = "(base + 2 ^ 6 - 1) AND NOT (2 ^ 6 - 1)"
  have "unat base + 2 ^ 6 < 2 ^ 64" using assms(1,3) by simp
  note up = align_up [OF this, simplified]
  have p: "la_Pointer self = ?p" "la_Size self = max_size - (?p - base)" by (simp_all add: self_def LinearAllocInit_def kMaxAlignment_def Let_def)
  have "base \<le> ?p" using up(1) by (simp add: word_le_nat_alt)
  then have d: "unat (?p - base) = unat ?p - unat base" by (rule unat_sub)
  have "?p - base \<le> max_size" using d up(2) assms(1) by (simp add: word_le_nat_alt)
  then have sz: "unat (la_Size self) = unat max_size - (unat ?p - unat base)" unfolding p(2) by (simp only: unat_sub d)
  show "64 dvd unat (la_Pointer self)" "unat base \<le> unat (la_Pointer self)" using up p(1) by simp_all
  show "unat (la_Pointer self) + unat (la_Size self) = unat base + unat max_size" using up(1,2) p(1) sz assms(1) by simp
  show "la_Offset self = 0" by (simp add: self_def LinearAllocInit_def Let_def)
  then show "linear_ok self" using sz assms(2) by (simp add: linear_ok_def)
qed

text \<open>A sequence of allocations, as addresses and sizes of the blocks.\<close>

fun allocate_all :: "nat \<Rightarrow> MemAllocLinear \<Rightarrow> (u64 \<times> nat) list \<Rightarrow> (nat \<times> nat) list result" where
  "allocate_all thread self [] = Inr []"
| "allocate_all thread self ((size', k) # reqs) =
     (case LinearAllocate thread self size' (2 ^ k) of
        Inl e \<Rightarrow> Inl e
      | Inr (self', p) \<Rightarrow>
          (case allocate_all thread self' reqs of
             Inl e \<Rightarrow> Inl e
           | Inr blocks \<Rightarrow> Inr ((unat p, unat size') # blocks)))"

lemma allocate_all_blocks:
  assumes "linear_ok self" "64 dvd unat (la_Pointer self)" "unat (la_Pointer self) + unat (la_Size self) < 2 ^ 64"
    and "\<forall>(size', k) \<in> set reqs. k \<le> 6 \<and> unat size' < 2 ^ 63" "allocate_all thread self reqs = Inr blocks"
  shows "sorted_wrt (\<lambda>(p1, n1) (p2, n2). p1 + n1 \<le> p2) blocks \<and>
    (\<forall>(p, n) \<in> set blocks. unat (la_Pointer self) + unat (la_Offset self) \<le> p \<and> p + n \<le> unat (la_Pointer self) + unat (la_Size self)) \<and>
    list_all2 (\<lambda>(size', k) (p, n). n = unat size' \<and> 2 ^ k dvd p) reqs blocks"
  using assms
proof (induction reqs arbitrary: self blocks)
  case (Cons req reqs)
  obtain size' k where req: "req = (size', k)" by fastforce
  obtain self' p rest where r: "LinearAllocate thread self size' (2 ^ k) = Inr (self', p)"
      "allocate_all thread self' reqs = Inr rest" "blocks = (unat p, unat size') # rest"
    using Cons.prems(5) req by (auto split: sum.splits prod.splits)
  have k: "k \<le> 6" "k < 62" "unat size' < 2 ^ 63" using Cons.prems(4) req by auto
  let ?at = "unat (p - la_Pointer self)"
  note a = LinearAllocate_ok [OF Cons.prems(1) k(2,3) r(1)]
  have "unat (la_Pointer self) + ?at < 2 ^ 64" using a(4) Cons.prems(3) by simp
  then have "unat (la_Pointer self + (p - la_Pointer self)) = unat (la_Pointer self) + ?at" by (simp only: unat_word_ariths) simp
  then have p: "unat p = unat (la_Pointer self) + ?at" by simp
  have "(2 :: nat) ^ k dvd 2 ^ 6" using k(1) by (rule le_imp_power_dvd)
  then have "2 ^ k dvd unat (la_Pointer self)" using Cons.prems(2) dvd_trans [of "2 ^ k" "2 ^ 6 :: nat"] by simp
  then have al: "2 ^ k dvd unat p" using a(2) p by simp
  have ih: "sorted_wrt (\<lambda>(p1, n1) (p2, n2). p1 + n1 \<le> p2) rest"
      "\<forall>(p, n) \<in> set rest. unat (la_Pointer self) + unat (la_Offset self') \<le> p \<and> p + n \<le> unat (la_Pointer self) + unat (la_Size self)"
      "list_all2 (\<lambda>(size', k) (p, n). n = unat size' \<and> 2 ^ k dvd p) reqs rest"
    using Cons.IH [OF a(5) _ _ _ r(2)] Cons.prems(2-4) a(6,7) by auto
  have "unat (la_Offset self) \<le> unat (la_Offset self')" "unat p + unat size' = unat (la_Pointer self) + unat (la_Offset self')"
    using a(1,3) p by simp_all
  moreover have "unat (la_Pointer self) + unat (la_Offset self) \<le> unat p" "unat p + unat size' \<le> unat (la_Pointer self) + unat (la_Size self)"
    using a(1,4) p by simp_all
  ultimately show ?case using ih al unfolding req r(3) by (auto intro: le_trans)
qed simp

section \<open>Properties\<close>

text \<open>
  C30: A buffer is a list: appending elements, filling and popping keep the size within the
  capacity and act on the contents as on a list, through every reallocation.
\<close>

theorem buffer_is_list:
  assumes "buffer_ok b"
  shows "buffer_ok (BufferAppend junk b xs) \<and> elements (BufferAppend junk b xs) = elements b @ xs \<and>
    elements (BufferAllocFill junk b n x) = elements b @ replicate n x \<and>
    (\<exists>b'. BufferPopOne (BufferAppendOne junk b x) = Some (b', x) \<and> elements b' = elements b)"
  using BufferAppend_ok [OF assms] BufferAllocFill_ok [OF assms] buffer.pop_push [OF assms] by blast

theorem buffer_is_list_witness:
  "elements (BufferAppend (\<lambda>_. 0) (BufferInitWithCapacity (\<lambda>_. 7) 2) [1, 2, 3 :: int]) = [1, 2, 3]"
  using buffer_is_list [of "BufferInitWithCapacity (\<lambda>_. 7) 2" "\<lambda>_. 0" "[1, 2, 3 :: int]"]
  by (simp add: BufferInitWithCapacity_def buffer_ok_def elements_def)

text \<open>
  C29: Blocks that a linear allocator hands out one after the other, from its initialization on, are
  at addresses aligned as asked for (up to \<open>kMaxAlignment\<close>), lie inside the memory that the allocator got
  from the heap and do not overlap.
\<close>

theorem blocks_disjoint:
  assumes "64 \<le> unat max_size" "unat max_size < 2 ^ 62" "unat base + unat max_size + 63 < 2 ^ 64"
    and "\<forall>(size', k) \<in> set reqs. 2 ^ k \<le> unat kMaxAlignment \<and> unat size' < 2 ^ 63"
    and "allocate_all thread (LinearAllocInit base max_size) reqs = Inr blocks"
  shows "sorted_wrt (\<lambda>(p1, n1) (p2, n2). p1 + n1 \<le> p2) blocks \<and>
    (\<forall>(p, n) \<in> set blocks. unat base \<le> p \<and> p + n \<le> unat base + unat max_size) \<and>
    list_all2 (\<lambda>(size', k) (p, n). n = unat size' \<and> 2 ^ k dvd p) reqs blocks"
proof -
  let ?self = "LinearAllocInit base max_size"
  note i = LinearAllocInit_ok [OF assms(1-3)]
  have small: "k \<le> 6" if "(2 :: nat) ^ k \<le> unat kMaxAlignment" for k
  proof -
    have "(2 :: nat) ^ k \<le> 2 ^ 6" using that by (simp add: kMaxAlignment_def)
    then show ?thesis by (rule power_le_imp_le_exp [rotated]) simp
  qed
  have "\<forall>(size', k) \<in> set reqs. k \<le> 6 \<and> unat size' < 2 ^ 63" using assms(4) small by fastforce
  from allocate_all_blocks [OF i(4,1) _ this assms(5)] show ?thesis using i(2,3,5) assms(3) by fastforce
qed

theorem blocks_disjoint_witness:
  "allocate_all 1 (LinearAllocInit 4097 200) [(5, 0), (3, 3)] = Inr [(4160, 5), (4168, 3)] \<and> 2 ^ 3 dvd (4168 :: nat) \<and> 4168 + 3 \<le> (4097 + 200 :: nat)"
proof -
  have run: "allocate_all 1 (LinearAllocInit 4097 200) [(5, 0), (3, 3)] = Inr [(4160, 5), (4168, 3)]"
    by code_simp
  then show ?thesis
    using blocks_disjoint [of 200 4097 "[(5, 0), (3, 3)]" 1 "[(4160, 5), (4168, 3)]"] by (simp add: kMaxAlignment_def)
qed

end
