(* ===== verification/T2_DriverNodes.thy ===== *)
theory T2_DriverNodes
  imports T2_TargetSelect T2_SortedArray T2_Path T2_BuildPasses
begin

text \<open>
  Model of the part of \<open>src/Driver.cpp\<close> that turns the names on the command line into the nodes
  to build: finding the build tuples and the named nodes, walking their dependencies, setting up
  the node states and the remapping table from nodes of the DAG to node states. Buffers are
  lists (see \<open>T2_Buffer\<close>): a buffer is popped and appended to at its end. Reading outside an
  array is an \<open>Overrun\<close>.
\<close>

section \<open>Options and the driver\<close>

text \<open>The options that the modelled functions read.\<close>

record DriverOptions =
  do_ForceDagRegen :: bool
  do_ContinueOnError :: bool
  do_ThreadCount :: int

record Driver =
  dr_DagData :: DagData
  dr_StateData :: "StateData option"
  dr_Options :: DriverOptions
  dr_NodeRemap :: "int list"
  dr_Nodes :: "NodeState list"
  dr_PassNodeCount :: "int list"

definition kMaxPasses :: nat where "kMaxPasses = 64"

text \<open>
  The driver after \<open>DriverInit\<close>, once \<open>DriverInitData\<close> has loaded the DAG and, where there is
  one, the state of the previous build.
\<close>

definition DriverInit :: "DriverOptions \<Rightarrow> DagData \<Rightarrow> StateData option \<Rightarrow> Driver" where
  "DriverInit options dag state_data =
     \<lparr>dr_DagData = dag, dr_StateData = state_data, dr_Options = options, dr_NodeRemap = [], dr_Nodes = [],
      dr_PassNodeCount = replicate kMaxPasses 0\<rparr>"

section \<open>Sets of nodes as bit arrays\<close>

definition word_count :: "nat \<Rightarrow> nat" where
  "word_count node_count = (node_count + 31) div 32"

definition test_node_bit :: "u32 list \<Rightarrow> nat \<Rightarrow> bool" where
  "test_node_bit node_bits index \<longleftrightarrow> node_bits ! (index div 32) AND bit_at (int (index mod 32)) \<noteq> 0"

definition set_node_bit :: "u32 list \<Rightarrow> nat \<Rightarrow> u32 list" where
  "set_node_bit node_bits index =
     node_bits[index div 32 := node_bits ! (index div 32) OR bit_at (int (index mod 32))]"

definition marked :: "u32 list \<Rightarrow> nat set" where
  "marked node_bits = {i. i div 32 < length node_bits \<and> test_node_bit node_bits i}"

definition unmarked :: "u32 list \<Rightarrow> nat set" where
  "unmarked node_bits = {i. i div 32 < length node_bits \<and> \<not> test_node_bit node_bits i}"

lemma and_bit_at: "w AND bit_at (int k) \<noteq> 0 \<longleftrightarrow> bit w k" if "k < 32"
proof
  assume "w AND bit_at (int k) \<noteq> 0"
  then obtain n where "bit (w AND bit_at (int k)) n" by (auto simp: bit_eq_iff)
  then show "bit w k" using that by (auto simp: bit_simps bit_bit_at)
next
  assume "bit w k"
  then have "bit (w AND bit_at (int k)) k" using that by (simp add: bit_simps bit_bit_at)
  then show "w AND bit_at (int k) \<noteq> 0" by (metis bit_0_eq bot_apply bot_bool_def)
qed

lemma test_node_bit_iff: "test_node_bit node_bits i \<longleftrightarrow> bit (node_bits ! (i div 32)) (i mod 32)"
  by (simp add: test_node_bit_def and_bit_at)

lemma test_set_node_bit:
  assumes "i div 32 < length node_bits" "j div 32 < length node_bits"
  shows "test_node_bit (set_node_bit node_bits i) j \<longleftrightarrow> j = i \<or> test_node_bit node_bits j"
proof (cases "j div 32 = i div 32")
  case True
  then have "j mod 32 = i mod 32 \<longleftrightarrow> j = i" by (metis mod_mult_div_eq)
  then show ?thesis using True assms by (auto simp: test_node_bit_iff set_node_bit_def bit_simps bit_bit_at)
next
  case False
  then have "j \<noteq> i" by auto
  then show ?thesis using False by (simp add: test_node_bit_iff set_node_bit_def)
qed

lemma length_set_node_bit [simp]: "length (set_node_bit node_bits i) = length node_bits"
  by (simp add: set_node_bit_def)

lemma marked_set [simp]:
  "i div 32 < length node_bits \<Longrightarrow> marked (set_node_bit node_bits i) = insert i (marked node_bits)"
  by (auto simp: marked_def test_set_node_bit)

lemma marked_zero [simp]: "marked (replicate n 0) = {}"
  by (auto simp: marked_def test_node_bit_iff)

lemma finite_unmarked [simp]: "finite (unmarked node_bits)"
  by (rule finite_subset [of _ "{..<32 * length node_bits}"]) (auto simp: unmarked_def)

lemma unmarked_set:
  assumes "i div 32 < length node_bits" "\<not> test_node_bit node_bits i"
  shows "card (unmarked (set_node_bit node_bits i)) < card (unmarked node_bits)"
proof (rule psubset_card_mono)
  have "i \<in> unmarked node_bits" "i \<notin> unmarked (set_node_bit node_bits i)"
    using assms by (auto simp: unmarked_def test_set_node_bit)
  moreover have "unmarked (set_node_bit node_bits i) \<subseteq> unmarked node_bits"
    using assms by (auto simp: unmarked_def test_set_node_bit)
  ultimately show "unmarked (set_node_bit node_bits i) \<subset> unmarked node_bits" by blast
qed simp

section \<open>Finding nodes\<close>

fun FindBuildTuple_loop :: "BuildTupleData list \<Rightarrow> TargetSpec \<Rightarrow> BuildTupleData option" where
  "FindBuildTuple_loop [] spec = None"
| "FindBuildTuple_loop (tuple # tuples) spec =
     (if bt_ConfigIndex tuple = ts_ConfigIndex spec \<and> bt_VariantIndex tuple = ts_VariantIndex spec \<and>
         bt_SubVariantIndex tuple = ts_SubVariantIndex spec
      then Some tuple else FindBuildTuple_loop tuples spec)"

definition FindBuildTuple :: "DagData \<Rightarrow> TargetSpec \<Rightarrow> BuildTupleData option" where
  "FindBuildTuple dag spec = FindBuildTuple_loop (dag_BuildTuples dag) spec"

text \<open>
  The recursion of the code, with the calls that are still to be made (the rest of each loop over
  dependencies that is being executed) as a list.
\<close>

function FindReachable :: "u32 list \<Rightarrow> DagData \<Rightarrow> nat list \<Rightarrow> u32 list result" where
  "FindReachable node_bits dag [] = Inr node_bits"
| "FindReachable node_bits dag (index # pending) =
     (if \<not> index div 32 < length node_bits then Inl (Overrun ''node_bits'')
      else if test_node_bit node_bits index then FindReachable node_bits dag pending
      else if \<not> index < length (dag_NodeData dag) then Inl (Overrun ''m_NodeData'')
      else FindReachable (set_node_bit node_bits index) dag
             (nd_Dependencies (dag_NodeData dag ! index) @ pending))"
  by pat_completeness auto
termination
  by (relation "measures [\<lambda>(node_bits, _, _). card (unmarked node_bits), \<lambda>(_, _, pending). length pending]")
    (auto simp: unmarked_set)

definition FindReachableNodes :: "u32 list \<Rightarrow> DagData \<Rightarrow> BuildTupleData \<Rightarrow> u32 list result" where
  "FindReachableNodes node_bits dag tuple = FindReachable node_bits dag (map nn_NodeIndex (bt_NamedNodes tuple))"

text \<open>\<open>PathCompareN (l, r, n) == 0\<close> and \<open>PathCompare (l, r) == 0\<close>.\<close>

definition PathCompareN_eq :: "bool \<Rightarrow> string \<Rightarrow> string \<Rightarrow> nat \<Rightarrow> bool" where
  "PathCompareN_eq nocase l r n \<longleftrightarrow> compare_fn_eq nocase (take n (c_str l)) (take n (c_str r))"

definition PathCompare_eq :: "bool \<Rightarrow> string \<Rightarrow> string \<Rightarrow> bool" where
  "PathCompare_eq nocase l r \<longleftrightarrow> compare_fn_eq nocase l r"

text \<open>
  What the platform gives: case folding of file names, the native path type and separator, the
  working directory (\<open>None\<close> where \<open>GetCwd\<close> fails), the contents of a path buffer that
  has not been initialized.
\<close>

record platform =
  pl_nocase :: bool
  pl_native :: PathType
  pl_cwd :: "string option"
  pl_uninit :: PathBuffer

definition TD_PATHSEP :: "platform \<Rightarrow> char" where
  "TD_PATHSEP pl = (if pl_native pl = kWindows then CHR 0x5C else CHR ''/'')"

text \<open>
  The working directory with a separator, in an array of \<open>kMaxPathLength + 1\<close> characters.
\<close>

definition cwd_prefix :: "platform \<Rightarrow> string result" where
  "cwd_prefix pl =
     (case pl_cwd pl of
        None \<Rightarrow> Inl (Croak ''couldn't get working directory'')
      | Some cwd \<Rightarrow>
          if length cwd \<ge> kMaxPathLength + 1 then Inl (Croak ''couldn't get working directory'')
          else if length cwd + 1 \<ge> kMaxPathLength + 1 then Inl (Overrun ''cwd'')
          else Inr (cwd @ [TD_PATHSEP pl]))"

definition search_name :: "platform \<Rightarrow> string \<Rightarrow> string result" where
  "search_name pl name =
     (case cwd_prefix pl of
        Inl e \<Rightarrow> Inl e
      | Inr cwd \<Rightarrow>
       (case PathInit (pl_uninit pl) name (pl_native pl) of
          Inl e \<Rightarrow> Inl e
        | Inr path \<Rightarrow>
         (case PathFormat path of
            Inl e \<Rightarrow> Inl e
          | Inr path_fmt \<Rightarrow>
              Inr (if PathCompareN_eq (pl_nocase pl) path_fmt cwd (length cwd)
                   then drop (length cwd) path_fmt else name))))"

text \<open>Whether one of the files of a node has the name.\<close>

definition has_file :: "bool \<Rightarrow> string \<Rightarrow> u32 \<Rightarrow> file_and_hash list \<Rightarrow> bool" where
  "has_file nocase filename filename_hash files \<longleftrightarrow>
     list_ex (\<lambda>(f, hash). filename_hash = hash \<and> PathCompare_eq nocase f filename) files"

text \<open>The loop over the bits of one word.\<close>

function bits_loop :: "bool \<Rightarrow> DagData \<Rightarrow> string \<Rightarrow> u32 \<Rightarrow> nat \<Rightarrow> u32 \<Rightarrow> nat option result" where
  "bits_loop nocase dag filename filename_hash base_index word =
     (if word = 0 then Inr None
      else let node_index = base_index + nat (CountTrailingZeroes word)
           in if \<not> node_index < length (dag_NodeData dag) then Inl (Overrun ''m_NodeData'')
              else if has_file nocase filename filename_hash (nd_InputFiles (dag_NodeData dag ! node_index)) \<or>
                      has_file nocase filename filename_hash (nd_OutputFiles (dag_NodeData dag ! node_index))
              then Inr (Some node_index)
              else bits_loop nocase dag filename filename_hash base_index (clear_lowest word))"
  by pat_completeness auto
termination
  by (relation "measure (\<lambda>(_, _, _, _, _, word). card {i. bit word i})") (simp_all add: clear_lowest_less)

declare bits_loop.simps [simp del]

fun words_loop :: "bool \<Rightarrow> DagData \<Rightarrow> string \<Rightarrow> u32 \<Rightarrow> nat \<Rightarrow> u32 list \<Rightarrow> nat option result" where
  "words_loop nocase dag filename filename_hash base_index [] = Inr None"
| "words_loop nocase dag filename filename_hash base_index (word # node_bits) =
     (case bits_loop nocase dag filename filename_hash base_index word of
        Inl e \<Rightarrow> Inl e
      | Inr (Some node_index) \<Rightarrow> Inr (Some node_index)
      | Inr None \<Rightarrow> words_loop nocase dag filename filename_hash (base_index + 32) node_bits)"

fun find_named :: "string \<Rightarrow> NamedNodeData list \<Rightarrow> nat option" where
  "find_named name [] = None"
| "find_named name (named_node # rest) =
     (if c_str (nn_Name named_node) = c_str name then Some (nn_NodeIndex named_node) else find_named name rest)"

text \<open>The loop over the names; \<open>found_bits\<close> is \<open>None\<close> until \<open>bits_valid\<close>.\<close>

fun names_loop :: "platform \<Rightarrow> DagData \<Rightarrow> BuildTupleData \<Rightarrow> string list \<Rightarrow> u32 list option \<Rightarrow> nat list \<Rightarrow> nat list result" where
  "names_loop pl dag tuple [] found_bits out_nodes = Inr out_nodes"
| "names_loop pl dag tuple (name # names) found_bits out_nodes =
     (case find_named name (bt_NamedNodes tuple) of
        Some node_index \<Rightarrow> names_loop pl dag tuple names found_bits (out_nodes @ [node_index])
      | None \<Rightarrow>
       (case search_name pl name of
          Inl e \<Rightarrow> Inl e
        | Inr filename \<Rightarrow>
         (case (case found_bits of Some node_bits \<Rightarrow> Inr node_bits
                | None \<Rightarrow> FindReachableNodes (replicate (word_count (length (dag_NodeData dag))) 0) dag tuple) of
            Inl e \<Rightarrow> Inl e
          | Inr node_bits \<Rightarrow>
           (case words_loop (pl_nocase pl) dag filename (Djb2HashPath (pl_nocase pl) filename) 0 node_bits of
              Inl e \<Rightarrow> Inl e
            | Inr (Some node_index) \<Rightarrow> names_loop pl dag tuple names (Some node_bits) (out_nodes @ [node_index])
            | Inr None \<Rightarrow> names_loop pl dag tuple names (Some node_bits) out_nodes))))"

definition FindNodesByName :: "platform \<Rightarrow> DagData \<Rightarrow> nat list \<Rightarrow> string list \<Rightarrow> BuildTupleData \<Rightarrow> nat list result" where
  "FindNodesByName pl dag out_nodes names tuple = names_loop pl dag tuple names None out_nodes"

fun specs_loop :: "platform \<Rightarrow> DagData \<Rightarrow> string list \<Rightarrow> TargetSpec list \<Rightarrow> nat list \<Rightarrow> nat list result" where
  "specs_loop pl dag named_targets [] out_nodes = Inr out_nodes"
| "specs_loop pl dag named_targets (spec # specs) out_nodes =
     (case FindBuildTuple dag spec of
        None \<Rightarrow> Inl (Croak ''couldn't find build tuple in DAG'')
      | Some tuple \<Rightarrow>
         (case (if length named_targets > 0 then FindNodesByName pl dag out_nodes named_targets tuple
                else Inr (out_nodes @ bt_DefaultNodes tuple)) of
            Inl e \<Rightarrow> Inl e
          | Inr out_nodes \<Rightarrow> specs_loop pl dag named_targets specs (out_nodes @ bt_AlwaysNodes tuple)))"

definition DriverSelectNodes :: "platform \<Rightarrow> DagData \<Rightarrow> string list \<Rightarrow> nat list result" where
  "DriverSelectNodes pl dag targets =
     (case SelectTargets
         \<lparr>tsi_ConfigNameHashes = dag_ConfigNameHashes dag, tsi_VariantNameHashes = dag_VariantNameHashes dag,
          tsi_SubVariantNameHashes = dag_SubVariantNameHashes dag, tsi_InputNames = targets,
          tsi_DefaultConfigIndex = dag_DefaultConfigIndex dag,
          tsi_DefaultVariantIndex = dag_DefaultVariantIndex dag,
          tsi_DefaultSubVariantIndex = dag_DefaultSubVariantIndex dag\<rparr> [] [] of
        Inl e \<Rightarrow> Inl e
      | Inr (target_specs, named_targets) \<Rightarrow>
         (case specs_loop pl dag named_targets target_specs [] of
            Inl e \<Rightarrow> Inl e
          | Inr out_nodes \<Rightarrow> Inr (remdups_adj (sort out_nodes))))"

section \<open>Preparing the node states\<close>

record visit =
  w_node_stack :: "nat list"
  w_visited_bits :: "u32 list"
  w_node_indices :: "nat list"
  w_PassNodeCount :: "int list"

function visit_loop :: "DagData \<Rightarrow> visit \<Rightarrow> visit result" where
  "visit_loop dag w =
     (if w_node_stack w = [] then Inr w
      else let dag_index = last (w_node_stack w); w = w\<lparr>w_node_stack := butlast (w_node_stack w)\<rparr>
           in if \<not> dag_index div 32 < length (w_visited_bits w) then Inl (Overrun ''node_visited_bits'')
              else if test_node_bit (w_visited_bits w) dag_index then visit_loop dag w
              else if \<not> dag_index < length (dag_NodeData dag) then Inl (Overrun ''m_NodeData'')
              else let node = dag_NodeData dag ! dag_index
                   in if \<not> (of_int (nd_PassIndex node) :: u32) < of_nat (length (dag_Passes dag)) then Inl check_failure
                      else if \<not> nat (nd_PassIndex node) < length (w_PassNodeCount w) then Inl (Overrun ''m_PassNodeCount'')
                      else visit_loop dag
                        \<lparr>w_node_stack = w_node_stack w @ nd_Dependencies node,
                         w_visited_bits = set_node_bit (w_visited_bits w) dag_index,
                         w_node_indices = w_node_indices w @ [dag_index],
                         w_PassNodeCount = (w_PassNodeCount w)[nat (nd_PassIndex node) :=
                           w_PassNodeCount w ! nat (nd_PassIndex node) + 1]\<rparr>)"
  by pat_completeness auto
termination
  by (relation "measures [\<lambda>(_, w). card (unmarked (w_visited_bits w)), \<lambda>(_, w). length (w_node_stack w)]")
    (auto simp: unmarked_set)

declare visit_loop.simps [simp del]

text \<open>A zeroed \<open>NodeState\<close> with its data pointer, its pass and the state saved by an earlier build.\<close>

definition zero_state :: NodeState where
  "zero_state = \<lparr>ns_Flags = 0, ns_PassIndex = 0, ns_Progress = kInitial, ns_MmapData = 0, ns_MmapState = None,
     ns_BuildResult = 0, ns_InputSignature = (0, 0)\<rparr>"

definition old_state :: "StateData option \<Rightarrow> digest \<Rightarrow> NodeStateData option" where
  "old_state state_data src_guid =
     (case state_data of
        None \<Rightarrow> None
      | Some st \<Rightarrow> map_option (\<lambda>state_index. st_NodeStates st ! state_index)
                   (BinarySearch (st_NodeGuids st) (int (length (st_NodeGuids st))) src_guid))"

definition new_state :: "DagData \<Rightarrow> StateData option \<Rightarrow> nat \<Rightarrow> NodeState" where
  "new_state dag state_data index =
     zero_state\<lparr>ns_MmapData := index, ns_PassIndex := of_int (nd_PassIndex (dag_NodeData dag ! index)),
       ns_MmapState := old_state state_data (dag_NodeGuids dag ! index)\<rparr>"

fun remap_loop :: "NodeState list \<Rightarrow> nat \<Rightarrow> int list \<Rightarrow> int list result" where
  "remap_loop [] local_index node_remap = Inr node_remap"
| "remap_loop (st # states) local_index node_remap =
     (if node_remap ! ns_MmapData st \<noteq> - 1 then Inl check_failure
      else remap_loop states (Suc local_index) (node_remap[ns_MmapData st := int local_index]))"

text \<open>
  \<open>sort\<close> is \<open>std::sort\<close> with the comparison of pass indices, which may order nodes of the same pass
  in any way. \<open>BufferAllocFill\<close> returns the start of the array only where the buffer was empty.
\<close>

definition DriverPrepareNodes ::
  "platform \<Rightarrow> (NodeState list \<Rightarrow> NodeState list) \<Rightarrow> Driver \<Rightarrow> string list \<Rightarrow> Driver result" where
  "DriverPrepareNodes pl std_sort self targets =
     (let dag = dr_DagData self
      in case DriverSelectNodes pl dag targets of
        Inl e \<Rightarrow> Inl e
      | Inr node_stack \<Rightarrow>
       (case visit_loop dag \<lparr>w_node_stack = node_stack,
            w_visited_bits = replicate (word_count (length (dag_NodeData dag))) 0,
            w_node_indices = [], w_PassNodeCount = dr_PassNodeCount self\<rparr> of
          Inl e \<Rightarrow> Inl e
        | Inr w \<Rightarrow>
            let out_nodes = std_sort (map (new_state dag (dr_StateData self)) (w_node_indices w))
            in if dr_NodeRemap self \<noteq> [] then Inl check_failure
               else case remap_loop out_nodes 0 (replicate (length (dag_NodeData dag)) (- 1)) of
                      Inl e \<Rightarrow> Inl e
                    | Inr node_remap \<Rightarrow>
                        Inr (self\<lparr>dr_Nodes := dr_Nodes self @ out_nodes, dr_NodeRemap := node_remap,
                                  dr_PassNodeCount := w_PassNodeCount w\<rparr>)))"

section \<open>Building\<close>

definition max_expensive_count :: "Driver \<Rightarrow> int" where
  "max_expensive_count self =
     (let n = dag_MaxExpensiveCount (dr_DagData self); threads = do_ThreadCount (dr_Options self)
      in if n < 0 then threads else max (min n threads) 1)"

text \<open>The checks of pass indices and of the remapping table before a build.\<close>

fun check_passes :: "NodeState list \<Rightarrow> int list \<Rightarrow> nat \<Rightarrow> nat \<Rightarrow> bool" where
  "check_passes nodes [] pass i \<longleftrightarrow> i = length nodes"
| "check_passes nodes (n # counts) pass i \<longleftrightarrow>
     list_all (\<lambda>k. k < length nodes \<and> ns_PassIndex (nodes ! k) = of_nat pass) [i..<i + nat n] \<and>
     check_passes nodes counts (Suc pass) (i + nat n)"

definition check_remap :: "NodeState list \<Rightarrow> int list \<Rightarrow> bool" where
  "check_remap nodes node_remap \<longleftrightarrow>
     list_all (\<lambda>i. node_remap ! ns_MmapData (nodes ! i) = int i) [0..<length nodes]"

text \<open>\<open>DriverBuild\<close> up to the loop over the passes.\<close>

definition DriverBuild_begin :: "Driver \<Rightarrow> BuildQueue option" where
  "DriverBuild_begin self = do {
     CHECK (check_passes (dr_Nodes self) (take (length (dag_Passes (dr_DagData self))) (dr_PassNodeCount self)) 0 0);
     CHECK (check_remap (dr_Nodes self) (dr_NodeRemap self));
     BuildQueueInit (do_ContinueOnError (dr_Options self)) (do_ThreadCount (dr_Options self))
       (dag_NodeData (dr_DagData self)) (dr_Nodes self) (dr_NodeRemap self) (max_expensive_count self)
   }"

text \<open>
  The loop over the passes: \<open>driver_pass self pass global_node_index queue\<close> holds at the head of the
  loop while the result is \<open>kOk\<close>. Each pass is an execution of \<open>BuildQueueBuildNodeRange\<close> under
  an arbitrary interleaving of the build threads.
\<close>

inductive driver_pass :: "Driver \<Rightarrow> nat \<Rightarrow> nat \<Rightarrow> BuildQueue \<Rightarrow> bool" where
  begin_passes: "DriverBuild_begin self = Some queue \<Longrightarrow> driver_pass self 0 0 queue"
| next_pass: "\<lbrakk>driver_pass self pass start queue; pass < length (dag_Passes (dr_DagData self));
     pass_start queue start (nat (dr_PassNodeCount self ! pass)) (int pass) (nat (do_ThreadCount (dr_Options self))) = Some sys0;
     build_step\<^sup>*\<^sup>* sys0 sys; bs_threads sys ! 0 = Exited;
     BuildQueueBuildNodeRange_result (bs_queue sys) (bs_signalled sys) = kOk\<rbrakk> \<Longrightarrow>
   driver_pass self (Suc pass) (start + nat (dr_PassNodeCount self ! pass)) (bs_queue sys)"

inductive DriverBuild :: "Driver \<Rightarrow> BuildResult \<Rightarrow> BuildQueue \<Rightarrow> bool" where
  all_passes: "driver_pass self (length (dag_Passes (dr_DagData self))) start queue \<Longrightarrow> DriverBuild self kOk queue"
| failed_pass: "\<lbrakk>driver_pass self pass start queue; pass < length (dag_Passes (dr_DagData self));
     pass_start queue start (nat (dr_PassNodeCount self ! pass)) (int pass) (nat (do_ThreadCount (dr_Options self))) = Some sys0;
     build_step\<^sup>*\<^sup>* sys0 sys; bs_threads sys ! 0 = Exited;
     BuildQueueBuildNodeRange_result (bs_queue sys) (bs_signalled sys) = result; result \<noteq> kOk\<rbrakk> \<Longrightarrow>
   DriverBuild self result (bs_queue sys)"

end
