(* ===== verification/T2_Driver.thy ===== *)
theory T2_Driver
  imports T2_DriverNodes
begin

text \<open>
  What the driver guarantees to the build queue: the nodes it prepares are exactly those that
  can be reached from the selected ones, its tables satisfy what the queue relies on, every pass
  of a build starts in a state from which the properties of \<open>T2_BuildPasses\<close> hold, and a build
  that returns \<open>kOk\<close> has built everything that was selected.
\<close>

section \<open>Reachable nodes\<close>

definition deps :: "DagData \<Rightarrow> nat \<Rightarrow> nat set" where
  "deps dag i = set (nd_Dependencies (dag_NodeData dag ! i))"

definition reachable :: "DagData \<Rightarrow> nat set \<Rightarrow> nat set" where
  "reachable dag S = {(i, d). d \<in> deps dag i}\<^sup>* `` S"

text \<open>
  A search with marked nodes \<open>M\<close> and pending nodes \<open>P\<close>: both the recursion of \<open>FindReachable\<close>
  and the stack of \<open>DriverPrepareNodes\<close> are instances.
\<close>

definition search :: "DagData \<Rightarrow> nat set \<Rightarrow> nat set \<Rightarrow> nat set \<Rightarrow> bool" where
  "search dag S M P \<longleftrightarrow> M \<union> P \<subseteq> reachable dag S \<and> S \<subseteq> M \<union> P \<and> (\<forall>i \<in> M. deps dag i \<subseteq> M \<union> P)"

lemma search_start: "search dag S {} S"
  by (auto simp: search_def reachable_def)

lemma search_skip: "search dag S M (insert i P) \<Longrightarrow> i \<in> M \<Longrightarrow> search dag S M P"
  by (auto simp: search_def insert_absorb)

lemma search_visit:
  assumes "search dag S M (insert i P)" shows "search dag S (insert i M) (deps dag i \<union> P)"
proof -
  have "i \<in> reachable dag S" using assms by (simp add: search_def)
  then have "deps dag i \<subseteq> reachable dag S"
    by (auto simp: reachable_def intro: rtrancl.rtrancl_into_rtrancl)
  then show ?thesis using assms by (fastforce simp: search_def)
qed

lemma search_end:
  assumes "search dag S M {}" shows "M = reachable dag S"
proof
  show "M \<subseteq> reachable dag S" using assms by (simp add: search_def)
  have "j \<in> M" if "(i, j) \<in> {(i, d). d \<in> deps dag i}\<^sup>*" "i \<in> M" for i j
    using that by (induction rule: rtrancl_induct) (use assms in \<open>auto simp: search_def\<close>)
  then show "reachable dag S \<subseteq> M" using assms by (auto simp: search_def reachable_def)
qed

lemma reachable_subset:
  assumes "S \<subseteq> A" "\<And>i. i \<in> A \<Longrightarrow> deps dag i \<subseteq> A" shows "reachable dag S \<subseteq> A"
proof -
  have "j \<in> A" if "(i, j) \<in> {(i, d). d \<in> deps dag i}\<^sup>*" "i \<in> A" for i j
    using that by (induction rule: rtrancl_induct) (use assms(2) in auto)
  then show ?thesis using assms(1) by (auto simp: reachable_def)
qed

lemma reachable_closed: "i \<in> reachable dag S \<Longrightarrow> deps dag i \<subseteq> reachable dag S"
  by (auto simp: reachable_def intro: rtrancl.rtrancl_into_rtrancl)

section \<open>Well-formed DAGs\<close>

text \<open>
  What the DAG generator promises: indices are in range, dependencies have no cycle and lie in no
  later pass, a back link leads from a node to each of its dependents, and an expensive node
  has a command line.
\<close>

definition node_wf :: "DagData \<Rightarrow> nat \<Rightarrow> bool" where
  "node_wf dag i \<longleftrightarrow>
     0 \<le> nd_PassIndex (dag_NodeData dag ! i) \<and> nd_PassIndex (dag_NodeData dag ! i) < int (length (dag_Passes dag)) \<and>
     (\<forall>d \<in> deps dag i. d < length (dag_NodeData dag) \<and>
        nd_PassIndex (dag_NodeData dag ! d) \<le> nd_PassIndex (dag_NodeData dag ! i) \<and>
        i \<in> set (nd_BackLinks (dag_NodeData dag ! d))) \<and>
     (\<forall>b \<in> set (nd_BackLinks (dag_NodeData dag ! i)). b < length (dag_NodeData dag)) \<and>
     (is_expensive (dag_NodeData dag ! i) \<longrightarrow> \<not> empty_action (dag_NodeData dag ! i))"

definition tuple_nodes :: "BuildTupleData \<Rightarrow> nat set" where
  "tuple_nodes tuple =
     set (bt_DefaultNodes tuple) \<union> set (bt_AlwaysNodes tuple) \<union> nn_NodeIndex ` set (bt_NamedNodes tuple)"

definition dag_wf :: "DagData \<Rightarrow> bool" where
  "dag_wf dag \<longleftrightarrow> length (dag_NodeData dag) < 2 ^ 31 \<and> length (dag_Passes dag) \<le> kMaxPasses \<and>
     (\<forall>i < length (dag_NodeData dag). node_wf dag i) \<and>
     (\<exists>rank :: nat \<Rightarrow> nat. \<forall>i < length (dag_NodeData dag). \<forall>d \<in> deps dag i. rank d < rank i) \<and>
     (\<forall>tuple \<in> set (dag_BuildTuples dag). tuple_nodes tuple \<subseteq> {..<length (dag_NodeData dag)})"

lemma dag_wfD:
  assumes "dag_wf dag" "i < length (dag_NodeData dag)"
  shows "0 \<le> nd_PassIndex (dag_NodeData dag ! i)" "nd_PassIndex (dag_NodeData dag ! i) < int (length (dag_Passes dag))"
    "nd_PassIndex (dag_NodeData dag ! i) < 64" "node_wf dag i"
    "d \<in> deps dag i \<Longrightarrow> d < length (dag_NodeData dag)"
proof -
  show n: "node_wf dag i" using assms by (simp add: dag_wf_def)
  then show a: "0 \<le> nd_PassIndex (dag_NodeData dag ! i)" "nd_PassIndex (dag_NodeData dag ! i) < int (length (dag_Passes dag))"
    "d \<in> deps dag i \<Longrightarrow> d < length (dag_NodeData dag)"
    by (simp_all add: node_wf_def)
  show "nd_PassIndex (dag_NodeData dag ! i) < 64" using a(2) assms(1) by (simp add: dag_wf_def kMaxPasses_def)
qed

lemma word_count_bound: "i < n \<Longrightarrow> i div 32 < word_count n"
  by (simp add: word_count_def)

section \<open>Walking the dependencies\<close>

definition pass_count :: "DagData \<Rightarrow> nat \<Rightarrow> nat list \<Rightarrow> int" where
  "pass_count dag p is = int (length (filter (\<lambda>i. nd_PassIndex (dag_NodeData dag ! i) = int p) is))"

definition walk_ok :: "DagData \<Rightarrow> nat set \<Rightarrow> visit \<Rightarrow> bool" where
  "walk_ok dag S w \<longleftrightarrow> search dag S (marked (w_visited_bits w)) (set (w_node_stack w)) \<and>
     set (w_node_indices w) = marked (w_visited_bits w) \<and> distinct (w_node_indices w) \<and>
     length (w_visited_bits w) = word_count (length (dag_NodeData dag)) \<and>
     set (w_node_stack w) \<subseteq> {..<length (dag_NodeData dag)} \<and> length (w_PassNodeCount w) = 64 \<and>
     (\<forall>p < 64. w_PassNodeCount w ! p = pass_count dag p (w_node_indices w))"

lemma pass_check:
  assumes "0 \<le> p" "p < int n" "n \<le> 64"
  shows "(of_int p :: u32) < of_nat n"
proof -
  have "uint (of_int p :: u32) = p" "uint (of_nat n :: u32) = int n"
    using assms by (simp_all add: take_bit_int_eq_self take_bit_nat_eq_self uint_word_of_int_eq unsigned_of_nat)
  then show ?thesis using assms by (simp add: word_less_def)
qed

lemma visit_loop_ok:
  assumes "dag_wf dag" "walk_ok dag S w"
  shows "\<exists>w'. visit_loop dag w = Inr w' \<and> walk_ok dag S w' \<and> w_node_stack w' = []"
  using assms
proof (induction dag w rule: visit_loop.induct)
  case (1 dag w)
  show ?case
  proof (cases "w_node_stack w = []")
    case True
    then show ?thesis using 1 by (subst visit_loop.simps) simp
  next
    case False
    define i where "i = last (w_node_stack w)"
    define v where "v = w\<lparr>w_node_stack := butlast (w_node_stack w)\<rparr>"
    have st: "set (w_node_stack w) = insert i (set (w_node_stack v))"
      using arg_cong [OF append_butlast_last_id [OF False], of set] by (simp add: v_def i_def)
    have i: "i < length (dag_NodeData dag)" using 1(4) st by (auto simp: walk_ok_def)
    then have w32: "i div 32 < length (w_visited_bits v)" using 1(4) word_count_bound by (simp add: walk_ok_def v_def)
    note srch = 1(4) [unfolded walk_ok_def st]
    let ?nd = "dag_NodeData dag ! i"
    show ?thesis
    proof (cases "test_node_bit (w_visited_bits v) i")
      case True
      then have "i \<in> marked (w_visited_bits w)" using w32 by (simp add: marked_def v_def)
      then have "walk_ok dag S v" using srch st by (auto simp: walk_ok_def v_def intro: search_skip)
      then show ?thesis using 1(1) [OF False i_def v_def] True w32 1(3) False
        by (subst visit_loop.simps) (simp add: Let_def flip: i_def v_def)
    next
      case unm: False
      then have ni: "i \<notin> set (w_node_indices v)" using srch by (simp add: marked_def v_def)
      note p = dag_wfD [OF 1(3) i]
      have chk: "(of_int (nd_PassIndex ?nd) :: u32) < of_nat (length (dag_Passes dag))"
        using p(1,2) 1(3) by (intro pass_check) (auto simp: dag_wf_def kMaxPasses_def)
      have cnt: "nat (nd_PassIndex ?nd) < length (w_PassNodeCount v)" using p srch by (simp add: v_def)
      let ?v' = "\<lparr>w_node_stack = w_node_stack v @ nd_Dependencies ?nd,
         w_visited_bits = set_node_bit (w_visited_bits v) i, w_node_indices = w_node_indices v @ [i],
         w_PassNodeCount = (w_PassNodeCount v)[nat (nd_PassIndex ?nd) := w_PassNodeCount v ! nat (nd_PassIndex ?nd) + 1]\<rparr>"
      have "search dag S (insert i (marked (w_visited_bits v))) (deps dag i \<union> set (w_node_stack v))"
        using srch by (intro search_visit) (simp add: v_def)
      then have "walk_ok dag S ?v'"
        using srch st ni w32 p(1,5) cnt
        by (auto simp: walk_ok_def deps_def v_def Un_commute pass_count_def nth_list_update nat_eq_iff)
      then show ?thesis using 1(2) [OF False i_def v_def _ unm] w32 i chk cnt 1(3) False unm
        by (subst visit_loop.simps) (simp add: Let_def flip: i_def v_def)
    qed
  qed
qed

lemma FindReachable_marks:
  assumes "dag_wf dag" "search dag S (marked node_bits) (set pending)" "set pending \<subseteq> {..<length (dag_NodeData dag)}"
    "length node_bits = word_count (length (dag_NodeData dag))"
  shows "\<exists>node_bits'. FindReachable node_bits dag pending = Inr node_bits' \<and> marked node_bits' = reachable dag S \<and>
    length node_bits' = length node_bits"
  using assms
proof (induction node_bits dag pending rule: FindReachable.induct)
  case (1 node_bits dag)
  then show ?case by (simp add: search_end)
next
  case (2 node_bits dag index pending)
  have i: "index < length (dag_NodeData dag)" "index div 32 < length node_bits"
    using 2(5,6) word_count_bound by simp_all
  have "search dag S (marked node_bits) (set pending)" if "test_node_bit node_bits index"
    using search_skip 2(4) i(2) that by (simp add: marked_def)
  moreover have "search dag S (insert index (marked node_bits)) (deps dag index \<union> set pending)"
    using search_visit 2(4) by simp
  ultimately show ?case
    using 2 i dag_wfD(5) [OF 2(3) i(1)] by (auto simp: deps_def)
qed

lemma bits_loop_index: "bits_loop nocase dag f h b w = Inr (Some i) \<Longrightarrow> i < length (dag_NodeData dag)"
  by (induction nocase dag f h b w rule: bits_loop.induct)
    (subst (asm) (2) bits_loop.simps, auto simp: Let_def split: if_splits)

lemma words_loop_index: "words_loop nocase dag f h b ws = Inr (Some i) \<Longrightarrow> i < length (dag_NodeData dag)"
  by (induction nocase dag f h b ws rule: words_loop.induct)
    (auto dest: bits_loop_index split: sum.splits option.splits)

lemma find_named_index: "find_named nm named = Some i \<Longrightarrow> i \<in> nn_NodeIndex ` set named"
  by (induction named) (auto split: if_splits)

lemma names_loop_index:
  assumes "names_loop pl dag tuple names found out = Inr nodes" "nn_NodeIndex ` set (bt_NamedNodes tuple) \<subseteq> {..<length (dag_NodeData dag)}"
    "set out \<subseteq> {..<length (dag_NodeData dag)}"
  shows "set nodes \<subseteq> {..<length (dag_NodeData dag)}"
  using assms
proof (induction pl dag tuple names found out rule: names_loop.induct)
  case (2 pl dag tuple nm names found out)
  show ?case
  proof (cases "find_named nm (bt_NamedNodes tuple)")
    case (Some i)
    then have "i < length (dag_NodeData dag)" using find_named_index [OF Some] 2(5,6) by blast
    then show ?thesis using 2(3) [OF Some] 2(4-) Some by simp
  next
    case None
    obtain filename node_bits found_node where
        step: "search_name pl nm = Inr filename"
          "(case found of Some node_bits \<Rightarrow> Inr node_bits
            | None \<Rightarrow> FindReachableNodes (replicate (word_count (length (dag_NodeData dag))) 0) dag tuple) = Inr node_bits"
          "words_loop (pl_nocase pl) dag filename (Djb2HashPath (pl_nocase pl) filename) 0 node_bits = Inr found_node"
      using 2(4) None by (simp split: sum.splits)
    show ?thesis
    proof (cases found_node)
      case None
      then show ?thesis using 2(1) [OF \<open>find_named nm (bt_NamedNodes tuple) = None\<close> step(1,2)] step 2(4-)
        by (simp add: \<open>find_named nm (bt_NamedNodes tuple) = None\<close>)
    next
      case (Some i)
      then have "i < length (dag_NodeData dag)" using step(3) words_loop_index by blast
      then show ?thesis using 2(2) [OF \<open>find_named nm (bt_NamedNodes tuple) = None\<close> step(1,2)] step 2(4-) Some
        by (simp add: \<open>find_named nm (bt_NamedNodes tuple) = None\<close>)
    qed
  qed
qed simp

lemma FindBuildTuple_in: "FindBuildTuple dag spec = Some tuple \<Longrightarrow> tuple \<in> set (dag_BuildTuples dag)"
proof -
  have "FindBuildTuple_loop ts spec = Some tuple \<Longrightarrow> tuple \<in> set ts" for ts
    by (induction ts) (auto split: if_splits)
  then show "FindBuildTuple dag spec = Some tuple \<Longrightarrow> tuple \<in> set (dag_BuildTuples dag)"
    by (simp add: FindBuildTuple_def)
qed

lemma specs_loop_index:
  assumes "dag_wf dag" "specs_loop pl dag named specs out = Inr nodes" "set out \<subseteq> {..<length (dag_NodeData dag)}"
  shows "set nodes \<subseteq> {..<length (dag_NodeData dag)}"
  using assms(2,3)
proof (induction specs arbitrary: out)
  case (Cons spec specs)
  obtain tuple where t: "FindBuildTuple dag spec = Some tuple" using Cons.prems(1) by (auto split: option.splits)
  have tn: "tuple_nodes tuple \<subseteq> {..<length (dag_NodeData dag)}"
    using assms(1) FindBuildTuple_in [OF t] by (simp add: dag_wf_def)
  obtain out' where o: "(if length named > 0 then FindNodesByName pl dag out named tuple
      else Inr (out @ bt_DefaultNodes tuple)) = Inr out'"
      "specs_loop pl dag named specs (out' @ bt_AlwaysNodes tuple) = Inr nodes"
    using Cons.prems(1) t by (auto split: sum.splits if_splits)
  have "set out' \<subseteq> {..<length (dag_NodeData dag)}"
    using o(1) Cons.prems(2) tn names_loop_index [of pl dag tuple named None out out']
    by (auto simp: FindNodesByName_def tuple_nodes_def split: if_splits)
  then show ?case using Cons.IH [OF o(2)] tn by (simp add: tuple_nodes_def)
qed simp

lemma DriverSelectNodes_index:
  assumes "dag_wf dag" "DriverSelectNodes pl dag targets = Inr nodes"
  shows "set nodes \<subseteq> {..<length (dag_NodeData dag)}"
proof -
  obtain specs named out where "specs_loop pl dag named specs [] = Inr out" "nodes = remdups_adj (sort out)"
    using assms(2) by (auto simp: DriverSelectNodes_def split: sum.splits)
  then show ?thesis using specs_loop_index [OF assms(1)] by fastforce
qed

section \<open>The node states\<close>

text \<open>What \<open>std::sort\<close> promises: a permutation in which the passes ascend.\<close>

definition sorts_by_pass :: "(NodeState list \<Rightarrow> NodeState list) \<Rightarrow> bool" where
  "sorts_by_pass std_sort \<longleftrightarrow> (\<forall>xs. mset (std_sort xs) = mset xs \<and> sorted (map ns_PassIndex (std_sort xs)))"

lemma remap_loop_ok:
  assumes "distinct (map ns_MmapData states)"
    "\<forall>st \<in> set states. ns_MmapData st < length remap \<and> remap ! ns_MmapData st = - 1"
  shows "\<exists>remap'. remap_loop states k remap = Inr remap' \<and> length remap' = length remap \<and>
    (\<forall>i < length states. remap' ! ns_MmapData (states ! i) = int (k + i)) \<and>
    (\<forall>d. d \<notin> ns_MmapData ` set states \<longrightarrow> remap' ! d = remap ! d)"
  using assms
proof (induction states arbitrary: k remap)
  case (Cons st states)
  let ?r = "remap[ns_MmapData st := int k]"
  have "\<exists>remap'. remap_loop states (Suc k) ?r = Inr remap' \<and> length remap' = length ?r \<and>
    (\<forall>i < length states. remap' ! ns_MmapData (states ! i) = int (Suc k + i)) \<and>
    (\<forall>d. d \<notin> ns_MmapData ` set states \<longrightarrow> remap' ! d = ?r ! d)"
    using Cons.prems by (intro Cons.IH) (auto simp: nth_list_update)
  then obtain remap' where r: "remap_loop states (Suc k) ?r = Inr remap'" "length remap' = length ?r"
    "\<forall>i < length states. remap' ! ns_MmapData (states ! i) = int (Suc k + i)"
    "\<forall>d. d \<notin> ns_MmapData ` set states \<longrightarrow> remap' ! d = ?r ! d" by blast
  have "remap' ! ns_MmapData ((st # states) ! i) = int (k + i)" if "i < length (st # states)" for i
    using that r(3,4) Cons.prems by (cases i) auto
  then show ?case using r Cons.prems by auto
qed simp

text \<open>In a sorted list the elements below a bound come first.\<close>

lemma sorted_below:
  assumes "sorted ps" "i < length ps"
  shows "i < length (filter (\<lambda>x. x < p) ps) \<longleftrightarrow> ps ! i < (p :: 'a::linorder)"
  using assms
proof (induction ps arbitrary: i)
  case (Cons a ps)
  show ?case
  proof (cases "a < p")
    case True
    then show ?thesis using Cons by (cases i) auto
  next
    case False
    then have "filter (\<lambda>x. x < p) ps = []" using Cons.prems(1) by (auto simp: filter_empty_conv)
    moreover have "\<not> (a # ps) ! i < p"
      using False Cons.prems by (cases i) (auto dest!: nth_mem)
    ultimately show ?thesis using False by simp
  qed
qed simp

lemma length_filter_step:
  "length (filter (\<lambda>x. f x < int (Suc p)) xs) =
   length (filter (\<lambda>x. f x < int p) xs) + length (filter (\<lambda>x. f x = int p) xs)"
  by (induction xs) auto

definition state_pass :: "Driver \<Rightarrow> NodeState \<Rightarrow> int" where
  "state_pass self st = nd_PassIndex (dag_NodeData (dr_DagData self) ! ns_MmapData st)"

text \<open>What \<open>DriverPrepareNodes\<close> leaves in the driver when the nodes to build are \<open>R\<close>.\<close>

definition prepared :: "Driver \<Rightarrow> nat set \<Rightarrow> bool" where
  "prepared self R \<longleftrightarrow> distinct (map ns_MmapData (dr_Nodes self)) \<and> ns_MmapData ` set (dr_Nodes self) = R \<and>
     (\<forall>st \<in> set (dr_Nodes self). st = new_state (dr_DagData self) (dr_StateData self) (ns_MmapData st)) \<and>
     sorted (map (state_pass self) (dr_Nodes self)) \<and> length (dr_PassNodeCount self) = 64 \<and>
     (\<forall>p < 64. dr_PassNodeCount self ! p = int (length (filter (\<lambda>st. state_pass self st = int p) (dr_Nodes self)))) \<and>
     length (dr_NodeRemap self) = length (dag_NodeData (dr_DagData self)) \<and>
     (\<forall>i < length (dr_Nodes self). dr_NodeRemap self ! ns_MmapData (dr_Nodes self ! i) = int i) \<and>
     (\<forall>d < length (dag_NodeData (dr_DagData self)). d \<notin> R \<longrightarrow> dr_NodeRemap self ! d = - 1)"

lemma new_state_sel [simp]:
  "ns_MmapData (new_state dag st i) = i" "ns_PassIndex (new_state dag st i) = of_int (nd_PassIndex (dag_NodeData dag ! i))"
  "ns_Flags (new_state dag st i) = 0" "ns_Progress (new_state dag st i) = kInitial"
  by (simp_all add: new_state_def zero_state_def)

lemma sorted_passes:
  assumes "sorted (map (\<lambda>x. of_int (f x) :: u16) xs)" "\<forall>x \<in> set xs. 0 \<le> f x \<and> f x < 64"
  shows "sorted (map f xs)"
proof -
  have u: "uint (of_int (f x) :: u16) = f x" if "x \<in> set xs" for x
    using assms(2) that by (simp add: uint_word_of_int_eq) (fastforce intro!: take_bit_int_eq_self)
  have "sorted (map (\<lambda>x. uint (of_int (f x) :: u16)) xs)"
    using assms(1) by (simp add: sorted_map word_le_def)
  then show ?thesis using u by (simp cong: map_cong)
qed

lemma DriverPrepareNodes_ok:
  assumes wf: "dag_wf dag" and srt: "sorts_by_pass std_sort" and sel: "DriverSelectNodes pl dag targets = Inr roots"
  shows "\<exists>self. DriverPrepareNodes pl std_sort (DriverInit options dag state_data) targets = Inr self \<and>
    prepared self (reachable dag (set roots)) \<and> dr_DagData self = dag \<and> dr_Options self = options \<and>
    dr_StateData self = state_data"
proof -
  let ?n = "length (dag_NodeData dag)" and ?R = "reachable dag (set roots)"
  let ?w = "\<lparr>w_node_stack = roots, w_visited_bits = replicate (word_count ?n) 0, w_node_indices = [],
     w_PassNodeCount = replicate kMaxPasses 0\<rparr>"
  have roots: "set roots \<subseteq> {..<?n}" by (rule DriverSelectNodes_index [OF wf sel])
  then have "walk_ok dag (set roots) ?w"
    by (simp add: walk_ok_def search_start pass_count_def kMaxPasses_def)
  from visit_loop_ok [OF wf this] obtain w where w: "visit_loop dag ?w = Inr w" "walk_ok dag (set roots) w" "w_node_stack w = []"
    by blast
  let ?is = "w_node_indices w" and ?new = "new_state dag state_data"
  have R: "set ?is = ?R" and dist: "distinct ?is" and cnt: "length (w_PassNodeCount w) = 64"
      "\<forall>p < 64. w_PassNodeCount w ! p = pass_count dag p ?is"
    using w(2,3) by (auto simp: walk_ok_def dest: search_end)
  have Rn: "?R \<subseteq> {..<?n}" using roots dag_wfD(5) [OF wf] by (intro reachable_subset) auto
  define states where "states = std_sort (map ?new ?is)"
  have perm: "mset states = mset (map ?new ?is)" and sorted: "sorted (map ns_PassIndex states)"
    using srt by (simp_all add: sorts_by_pass_def states_def)
  have set: "set states = ?new ` ?R" using arg_cong [OF perm, of set_mset] R by simp
  then have st: "st = ?new (ns_MmapData st)" "ns_MmapData st \<in> ?R" "ns_MmapData st < ?n" if "st \<in> set states" for st
    using that Rn by auto
  have "mset (map ns_MmapData states) = mset ?is"
    using arg_cong [OF perm, of "image_mset ns_MmapData"] by (simp add: multiset.map_comp comp_def)
  then have d: "distinct (map ns_MmapData states)" using dist by (metis mset_eq_imp_distinct_iff)
  have img: "ns_MmapData ` set states = ?R" unfolding set by (simp add: image_image)
  obtain remap where r: "remap_loop states 0 (replicate ?n (- 1)) = Inr remap" "length remap = ?n"
    "\<forall>i < length states. remap ! ns_MmapData (states ! i) = int i"
    "\<forall>d. d \<notin> ns_MmapData ` set states \<longrightarrow> remap ! d = replicate ?n (- 1) ! d"
    using remap_loop_ok [OF d, of "replicate ?n (- 1)" 0] st(3) by auto
  define self where "self = (DriverInit options dag state_data)\<lparr>dr_Nodes := states, dr_NodeRemap := remap,
     dr_PassNodeCount := w_PassNodeCount w\<rparr>"
  have prep: "DriverPrepareNodes pl std_sort (DriverInit options dag state_data) targets = Inr self"
    using w(1) r(1) sel by (simp add: DriverPrepareNodes_def DriverInit_def Let_def self_def flip: states_def)
  let ?p = "\<lambda>i. nd_PassIndex (dag_NodeData dag ! i)"
  have sp: "state_pass self = (\<lambda>st. ?p (ns_MmapData st))" by (simp add: state_pass_def self_def DriverInit_def fun_eq_iff)
  have "map ns_PassIndex states = map (\<lambda>st. of_int (?p (ns_MmapData st))) states"
    using st(1) by (intro map_cong refl) (metis new_state_sel(2))
  then have "sorted (map (\<lambda>st. of_int (?p (ns_MmapData st)) :: u16) states)" using sorted by (simp only:)
  then have "sorted (map (state_pass self) states)"
    using st(3) dag_wfD(1,3) [OF wf] unfolding sp by (intro sorted_passes) simp_all
  moreover have "mset (filter (\<lambda>st. ?p (ns_MmapData st) = int p) states) =
      mset (map ?new (filter (\<lambda>i. ?p i = int p) ?is))" for p
    using arg_cong [OF perm, of "filter_mset (\<lambda>st. ?p (ns_MmapData st) = int p)"]
    by (simp add: filter_mset_image_mset flip: mset_filter)
  then have "length (filter (\<lambda>st. state_pass self st = int p) states) = length (filter (\<lambda>i. ?p i = int p) ?is)" for p
    unfolding sp by (metis size_mset length_map)
  ultimately have "prepared self ?R"
    using d img st cnt r by (simp add: prepared_def self_def DriverInit_def pass_count_def)
  then show ?thesis using prep by (auto simp: self_def DriverInit_def)
qed

section \<open>The tables of the build queue\<close>

text \<open>The first node of a pass.\<close>

definition pass_first :: "Driver \<Rightarrow> nat \<Rightarrow> nat" where
  "pass_first self p = length (filter (\<lambda>st. state_pass self st < int p) (dr_Nodes self))"

definition pass_size :: "Driver \<Rightarrow> nat \<Rightarrow> nat" where
  "pass_size self p = length (filter (\<lambda>st. state_pass self st = int p) (dr_Nodes self))"

lemma pass_first_Suc: "pass_first self (Suc p) = pass_first self p + pass_size self p"
  unfolding pass_first_def pass_size_def by (rule length_filter_step)

lemma pass_first_le: "pass_first self p \<le> length (dr_Nodes self)"
  by (simp add: pass_first_def)

lemma pass_first_iff:
  assumes "prepared self R" "i < length (dr_Nodes self)"
  shows "i < pass_first self p \<longleftrightarrow> state_pass self (dr_Nodes self ! i) < int p"
  using sorted_below [of "map (state_pass self) (dr_Nodes self)" i "int p"] assms
  by (simp add: prepared_def pass_first_def filter_map comp_def)

lemma prepared_nodes:
  assumes "dag_wf (dr_DagData self)" "prepared self R" "R \<subseteq> {..<length (dag_NodeData (dr_DagData self))}" "st \<in> set (dr_Nodes self)"
  shows "ns_MmapData st < length (dag_NodeData (dr_DagData self))" "0 \<le> state_pass self st"
    "state_pass self st < int (length (dag_Passes (dr_DagData self)))" "state_pass self st < 64"
    "untouched st" "ns_PassIndex st = of_int (state_pass self st)"
proof -
  show m: "ns_MmapData st < length (dag_NodeData (dr_DagData self))"
    using assms(2-4) by (auto simp: prepared_def)
  show "0 \<le> state_pass self st" "state_pass self st < int (length (dag_Passes (dr_DagData self)))" "state_pass self st < 64"
    using dag_wfD [OF assms(1) m] by (simp_all add: state_pass_def)
  have "st = new_state (dr_DagData self) (dr_StateData self) (ns_MmapData st)"
    using assms(2,4) by (simp add: prepared_def)
  then have "ns_Flags st = 0" "ns_Progress st = kInitial" "ns_PassIndex st = of_int (state_pass self st)"
    by (metis new_state_sel(3), metis new_state_sel(4), metis new_state_sel(2) state_pass_def)
  then show "untouched st" "ns_PassIndex st = of_int (state_pass self st)"
    by (simp_all add: untouched_def NodeStateIsQueued_def NodeStateIsActive_def)
qed

lemma prepared_config_ok:
  assumes wf: "dag_wf (dr_DagData self)" and prep: "prepared self R"
    and R: "R \<subseteq> {..<length (dag_NodeData (dr_DagData self))}" "\<And>i. i \<in> R \<Longrightarrow> deps (dr_DagData self) i \<subseteq> R"
  shows "config_ok (dag_NodeData (dr_DagData self)) (dr_Nodes self) (dr_NodeRemap self)"
proof -
  let ?nodes = "dag_NodeData (dr_DagData self)" and ?sts = "dr_Nodes self" and ?remap = "dr_NodeRemap self"
  have dist: "distinct (map ns_MmapData ?sts)" and img: "ns_MmapData ` set ?sts = R"
    and remap: "length ?remap = length ?nodes" "\<forall>i < length ?sts. ?remap ! ns_MmapData (?sts ! i) = int i"
      "\<forall>d < length ?nodes. d \<notin> R \<longrightarrow> ?remap ! d = - 1"
    using prep unfolding prepared_def by blast+
  have "length ?sts = card R" using distinct_card [OF dist] img by simp
  also have "\<dots> \<le> length ?nodes" using card_mono [OF _ R(1)] by simp
  finally have len: "length ?sts < 2 ^ 31" using wf by (simp add: dag_wf_def)
  have m: "ns_MmapData (?sts ! i) \<in> R" if "i < length ?sts" for i using img nth_mem [OF that] by blast
  then have mn: "ns_MmapData (?sts ! i) < length ?nodes" "node_wf (dr_DagData self) (ns_MmapData (?sts ! i))" if "i < length ?sts" for i
    using R(1) wf that by (auto simp: dag_wf_def)
  have local: "\<exists>i < length ?sts. ns_MmapData (?sts ! i) = d \<and> ?remap ! d = int i" if "d \<in> R" for d
    using img remap(2) that by (metis (no_types, lifting) image_iff in_set_conv_nth)
  have inv: "?remap ! d = - 1 \<or> 0 \<le> ?remap ! d \<and> nat (?remap ! d) < length ?sts \<and> ns_MmapData (?sts ! nat (?remap ! d)) = d"
    if "d < length ?nodes" for d
    using local [of d] remap(3) that by (cases "d \<in> R") auto
  have dep: "d < length ?nodes \<and> ?remap ! d \<noteq> - 1 \<and> nd_PassIndex (?nodes ! d) \<le> nd_PassIndex (?nodes ! ns_MmapData (?sts ! i)) \<and>
      ns_MmapData (?sts ! i) \<in> set (nd_BackLinks (?nodes ! d))"
    if "i < length ?sts" "d \<in> set (nd_Dependencies (?nodes ! ns_MmapData (?sts ! i)))" for i d
  proof -
    have d: "d \<in> deps (dr_DagData self) (ns_MmapData (?sts ! i))" using that(2) by (simp add: deps_def)
    then have "d \<in> R" using R(2) [OF m [OF that(1)]] by blast
    then show ?thesis using local [of d] mn(2) [OF that(1)] d by (auto simp: node_wf_def)
  qed
  have "\<exists>rank :: nat \<Rightarrow> nat. \<forall>i < length ?nodes. \<forall>d \<in> deps (dr_DagData self) i. rank d < rank i"
    using wf by (simp add: dag_wf_def)
  then have rank: "\<exists>rank :: nat \<Rightarrow> nat. \<forall>i < length ?sts. \<forall>d \<in> set (nd_Dependencies (?nodes ! ns_MmapData (?sts ! i))).
      rank d < rank (ns_MmapData (?sts ! i))"
    using mn(1) by (auto simp: deps_def)
  show ?thesis
    unfolding config_ok_def using remap(1,2) len mn inv dep rank by (simp add: node_wf_def)
qed

lemma check_passes_ok:
  assumes "dag_wf (dr_DagData self)" "prepared self R" "R \<subseteq> {..<length (dag_NodeData (dr_DagData self))}"
    "p \<le> length (dag_Passes (dr_DagData self))"
  shows "check_passes (dr_Nodes self) (map (\<lambda>q. int (pass_size self q)) [p..<length (dag_Passes (dr_DagData self))]) p (pass_first self p)"
  using assms(4)
proof (induction "length (dag_Passes (dr_DagData self)) - p" arbitrary: p)
  case 0
  then have "p = length (dag_Passes (dr_DagData self))" by simp
  moreover have "state_pass self st < int (length (dag_Passes (dr_DagData self)))" if "st \<in> set (dr_Nodes self)" for st
    using prepared_nodes(3) [OF assms(1-3) that] .
  ultimately show ?case by (simp add: pass_first_def)
next
  case (Suc k)
  have here: "ns_PassIndex (dr_Nodes self ! i) = of_nat p"
    if "pass_first self p \<le> i" "i < pass_first self (Suc p)" for i
  proof -
    have i: "i < length (dr_Nodes self)" using that(2) pass_first_le [of self "Suc p"] by simp
    then have "state_pass self (dr_Nodes self ! i) = int p"
      using that pass_first_iff [OF assms(2) i, of p] pass_first_iff [OF assms(2) i, of "Suc p"] by auto
    then show ?thesis using prepared_nodes(6) [OF assms(1-3) nth_mem [OF i]] by simp
  qed
  have "check_passes (dr_Nodes self) (map (\<lambda>q. int (pass_size self q)) [Suc p..<length (dag_Passes (dr_DagData self))])
      (Suc p) (pass_first self (Suc p))"
    using Suc by (intro Suc(1)) auto
  moreover have "pass_first self (Suc p) \<le> length (dr_Nodes self)" by (rule pass_first_le)
  ultimately show ?case
    using here Suc by (auto simp: upt_conv_Cons list_all_iff simp flip: pass_first_Suc)
qed

lemma prepared_counts:
  assumes "dag_wf (dr_DagData self)" "prepared self R" "p < length (dag_Passes (dr_DagData self))"
  shows "dr_PassNodeCount self ! p = int (pass_size self p)"
  using assms by (simp add: prepared_def dag_wf_def kMaxPasses_def pass_size_def)

lemma DriverBuild_begin_ok:
  assumes wf: "dag_wf (dr_DagData self)" and prep: "prepared self R"
    and R: "R \<subseteq> {..<length (dag_NodeData (dr_DagData self))}" "\<And>i. i \<in> R \<Longrightarrow> deps (dr_DagData self) i \<subseteq> R"
    and threads: "0 < do_ThreadCount (dr_Options self)"
  shows "\<exists>queue. DriverBuild_begin self = Some queue \<and> pass_ready queue 0 (pass_size self 0) 0 \<and>
    q_NodeData queue = dag_NodeData (dr_DagData self) \<and> q_NodeState queue = dr_Nodes self \<and> \<not> q_QuitSignalled queue \<and>
    q_MaxNodes queue = length (dr_Nodes self)"
proof -
  let ?P = "length (dag_Passes (dr_DagData self))"
  have "take ?P (dr_PassNodeCount self) = map (\<lambda>q. int (pass_size self q)) [0..<?P]"
    using prepared_counts [OF wf prep] prep wf
    by (intro nth_equalityI) (simp_all add: prepared_def dag_wf_def kMaxPasses_def)
  moreover have "pass_first self 0 = 0"
    using prepared_nodes(2) [OF wf prep R(1)] by (force simp: pass_first_def filter_empty_conv)
  ultimately have passes: "check_passes (dr_Nodes self) (take ?P (dr_PassNodeCount self)) 0 0"
    using check_passes_ok [OF wf prep R(1), of 0] by simp
  have remap: "check_remap (dr_Nodes self) (dr_NodeRemap self)"
    using prep by (simp add: check_remap_def prepared_def list_all_iff)
  have mx: "0 < max_expensive_count self" "max_expensive_count self \<le> do_ThreadCount (dr_Options self)"
    using threads by (auto simp: max_expensive_count_def Let_def)
  have below: "(i < pass_size self 0 \<longrightarrow> state_pass self (dr_Nodes self ! i) = 0) \<and>
      (pass_size self 0 \<le> i \<longrightarrow> 0 < state_pass self (dr_Nodes self ! i))" if "i < length (dr_Nodes self)" for i
    using pass_first_iff [OF prep that, of "Suc 0"] pass_first_Suc [of self 0] \<open>pass_first self 0 = 0\<close>
      prepared_nodes(2) [OF wf prep R(1) nth_mem [OF that]] by auto
  have "\<exists>queue. BuildQueueInit (do_ContinueOnError (dr_Options self)) (do_ThreadCount (dr_Options self))
      (dag_NodeData (dr_DagData self)) (dr_Nodes self) (dr_NodeRemap self) (max_expensive_count self) = Some queue \<and>
      pass_ready queue 0 (pass_size self 0) 0"
  proof (rule init_pass_ready [OF prepared_config_ok [OF wf prep R] mx, where start = 0])
    show "0 + pass_size self 0 \<le> length (dr_Nodes self)" by (simp add: pass_size_def)
    show "untouched (dr_Nodes self ! i)" if "i < length (dr_Nodes self)" for i
      using prepared_nodes(5) [OF wf prep R(1)] that by simp
  qed (use below in \<open>simp_all add: state_pass_def\<close>)
  then obtain queue where q: "BuildQueueInit (do_ContinueOnError (dr_Options self)) (do_ThreadCount (dr_Options self))
      (dag_NodeData (dr_DagData self)) (dr_Nodes self) (dr_NodeRemap self) (max_expensive_count self) = Some queue"
      "pass_ready queue 0 (pass_size self 0) 0" by blast
  then have "q_NodeData queue = dag_NodeData (dr_DagData self)" "q_NodeState queue = dr_Nodes self"
      "\<not> q_QuitSignalled queue" "q_MaxNodes queue = length (dr_Nodes self)"
    using mx by (auto simp: BuildQueueInit_def Let_def)
  then show ?thesis using q passes remap by (simp add: DriverBuild_begin_def)
qed

section \<open>From pass to pass\<close>

text \<open>The loop over the passes in \<open>DriverBuild\<close>.\<close>

definition driver_ok :: "Driver \<Rightarrow> nat \<Rightarrow> nat \<Rightarrow> BuildQueue \<Rightarrow> bool" where
  "driver_ok self pass start queue \<longleftrightarrow> start = pass_first self pass \<and> pass \<le> length (dag_Passes (dr_DagData self)) \<and>
     q_NodeData queue = dag_NodeData (dr_DagData self) \<and> length (q_NodeState queue) = length (dr_Nodes self) \<and>
     (\<forall>i < length (dr_Nodes self). ns_MmapData (node queue i) = ns_MmapData (dr_Nodes self ! i)) \<and>
     \<not> q_QuitSignalled queue \<and> q_MaxNodes queue = length (dr_Nodes self) \<and>
     (\<forall>i < start. NodeStateIsCompleted (node queue i) \<and> ns_BuildResult (node queue i) = 0) \<and>
     (pass < length (dag_Passes (dr_DagData self)) \<longrightarrow> pass_ready queue start (pass_size self pass) (int pass))"

definition driver_threads :: "Driver \<Rightarrow> nat" where
  "driver_threads self = nat (do_ThreadCount (dr_Options self))"

lemma driver_ok_next:
  assumes wf: "dag_wf (dr_DagData self)" and prep: "prepared self R"
    and R: "R \<subseteq> {..<length (dag_NodeData (dr_DagData self))}" and threads: "0 < do_ThreadCount (dr_Options self)"
    and ok: "driver_ok self pass start queue" "pass < length (dag_Passes (dr_DagData self))"
    and run: "pass_start queue start (pass_size self pass) (int pass) (driver_threads self) = Some sys0"
      "build_step\<^sup>*\<^sup>* sys0 sys" "bs_threads sys ! 0 = Exited"
      "BuildQueueBuildNodeRange_result (bs_queue sys) (bs_signalled sys) = kOk"
  shows "driver_ok self (Suc pass) (start + pass_size self pass) (bs_queue sys)"
proof -
  let ?sts = "dr_Nodes self" and ?q = "bs_queue sys" and ?P = "length (dag_Passes (dr_DagData self))"
  have start: "start = pass_first self pass" and start': "start + pass_size self pass = pass_first self (Suc pass)"
    using ok(1) by (simp_all add: driver_ok_def pass_first_Suc)
  have "pass_ready queue start (pass_size self pass) (int pass)" using ok unfolding driver_ok_def by blast
  moreover have "0 < driver_threads self" using threads by (simp add: driver_threads_def)
  ultimately have begin': "sys_ok sys0 \<and> same_tables (queue\<lparr>q_CurrentPassIndex := int pass\<rparr>) (bs_queue sys0) \<and>
      (\<forall>i < start. place_of (node (bs_queue sys0) i) = Finished \<and>
        ns_BuildResult (node (bs_queue sys0) i) = ns_BuildResult (node queue i))"
    using pass_start_ok [of queue start "pass_size self pass" "int pass" "driver_threads self"] run(1) by auto
  then have sys_ok0: "sys_ok sys0" and st0: "same_tables (queue\<lparr>q_CurrentPassIndex := int pass\<rparr>) (bs_queue sys0)"
    and fin0: "\<And>i. i < start \<Longrightarrow> place_of (node (bs_queue sys0) i) = Finished \<and>
        ns_BuildResult (node (bs_queue sys0) i) = ns_BuildResult (node queue i)"
    by simp_all
  note steps = build_steps_finished [OF run(2) sys_ok0]
  have sok: "sys_ok \<lparr>bs_queue = ?q, bs_threads = bs_threads sys, bs_signalled = bs_signalled sys\<rparr>"
    using build_steps_ok [OF run(2) sys_ok0] by (cases sys) simp
  have st: "same_tables (queue\<lparr>q_CurrentPassIndex := int pass\<rparr>) ?q" using same_tables_trans [OF st0 steps(1)] .
  have tables: "q_NodeData ?q = dag_NodeData (dr_DagData self)" "length (q_NodeState ?q) = length ?sts"
    "\<forall>i < length ?sts. ns_MmapData (node ?q i) = ns_MmapData (?sts ! i)" "\<not> q_QuitSignalled ?q"
    "q_MaxNodes ?q = length ?sts" "q_CurrentPassIndex ?q = int pass"
    using st ok(1) by (auto simp: same_tables_def driver_ok_def)
  have pass_of: "nd_PassIndex (node_data ?q i) = state_pass self (?sts ! i)" if "i < length ?sts" for i
    using tables(1,3) that by (simp add: node_data_def state_pass_def)
  have built: "NodeStateIsCompleted (node ?q i) \<and> ns_BuildResult (node ?q i) = 0" if "i < pass_first self (Suc pass)" for i
  proof (cases "i < start")
    case True
    then have "place_of (node ?q i) = Finished \<and> ns_BuildResult (node ?q i) = 0"
      using steps(2) [of i] fin0 [OF True] ok(1) by (simp add: driver_ok_def)
    then show ?thesis by (auto simp: place_of_def split: if_splits)
  next
    case False
    have i: "i < length ?sts" using that pass_first_le [of self "Suc pass"] by simp
    then have "nd_PassIndex (node_data ?q i) = q_CurrentPassIndex ?q"
      using pass_of [OF i] tables(6) that False start pass_first_iff [OF prep i, of pass] pass_first_iff [OF prep i, of "Suc pass"] by simp
    then show ?thesis
      using finished_pass [OF sok run(3) tables(4) run(4)] i tables(2) by (simp add: NodeStateIsCompleted_def)
  qed
  have "pass_ready ?q (pass_first self (Suc pass)) (pass_size self (Suc pass)) (int (Suc pass))"
  proof (rule pass_chain [OF sok run(3) tables(4) run(4)])
    show "pass_first self (Suc pass) + pass_size self (Suc pass) \<le> q_MaxNodes ?q"
      using pass_first_le [of self "Suc (Suc pass)"] tables(5) by (simp add: pass_first_Suc)
    show "(i < pass_first self (Suc pass) \<longrightarrow> nd_PassIndex (node_data ?q i) \<le> q_CurrentPassIndex ?q) \<and>
       (pass_first self (Suc pass) \<le> i \<and> i < pass_first self (Suc pass) + pass_size self (Suc pass) \<longrightarrow>
          nd_PassIndex (node_data ?q i) = int (Suc pass)) \<and>
       (pass_first self (Suc pass) + pass_size self (Suc pass) \<le> i \<longrightarrow> int (Suc pass) < nd_PassIndex (node_data ?q i))"
      if "i < length (q_NodeState ?q)" for i
    proof -
      have i: "i < length ?sts" using that tables(2) by simp
      show ?thesis
        using pass_first_iff [OF prep i, of "Suc pass"] pass_first_iff [OF prep i, of "Suc (Suc pass)"]
          pass_of [OF i] tables(6) by (auto simp flip: pass_first_Suc)
    qed
  qed (use tables in simp_all)
  then show ?thesis using tables built ok(2) by (simp add: driver_ok_def start')
qed

text \<open>What the theorems below assume of a driver: it has been prepared from a well-formed DAG.\<close>

definition ready_to_build :: "Driver \<Rightarrow> nat set \<Rightarrow> bool" where
  "ready_to_build self R \<longleftrightarrow> dag_wf (dr_DagData self) \<and> prepared self R \<and>
     R \<subseteq> {..<length (dag_NodeData (dr_DagData self))} \<and> (\<forall>i \<in> R. deps (dr_DagData self) i \<subseteq> R) \<and>
     0 < do_ThreadCount (dr_Options self)"

lemma DriverPrepareNodes_ready:
  assumes "dag_wf dag" "sorts_by_pass std_sort" "DriverSelectNodes pl dag targets = Inr roots"
    "DriverPrepareNodes pl std_sort (DriverInit options dag state_data) targets = Inr self" "0 < do_ThreadCount options"
  shows "ready_to_build self (reachable dag (set roots))" "dr_DagData self = dag" "dr_Options self = options"
proof -
  have self: "prepared self (reachable dag (set roots)) \<and> dr_DagData self = dag \<and> dr_Options self = options"
    using DriverPrepareNodes_ok [OF assms(1-3), of options state_data] assms(4) by auto
  have "reachable dag (set roots) \<subseteq> {..<length (dag_NodeData dag)}"
    using DriverSelectNodes_index [OF assms(1,3)] dag_wfD(5) [OF assms(1)] by (intro reachable_subset) auto
  then show "ready_to_build self (reachable dag (set roots))" "dr_DagData self = dag" "dr_Options self = options"
    using self assms(1,5) reachable_closed by (simp_all add: ready_to_build_def)
qed

lemma driver_pass_ok:
  assumes "driver_pass self pass start queue" "ready_to_build self R"
  shows "driver_ok self pass start queue"
  using assms
proof (induction rule: driver_pass.induct)
  case (begin_passes self queue)
  note r = begin_passes(2) [unfolded ready_to_build_def]
  have "pass_first self 0 = 0"
    using prepared_nodes(2) [of self R] r by (force simp: pass_first_def filter_empty_conv)
  then show ?case
    using DriverBuild_begin_ok [of self R] r begin_passes(1) by (auto simp: driver_ok_def node_def)
next
  case (next_pass self pass start queue sys0 sys)
  note r = next_pass(8) [unfolded ready_to_build_def]
  have cnt: "nat (dr_PassNodeCount self ! pass) = pass_size self pass"
    using prepared_counts [of self R] next_pass(2) r by simp
  show ?case
    unfolding cnt using driver_ok_next [of self R pass start queue sys0 sys] next_pass r
    by (simp add: cnt driver_threads_def)
qed

section \<open>An example\<close>

definition ex_tuple :: BuildTupleData where
  "ex_tuple = \<lparr>bt_ConfigIndex = 0, bt_VariantIndex = 0, bt_SubVariantIndex = 0, bt_DefaultNodes = [1],
     bt_AlwaysNodes = [], bt_NamedNodes = []\<rparr>"

definition ex_dag :: DagData where
  "ex_dag = \<lparr>dag_MagicNumber = 0, dag_NodeGuids = [(0, 1), (0, 2)], dag_NodeData = ex_nodes, dag_Passes = [''Default''],
     dag_ConfigNames = [''linux-gcc''], dag_ConfigNameHashes = [Djb2Hash ''linux-gcc''],
     dag_VariantNames = [''debug''], dag_VariantNameHashes = [Djb2Hash ''debug''],
     dag_SubVariantNames = [''default''], dag_SubVariantNameHashes = [Djb2Hash ''default''],
     dag_BuildTuples = [ex_tuple], dag_DefaultConfigIndex = 0, dag_DefaultVariantIndex = 0,
     dag_DefaultSubVariantIndex = 0, dag_FileSignatures = [], dag_GlobSignatures = [], dag_ShaExtensionHashes = [],
     dag_MaxExpensiveCount = 1, dag_StateFileName = ''.tundra2.state'', dag_StateFileNameTmp = ''.tundra2.state.tmp'',
     dag_ScanCacheFileName = ''.tundra2.scancache'', dag_ScanCacheFileNameTmp = ''.tundra2.scancache.tmp'',
     dag_DigestCacheFileName = ''.tundra2.digestcache'', dag_DigestCacheFileNameTmp = ''.tundra2.digestcache.tmp''\<rparr>"

definition ex_platform :: platform where
  "ex_platform = \<lparr>pl_nocase = False, pl_native = kUnix, pl_cwd = Some ''/home'',
     pl_uninit = \<lparr>pb_Type = kUnix, pb_Flags = 0, pb_SegCount = 0, pb_LeadingDotDots = 0, pb_SegEnds = [], pb_Data = []\<rparr>\<rparr>"

definition ex_options :: DriverOptions where
  "ex_options = \<lparr>do_ForceDagRegen = False, do_ContinueOnError = False, do_ThreadCount = 2\<rparr>"

definition ex_driver :: Driver where
  "ex_driver = projr (DriverPrepareNodes ex_platform (sort_key ns_PassIndex) (DriverInit ex_options ex_dag None) [])"

lemma ex_dag_wf: "dag_wf ex_dag"
proof -
  have "\<forall>i < length (dag_NodeData ex_dag). node_wf ex_dag i"
    by (auto simp: ex_dag_def ex_nth all_less_2 node_wf_def deps_def ex_node_def is_expensive_def empty_action_def)
  moreover have "\<exists>rank :: nat \<Rightarrow> nat. \<forall>i < length (dag_NodeData ex_dag). \<forall>d \<in> deps ex_dag i. rank d < rank i"
    by (rule exI [of _ id]) (auto simp: ex_dag_def ex_nth all_less_2 deps_def ex_node_def)
  moreover have "\<forall>tuple \<in> set (dag_BuildTuples ex_dag). tuple_nodes tuple \<subseteq> {..<length (dag_NodeData ex_dag)}"
    by (simp add: ex_dag_def ex_nth ex_tuple_def tuple_nodes_def)
  ultimately show ?thesis
    unfolding dag_wf_def by (simp add: ex_dag_def ex_nth kMaxPasses_def)
qed

lemma sort_key_by_pass: "sorts_by_pass (sort_key ns_PassIndex)"
  by (simp add: sorts_by_pass_def)

lemma ex_select: "DriverSelectNodes ex_platform ex_dag [] = Inr [1]"
  by code_simp

lemma ex_prepare:
  "DriverPrepareNodes ex_platform (sort_key ns_PassIndex) (DriverInit ex_options ex_dag None) [] = Inr ex_driver"
proof -
  obtain self where "DriverPrepareNodes ex_platform (sort_key ns_PassIndex) (DriverInit ex_options ex_dag None) [] = Inr self"
    using DriverPrepareNodes_ok [OF ex_dag_wf sort_key_by_pass ex_select] by blast
  then show ?thesis by (simp add: ex_driver_def)
qed

lemma ex_nodes_driver: "map ns_MmapData (dr_Nodes ex_driver) = [1, 0]" "do_ThreadCount (dr_Options ex_driver) = 2"
  "dr_PassNodeCount ex_driver ! 0 = 2" "length (dag_Passes (dr_DagData ex_driver)) = 1"
  by code_simp+

definition ex_driver_queue :: BuildQueue where
  "ex_driver_queue = the (DriverBuild_begin ex_driver)"

definition ex_build :: "event list" where
  "ex_build = [Iterate 0, Iterate 0, Checked 0 (1, 2) False, Ran 0 (ExecResult 0 False),
     Iterate 0, Checked 0 (3, 4) False, Ran 0 (ExecResult 0 False), Iterate 0]"

definition ex_built :: build_sys where
  "ex_built = the (exec_all (the (pass_start ex_driver_queue 0 2 0 2)) ex_build)"

lemma ex_driver_pass:
  "driver_pass ex_driver 0 0 ex_driver_queue" "driver_pass ex_driver (length (dag_Passes (dr_DagData ex_driver))) 2 (bs_queue ex_built)"
proof -
  have "DriverBuild_begin ex_driver \<noteq> None" by code_simp
  then have "DriverBuild_begin ex_driver = Some ex_driver_queue" by (auto simp: ex_driver_queue_def)
  then show begin': "driver_pass ex_driver 0 0 ex_driver_queue" by (rule begin_passes)
  have "pass_start ex_driver_queue 0 2 0 2 \<noteq> None" by code_simp
  then have start: "pass_start ex_driver_queue 0 (nat (dr_PassNodeCount ex_driver ! 0)) (int 0)
      (nat (do_ThreadCount (dr_Options ex_driver))) = Some (the (pass_start ex_driver_queue 0 2 0 2))"
    by (simp add: ex_nodes_driver)
  have "exec_all (the (pass_start ex_driver_queue 0 2 0 2)) ex_build \<noteq> None" by code_simp
  then have "build_step\<^sup>*\<^sup>* (the (pass_start ex_driver_queue 0 2 0 2)) ex_built"
    by (intro exec_all_steps [of _ ex_build]) (auto simp: ex_built_def)
  moreover have "bs_threads ex_built ! 0 = Exited"
      "BuildQueueBuildNodeRange_result (bs_queue ex_built) (bs_signalled ex_built) = kOk"
    by code_simp+
  ultimately have "driver_pass ex_driver (Suc 0) (0 + nat (dr_PassNodeCount ex_driver ! 0)) (bs_queue ex_built)"
    by (intro next_pass [OF begin' _ start]) (simp_all add: ex_nodes_driver)
  then show "driver_pass ex_driver (length (dag_Passes (dr_DagData ex_driver))) 2 (bs_queue ex_built)"
    by (simp add: ex_nodes_driver numeral_2_eq_2)
qed

section \<open>Properties\<close>

text \<open>
  C10: \<open>DriverPrepareNodes\<close> on a well-formed DAG ends without overrun or failed check whatever targets
  are selected, and prepares exactly the nodes that the selected ones depend on, directly or
  indirectly, each of them once.
\<close>

theorem DriverPrepareNodes_selects:
  assumes "dag_wf dag" "sorts_by_pass std_sort" "DriverSelectNodes pl dag targets = Inr roots"
  shows "\<exists>self. DriverPrepareNodes pl std_sort (DriverInit options dag state_data) targets = Inr self \<and>
    ns_MmapData ` set (dr_Nodes self) = reachable dag (set roots) \<and> distinct (map ns_MmapData (dr_Nodes self))"
  using DriverPrepareNodes_ok [OF assms, of options state_data] by (auto simp: prepared_def)

theorem DriverPrepareNodes_selects_witness:
  "ns_MmapData ` set (dr_Nodes ex_driver) = reachable ex_dag {1}"
  using DriverPrepareNodes_selects [OF ex_dag_wf sort_key_by_pass ex_select, of ex_options None] ex_prepare by auto

text \<open>
  C9: The driver hands the build queue what it relies on: the checks before the build pass, and every
  pass of \<open>DriverBuild\<close> starts, and stays in all its executions, in the states for which the
  properties of a pass are proved (no check fails, dependencies come first, no deadlock).
\<close>

theorem DriverBuild_passes:
  assumes "dag_wf dag" "sorts_by_pass std_sort" "DriverSelectNodes pl dag targets = Inr roots"
    "DriverPrepareNodes pl std_sort (DriverInit options dag state_data) targets = Inr self" "0 < do_ThreadCount options"
  shows "DriverBuild_begin self \<noteq> None \<and>
    (\<forall>pass start queue. driver_pass self pass start queue \<and> pass < length (dag_Passes dag) \<longrightarrow>
      (\<exists>sys0. pass_start queue start (nat (dr_PassNodeCount self ! pass)) (int pass) (nat (do_ThreadCount options)) = Some sys0 \<and>
        (\<forall>sys. build_step\<^sup>*\<^sup>* sys0 sys \<longrightarrow>
          pass_reaches queue start (nat (dr_PassNodeCount self ! pass)) (int pass) (nat (do_ThreadCount options)) sys)))"
proof (intro conjI allI impI)
  note ready = DriverPrepareNodes_ready [OF assms]
  note r = ready(1) [unfolded ready_to_build_def]
  show "DriverBuild_begin self \<noteq> None" using DriverBuild_begin_ok [of self] r by blast
  fix pass start queue
  assume a: "driver_pass self pass start queue \<and> pass < length (dag_Passes dag)"
  then have "driver_ok self pass start queue" using driver_pass_ok ready(1) by blast
  moreover have "nat (dr_PassNodeCount self ! pass) = pass_size self pass"
    using prepared_counts [of self "reachable dag (set roots)" pass] r a ready(2) by simp
  ultimately have "pass_ready queue start (nat (dr_PassNodeCount self ! pass)) (int pass)"
    using a ready(2) unfolding driver_ok_def by auto
  moreover have "0 < nat (do_ThreadCount options)" using assms(5) by simp
  moreover from pass_start_ok [OF calculation] obtain sys0 where
    "pass_start queue start (nat (dr_PassNodeCount self ! pass)) (int pass) (nat (do_ThreadCount options)) = Some sys0"
    by blast
  ultimately show "\<exists>sys0. pass_start queue start (nat (dr_PassNodeCount self ! pass)) (int pass) (nat (do_ThreadCount options)) = Some sys0 \<and>
        (\<forall>sys. build_step\<^sup>*\<^sup>* sys0 sys \<longrightarrow>
          pass_reaches queue start (nat (dr_PassNodeCount self ! pass)) (int pass) (nat (do_ThreadCount options)) sys)"
    unfolding pass_reaches_def by blast
qed

theorem DriverBuild_passes_witness:
  "DriverBuild_begin ex_driver \<noteq> None \<and> pass_start ex_driver_queue 0 2 0 2 \<noteq> None"
proof -
  have "0 < do_ThreadCount ex_options" by (simp add: ex_options_def)
  from DriverBuild_passes [OF ex_dag_wf sort_key_by_pass ex_select ex_prepare this]
  have "DriverBuild_begin ex_driver \<noteq> None"
    "\<exists>sys0. pass_start ex_driver_queue 0 (nat (dr_PassNodeCount ex_driver ! 0)) (int 0) (nat (do_ThreadCount ex_options)) = Some sys0"
    using ex_driver_pass(1) by (auto simp: ex_dag_def, blast)
  then show ?thesis by (simp add: ex_nodes_driver ex_options_def)
qed

text \<open>
  C1: A build that returns \<open>kOk\<close> has built everything that was asked for: every node that the selected
  nodes depend on, directly or indirectly, has its node state completed with build result 0.
\<close>

theorem DriverBuild_kOk:
  assumes "dag_wf dag" "sorts_by_pass std_sort" "DriverSelectNodes pl dag targets = Inr roots"
    "DriverPrepareNodes pl std_sort (DriverInit options dag state_data) targets = Inr self" "0 < do_ThreadCount options"
    "DriverBuild self kOk queue" "i \<in> reachable dag (set roots)"
  shows "\<exists>k < length (q_NodeState queue). ns_MmapData (node queue k) = i \<and>
    NodeStateIsCompleted (node queue k) \<and> ns_BuildResult (node queue k) = 0"
proof -
  note ready = DriverPrepareNodes_ready [OF assms(1-5)]
  note r = ready(1) [unfolded ready_to_build_def]
  obtain start where "driver_pass self (length (dag_Passes (dr_DagData self))) start queue"
    using assms(6) by (cases rule: DriverBuild.cases) auto
  then have ok: "driver_ok self (length (dag_Passes (dr_DagData self))) start queue"
    using driver_pass_ok ready(1) by blast
  obtain k where k: "k < length (dr_Nodes self)" "ns_MmapData (dr_Nodes self ! k) = i"
    using r assms(7) unfolding prepared_def by (metis (no_types, lifting) image_iff in_set_conv_nth)
  have "k < start"
    using ok pass_first_iff [OF _ k(1)] prepared_nodes(3) [OF _ _ _ nth_mem [OF k(1)]] r by (auto simp: driver_ok_def)
  then show ?thesis using ok k unfolding driver_ok_def by auto
qed

theorem DriverBuild_kOk_witness:
  "\<exists>k < length (q_NodeState (bs_queue ex_built)). ns_MmapData (node (bs_queue ex_built) k) = 1 \<and>
    NodeStateIsCompleted (node (bs_queue ex_built) k) \<and> ns_BuildResult (node (bs_queue ex_built) k) = 0"
proof -
  have "0 < do_ThreadCount ex_options" by (simp add: ex_options_def)
  moreover have "DriverBuild ex_driver kOk (bs_queue ex_built)" by (rule all_passes [OF ex_driver_pass(2)])
  moreover have "1 \<in> reachable ex_dag (set [1])" by (auto simp: reachable_def)
  ultimately show ?thesis by (rule DriverBuild_kOk [OF ex_dag_wf sort_key_by_pass ex_select ex_prepare])
qed

end
