(* ===== verification/T2_HashUpdate.thy ===== *)
theory T2_HashUpdate
  imports T2_HashTable
begin

text \<open>
  Writing through the pointer that \<open>HashTableLookup\<close> returns, as the caches do to replace the
  payload of a key, and tables in which a key may occur several times. The contract \<open>key_store\<close>
  extends \<open>key_map\<close> by the replacement of a value.
\<close>

section \<open>Lookups in tables with duplicate keys\<close>

lemma length_slots: "ht_wf t \<Longrightarrow> length (slots t) = m_TableSize t"
  by (rule slots_proj(4)) (simp_all add: ht_wf_def)

lemma HashTableLookup_slot:
  assumes "ht_wf t" "h \<noteq> 0"
  obtains (absent) "HashTableLookup nocase t h s = Some None"
      "\<forall>e \<in> set (entries (slots t)). slot_key nocase e \<noteq> (h, canon nocase s)"
    | (found) p v where "HashTableLookup nocase t h s = Some (Some p)" "p < m_TableSize t"
      "slots t ! p \<in> set (entries (slots t))" "slot_key nocase (slots t ! p) = (h, canon nocase s)"
      "m_Payloads t ! p = Some v" "snd (snd (slots t ! p)) = Some v"
proof (cases "ht_map nocase t (h, canon nocase s)")
  case None
  then have "\<forall>e \<in> set (entries (slots t)). slot_key nocase e \<noteq> (h, canon nocase s)"
    using ht_map_None [of nocase t "(h, canon nocase s)"] by (metis image_eqI)
  then show ?thesis using absent HashTableLookup_map(1) [OF assms] None by blast
next
  case (Some v)
  let ?k = "m_TableSizeShift t" and ?key = "(h, canon nocase s)"
  have len: "length (m_Hashes t) = m_TableSize t" "length (m_Strings t) = m_TableSize t"
      "length (m_Payloads t) = m_TableSize t" and pay: "\<forall>e \<in> set (entries (slots t)). snd (snd e) \<noteq> None"
    using assms(1) by (auto simp: ht_wf_def)
  note proj = slots_proj [OF len]
  have "?key \<in> slot_key nocase ` set (entries (slots t))"
    using ht_map_None [of nocase t ?key] Some by (metis option.distinct(1))
  then obtain q where q: "q < m_TableSize t" "slot_key nocase (slots t ! q) = ?key"
    using proj(4) by (auto simp: in_set_conv_nth)
  then have n: "m_TableSize t = 2 ^ ?k" "length (entries (slots t)) < 2 ^ ?k" "reach (2 ^ ?k) (slots t)"
    using assms(1) by (auto simp: ht_wf_def split: if_splits)
  obtain p where p: "p < m_TableSize t" "HashTableLookup nocase t h s = Some (Some p)" "fst (slots t ! p) \<noteq> 0"
      "slot_key nocase (slots t ! p) = ?key"
  proof -
    have hit: "\<exists>p < 2 ^ ?k. slot_key nocase (slots t ! p) = ?key" using q n(1) by auto
    obtain p where "p < m_TableSize t" "fst (slots t ! p) \<noteq> 0" "slot_key nocase (slots t ! p) = ?key"
        "lookup_loop nocase (m_Hashes t) (m_Strings t) (2 ^ ?k) h s (unat h AND (2 ^ ?k - 1)) = Some (int p)"
      using lookup_loop_slots [OF n(3) _ n(2) assms(2), of nocase s] proj(1,2,4) n(1) unfolding if_P [OF hit] by auto
    then show ?thesis using that q(1) n(1) by (simp add: HashTableLookup_def HashTableBaseLookup_def Let_def)
  qed
  have e: "slots t ! p \<in> set (entries (slots t))" using p(1,3) proj(4) by simp
  then obtain w where w: "snd (snd (slots t ! p)) = Some w" using pay by blast
  moreover have "snd (snd (slots t ! p)) = m_Payloads t ! p" using p(1) len by (simp add: slots_def)
  ultimately show ?thesis using found [OF p(2,1) e p(4)] by simp
qed

section \<open>Replacing a payload\<close>

text \<open>\<open>*p = payload\<close> for a pointer \<open>p\<close> into the payload array.\<close>

definition put_payload :: "'v hash_table \<Rightarrow> nat \<Rightarrow> 'v \<Rightarrow> 'v hash_table" where
  "put_payload t p v = t\<lparr>m_Payloads := (m_Payloads t)[p := Some v]\<rparr>"

definition proj_slot :: "'v slot \<Rightarrow> u32 \<times> string" where
  "proj_slot e = (fst e, fst (snd e))"

lemma slots_put:
  assumes "ht_wf t" "p < m_TableSize t"
  shows "slots (put_payload t p v) = (slots t)[p := (fst (slots t ! p), fst (snd (slots t ! p)), Some v)]"
  using assms by (auto simp: slots_def put_payload_def ht_wf_def list_eq_iff_nth_eq nth_list_update)

lemma proj_put:
  assumes "ht_wf t" "p < m_TableSize t"
  shows "map proj_slot (slots (put_payload t p v)) = map proj_slot (slots t)"
  using assms slots_proj(4) [of t "m_TableSize t"]
  by (auto simp: slots_put proj_slot_def ht_wf_def list_eq_iff_nth_eq nth_list_update)

lemma entries_proj:
  "map (slot_key nocase) (entries xs) = map (\<lambda>(h, s). (h, canon nocase s)) (filter (\<lambda>k. fst k \<noteq> 0) (map proj_slot xs))"
  "length (entries xs) = length (filter (\<lambda>k. fst k \<noteq> 0) (map proj_slot xs))"
  by (induction xs) (auto simp: slot_key_def proj_slot_def)

lemma reach_proj: "map proj_slot xs = map proj_slot ys \<Longrightarrow> length xs = n \<Longrightarrow> reach n xs \<Longrightarrow> reach n ys"
proof -
  assume m: "map proj_slot xs = map proj_slot ys" and n: "length xs = n" and r: "reach n xs"
  have "fst (xs ! p) = fst (ys ! p)" if "p < n" for p
    using arg_cong [OF m, of "\<lambda>l. fst (l ! p)"] that n map_eq_imp_length_eq [OF m] by (simp add: proj_slot_def)
  then show "reach n ys"
    using r unfolding reach_def by (cases "n = 0") (simp_all add: mod_less_divisor)
qed

lemma put_payload_wf:
  assumes "ht_wf t" "p < m_TableSize t"
  shows "ht_wf (put_payload t p v)"
proof -
  let ?t = "put_payload t p v"
  have same: "m_Hashes ?t = m_Hashes t" "m_Strings ?t = m_Strings t" "m_TableSize ?t = m_TableSize t"
      "m_TableSizeShift ?t = m_TableSizeShift t" "m_RecordCount ?t = m_RecordCount t"
      "length (m_Payloads ?t) = length (m_Payloads t)"
    by (simp_all add: put_payload_def)
  have "set (slots ?t) \<subseteq> insert (fst (slots t ! p), fst (snd (slots t ! p)), Some v) (set (slots t))"
    unfolding slots_put [OF assms] by (rule set_update_subset_insert)
  moreover have "\<forall>e \<in> set (entries (slots t)). snd (snd e) \<noteq> None" using assms(1) by (simp add: ht_wf_def)
  ultimately have "\<forall>e \<in> set (entries (slots ?t)). snd (snd e) \<noteq> None" by auto
  moreover have "length (entries (slots ?t)) = length (entries (slots t))"
    unfolding entries_proj(2) proj_put [OF assms] ..
  moreover have "reach (m_TableSize t) (slots t) \<Longrightarrow> reach (m_TableSize t) (slots ?t)"
    by (rule reach_proj [OF proj_put [OF assms, symmetric]]) (simp_all add: length_slots assms(1))
  ultimately show ?thesis using assms(1) unfolding ht_wf_def same by (auto split: if_splits)
qed

lemma put_payload_distinct:
  assumes "ht_wf t" "p < m_TableSize t" "ht_distinct nocase t"
  shows "ht_distinct nocase (put_payload t p v)"
  using assms(3) unfolding ht_distinct_def entries_proj(1) proj_put [OF assms(1,2)] .

lemma distinct_filter_nth:
  assumes "distinct (map f (filter P xs))" "p < length xs" "q < length xs" "P (xs ! p)" "P (xs ! q)" "f (xs ! p) = f (xs ! q)"
  shows "p = q"
  using assms
proof (induction xs arbitrary: p q)
  case (Cons x xs)
  have fresh: "f x \<noteq> f (xs ! i)" if "P x" "i < length xs" "P (xs ! i)" for i
    using Cons.prems(1) that by (force simp: in_set_conv_nth)
  have "distinct (map f (filter P xs))" using Cons.prems(1) by (simp split: if_splits)
  then show ?case
    using Cons.IH [of "p - 1" "q - 1"] Cons.prems(2-6) fresh [of "p - 1"] fresh [of "q - 1"]
    by (cases p; cases q) auto
qed simp

lemma ht_map_slot:
  assumes "ht_ok nocase t"
  shows "ht_map nocase t k = Some v \<longleftrightarrow>
    (\<exists>p < m_TableSize t. fst (slots t ! p) \<noteq> 0 \<and> slot_key nocase (slots t ! p) = k \<and> snd (snd (slots t ! p)) = Some v)"
proof -
  let ?f = "\<lambda>e. (slot_key nocase e, the (snd (snd e)))"
  have d: "distinct (map fst (map ?f (entries (slots t))))" using assms by (simp add: ht_ok_def ht_distinct_def comp_def)
  have pay: "\<forall>e \<in> set (entries (slots t)). snd (snd e) \<noteq> None" and len: "length (slots t) = m_TableSize t"
    using assms length_slots by (auto simp: ht_ok_def ht_wf_def)
  have "ht_map nocase t k = Some v \<longleftrightarrow> (k, v) \<in> set (map ?f (entries (slots t)))"
    unfolding ht_map_def by (rule map_of_eq_Some_iff [OF d])
  also have "\<dots> \<longleftrightarrow> (\<exists>e \<in> set (entries (slots t)). slot_key nocase e = k \<and> snd (snd e) = Some v)"
    using pay by force
  also have "\<dots> \<longleftrightarrow> (\<exists>e \<in> set (slots t). fst e \<noteq> 0 \<and> slot_key nocase e = k \<and> snd (snd e) = Some v)"
    unfolding set_filter by blast
  also have "\<dots> \<longleftrightarrow> (\<exists>p < m_TableSize t. fst (slots t ! p) \<noteq> 0 \<and> slot_key nocase (slots t ! p) = k \<and> snd (snd (slots t ! p)) = Some v)"
    unfolding len [symmetric] by (metis in_set_conv_nth)
  finally show ?thesis .
qed

lemma put_payload_map:
  assumes "ht_ok nocase t" "p < m_TableSize t" "fst (slots t ! p) \<noteq> 0"
  shows "ht_map nocase (put_payload t p v) = (ht_map nocase t)(slot_key nocase (slots t ! p) \<mapsto> v)"
proof -
  let ?t = "put_payload t p v" and ?key = "slot_key nocase (slots t ! p)"
  have wf: "ht_wf t" and len: "length (slots t) = m_TableSize t"
    using assms(1) length_slots by (auto simp: ht_ok_def)
  have ok: "ht_ok nocase ?t"
    using assms(1,2) by (simp add: ht_ok_def put_payload_wf put_payload_distinct)
  have only: "q = p" if "q < m_TableSize t" "fst (slots t ! q) \<noteq> 0" "slot_key nocase (slots t ! q) = ?key" for q
    using distinct_filter_nth [of "slot_key nocase" "\<lambda>e. fst e \<noteq> 0" "slots t" q p] assms that len
    by (simp add: ht_ok_def ht_distinct_def)
  have size: "m_TableSize ?t = m_TableSize t" by (simp add: put_payload_def)
  have nth: "slots ?t ! q = (if q = p then (fst (slots t ! p), fst (snd (slots t ! p)), Some v) else slots t ! q)"
    if "q < m_TableSize t" for q
    using slots_put [OF wf assms(2)] that len by (simp add: nth_list_update)
  have "ht_map nocase ?t k = Some w \<longleftrightarrow> ((ht_map nocase t)(?key \<mapsto> v)) k = Some w" for k w
  proof (cases "k = ?key")
    case True
    have "ht_map nocase ?t k = Some w \<longleftrightarrow> w = v"
      unfolding ht_map_slot [OF ok] size using nth assms(2,3) only True
      by (auto simp: slot_key_def split: if_splits)
    then show ?thesis using True by auto
  next
    case False
    have "ht_map nocase ?t k = Some w \<longleftrightarrow> ht_map nocase t k = Some w"
      unfolding ht_map_slot [OF ok] ht_map_slot [OF assms(1)] size using nth False
      by (auto simp: slot_key_def split: if_splits)
    then show ?thesis using False by simp
  qed
  then show ?thesis by (intro ext) (metis option.exhaust)
qed

section \<open>Tables whose values are replaced\<close>

text \<open>
  The contract of a table with replacement: \<open>find\<close> gives a place for the key where it is present,
  and writing there changes the value of the key and nothing else.
\<close>

locale key_store = key_map inv get add empty valid same
  for inv :: "'t \<Rightarrow> bool" and get :: "'t \<Rightarrow> 'k \<Rightarrow> 'v option" and add :: "'t \<Rightarrow> 'k \<Rightarrow> 'v \<Rightarrow> 't option"
    and empty :: 't and valid :: "'k \<Rightarrow> bool" and same :: "'k \<Rightarrow> 'k \<Rightarrow> bool" +
  fixes find_key :: "'t \<Rightarrow> 'k \<Rightarrow> 'p option option"
    and put :: "'t \<Rightarrow> 'p \<Rightarrow> 'v \<Rightarrow> 't"
  assumes find_get: "inv t \<Longrightarrow> valid k \<Longrightarrow> \<exists>r. find_key t k = Some r \<and> (r = None \<longleftrightarrow> get t k = None)"
    and put_found: "inv t \<Longrightarrow> valid k \<Longrightarrow> find_key t k = Some (Some p) \<Longrightarrow> inv (put t p v) \<and>
      (\<forall>k'. valid k' \<longrightarrow> get (put t p v) k' = (if same k k' then Some v else get t k'))"
begin

text \<open>Setting the value of a key: in place where there is one.\<close>

definition set_value :: "'t \<Rightarrow> 'k \<Rightarrow> 'v \<Rightarrow> 't option" where
  "set_value t k v = (case find_key t k of None \<Rightarrow> None | Some None \<Rightarrow> add t k v | Some (Some p) \<Rightarrow> Some (put t p v))"

lemma set_value_ok:
  assumes "inv t" "valid k"
  shows "\<exists>t'. set_value t k v = Some t' \<and> inv t' \<and>
    (\<forall>k'. valid k' \<longrightarrow> get t' k' = (if same k k' then Some v else get t k'))"
proof -
  from find_get [OF assms] obtain r where r: "find_key t k = Some r" "r = None \<longleftrightarrow> get t k = None" by (elim exE conjE)
  show ?thesis
  proof (cases r)
    case None
    then have none: "get t k = None" and "set_value t k v = add t k v" using r by (simp_all add: set_value_def)
    then show ?thesis using add_absent [OF assms none, of v] by simp
  next
    case (Some p)
    then have "set_value t k v = Some (put t p v)" using r(1) by (simp add: set_value_def)
    then show ?thesis using put_found [OF assms r(1) [unfolded Some], of v] by simp
  qed
qed

end

lemma store_find:
  assumes "ht_ok nocase t" "fst k \<noteq> 0"
  shows "\<exists>r. HashTableLookup nocase t (fst k) (snd k) = Some r \<and> (r = None \<longleftrightarrow> HashTableGet nocase t k = None)"
proof -
  have wf: "ht_wf t" "ht_distinct nocase t" using assms(1) by (auto simp: ht_ok_def)
  show ?thesis
  proof (cases "HashTableGet nocase t k")
    case None
    then show ?thesis
      using HashTableLookup_map(1) [OF wf(1) assms(2), of nocase "snd k"] HashTableGet_map [OF assms] by simp
  next
    case (Some v)
    then show ?thesis
      using HashTableLookup_map(2) [OF wf(1) assms(2) wf(2), of "snd k" v] HashTableGet_map [OF assms] by auto
  qed
qed

lemma store_put:
  assumes "ht_ok nocase t" "fst k \<noteq> 0" "HashTableLookup nocase t (fst k) (snd k) = Some (Some p)"
  shows "ht_ok nocase (put_payload t p v) \<and> (\<forall>k'. fst k' \<noteq> 0 \<longrightarrow> HashTableGet nocase (put_payload t p v) k' =
    (if same_key nocase k k' then Some v else HashTableGet nocase t k'))"
proof -
  have wf: "ht_wf t" "ht_distinct nocase t" using assms(1) by (auto simp: ht_ok_def)
  have p: "p < m_TableSize t \<and> slots t ! p \<in> set (entries (slots t)) \<and>
      slot_key nocase (slots t ! p) = (fst k, canon nocase (snd k))"
    using wf(1) assms(2) by (rule HashTableLookup_slot [of t "fst k" nocase "snd k"]) (use assms(3) in simp_all)
  then have ok: "ht_ok nocase (put_payload t p v)"
    using wf by (simp add: ht_ok_def put_payload_wf put_payload_distinct)
  have map: "ht_map nocase (put_payload t p v) = (ht_map nocase t)((fst k, canon nocase (snd k)) \<mapsto> v)"
    using put_payload_map [OF assms(1), of p v] p by simp
  have "HashTableGet nocase (put_payload t p v) k' = (if same_key nocase k k' then Some v else HashTableGet nocase t k')"
    if "fst k' \<noteq> 0" for k'
    unfolding HashTableGet_map [OF ok that] HashTableGet_map [OF assms(1) that] map same_key_def
    using assms(2) by (simp add: fun_upd_apply)
  then show ?thesis using ok by blast
qed

interpretation store: key_store "ht_ok nocase" "HashTableGet nocase"
    "\<lambda>t k v. HashTableInsert t (fst k) (snd k) v" HashTableInit "\<lambda>k. fst k \<noteq> 0" "same_key nocase"
    "\<lambda>t k. HashTableLookup nocase t (fst k) (snd k)" put_payload
  for nocase
proof (unfold_locales, goal_cases)
  case (1 t k)
  show ?case
    using store_find [OF 1] by blast
next
  case (2 t k p v)
  show ?case
    using store_put [OF 2, of v] by blast
qed

end
