(* ===== verification/T2_PathSet.thy ===== *)
theory T2_PathSet
  imports T2_HashUpdate
begin

text \<open>
  Hash sets in which every path is stored under its path hash, as the driver and the include
  scanner keep them. The lemmas describe a set by the keys of its members and a walk by what was
  inserted.
\<close>

section \<open>Adding a path\<close>

text \<open>\<open>if (!HashSetLookup (...)) HashSetInsert (...)\<close>, as the users of path sets write it.\<close>

definition set_add :: "bool \<Rightarrow> u32 \<Rightarrow> string \<Rightarrow> hash_table_base \<Rightarrow> hash_table_base option" where
  "set_add nocase hash path table =
     (case HashSetLookup nocase table hash path of
        None \<Rightarrow> None
      | Some found \<Rightarrow> if \<not> found then HashSetInsert table hash path else Some table)"

section \<open>Members\<close>

text \<open>The keys of a set in which every path is stored under its path hash.\<close>

definition members :: "bool \<Rightarrow> hash_table_base \<Rightarrow> u8 list set" where
  "members nocase t = canon nocase ` {s. HashSetLookup nocase t (Djb2HashPath nocase s) s = Some True}"

definition paths_ok :: "bool \<Rightarrow> hash_table_base \<Rightarrow> bool" where
  "paths_ok nocase t \<longleftrightarrow> hs_ok nocase t \<and>
     (\<forall>h s. h \<noteq> 0 \<longrightarrow> HashSetLookup nocase t h s = Some True \<longrightarrow> h = Djb2HashPath nocase s)"

lemma lookup_keys:
  "hs_ok nocase t \<Longrightarrow> h \<noteq> 0 \<Longrightarrow> HashSetLookup nocase t h s = Some (HashSetGet nocase t (h, s) \<noteq> None)"
  using HashSetWalk_keys(3) [of nocase t h s] by (auto simp: HashSetGet_def)

lemma lookup_members:
  assumes "hs_ok nocase t"
  shows "HashSetLookup nocase t (Djb2HashPath nocase s) s = Some (canon nocase s \<in> members nocase t)"
proof -
  have "HashSetLookup nocase t (Djb2HashPath nocase s') s' = HashSetLookup nocase t (Djb2HashPath nocase s) s"
    if "canon nocase s' = canon nocase s" for s'
    using HashSetWalk_keys(3) [OF assms, of "Djb2HashPath nocase s"] Djb2HashPath_canon [OF that] that by simp
  then show ?thesis
    using lookup_keys [OF assms, of "Djb2HashPath nocase s" s] unfolding members_def by fastforce
qed

lemma paths_ok_init [simp]: "paths_ok nocase HashSetInit" "members nocase HashSetInit = {}"
proof -
  have none: "h \<noteq> 0 \<Longrightarrow> HashSetLookup nocase HashSetInit h s = Some False" for h s
    using lookup_keys [OF hset.inv_empty, of h nocase s] hset.get_empty [of "(h, s)" nocase] by simp
  then show "paths_ok nocase HashSetInit" using hset.inv_empty [of nocase] by (simp add: paths_ok_def)
  show "members nocase HashSetInit = {}" using none by (simp add: members_def)
qed

lemma lookup_insert:
  assumes "hs_ok nocase t" "h \<noteq> 0" "HashSetLookup nocase t h s = Some False"
  shows "\<exists>t'. HashSetInsert t h s = Some t' \<and> hs_ok nocase t' \<and> (\<forall>h' s'. h' \<noteq> 0 \<longrightarrow>
    HashSetLookup nocase t' h' s' = Some (h' = h \<and> canon nocase s' = canon nocase s \<or> HashSetLookup nocase t h' s' = Some True))"
proof -
  have "HashSetGet nocase t (h, s) = None" using assms(3) by (simp add: HashSetGet_def)
  from hset.add_absent [OF assms(1) _ this, of "()"] assms(2)
  obtain t' where t': "HashSetInsert t h s = Some t'" "hs_ok nocase t'"
      "\<forall>k'. fst k' \<noteq> 0 \<longrightarrow> HashSetGet nocase t' k' = (if same_key nocase (h, s) k' then Some () else HashSetGet nocase t k')"
    by auto
  have "HashSetLookup nocase t' h' s' = Some (h' = h \<and> canon nocase s' = canon nocase s \<or> HashSetLookup nocase t h' s' = Some True)"
    if h': "h' \<noteq> 0" for h' s'
  proof -
    have get: "HashSetGet nocase t' (h', s') = (if same_key nocase (h, s) (h', s') then Some () else HashSetGet nocase t (h', s'))"
      using t'(3) h' by simp
    have same: "same_key nocase (h, s) (h', s') \<longleftrightarrow> h' = h \<and> canon nocase s' = canon nocase s"
      using h' by (auto simp: same_key_def)
    show ?thesis
      unfolding lookup_keys [OF t'(2) h'] lookup_keys [OF assms(1) h'] get same by auto
  qed
  then show ?thesis using t'(1,2) by blast
qed

lemma set_add_ok:
  assumes "paths_ok nocase t"
  shows "\<exists>t'. set_add nocase (Djb2HashPath nocase s) s t = Some t' \<and> paths_ok nocase t' \<and>
    members nocase t' = insert (canon nocase s) (members nocase t)"
proof (cases "canon nocase s \<in> members nocase t")
  case True
  then have "set_add nocase (Djb2HashPath nocase s) s t = Some t"
    using assms lookup_members [of nocase t s] by (simp add: set_add_def paths_ok_def)
  then show ?thesis using True assms by (simp add: insert_absorb)
next
  case False
  have ok: "hs_ok nocase t" using assms by (simp add: paths_ok_def)
  have no: "HashSetLookup nocase t (Djb2HashPath nocase s) s = Some False"
    using lookup_members [OF ok, of s] False by simp
  obtain t' where t': "HashSetInsert t (Djb2HashPath nocase s) s = Some t'" "hs_ok nocase t'"
      and look: "\<And>h' s'. h' \<noteq> 0 \<Longrightarrow> HashSetLookup nocase t' h' s' =
        Some (h' = Djb2HashPath nocase s \<and> canon nocase s' = canon nocase s \<or> HashSetLookup nocase t h' s' = Some True)"
    using lookup_insert [OF ok Djb2HashPath_nonzero no] by blast
  have paths: "h = Djb2HashPath nocase s'" if h: "h \<noteq> 0" "HashSetLookup nocase t' h s' = Some True" for h s'
  proof (cases "HashSetLookup nocase t h s' = Some True")
    case True
    then show ?thesis using assms h(1) unfolding paths_ok_def by blast
  next
    case False
    then show ?thesis using look [OF h(1), of s'] h(2) Djb2HashPath_canon [of nocase s' s] by simp
  qed
  have "HashSetLookup nocase t' (Djb2HashPath nocase s') s' = Some True \<longleftrightarrow>
      canon nocase s' = canon nocase s \<or> HashSetLookup nocase t (Djb2HashPath nocase s') s' = Some True" for s'
    using look [of "Djb2HashPath nocase s'" s'] Djb2HashPath_canon [of nocase s' s] by (cases "canon nocase s' = canon nocase s") simp_all
  then have "members nocase t' = insert (canon nocase s) (members nocase t)"
    unfolding members_def by (simp add: Collect_disj_eq image_Un) blast
  moreover have "set_add nocase (Djb2HashPath nocase s) s t = Some t'"
    using no t'(1) by (simp add: set_add_def)
  ultimately show ?thesis using paths t'(2) unfolding paths_ok_def by blast
qed

lemma walk_members:
  assumes "paths_ok nocase t"
  shows "canon nocase ` set (map snd (HashSetWalk t)) = members nocase t"
    and "distinct (map (canon nocase) (map snd (HashSetWalk t)))"
proof -
  let ?key = "\<lambda>(h, s). (h, canon nocase s)"
  have ok: "hs_ok nocase t" using assms by (simp add: paths_ok_def)
  note walk = HashSetWalk_keys [OF ok]
  have hash: "h = Djb2HashPath nocase s" if "(h, s) \<in> set (HashSetWalk t)" for h s
  proof -
    have "h \<noteq> 0" using that by (simp add: HashSetWalk_def)
    moreover have "?key (h, s) \<in> set (map ?key (HashSetWalk t))" using that unfolding set_map by (rule imageI)
    ultimately show ?thesis using walk(3) [of h s] assms by (simp add: paths_ok_def)
  qed
  have mem: "canon nocase s \<in> members nocase t \<longleftrightarrow>
      (Djb2HashPath nocase s, canon nocase s) \<in> set (map ?key (HashSetWalk t))" for s
    using walk(3) [of "Djb2HashPath nocase s" s] lookup_members [OF ok, of s] by simp
  show "canon nocase ` set (map snd (HashSetWalk t)) = members nocase t"
  proof (intro subset_antisym subsetI)
    fix c assume "c \<in> canon nocase ` set (map snd (HashSetWalk t))"
    then obtain h s where s: "(h, s) \<in> set (HashSetWalk t)" "c = canon nocase s" by auto
    have "?key (h, s) \<in> set (map ?key (HashSetWalk t))" unfolding set_map by (rule imageI) (rule s(1))
    then have "(Djb2HashPath nocase s, canon nocase s) \<in> set (map ?key (HashSetWalk t))"
      unfolding hash [OF s(1)] by simp
    then show "c \<in> members nocase t" using mem s(2) by blast
  next
    fix c assume c: "c \<in> members nocase t"
    then obtain s where s: "c = canon nocase s" by (auto simp: members_def)
    then have "(Djb2HashPath nocase s, c) \<in> set (map ?key (HashSetWalk t))" using mem c by simp
    then obtain e where e: "e \<in> set (HashSetWalk t)" "c = canon nocase (snd e)" by (auto simp: case_prod_beta)
    then show "c \<in> canon nocase ` set (map snd (HashSetWalk t))" by simp
  qed
  have "inj_on snd (set (map ?key (HashSetWalk t)))"
  proof (rule inj_onI)
    fix x y assume "x \<in> set (map ?key (HashSetWalk t))" "y \<in> set (map ?key (HashSetWalk t))" "snd x = snd y"
    then obtain h s h' s' where "(h, s) \<in> set (HashSetWalk t)" "(h', s') \<in> set (HashSetWalk t)"
        and xy: "x = (h, canon nocase s)" "y = (h', canon nocase s')" "canon nocase s = canon nocase s'"
      by (auto simp: case_prod_beta)
    then show "x = y" using hash [of h s] hash [of h' s'] Djb2HashPath_canon [OF xy(3)] by simp
  qed
  then have "distinct (map snd (map ?key (HashSetWalk t)))"
    unfolding distinct_map [of snd] using walk(2) by blast
  moreover have "map snd (map ?key (HashSetWalk t)) = map (canon nocase) (map snd (HashSetWalk t))"
    by (simp add: case_prod_beta)
  ultimately show "distinct (map (canon nocase) (map snd (HashSetWalk t)))" by metis
qed

section \<open>What was inserted\<close>

lemma HashSetInsert_walk:
  assumes "hs_ok nocase t" "h \<noteq> 0" "HashSetInsert t h s = Some t'"
  shows "mset (HashSetWalk t') = add_mset (h, s) (mset (HashSetWalk t))"
proof -
  have sim: "HashSetWalk (hash_table_base.truncate T) = map (\<lambda>(h, s, p). (h, s)) (entries (slots T))"
    if "ht_wf T" for T :: "unit hash_table"
  proof -
    have len: "length (m_Hashes T) = length (m_Strings T)" "length (m_Strings T) = length (m_Payloads T)"
      using that by (auto simp: ht_wf_def)
    show ?thesis
      using zip_drop_payload [OF len]
      by (auto simp: HashSetWalk_def hash_table_base.defs slots_def filter_map comp_def case_prod_beta)
  qed
  obtain T :: "unit hash_table" where T: "ht_wf T" "hash_table_base.truncate T = t"
    using assms(1) by (auto simp: hs_ok_def ht_ok_def)
  obtain T' where T': "HashTableInsert T h s () = Some T'" "ht_wf T'"
      "mset (entries (slots T')) = add_mset (h, s, Some ()) (mset (entries (slots T)))"
    using HashTableInsert_entries [OF T(1) assms(2)] by blast
  have t': "hash_table_base.truncate T' = t'"
    using HashSetInsert_sim [OF T(1), of h s "()"] T(2) T'(1) assms(3) by simp
  show ?thesis
    unfolding sim [OF T'(2), unfolded t'] sim [OF T(1), unfolded T(2)] mset_map T'(3) by (simp del: mset_filter)
qed

end
