(* ===== verification/T2_StaleOutputs.thy ===== *)
theory T2_StaleOutputs
  imports T2_Driver T2_PathSet
begin

text \<open>
  Model of \<open>DriverRemoveStaleOutputs\<close> and \<open>DriverCleanOutputs\<close> of \<open>src/Driver.cpp\<close> and of
  \<open>RemoveFileOrDir\<close> of \<open>src/Common.cpp\<close> on Unix: files that the previous build produced and that
  the current DAG does not produce are removed, then the directories above them. The file system
  is a parameter, with the C function \<open>remove\<close> on it. The outer option of a result is that of the
  probe loops of the hash sets, the inner sum carries the faults of the path functions.
\<close>

section \<open>Definitions\<close>

type_synonym 'fs remove = "string \<Rightarrow> 'fs \<Rightarrow> int \<times> 'fs"

definition RemoveFileOrDir :: "'fs remove \<Rightarrow> string \<Rightarrow> 'fs \<Rightarrow> bool \<times> 'fs" where
  "RemoveFileOrDir remove_fn path fs = (let (r, fs') = remove_fn path fs in (0 = r, fs'))"

fun add_files :: "bool \<Rightarrow> file_and_hash list \<Rightarrow> hash_table_base \<Rightarrow> hash_table_base option" where
  "add_files nocase [] file_table = Some file_table"
| "add_files nocase ((name, hash) # ps) file_table =
     (case set_add nocase hash name file_table of
        None \<Rightarrow> None
      | Some file_table' \<Rightarrow> add_files nocase ps file_table')"

fun add_nodes :: "bool \<Rightarrow> NodeData list \<Rightarrow> hash_table_base \<Rightarrow> hash_table_base option" where
  "add_nodes nocase [] file_table = Some file_table"
| "add_nodes nocase (nd # nds) file_table =
     (case add_files nocase (nd_OutputFiles nd) file_table of
        None \<Rightarrow> None
      | Some file_table' \<Rightarrow>
          (case add_files nocase (nd_AuxOutputFiles nd) file_table' of
             None \<Rightarrow> None
           | Some file_table'' \<Rightarrow> add_nodes nocase nds file_table''))"

text \<open>\<open>while (PathStripLast (&buffer))\<close>\<close>

function dirs_loop ::
  "bool \<Rightarrow> PathBuffer \<Rightarrow> hash_table_base \<Rightarrow> hash_table_base result option" where
  "dirs_loop nocase buffer nuke_table =
     (let (buffer', more) = PathStripLast buffer
      in if \<not> more \<or> pb_SegCount buffer' = 0 then Some (Inr nuke_table)
         else case PathFormat buffer' of
                Inl e \<Rightarrow> Some (Inl e)
              | Inr dir \<Rightarrow>
                  (case set_add nocase (Djb2HashPath nocase dir) dir nuke_table of
                     None \<Rightarrow> None
                   | Some nuke_table' \<Rightarrow> dirs_loop nocase buffer' nuke_table'))"
  by pat_completeness auto
termination
  by (relation "measure (\<lambda>(_, buffer, _). pb_SegCount buffer)")
    (auto simp: PathStripLast_def Let_def split: if_splits)

declare dirs_loop.simps [simp del]

definition check_file ::
  "platform \<Rightarrow> hash_table_base \<Rightarrow> string \<Rightarrow> hash_table_base \<Rightarrow> hash_table_base result option" where
  "check_file pl file_table path nuke_table =
     (let path_hash = Djb2HashPath (pl_nocase pl) path
      in case HashSetLookup (pl_nocase pl) file_table path_hash path of
           None \<Rightarrow> None
         | Some found \<Rightarrow>
             if \<not> found then
               (case set_add (pl_nocase pl) path_hash path nuke_table of
                  None \<Rightarrow> None
                | Some nuke_table' \<Rightarrow>
                    (case PathInit (pl_uninit pl) path (pl_native pl) of
                       Inl e \<Rightarrow> Some (Inl e)
                     | Inr buffer \<Rightarrow> dirs_loop (pl_nocase pl) buffer nuke_table'))
             else Some (Inr nuke_table))"

fun check_files ::
  "platform \<Rightarrow> hash_table_base \<Rightarrow> string list \<Rightarrow> hash_table_base \<Rightarrow> hash_table_base result option" where
  "check_files pl file_table [] nuke_table = Some (Inr nuke_table)"
| "check_files pl file_table (path # paths) nuke_table =
     (case check_file pl file_table path nuke_table of
        Some (Inr nuke_table') \<Rightarrow> check_files pl file_table paths nuke_table'
      | stop \<Rightarrow> stop)"

fun check_states ::
  "platform \<Rightarrow> hash_table_base \<Rightarrow> NodeStateData list \<Rightarrow> hash_table_base \<Rightarrow> hash_table_base result option" where
  "check_states pl file_table [] nuke_table = Some (Inr nuke_table)"
| "check_states pl file_table (nd # nds) nuke_table =
     (case check_files pl file_table (sd_OutputFiles nd) nuke_table of
        Some (Inr nuke_table') \<Rightarrow>
          (case check_files pl file_table (sd_AuxOutputFiles nd) nuke_table' of
             Some (Inr nuke_table'') \<Rightarrow> check_states pl file_table nds nuke_table''
           | stop \<Rightarrow> stop)
      | stop \<Rightarrow> stop)"

text \<open>The array \<open>paths\<close> after the call of \<open>std::sort\<close>, which is the parameter \<open>sort_paths\<close>.\<close>

definition stale_paths ::
  "platform \<Rightarrow> (string list \<Rightarrow> string list) \<Rightarrow> DagData \<Rightarrow> StateData \<Rightarrow> string list result option" where
  "stale_paths pl sort_paths dag state_data =
     (case add_nodes (pl_nocase pl) (dag_NodeData dag) HashSetInit of
        None \<Rightarrow> None
      | Some file_table \<Rightarrow>
          (case check_states pl file_table (st_NodeStates state_data) HashSetInit of
             None \<Rightarrow> None
           | Some (Inl e) \<Rightarrow> Some (Inl e)
           | Some (Inr nuke_table) \<Rightarrow> Some (Inr (sort_paths (map snd (HashSetWalk nuke_table))))))"

fun remove_loop :: "'fs remove \<Rightarrow> string list \<Rightarrow> 'fs \<Rightarrow> 'fs" where
  "remove_loop remove_fn [] fs = fs"
| "remove_loop remove_fn (path # paths) fs =
     remove_loop remove_fn paths (snd (RemoveFileOrDir remove_fn path fs))"

definition DriverRemoveStaleOutputs ::
  "'fs remove \<Rightarrow> platform \<Rightarrow> (string list \<Rightarrow> string list) \<Rightarrow> Driver \<Rightarrow> 'fs \<Rightarrow> 'fs result option" where
  "DriverRemoveStaleOutputs remove_fn pl sort_paths self fs =
     (case dr_StateData self of
        None \<Rightarrow> Some (Inr fs)
      | Some state_data \<Rightarrow>
          (case stale_paths pl sort_paths (dr_DagData self) state_data of
             None \<Rightarrow> None
           | Some (Inl e) \<Rightarrow> Some (Inl e)
           | Some (Inr paths) \<Rightarrow> Some (Inr (remove_loop remove_fn paths fs))))"

fun clean_files :: "'fs remove \<Rightarrow> file_and_hash list \<Rightarrow> nat \<Rightarrow> 'fs \<Rightarrow> nat \<times> 'fs" where
  "clean_files remove_fn [] n fs = (n, fs)"
| "clean_files remove_fn (fh # fhs) n fs =
     (let (ok, fs') = RemoveFileOrDir remove_fn (fst fh) fs
      in clean_files remove_fn fhs (if 0 = (of_bool ok :: int) then Suc n else n) fs')"

fun clean_nodes :: "'fs remove \<Rightarrow> DagData \<Rightarrow> NodeState list \<Rightarrow> nat \<Rightarrow> 'fs \<Rightarrow> nat \<times> 'fs" where
  "clean_nodes remove_fn dag [] n fs = (n, fs)"
| "clean_nodes remove_fn dag (st # sts) n fs =
     (let (n', fs') = clean_files remove_fn (nd_OutputFiles (dag_NodeData dag ! ns_MmapData st)) n fs
      in clean_nodes remove_fn dag sts n' fs')"

text \<open>The number is the one that the message reports.\<close>

definition DriverCleanOutputs :: "'fs remove \<Rightarrow> Driver \<Rightarrow> 'fs \<Rightarrow> nat \<times> 'fs" where
  "DriverCleanOutputs remove_fn self fs = clean_nodes remove_fn (dr_DagData self) (dr_Nodes self) 0 fs"

section \<open>Specification\<close>

text \<open>Everything the current DAG produces, and everything the last build produced.\<close>

definition current_outputs :: "DagData \<Rightarrow> file_and_hash list" where
  "current_outputs dag = concat (map (\<lambda>nd. nd_OutputFiles nd @ nd_AuxOutputFiles nd) (dag_NodeData dag))"

definition old_outputs :: "StateData \<Rightarrow> string list" where
  "old_outputs state_data =
     concat (map (\<lambda>nd. sd_OutputFiles nd @ sd_AuxOutputFiles nd) (st_NodeStates state_data))"

definition stale :: "bool \<Rightarrow> DagData \<Rightarrow> StateData \<Rightarrow> string set" where
  "stale nocase dag state_data =
     {p \<in> set (old_outputs state_data). \<forall>(f, h) \<in> set (current_outputs dag). canon nocase f \<noteq> canon nocase p}"

text \<open>The proper directories above a (normalized) path, without the root.\<close>

definition is_absolute :: "string \<Rightarrow> bool" where
  "is_absolute path \<longleftrightarrow> peek path = CHR ''/''"

definition norm :: "string \<Rightarrow> nat \<times> string list" where
  "norm path = normalize (snd (path_root kUnix path))"

definition parent_dirs :: "string \<Rightarrow> string set" where
  "parent_dirs path =
     (\<lambda>k. path_text (is_absolute path) (fst (norm path), take k (snd (norm path)))) ` {0<..<length (snd (norm path))}"

text \<open>Whether the path functions can hold the path in their buffers.\<close>

definition path_fits :: "string \<Rightarrow> bool" where
  "path_fits path \<longleftrightarrow> length path < 65536 \<and> length (comps [] (snd (path_root kUnix path))) \<le> 64 \<and>
     length (path_text (is_absolute path) (norm path)) \<le> 510"

text \<open>The contract of \<open>std::sort\<close> with the comparison \<open>strlen(r) < strlen(l)\<close>.\<close>

definition sorts_by_length :: "(string list \<Rightarrow> string list) \<Rightarrow> bool" where
  "sorts_by_length sort_paths \<longleftrightarrow> (\<forall>ps. mset (sort_paths ps) = mset ps \<and>
     sorted_wrt (\<lambda>l r. length (c_str r) \<le> length (c_str l)) (sort_paths ps))"

section \<open>The loops\<close>

lemma add_files_ok:
  assumes "paths_ok nocase t" "\<forall>(f, h) \<in> set ps. h = Djb2HashPath nocase f"
  shows "\<exists>t'. add_files nocase ps t = Some t' \<and> paths_ok nocase t' \<and>
    members nocase t' = members nocase t \<union> canon nocase ` fst ` set ps"
  using assms
proof (induction ps arbitrary: t)
  case (Cons p ps)
  obtain f where p: "p = (f, Djb2HashPath nocase f)" using Cons.prems(2) by (cases p) auto
  obtain t1 where t1: "set_add nocase (Djb2HashPath nocase f) f t = Some t1" "paths_ok nocase t1"
      "members nocase t1 = insert (canon nocase f) (members nocase t)"
    using set_add_ok [OF Cons.prems(1)] by blast
  show ?case using Cons.IH [OF t1(2)] Cons.prems(2) t1 by (auto simp: p)
qed simp

lemma add_nodes_ok:
  assumes "paths_ok nocase t" "\<forall>nd \<in> set nds. \<forall>(f, h) \<in> set (nd_OutputFiles nd @ nd_AuxOutputFiles nd). h = Djb2HashPath nocase f"
  shows "\<exists>t'. add_nodes nocase nds t = Some t' \<and> paths_ok nocase t' \<and>
    members nocase t' = members nocase t \<union> (\<Union>nd \<in> set nds. canon nocase ` fst ` set (nd_OutputFiles nd @ nd_AuxOutputFiles nd))"
  using assms
proof (induction nds arbitrary: t)
  case (Cons nd nds)
  have hashes: "\<forall>(f, h) \<in> set (nd_OutputFiles nd). h = Djb2HashPath nocase f"
      "\<forall>(f, h) \<in> set (nd_AuxOutputFiles nd). h = Djb2HashPath nocase f"
    using Cons.prems(2) by auto
  obtain t1 where t1: "add_files nocase (nd_OutputFiles nd) t = Some t1" "paths_ok nocase t1"
      "members nocase t1 = members nocase t \<union> canon nocase ` fst ` set (nd_OutputFiles nd)"
    using add_files_ok [OF Cons.prems(1) hashes(1)] by blast
  obtain t2 where t2: "add_files nocase (nd_AuxOutputFiles nd) t1 = Some t2" "paths_ok nocase t2"
      "members nocase t2 = members nocase t1 \<union> canon nocase ` fst ` set (nd_AuxOutputFiles nd)"
    using add_files_ok [OF t1(2) hashes(2)] by blast
  obtain t' where "add_nodes nocase nds t2 = Some t'" "paths_ok nocase t'"
      "members nocase t' = members nocase t2 \<union> (\<Union>nd \<in> set nds. canon nocase ` fst ` set (nd_OutputFiles nd @ nd_AuxOutputFiles nd))"
    using Cons.IH [OF t2(2)] Cons.prems(2) by auto
  then show ?case using t1(1,3) t2(1,3) by (simp add: image_Un Un_assoc)
qed simp

lemma strip_path:
  assumes "path_ok b" "n \<le> pb_SegCount b"
  shows "path_ok (b\<lparr>pb_SegCount := n\<rparr>)" "vpath (b\<lparr>pb_SegCount := n\<rparr>) = (pb_LeadingDotDots b, take n (segs b))"
  using path_ok_ends(2,4) [OF assms] assms by (auto simp: path_ok_def vpath_def segs_def arrays_ok_def)

lemma dirs_text_take: "length (dirs_text c (take n ds)) \<le> length (dirs_text c ds)"
proof -
  have "dirs_text c (xs @ ys) = dirs_text c xs @ (if xs = [] then dirs_text c ys else concat (map (\<lambda>d. c # d) ys))" for xs ys
    by (cases xs) auto
  from this [of "take n ds" "drop n ds"] show ?thesis by simp
qed

definition printable :: "PathBuffer \<Rightarrow> bool" where
  "printable b \<longleftrightarrow> path_ok b \<and> pb_Type b = kUnix \<and> pb_Flags b = (if PathIsAbsolute b then kFlagAbsolute else 0) \<and>
     length (path_text (PathIsAbsolute b) (vpath b)) \<le> 510"

lemma printable_format: "printable b \<Longrightarrow> PathFormat b = Inr (path_text (PathIsAbsolute b) (vpath b))"
  using PathFormat_spec [of b] by (auto simp: printable_def prints_def)

lemma printable_strip:
  assumes "printable b" "n \<le> pb_SegCount b" shows "printable (b\<lparr>pb_SegCount := n\<rparr>)"
  using assms strip_path [of b n] dirs_text_take [of "CHR ''/''" n "segs b"]
  by (auto simp: printable_def PathIsAbsolute_def path_text_def vpath_def)

lemma min_seg_count_unix: "printable b \<Longrightarrow> min_seg_count b = 0"
  by (auto simp: printable_def min_seg_count_def kFlagAbsolute_def kFlagWindowsDevicePath_def)

lemma dirs_loop_ok:
  assumes "printable b" "paths_ok nocase t"
  shows "\<exists>t'. dirs_loop nocase b t = Some (Inr t') \<and> paths_ok nocase t' \<and>
    members nocase t' = members nocase t \<union>
      canon nocase ` (\<lambda>k. path_text (PathIsAbsolute b) (pb_LeadingDotDots b, take k (segs b))) ` {0<..<pb_SegCount b}"
  using assms
proof (induction "pb_SegCount b" arbitrary: b t rule: less_induct)
  case less
  show ?case
  proof (cases "pb_SegCount b \<le> 1")
    case True
    then have "{0<..<pb_SegCount b} = {}" by auto
    moreover have "dirs_loop nocase b t = Some (Inr t)"
      using True by (auto simp: dirs_loop.simps [of nocase b] PathStripLast_def Let_def)
    ultimately show ?thesis using less.prems by simp
  next
    case False
    define n where "n = pb_SegCount b - 1"
    let ?b = "b\<lparr>pb_SegCount := n\<rparr>"
    have n: "pb_SegCount b = Suc n" "0 < n" using False by (auto simp: n_def)
    have b: "printable ?b" by (rule printable_strip [OF less.prems(1)]) (simp add: n)
    have v: "vpath ?b = (pb_LeadingDotDots b, take n (segs b))"
      using strip_path(2) [of b n] less.prems(1) n by (simp add: printable_def)
    then have segs': "segs ?b = take n (segs b)" by (simp add: vpath_def)
    let ?dir = "path_text (PathIsAbsolute b) (pb_LeadingDotDots b, take n (segs b))"
    have fmt: "PathFormat ?b = Inr ?dir" using printable_format [OF b] v by (simp add: PathIsAbsolute_def)
    obtain t1 where t1: "set_add nocase (Djb2HashPath nocase ?dir) ?dir t = Some t1" "paths_ok nocase t1"
        "members nocase t1 = insert (canon nocase ?dir) (members nocase t)"
      using set_add_ok [OF less.prems(2)] by blast
    have step: "dirs_loop nocase b t = dirs_loop nocase ?b t1"
      using fmt t1(1) n min_seg_count_unix [OF less.prems(1)]
      by (simp add: dirs_loop.simps [of nocase b] PathStripLast_def)
    have range: "{0<..<Suc n} = insert n {0<..<n}" using n by auto
    have "(\<lambda>k. path_text (PathIsAbsolute b) (pb_LeadingDotDots b, take k (take n (segs b)))) ` {0<..<n} =
        (\<lambda>k. path_text (PathIsAbsolute b) (pb_LeadingDotDots b, take k (segs b))) ` {0<..<n}"
      by (rule image_cong) (auto simp: min_def)
    then show ?thesis
      using less.hyps [of ?b t1] b t1(2,3) n unfolding step segs' n(1) range
      by (auto simp: PathIsAbsolute_def)
  qed
qed

definition unix_platform :: "platform \<Rightarrow> bool" where
  "unix_platform pl \<longleftrightarrow> pl_native pl = kUnix \<and> arrays_ok (pl_uninit pl)"

lemma path_size_text: "path_size ds \<le> length (dirs_text c ds)"
proof -
  have "path_size ds \<le> length (concat (map (\<lambda>d. c # d) ds))" for ds by (induction ds) (auto simp: path_size_def)
  from this [of "tl ds"] show ?thesis by (cases ds) (auto simp: path_size_def)
qed

lemma PathInit_printable:
  assumes "unix_platform pl" "path_fits path"
  obtains b where "PathInit (pl_uninit pl) path (pl_native pl) = Inr b" "printable b" "vpath b = norm path"
    "PathIsAbsolute b = is_absolute path"
proof -
  have size: "path_size (snd (norm path)) \<le> 512"
    using assms(2) path_size_text [of "snd (norm path)" "CHR ''/''"] by (simp add: path_fits_def path_text_def)
  then obtain b where b: "PathInit (pl_uninit pl) path kUnix = Inr b" "path_ok b" "vpath b = norm path"
      "pb_Type b = kUnix" "pb_Flags b = fst (path_root kUnix path)"
    using PathInit_spec [of "pl_uninit pl" path kUnix] assms
    by (auto simp: unix_platform_def path_fits_def norm_def path_size_def)
  then have "PathIsAbsolute b = is_absolute path" "pb_Flags b = (if PathIsAbsolute b then kFlagAbsolute else 0)"
    by (simp_all add: PathInit_root PathIsAbsolute_def is_absolute_def kFlagAbsolute_def)
  then show ?thesis using that b assms by (simp add: printable_def path_fits_def unix_platform_def)
qed

text \<open>What one old output adds to the table of paths to remove.\<close>

definition nukes :: "bool \<Rightarrow> hash_table_base \<Rightarrow> string \<Rightarrow> u8 list set" where
  "nukes nocase file_table path =
     (if canon nocase path \<in> members nocase file_table then {} else canon nocase ` insert path (parent_dirs path))"

lemma check_file_ok:
  assumes "unix_platform pl" "path_fits path" "paths_ok (pl_nocase pl) ft" "paths_ok (pl_nocase pl) t"
  shows "\<exists>t'. check_file pl ft path t = Some (Inr t') \<and> paths_ok (pl_nocase pl) t' \<and>
    members (pl_nocase pl) t' = members (pl_nocase pl) t \<union> nukes (pl_nocase pl) ft path"
proof -
  let ?nc = "pl_nocase pl"
  have look: "HashSetLookup ?nc ft (Djb2HashPath ?nc path) path = Some (canon ?nc path \<in> members ?nc ft)"
    using assms(3) by (simp add: lookup_members paths_ok_def)
  obtain b where b: "PathInit (pl_uninit pl) path (pl_native pl) = Inr b" "printable b" "vpath b = norm path"
      "PathIsAbsolute b = is_absolute path"
    using PathInit_printable [OF assms(1,2)] .
  obtain t1 where t1: "set_add ?nc (Djb2HashPath ?nc path) path t = Some t1" "paths_ok ?nc t1"
      "members ?nc t1 = insert (canon ?nc path) (members ?nc t)"
    using set_add_ok [OF assms(4)] by blast
  have dirs: "(\<lambda>k. path_text (PathIsAbsolute b) (pb_LeadingDotDots b, take k (segs b))) ` {0<..<pb_SegCount b} = parent_dirs path"
    using b(2-4) length_segs [of b] by (auto simp: parent_dirs_def vpath_def printable_def prod_eq_iff)
  show ?thesis
    using dirs_loop_ok [OF b(2) t1(2)] assms(4) t1 b(1) unfolding dirs
    by (auto simp: check_file_def Let_def look nukes_def)
qed

lemma check_files_ok:
  assumes "unix_platform pl" "\<forall>path \<in> set paths. path_fits path" "paths_ok (pl_nocase pl) ft" "paths_ok (pl_nocase pl) t"
  shows "\<exists>t'. check_files pl ft paths t = Some (Inr t') \<and> paths_ok (pl_nocase pl) t' \<and>
    members (pl_nocase pl) t' = members (pl_nocase pl) t \<union> (\<Union>path \<in> set paths. nukes (pl_nocase pl) ft path)"
  using assms(2,4)
proof (induction paths arbitrary: t)
  case (Cons path paths)
  obtain t1 where t1: "check_file pl ft path t = Some (Inr t1)" "paths_ok (pl_nocase pl) t1"
      "members (pl_nocase pl) t1 = members (pl_nocase pl) t \<union> nukes (pl_nocase pl) ft path"
    using check_file_ok [OF assms(1) _ assms(3) Cons.prems(2), of path] Cons.prems(1) by auto
  show ?case using Cons.IH [OF _ t1(2)] Cons.prems(1) t1(1,3) by auto
qed simp

lemma check_states_append:
  "check_states pl ft nds t =
     check_files pl ft (concat (map (\<lambda>nd. sd_OutputFiles nd @ sd_AuxOutputFiles nd) nds)) t"
proof -
  have append: "check_files pl ft (xs @ ys) t =
      (case check_files pl ft xs t of Some (Inr t') \<Rightarrow> check_files pl ft ys t' | stop \<Rightarrow> stop)" for xs ys t
    by (induction xs arbitrary: t) (auto split: option.split sum.split)
  show ?thesis
    by (induction nds arbitrary: t) (auto simp: append split: option.split sum.split)
qed

lemma stale_paths_ok:
  assumes "unix_platform pl" "sorts_by_length sort_paths"
    and "\<forall>(f, h) \<in> set (current_outputs dag). h = Djb2HashPath (pl_nocase pl) f"
    and "\<forall>path \<in> set (old_outputs state_data). path_fits path"
  shows "\<exists>ps. stale_paths pl sort_paths dag state_data = Some (Inr ps) \<and>
    canon (pl_nocase pl) ` set ps =
      canon (pl_nocase pl) ` (\<Union>p \<in> stale (pl_nocase pl) dag state_data. insert p (parent_dirs p)) \<and>
    distinct (map (canon (pl_nocase pl)) ps) \<and> sorted_wrt (\<lambda>l r. length (c_str r) \<le> length (c_str l)) ps"
proof -
  let ?nc = "pl_nocase pl"
  have "\<forall>nd \<in> set (dag_NodeData dag). \<forall>(f, h) \<in> set (nd_OutputFiles nd @ nd_AuxOutputFiles nd). h = Djb2HashPath ?nc f"
    using assms(3) by (auto simp: current_outputs_def)
  from add_nodes_ok [OF paths_ok_init(1) this] obtain ft where
    ft: "add_nodes ?nc (dag_NodeData dag) HashSetInit = Some ft" "paths_ok ?nc ft"
      "members ?nc ft = canon ?nc ` fst ` set (current_outputs dag)"
    by (auto simp: current_outputs_def image_UN)
  obtain t where t: "check_states pl ft (st_NodeStates state_data) HashSetInit = Some (Inr t)" "paths_ok ?nc t"
      "members ?nc t = (\<Union>path \<in> set (old_outputs state_data). nukes ?nc ft path)"
    using check_files_ok [OF assms(1,4) ft(2) paths_ok_init(1)] by (auto simp: check_states_append old_outputs_def)
  have stale: "stale ?nc dag state_data = {p \<in> set (old_outputs state_data). canon ?nc p \<notin> members ?nc ft}"
    unfolding ft(3) stale_def by (auto simp: image_image case_prod_beta image_iff)
  have nuked: "members ?nc t = canon ?nc ` (\<Union>p \<in> stale ?nc dag state_data. insert p (parent_dirs p))"
    unfolding t(3) stale nukes_def image_UN by auto
  let ?ps = "sort_paths (map snd (HashSetWalk t))"
  have perm: "mset ?ps = mset (map snd (HashSetWalk t))" and
    sorted: "sorted_wrt (\<lambda>l r. length (c_str r) \<le> length (c_str l)) ?ps"
    using assms(2) by (simp_all add: sorts_by_length_def)
  have "canon ?nc ` set ?ps = members ?nc t"
    using walk_members(1) [OF t(2)] mset_eq_setD [OF perm] by simp
  moreover have "mset (map (canon ?nc) ?ps) = mset (map (canon ?nc) (map snd (HashSetWalk t)))"
    unfolding mset_map [of "canon ?nc"] perm ..
  then have "distinct (map (canon ?nc) ?ps)"
    using walk_members(2) [OF t(2)] by (metis mset_eq_imp_distinct_iff)
  ultimately show ?thesis using ft(1) t(1) nuked sorted by (simp add: stale_paths_def)
qed

section \<open>What is removed\<close>

lemma longer_first:
  assumes "sorted_wrt (\<lambda>l r. length (c_str r) \<le> length (c_str l)) ps" "i < length ps" "j < length ps"
    and "length (c_str (ps ! j)) < length (c_str (ps ! i))"
  shows "i < j"
proof (rule ccontr)
  assume "\<not> i < j"
  then have "length (c_str (ps ! i)) \<le> length (c_str (ps ! j))"
    using sorted_wrt_nth_less [OF assms(1), of j i] assms(2,4) by (cases "j = i") auto
  then show False using assms(4) by simp
qed

text \<open>
  C34: Before a build, the driver removes exactly the files that the last build produced and that no
  node of the current DAG produces (up to case where the file system ignores it), and the
  directories above them; each path once, and every path before the directories that contain it.
  It therefore removes a current output only if that is a directory above a stale file.
\<close>

theorem DriverRemoveStaleOutputs_removes:
  assumes "unix_platform pl" "sorts_by_length sort_paths" "dr_StateData self = Some state_data"
    and "\<forall>(f, h) \<in> set (current_outputs (dr_DagData self)). h = Djb2HashPath (pl_nocase pl) f"
    and "\<forall>path \<in> set (old_outputs state_data). path_fits path"
  shows "\<exists>ps. DriverRemoveStaleOutputs remove_fn pl sort_paths self fs = Some (Inr (remove_loop remove_fn ps fs)) \<and>
    canon (pl_nocase pl) ` set ps = canon (pl_nocase pl) `
      (\<Union>p \<in> stale (pl_nocase pl) (dr_DagData self) state_data. insert p (parent_dirs p)) \<and>
    distinct (map (canon (pl_nocase pl)) ps) \<and>
    (\<forall>i < length ps. \<forall>j < length ps. (\<exists>rest. c_str (ps ! i) = c_str (ps ! j) @ CHR ''/'' # rest) \<longrightarrow> i < j) \<and>
    (\<forall>(f, h) \<in> set (current_outputs (dr_DagData self)). canon (pl_nocase pl) f \<in> canon (pl_nocase pl) ` set ps \<longrightarrow>
      (\<exists>p \<in> stale (pl_nocase pl) (dr_DagData self) state_data. canon (pl_nocase pl) f \<in> canon (pl_nocase pl) ` parent_dirs p))"
proof -
  let ?nc = "pl_nocase pl" and ?dag = "dr_DagData self"
  obtain ps where ps: "stale_paths pl sort_paths ?dag state_data = Some (Inr ps)" "distinct (map (canon ?nc) ps)"
      "canon ?nc ` set ps = canon ?nc ` (\<Union>p \<in> stale ?nc ?dag state_data. insert p (parent_dirs p))"
      and sorted: "sorted_wrt (\<lambda>l r. length (c_str r) \<le> length (c_str l)) ps"
    using stale_paths_ok [OF assms(1,2,4,5)] by blast
  have "i < j" if "i < length ps" "j < length ps" "c_str (ps ! i) = c_str (ps ! j) @ CHR ''/'' # rest" for i j rest
    by (rule longer_first [OF sorted that(1,2)]) (simp add: that(3))
  then have order: "\<forall>i < length ps. \<forall>j < length ps. (\<exists>rest. c_str (ps ! i) = c_str (ps ! j) @ CHR ''/'' # rest) \<longrightarrow> i < j"
    by blast
  have "\<forall>(f, h) \<in> set (current_outputs ?dag). canon ?nc f \<in> canon ?nc ` set ps \<longrightarrow>
      (\<exists>p \<in> stale ?nc ?dag state_data. canon ?nc f \<in> canon ?nc ` parent_dirs p)"
    unfolding ps(3) stale_def by fastforce
  moreover have "DriverRemoveStaleOutputs remove_fn pl sort_paths self fs = Some (Inr (remove_loop remove_fn ps fs))"
    using ps(1) assms(3) by (simp add: DriverRemoveStaleOutputs_def)
  ultimately show ?thesis using order ps(2,3) by (intro exI [of _ ps] conjI)
qed

definition ex_stale_driver :: Driver where
  "ex_stale_driver = DriverInit ex_options
     (ex_dag\<lparr>dag_NodeData := [ex_node\<lparr>nd_OutputFiles := [(''out/b.o'', Djb2Hash ''out/b.o'')]\<rparr>]\<rparr>)
     (Some \<lparr>st_NodeGuids = [(0, 1)], st_NodeStates = [\<lparr>sd_BuildResult = 0, sd_InputSignature = (0, 0),
        sd_OutputFiles = [''out/a.o'', ''out/b.o''], sd_AuxOutputFiles = []\<rparr>]\<rparr>)"

definition ex_stale_platform :: platform where
  "ex_stale_platform = ex_platform\<lparr>pl_uninit := blank\<rparr>"

text \<open>A stable sort by descending length and, as file system, the log of the calls of \<open>remove\<close>.\<close>

theorem DriverRemoveStaleOutputs_removes_witness:
  "\<exists>ps. DriverRemoveStaleOutputs (\<lambda>p calls. (0, calls @ [p])) ex_stale_platform (sort_key (\<lambda>s. - int (length (c_str s))))
      ex_stale_driver [] = Some (Inr (remove_loop (\<lambda>p calls. (0, calls @ [p])) ps [])) \<and>
    canon False ` set ps = {canon False ''out/a.o'', canon False ''out''}"
proof -
  let ?sort = "sort_key (\<lambda>s. - int (length (c_str s)))" and ?st = "the (dr_StateData ex_stale_driver)"
  have sorts: "sorts_by_length ?sort"
    unfolding sorts_by_length_def
  proof (intro allI conjI)
    fix ps :: "string list"
    show "sorted_wrt (\<lambda>l r. length (c_str r) \<le> length (c_str l)) (?sort ps)"
      using sorted_sort_key [of "\<lambda>s. - int (length (c_str s))" ps] by (simp add: sorted_map)
  qed simp
  have unix: "unix_platform ex_stale_platform" "pl_nocase ex_stale_platform = False"
    by (simp_all add: unix_platform_def ex_stale_platform_def ex_platform_def blank_def arrays_ok_def)
  have st: "dr_StateData ex_stale_driver = Some ?st" by (simp add: ex_stale_driver_def DriverInit_def)
  have cur: "set (current_outputs (dr_DagData ex_stale_driver)) = {(''out/b.o'', Djb2HashPath False ''out/b.o'')}"
    by (simp add: ex_stale_driver_def DriverInit_def current_outputs_def Djb2HashPath_def ex_node_def)
  have old: "set (old_outputs ?st) = {''out/a.o'', ''out/b.o''}"
    by (simp add: ex_stale_driver_def DriverInit_def old_outputs_def)
  have norm: "norm ''out/a.o'' = (0, [''out'', ''a.o''])" "norm ''out/b.o'' = (0, [''out'', ''b.o''])"
      "is_absolute ''out/a.o'' = False" "is_absolute ''out/b.o'' = False" by code_simp+
  have comps: "comps [] (snd (path_root kUnix ''out/a.o'')) = [''out'', ''a.o'']"
      "comps [] (snd (path_root kUnix ''out/b.o'')) = [''out'', ''b.o'']" by code_simp+
  have fits: "path_fits ''out/a.o''" "path_fits ''out/b.o''"
    unfolding path_fits_def norm comps by (simp_all add: path_text_def dotdots_def)
  have "canon False ''out/a.o'' \<noteq> canon False ''out/b.o''" by code_simp
  then have stale: "stale False (dr_DagData ex_stale_driver) ?st = {''out/a.o''}"
    unfolding stale_def cur old by auto
  have "{0<..<Suc (Suc 0)} = {Suc 0}" by auto
  then have dirs: "parent_dirs ''out/a.o'' = {''out''}"
    unfolding parent_dirs_def norm by (simp add: path_text_def dotdots_def)
  show ?thesis
    using DriverRemoveStaleOutputs_removes [OF unix(1) sorts st, of "\<lambda>p calls. (0, calls @ [p])" "[]"] fits
    unfolding cur old unix(2) stale by (simp add: dirs) blast
qed

section \<open>What cleaning reports\<close>

text \<open>
  \<open>RemoveFileOrDir\<close> returns true on success, so the comparison with zero counts the files that
  could not be removed: where every removal succeeds, the message reports none.
\<close>

lemma clean_files_failures:
  "\<forall>p fs. fst (remove_fn p fs) = 0 \<Longrightarrow> fst (clean_files remove_fn fhs n fs) = n"
  by (induction fhs arbitrary: n fs) (auto simp: RemoveFileOrDir_def split_beta Let_def)

lemma DriverCleanOutputs_counts_failures:
  assumes "\<forall>p fs. fst (remove_fn p fs) = 0"
  shows "fst (DriverCleanOutputs remove_fn self fs) = 0"
proof -
  have "fst (clean_nodes remove_fn dag sts n fs) = n" for dag sts n fs
    using clean_files_failures [OF assms] by (induction sts arbitrary: n fs) (auto simp: split_beta Let_def)
  then show ?thesis by (simp add: DriverCleanOutputs_def)
qed

end
