(* ===== verification/T2_BinaryWriter.thy ===== *)
theory T2_BinaryWriter
  imports T2_DagData
begin

text \<open>
  Model of \<open>src/BinaryWriter.cpp\<close>, \<open>src/BinaryWriter.hpp\<close> and \<open>src/BinaryData.hpp\<close>: binary files made of
  segments with pointers between them. A pointer is first written as a dummy value with a fixup and
  gets the distance to its target when the segments are laid out one after the other;
  \<open>FrozenPtr\<close> adds that distance to its own address. Integers are stored in the byte order of a
  little-endian machine. The lemmas show that after any sequence of writes the file has every piece
  of data at the place its locator stands for, and every pointer leads there.
\<close>

section \<open>Data\<close>

record BinaryLocator =
  bl_SegIndex :: nat
  bl_Offset :: nat

record BinaryFixup =
  bx_PointerOffset :: nat
  bx_Target :: BinaryLocator

record BinarySegment =
  sg_Index :: nat
  sg_GlobalOffset :: int
  sg_Bytes :: "u8 list"
  sg_Fixups :: "BinaryFixup list"

text \<open>The bytes of an integer in memory.\<close>

definition bytes_of :: "nat \<Rightarrow> 'a::len word \<Rightarrow> u8 list" where
  "bytes_of n v = map (\<lambda>i. ucast (drop_bit (8 * i) v)) [0..<n]"

definition word_of_bytes :: "u8 list \<Rightarrow> 'a::len word" where
  "word_of_bytes bs = foldr (\<lambda>b v. ucast b OR push_bit 8 v) bs 0"

section \<open>Segments\<close>

definition BinarySegmentInit :: "nat \<Rightarrow> BinarySegment" where
  "BinarySegmentInit index = \<lparr>sg_Index = index, sg_GlobalOffset = - 1, sg_Bytes = [], sg_Fixups = []\<rparr>"

definition BinarySegmentSize :: "BinarySegment \<Rightarrow> nat" where
  "BinarySegmentSize self = length (sg_Bytes self)"

definition BinarySegmentWrite :: "BinarySegment \<Rightarrow> u8 list \<Rightarrow> BinarySegment" where
  "BinarySegmentWrite seg data = seg\<lparr>sg_Bytes := sg_Bytes seg @ data\<rparr>"

text \<open>Room for data that the caller fills in: its position and arbitrary bytes there.\<close>

definition BinarySegmentAlloc :: "(nat \<Rightarrow> u8) \<Rightarrow> BinarySegment \<Rightarrow> nat \<Rightarrow> BinarySegment \<times> nat" where
  "BinarySegmentAlloc junk seg len =
     (seg\<lparr>sg_Bytes := sg_Bytes seg @ map junk [0..<len]\<rparr>, length (sg_Bytes seg))"

text \<open>\<open>(offset + alignment - 1) & ~(alignment - 1)\<close> for an alignment that is a power of two.\<close>

definition BinarySegmentAlign :: "BinarySegment \<Rightarrow> nat \<Rightarrow> BinarySegment" where
  "BinarySegmentAlign self alignment =
     (let offset = length (sg_Bytes self);
          aligned = (offset + alignment - 1) div alignment * alignment;
          delta = aligned - offset
      in self\<lparr>sg_Bytes := sg_Bytes self @ replicate delta 0xfe\<rparr>)"

definition BinarySegmentWriteUint8 :: "BinarySegment \<Rightarrow> u8 \<Rightarrow> BinarySegment" where
  "BinarySegmentWriteUint8 seg v = BinarySegmentWrite seg (bytes_of 1 v)"

definition BinarySegmentWriteInt16 :: "BinarySegment \<Rightarrow> int \<Rightarrow> BinarySegment" where
  "BinarySegmentWriteInt16 seg v = BinarySegmentWrite seg (bytes_of 2 (of_int v :: u16))"

definition BinarySegmentWriteInt32 :: "BinarySegment \<Rightarrow> int \<Rightarrow> BinarySegment" where
  "BinarySegmentWriteInt32 seg v = BinarySegmentWrite seg (bytes_of 4 (of_int v :: u32))"

definition BinarySegmentWriteInt64 :: "BinarySegment \<Rightarrow> int \<Rightarrow> BinarySegment" where
  "BinarySegmentWriteInt64 seg v = BinarySegmentWrite seg (bytes_of 8 (of_int v :: u64))"

definition BinarySegmentWriteUint32 :: "BinarySegment \<Rightarrow> u32 \<Rightarrow> BinarySegment" where
  "BinarySegmentWriteUint32 seg v = BinarySegmentWrite seg (bytes_of 4 v)"

definition BinarySegmentWriteUint64 :: "BinarySegment \<Rightarrow> u64 \<Rightarrow> BinarySegment" where
  "BinarySegmentWriteUint64 seg v = BinarySegmentWrite seg (bytes_of 8 v)"

definition BinarySegmentWriteStringData :: "BinarySegment \<Rightarrow> string \<Rightarrow> BinarySegment" where
  "BinarySegmentWriteStringData seg s = BinarySegmentWrite seg (map of_char (c_str s) @ [0])"

definition BinarySegmentWriteNullPointer :: "BinarySegment \<Rightarrow> BinarySegment" where
  "BinarySegmentWriteNullPointer seg = BinarySegmentWriteUint32 seg 0"

definition BinarySegmentPosition :: "BinarySegment \<Rightarrow> BinaryLocator" where
  "BinarySegmentPosition self = \<lparr>bl_SegIndex = sg_Index self, bl_Offset = length (sg_Bytes self)\<rparr>"

definition BinarySegmentWritePointer :: "BinarySegment \<Rightarrow> BinaryLocator \<Rightarrow> BinarySegment" where
  "BinarySegmentWritePointer seg locator =
     BinarySegmentWriteUint32
       (seg\<lparr>sg_Fixups := sg_Fixups seg @ [\<lparr>bx_PointerOffset = length (sg_Bytes seg), bx_Target = locator\<rparr>]\<rparr>)
       0x7eeeeeee"

section \<open>Layout\<close>

text \<open>\<open>memcpy (ptr_loc, &delta32, 4)\<close>\<close>

definition overwrite :: "u8 list \<Rightarrow> nat \<Rightarrow> u8 list \<Rightarrow> u8 list" where
  "overwrite bytes pos data = take pos bytes @ data @ drop (pos + length data) bytes"

fun fixup_loop :: "(nat \<Rightarrow> int) \<Rightarrow> int \<Rightarrow> BinaryFixup list \<Rightarrow> u8 list \<Rightarrow> u8 list result" where
  "fixup_loop seg_base my_seg_base [] bytes = Inr bytes"
| "fixup_loop seg_base my_seg_base (fixup # fixups) bytes =
     (let target_seg_base = seg_base (bl_SegIndex (bx_Target fixup));
          source_pos = my_seg_base + int (bx_PointerOffset fixup);
          dest_pos = target_seg_base + int (bl_Offset (bx_Target fixup));
          delta = dest_pos - source_pos;
          delta32 = (of_int delta :: u32)
      in if sint delta32 \<noteq> delta then Inl (Croak ''pointer relocation too big'')
         else fixup_loop seg_base my_seg_base fixups (overwrite bytes (bx_PointerOffset fixup) (bytes_of 4 delta32)))"

definition BinarySegmentFixupPointers :: "BinarySegment list \<Rightarrow> BinarySegment \<Rightarrow> BinarySegment result" where
  "BinarySegmentFixupPointers segs self =
     (case fixup_loop (\<lambda>i. sg_GlobalOffset (segs ! i)) (sg_GlobalOffset self) (sg_Fixups self) (sg_Bytes self) of
        Inl e \<Rightarrow> Inl e
      | Inr bytes \<Rightarrow> Inr (self\<lparr>sg_Bytes := bytes\<rparr>))"

fun offsets_loop :: "BinarySegment list \<Rightarrow> nat \<Rightarrow> BinarySegment list" where
  "offsets_loop [] offset = []"
| "offsets_loop (seg # segs) offset =
     seg\<lparr>sg_GlobalOffset := int offset\<rparr> # offsets_loop segs (offset + BinarySegmentSize seg)"

fun fix_all :: "BinarySegment list \<Rightarrow> BinarySegment list \<Rightarrow> BinarySegment list result" where
  "fix_all segs [] = Inr []"
| "fix_all segs (self # rest) =
     (case BinarySegmentFixupPointers segs self of
        Inl e \<Rightarrow> Inl e
      | Inr self' \<Rightarrow> (case fix_all segs rest of Inl e \<Rightarrow> Inl e | Inr rest' \<Rightarrow> Inr (self' # rest')))"

definition BinaryWriterFinalize :: "BinarySegment list \<Rightarrow> BinarySegment list result" where
  "BinaryWriterFinalize segs =
     (let segs = offsets_loop (map (\<lambda>seg. BinarySegmentAlign seg 16) segs) 0 in fix_all segs segs)"

text \<open>\<open>BinaryWriterAddSegment\<close>: the index of a new segment is its position.\<close>

definition BinaryWriterAddSegment :: "BinarySegment list \<Rightarrow> BinarySegment list" where
  "BinaryWriterAddSegment segs = segs @ [BinarySegmentInit (length segs)]"

text \<open>
  Writing the segments to a file. \<open>opened\<close> is whether \<open>fopen\<close> succeeds, \<open>written n\<close> whether
  the \<open>n\<close>-th \<open>fwrite\<close> writes all its bytes. The result is the success and, where a file was
  opened, the bytes in it.
\<close>

fun write_loop :: "(nat \<Rightarrow> bool) \<Rightarrow> BinarySegment list \<Rightarrow> nat \<Rightarrow> u8 list \<Rightarrow> bool \<times> u8 list" where
  "write_loop written [] i out = (True, out)"
| "write_loop written (seg # segs) i out =
     (if written i then write_loop written segs (Suc i) (out @ sg_Bytes seg) else (False, out))"

definition BinaryWriterFlush :: "bool \<Rightarrow> (nat \<Rightarrow> bool) \<Rightarrow> BinarySegment list \<Rightarrow> (bool \<times> u8 list option) result" where
  "BinaryWriterFlush opened written segs =
     (case BinaryWriterFinalize segs of
        Inl e \<Rightarrow> Inl e
      | Inr segs \<Rightarrow>
          if \<not> opened then Inr (False, None)
          else let (success, out) = write_loop written segs 0 [] in Inr (success, Some out))"

section \<open>Reading\<close>

text \<open>A read outside the mapped file gives \<open>None\<close>.\<close>

definition read_bytes :: "u8 list \<Rightarrow> nat \<Rightarrow> nat \<Rightarrow> u8 list option" where
  "read_bytes mem pos n = (if pos + n \<le> length mem then Some (take n (drop pos mem)) else None)"

definition read_u32 :: "u8 list \<Rightarrow> nat \<Rightarrow> u32 option" where
  "read_u32 mem pos = map_option word_of_bytes (read_bytes mem pos 4)"

definition read_i32 :: "u8 list \<Rightarrow> nat \<Rightarrow> int option" where
  "read_i32 mem pos = map_option sint (read_u32 mem pos)"

definition read_u64 :: "u8 list \<Rightarrow> nat \<Rightarrow> u64 option" where
  "read_u64 mem pos = map_option word_of_bytes (read_bytes mem pos 8)"

text \<open>
  \<open>FrozenPtr::Get\<close> of a pointer at \<open>pos\<close>: the inner \<open>None\<close> is the null pointer. Positions
  are relative to the start of the mapping.
\<close>

definition FrozenPtr_Get :: "u8 list \<Rightarrow> nat \<Rightarrow> int option option" where
  "FrozenPtr_Get mem pos =
     map_option (\<lambda>offset. if offset = 0 then None else Some (int pos + offset)) (read_i32 mem pos)"

text \<open>\<open>FrozenString\<close>: the characters at the target up to the terminator.\<close>

fun read_chars :: "u8 list \<Rightarrow> string option" where
  "read_chars [] = None"
| "read_chars (b # bs) = (if b = 0 then Some [] else map_option ((#) (char_of (unat b))) (read_chars bs))"

definition read_string :: "u8 list \<Rightarrow> nat \<Rightarrow> string option" where
  "read_string mem pos = (case FrozenPtr_Get mem pos of
     Some (Some target) \<Rightarrow> if target < 0 then None else read_chars (drop (nat target) mem) | _ \<Rightarrow> None)"

text \<open>\<open>FrozenArray\<close>: a count and a pointer to elements of \<open>element_size\<close> bytes.\<close>

definition read_elements :: "(nat \<Rightarrow> 'a option) \<Rightarrow> nat \<Rightarrow> int \<Rightarrow> int option \<Rightarrow> 'a list option" where
  "read_elements read_element element_size n array =
     (if n \<le> 0 then Some []
      else case array of
        None \<Rightarrow> None
      | Some a \<Rightarrow> if a < 0 then None
          else those (map (\<lambda>i. read_element (nat a + i * element_size)) [0..<nat n]))"

definition FrozenArray_read :: "u8 list \<Rightarrow> (nat \<Rightarrow> 'a option) \<Rightarrow> nat \<Rightarrow> nat \<Rightarrow> 'a list option" where
  "FrozenArray_read mem read_element element_size pos =
     (case (read_i32 mem pos, FrozenPtr_Get mem (pos + 4)) of
        (Some n, Some array) \<Rightarrow> read_elements read_element element_size n array
      | _ \<Rightarrow> None)"

section \<open>Bytes of words\<close>

lemma length_bytes_of [simp]: "length (bytes_of n v) = n"
  by (simp add: bytes_of_def)

lemma bit_word_of_bytes:
  "bit (word_of_bytes bs :: 'a::len word) k \<longleftrightarrow> k < LENGTH('a) \<and> k div 8 < length bs \<and> bit (bs ! (k div 8)) (k mod 8)"
proof (induction bs arbitrary: k)
  case Nil
  then show ?case by (simp add: word_of_bytes_def)
next
  case (Cons b bs)
  have step: "word_of_bytes (b # bs) = (ucast b OR push_bit 8 (word_of_bytes bs) :: 'a word)"
    by (simp add: word_of_bytes_def)
  show ?case
  proof (cases "k < 8")
    case True
    then show ?thesis by (auto simp: step bit_simps)
  next
    case False
    then obtain j where "k = j + 8" by (metis add.commute le_Suc_ex linorder_not_less)
    moreover have "(j + 8) div 8 = Suc (j div 8)" "(j + 8) mod 8 = j mod 8" by simp_all
    moreover have "\<not> bit b (j + 8)" using bit_imp_le_length [of b "j + 8"] by auto
    moreover have "bit (word_of_bytes (b # bs) :: 'a word) (j + 8) \<longleftrightarrow> j + 8 < LENGTH('a) \<and> bit (word_of_bytes bs :: 'a word) j"
      using calculation(4) by (auto simp: step bit_simps)
    ultimately show ?thesis using Cons [of j] by auto
  qed
qed

lemma word_of_bytes_of [simp]: "LENGTH('a) \<le> 8 * n \<Longrightarrow> word_of_bytes (bytes_of n v) = (v :: 'a::len word)"
proof (rule bit_word_eqI)
  fix k assume "LENGTH('a) \<le> 8 * n" "k < LENGTH('a)"
  then have k: "k div 8 < n" by linarith
  moreover have "8 * (k div 8) + k mod 8 = k" by simp
  ultimately show "bit (word_of_bytes (bytes_of n v) :: 'a word) k = bit v k"
    using \<open>k < LENGTH('a)\<close> by (simp add: bit_word_of_bytes bytes_of_def bit_simps)
qed

lemma sint_of_int [simp]: "- (2 ^ 31) \<le> i \<Longrightarrow> i < 2 ^ 31 \<Longrightarrow> sint (of_int i :: u32) = i"
  by (simp add: signed_of_int signed_take_bit_int_eq_self)

section \<open>Segments as lists of cells\<close>

text \<open>
  The abstract contents of a segment: data and pointers in the order they were written.
\<close>

datatype cell = Data "u8 list" | Pointer BinaryLocator

fun cell_size :: "cell \<Rightarrow> nat" where
  "cell_size (Data bs) = length bs"
| "cell_size (Pointer loc) = 4"

definition cells_size :: "cell list \<Rightarrow> nat" where
  "cells_size cs = sum_list (map cell_size cs)"

fun raw :: "cell \<Rightarrow> u8 list" where
  "raw (Data bs) = bs"
| "raw (Pointer loc) = bytes_of 4 (0x7eeeeeee :: u32)"

fun fixups_of :: "nat \<Rightarrow> cell list \<Rightarrow> BinaryFixup list" where
  "fixups_of pos [] = []"
| "fixups_of pos (Data bs # cs) = fixups_of (pos + length bs) cs"
| "fixups_of pos (Pointer loc # cs) = \<lparr>bx_PointerOffset = pos, bx_Target = loc\<rparr> # fixups_of (pos + 4) cs"

definition holds_cells :: "BinarySegment \<Rightarrow> cell list \<Rightarrow> bool" where
  "holds_cells seg cs \<longleftrightarrow> sg_Bytes seg = concat (map raw cs) \<and> sg_Fixups seg = fixups_of 0 cs"

text \<open>The contents once the segments have their places: \<open>base\<close> gives the place of each segment.\<close>

fun link :: "(nat \<Rightarrow> int) \<Rightarrow> int \<Rightarrow> cell list \<Rightarrow> u8 list" where
  "link base pos [] = []"
| "link base pos (Data bs # cs) = bs @ link base (pos + int (length bs)) cs"
| "link base pos (Pointer loc # cs) =
     bytes_of 4 (of_int (base (bl_SegIndex loc) + int (bl_Offset loc) - pos) :: u32) @ link base (pos + 4) cs"

text \<open>Every distance fits in 32 bits.\<close>

fun near :: "(nat \<Rightarrow> int) \<Rightarrow> int \<Rightarrow> cell list \<Rightarrow> bool" where
  "near base pos [] \<longleftrightarrow> True"
| "near base pos (Data bs # cs) \<longleftrightarrow> near base (pos + int (length bs)) cs"
| "near base pos (Pointer loc # cs) \<longleftrightarrow>
     (let delta = base (bl_SegIndex loc) + int (bl_Offset loc) - pos in sint (of_int delta :: u32) = delta) \<and>
     near base (pos + 4) cs"

lemma length_raw [simp]: "length (raw c) = cell_size c"
  by (cases c) simp_all

lemma length_raws [simp]: "length (concat (map raw cs)) = cells_size cs"
  by (simp add: length_concat cells_size_def comp_def)

lemma cells_size_simps [simp]:
  "cells_size [] = 0" "cells_size (c # cs) = cell_size c + cells_size cs" "cells_size (cs @ ds) = cells_size cs + cells_size ds"
  by (simp_all add: cells_size_def)

lemma fixups_of_append [simp]: "fixups_of pos (cs @ ds) = fixups_of pos cs @ fixups_of (pos + cells_size cs) ds"
  by (induction pos cs rule: fixups_of.induct) (simp_all add: add.assoc)

lemma link_append [simp]: "link base pos (cs @ ds) = link base pos cs @ link base (pos + int (cells_size cs)) ds"
  by (induction base pos cs rule: link.induct) (simp_all add: add.assoc)

lemma near_append [simp]: "near base pos (cs @ ds) \<longleftrightarrow> near base pos cs \<and> near base (pos + int (cells_size cs)) ds"
  by (induction base pos cs rule: near.induct) (simp_all add: add.assoc)

lemma length_link [simp]: "length (link base pos cs) = cells_size cs"
  by (induction base pos cs rule: link.induct) simp_all

lemma holds_cells_init [simp]: "holds_cells (BinarySegmentInit i) []"
  by (simp add: holds_cells_def BinarySegmentInit_def)

lemma holds_cells_write: "holds_cells seg cs \<Longrightarrow> holds_cells (BinarySegmentWrite seg bs) (cs @ [Data bs])"
  by (simp add: holds_cells_def BinarySegmentWrite_def)

lemma holds_cells_pointer:
  "holds_cells seg cs \<Longrightarrow> holds_cells (BinarySegmentWritePointer seg loc) (cs @ [Pointer loc])"
  by (simp add: holds_cells_def BinarySegmentWritePointer_def BinarySegmentWriteUint32_def BinarySegmentWrite_def)

lemma holds_cells_position:
  "holds_cells seg cs \<Longrightarrow> BinarySegmentPosition seg = \<lparr>bl_SegIndex = sg_Index seg, bl_Offset = cells_size cs\<rparr>"
  by (simp add: holds_cells_def BinarySegmentPosition_def)

lemma holds_cells_size: "holds_cells seg cs \<Longrightarrow> length (sg_Bytes seg) = cells_size cs"
  by (simp add: holds_cells_def)

text \<open>The padding at the end of a segment.\<close>

definition padding_for :: "nat \<Rightarrow> u8 list" where
  "padding_for n = replicate ((n + 15) div 16 * 16 - n) 0xfe"

lemma holds_cells_align:
  "holds_cells seg cs \<Longrightarrow> holds_cells (BinarySegmentAlign seg 16) (cs @ [Data (padding_for (cells_size cs))])"
  by (simp add: holds_cells_def BinarySegmentAlign_def padding_for_def Let_def add.commute)

lemma overwrite_mid [simp]: "length xs = n \<Longrightarrow> length ys = length zs \<Longrightarrow> overwrite (xs @ ys @ rest) n zs = xs @ zs @ rest"
  by (simp add: overwrite_def)

lemma fixup_loop_link:
  "fixup_loop base my (fixups_of (length xs) cs) (xs @ concat (map raw cs)) =
   (if near base (my + int (length xs)) cs then Inr (xs @ link base (my + int (length xs)) cs)
    else Inl (Croak ''pointer relocation too big''))"
proof (induction cs arbitrary: xs)
  case (Cons c cs)
  show ?case
  proof (cases c)
    case (Data bs)
    then show ?thesis using Cons [of "xs @ bs"] by (simp add: add.assoc)
  next
    case (Pointer loc)
    let ?v = "of_int (base (bl_SegIndex loc) + int (bl_Offset loc) - (my + int (length xs))) :: u32"
    show ?thesis using Cons [of "xs @ bytes_of 4 ?v"] Pointer by (simp add: Let_def add.assoc)
  qed
qed simp

section \<open>Files\<close>

definition writer_holds :: "BinarySegment list \<Rightarrow> cell list list \<Rightarrow> bool" where
  "writer_holds segs css \<longleftrightarrow> length segs = length css \<and>
     (\<forall>k < length css. holds_cells (segs ! k) (css ! k) \<and> sg_Index (segs ! k) = k)"

definition targets_ok :: "nat \<Rightarrow> cell list \<Rightarrow> bool" where
  "targets_ok n cs \<longleftrightarrow> (\<forall>loc. Pointer loc \<in> set cs \<longrightarrow> bl_SegIndex loc < n)"

definition padded :: "cell list \<Rightarrow> cell list" where
  "padded cs = cs @ [Data (padding_for (cells_size cs))]"

definition seg_start :: "cell list list \<Rightarrow> nat \<Rightarrow> nat" where
  "seg_start css k = sum_list (map (\<lambda>cs. cells_size (padded cs)) (take k css))"

text \<open>Where a locator is in the file.\<close>

definition place :: "cell list list \<Rightarrow> BinaryLocator \<Rightarrow> nat" where
  "place css loc = seg_start css (bl_SegIndex loc) + bl_Offset loc"

definition file_of :: "cell list list \<Rightarrow> u8 list" where
  "file_of css = concat (map (\<lambda>k. link (\<lambda>i. int (seg_start css i)) (int (seg_start css k)) (padded (css ! k))) [0..<length css])"

lemma offsets_loop_map:
  "offsets_loop segs off = map (\<lambda>k. (segs ! k)\<lparr>sg_GlobalOffset := int (off + sum_list (map BinarySegmentSize (take k segs)))\<rparr>) [0..<length segs]"
proof (induction segs arbitrary: off)
  case (Cons seg segs)
  have "[0..<length (seg # segs)] = 0 # map Suc [0..<length segs]" by (simp add: upt_conv_Cons map_Suc_upt del: upt_Suc)
  then show ?case by (simp add: Cons add.assoc del: upt_Suc)
qed simp

lemma fix_all_Inr: "fix_all segs xs = Inr ys \<Longrightarrow> list_all2 (\<lambda>x y. BinarySegmentFixupPointers segs x = Inr y) xs ys"
  by (induction xs arbitrary: ys) (auto split: sum.splits)

lemma fix_all_returns:
  "(\<And>x. x \<in> set xs \<Longrightarrow> \<exists>y. BinarySegmentFixupPointers segs x = Inr y) \<Longrightarrow> \<exists>ys. fix_all segs xs = Inr ys"
  by (induction xs) (auto split: sum.splits, fastforce)

lemma link_cong: "targets_ok n cs \<Longrightarrow> (\<And>i. i < n \<Longrightarrow> f i = g i) \<Longrightarrow> link f pos cs = link g pos cs"
  by (induction f pos cs rule: link.induct) (auto simp: targets_ok_def)

lemma near_cong: "targets_ok n cs \<Longrightarrow> (\<And>i. i < n \<Longrightarrow> f i = g i) \<Longrightarrow> near f pos cs = near g pos cs"
  by (induction f pos cs rule: near.induct) (auto simp: targets_ok_def)

lemma writer_aligned:
  assumes "writer_holds segs css"
  defines "segs' \<equiv> offsets_loop (map (\<lambda>seg. BinarySegmentAlign seg 16) segs) 0"
  shows "length segs' = length css"
    "k < length css \<Longrightarrow> sg_GlobalOffset (segs' ! k) = int (seg_start css k) \<and> holds_cells (segs' ! k) (padded (css ! k))"
proof -
  have len: "length segs = length css" and h: "\<And>k. k < length css \<Longrightarrow> holds_cells (segs ! k) (css ! k)"
    using assms(1) by (simp_all add: writer_holds_def)
  have al: "holds_cells (BinarySegmentAlign (segs ! k) 16) (padded (css ! k))" if "k < length css" for k
    using holds_cells_align [OF h [OF that]] by (simp add: padded_def)
  show "length segs' = length css" by (simp add: segs'_def offsets_loop_map len)
  assume k: "k < length css"
  have "map BinarySegmentSize (take k (map (\<lambda>seg. BinarySegmentAlign seg 16) segs)) =
      map (\<lambda>cs. cells_size (padded cs)) (take k css)"
    using k len holds_cells_size [OF al] by (intro nth_equalityI) (simp_all add: BinarySegmentSize_def)
  then show "sg_GlobalOffset (segs' ! k) = int (seg_start css k) \<and> holds_cells (segs' ! k) (padded (css ! k))"
    using k len al [OF k] by (simp add: segs'_def offsets_loop_map seg_start_def holds_cells_def)
qed

lemma targets_padded [simp]: "targets_ok n (padded cs) = targets_ok n cs"
  by (auto simp: targets_ok_def padded_def)

text \<open>\<open>BinaryWriterFinalize\<close> lays the segments out, unless two of them are too far apart.\<close>

lemma BinaryWriterFinalize_file:
  assumes "writer_holds segs css" "\<And>cs. cs \<in> set css \<Longrightarrow> targets_ok (length css) cs"
  shows "BinaryWriterFinalize segs = Inr segs' \<Longrightarrow> concat (map sg_Bytes segs') = file_of css"
    "BinaryWriterFinalize segs = Inr segs' \<Longrightarrow> k < length css \<Longrightarrow>
      near (\<lambda>i. int (seg_start css i)) (int (seg_start css k)) (padded (css ! k))"
    "(\<And>k. k < length css \<Longrightarrow> near (\<lambda>i. int (seg_start css i)) (int (seg_start css k)) (padded (css ! k))) \<Longrightarrow>
      \<exists>segs'. BinaryWriterFinalize segs = Inr segs'"
proof -
  define ss where "ss = offsets_loop (map (\<lambda>seg. BinarySegmentAlign seg 16) segs) 0"
  note al = writer_aligned [OF assms(1), folded ss_def]
  have fin: "BinaryWriterFinalize segs = fix_all ss ss" by (simp add: BinaryWriterFinalize_def ss_def Let_def)
  have fixed: "BinarySegmentFixupPointers ss (ss ! k) =
      (if near (\<lambda>i. int (seg_start css i)) (int (seg_start css k)) (padded (css ! k))
       then Inr ((ss ! k)\<lparr>sg_Bytes := link (\<lambda>i. int (seg_start css i)) (int (seg_start css k)) (padded (css ! k))\<rparr>)
       else Inl (Croak ''pointer relocation too big''))" if k: "k < length css" for k
  proof -
    have t: "targets_ok (length css) (padded (css ! k))" using assms(2) k by simp
    have "holds_cells (ss ! k) (padded (css ! k))" "sg_GlobalOffset (ss ! k) = int (seg_start css k)" using al(2) [OF k] by simp_all
    then show ?thesis
      using fixup_loop_link [of "\<lambda>i. sg_GlobalOffset (ss ! i)" "int (seg_start css k)" "[]" "padded (css ! k)"]
        link_cong [OF t, of "\<lambda>i. sg_GlobalOffset (ss ! i)" "\<lambda>i. int (seg_start css i)"]
        near_cong [OF t, of "\<lambda>i. sg_GlobalOffset (ss ! i)" "\<lambda>i. int (seg_start css i)"] al(2)
      by (simp add: BinarySegmentFixupPointers_def holds_cells_def)
  qed
  show "\<exists>segs'. BinaryWriterFinalize segs = Inr segs'"
    if "\<And>k. k < length css \<Longrightarrow> near (\<lambda>i. int (seg_start css i)) (int (seg_start css k)) (padded (css ! k))"
    unfolding fin using that fixed al(1) by (intro fix_all_returns) (auto simp: in_set_conv_nth)
  assume "BinaryWriterFinalize segs = Inr segs'"
  then have all: "list_all2 (\<lambda>x y. BinarySegmentFixupPointers ss x = Inr y) ss segs'"
    unfolding fin by (rule fix_all_Inr)
  have each: "near (\<lambda>i. int (seg_start css i)) (int (seg_start css k)) (padded (css ! k)) \<and>
      sg_Bytes (segs' ! k) = link (\<lambda>i. int (seg_start css i)) (int (seg_start css k)) (padded (css ! k))" if "k < length css" for k
    using list_all2_nthD [OF all, of k, symmetric] fixed [OF that] al(1) that by (auto split: if_splits)
  then show "k < length css \<Longrightarrow> near (\<lambda>i. int (seg_start css i)) (int (seg_start css k)) (padded (css ! k))" by blast
  have "length segs' = length css" using list_all2_lengthD [OF all] al(1) by simp
  then have "map sg_Bytes segs' = map (\<lambda>k. link (\<lambda>i. int (seg_start css i)) (int (seg_start css k)) (padded (css ! k))) [0..<length css]"
    using each by (intro nth_equalityI) simp_all
  then show "concat (map sg_Bytes segs') = file_of css" by (simp only: file_of_def)
qed

lemma concat_split: "k < length xs \<Longrightarrow> concat xs = concat (take k xs) @ xs ! k @ concat (drop (Suc k) xs)"
  by (metis concat.simps(2) concat_append id_take_nth_drop)

text \<open>A group of cells is found at its place.\<close>

lemma file_cells:
  assumes "k < length css" "css ! k = cs1 @ cs @ cs2"
  shows "\<exists>pre post. file_of css = pre @ link (\<lambda>i. int (seg_start css i)) (int (length pre)) cs @ post \<and>
    length pre = seg_start css k + cells_size cs1"
proof -
  let ?base = "\<lambda>i. int (seg_start css i)"
  let ?L = "map (\<lambda>k. link ?base (?base k) (padded (css ! k))) [0..<length css]"
  have Lk: "?L ! k = link ?base (?base k) (padded (css ! k))" using assms(1) by simp
  have "map length (take k ?L) = map (\<lambda>cs. cells_size (padded cs)) (take k css)"
    using assms(1) by (intro nth_equalityI) simp_all
  then have len: "length (concat (take k ?L)) = seg_start css k" by (simp add: length_concat seg_start_def)
  have "file_of css = concat (take k ?L) @ ?L ! k @ concat (drop (Suc k) ?L)"
    unfolding file_of_def by (rule concat_split) (simp add: assms(1))
  moreover define pre where "pre = concat (take k ?L) @ link ?base (?base k) cs1"
  moreover define post where "post = link ?base (?base k + int (cells_size cs1) + int (cells_size cs))
      (cs2 @ [Data (padding_for (cells_size (css ! k)))]) @ concat (drop (Suc k) ?L)"
  moreover have "length pre = seg_start css k + cells_size cs1" using len by (simp add: pre_def)
  moreover from this have "link ?base (?base k) (padded (css ! k)) = link ?base (?base k) cs1 @ link ?base (int (length pre)) cs @
      link ?base (?base k + int (cells_size cs1) + int (cells_size cs)) (cs2 @ [Data (padding_for (cells_size (css ! k)))])"
    by (simp add: padded_def assms(2) add.assoc)
  ultimately have "file_of css = pre @ link ?base (int (length pre)) cs @ post \<and> length pre = seg_start css k + cells_size cs1"
    unfolding Lk by (simp only: append_assoc)
  then show ?thesis by blast
qed

lemma read_bytes_mid [simp]: "length pre = pos \<Longrightarrow> length bs = n \<Longrightarrow> read_bytes (pre @ bs @ post) pos n = Some bs"
  by (simp add: read_bytes_def)

lemma read_data:
  assumes "k < length css" "css ! k = cs1 @ Data bs # cs2"
  shows "read_bytes (file_of css) (seg_start css k + cells_size cs1) (length bs) = Some bs"
proof -
  obtain pre post where "file_of css = pre @ bs @ post" "length pre = seg_start css k + cells_size cs1"
    using file_cells [OF assms(1), of cs1 "[Data bs]" cs2] assms(2) by auto
  then show ?thesis by simp
qed

lemma read_pointer:
  assumes "k < length css" "css ! k = cs1 @ Pointer loc # cs2"
    "near (\<lambda>i. int (seg_start css i)) (int (seg_start css k)) (padded (css ! k))"
  shows "FrozenPtr_Get (file_of css) (seg_start css k + cells_size cs1) =
    Some (if place css loc = seg_start css k + cells_size cs1 then None else Some (int (place css loc)))"
proof -
  let ?d = "int (place css loc) - int (seg_start css k + cells_size cs1)"
  obtain pre post where fil: "file_of css = pre @ bytes_of 4 (of_int ?d :: u32) @ post" "length pre = seg_start css k + cells_size cs1"
    using file_cells [OF assms(1), of cs1 "[Pointer loc]" cs2] assms(2) by (auto simp: place_def)
  have "sint (of_int ?d :: u32) = ?d"
    using assms(3) unfolding assms(2) padded_def by (simp add: Let_def place_def)
  then have "read_i32 (file_of css) (seg_start css k + cells_size cs1) = Some ?d"
    using fil by (simp add: read_i32_def read_u32_def)
  then show ?thesis by (auto simp: FrozenPtr_Get_def)
qed

section \<open>Sequences of writes\<close>

datatype seg_write = Bytes nat "u8 list" | PointerTo nat BinaryLocator

fun run_write :: "seg_write \<Rightarrow> BinarySegment list \<Rightarrow> BinarySegment list" where
  "run_write (Bytes k bs) segs = segs[k := BinarySegmentWrite (segs ! k) bs]"
| "run_write (PointerTo k loc) segs = segs[k := BinarySegmentWritePointer (segs ! k) loc]"

definition run_writes :: "seg_write list \<Rightarrow> BinarySegment list \<Rightarrow> BinarySegment list" where
  "run_writes ws segs = fold run_write ws segs"

definition new_segments :: "nat \<Rightarrow> BinarySegment list" where
  "new_segments n = (BinaryWriterAddSegment ^^ n) []"

fun write_ok :: "nat \<Rightarrow> seg_write \<Rightarrow> bool" where
  "write_ok n (Bytes k bs) \<longleftrightarrow> k < n"
| "write_ok n (PointerTo k loc) \<longleftrightarrow> k < n \<and> bl_SegIndex loc < n"

fun cell_write :: "seg_write \<Rightarrow> cell list list \<Rightarrow> cell list list" where
  "cell_write (Bytes k bs) css = css[k := css ! k @ [Data bs]]"
| "cell_write (PointerTo k loc) css = css[k := css ! k @ [Pointer loc]]"

definition cell_writes :: "seg_write list \<Rightarrow> cell list list \<Rightarrow> cell list list" where
  "cell_writes ws css = fold cell_write ws css"

text \<open>The place of a locator in the file that the segments will make.\<close>

definition file_position :: "BinarySegment list \<Rightarrow> BinaryLocator \<Rightarrow> nat" where
  "file_position segs loc =
     sum_list (map (\<lambda>seg. BinarySegmentSize (BinarySegmentAlign seg 16)) (take (bl_SegIndex loc) segs)) + bl_Offset loc"

lemma index_write [simp]:
  "sg_Index (BinarySegmentWrite seg bs) = sg_Index seg" "sg_Index (BinarySegmentWritePointer seg loc) = sg_Index seg"
  by (simp_all add: BinarySegmentWrite_def BinarySegmentWritePointer_def BinarySegmentWriteUint32_def)

lemma run_write_holds:
  "writer_holds segs css \<Longrightarrow> write_ok (length css) w \<Longrightarrow> writer_holds (run_write w segs) (cell_write w css)"
  by (cases w) (auto simp: writer_holds_def nth_list_update intro: holds_cells_write holds_cells_pointer)

lemma length_cell_write [simp]: "length (cell_write w css) = length css"
  by (cases w) simp_all

lemma length_cell_writes [simp]: "length (cell_writes ws css) = length css"
  unfolding cell_writes_def by (induction ws arbitrary: css) simp_all

lemma run_writes_holds:
  "writer_holds segs css \<Longrightarrow> \<forall>w \<in> set ws. write_ok (length css) w \<Longrightarrow> writer_holds (run_writes ws segs) (cell_writes ws css)"
  unfolding run_writes_def cell_writes_def
  by (induction ws arbitrary: segs css) (simp_all add: run_write_holds)

lemma new_segments_holds: "writer_holds (new_segments n) (replicate n [])"
proof -
  have "length (new_segments n) = n \<and> (\<forall>k < n. new_segments n ! k = BinarySegmentInit k)"
    unfolding new_segments_def
    by (induction n) (auto simp: BinaryWriterAddSegment_def nth_append less_Suc_eq)
  then show ?thesis by (simp add: writer_holds_def BinarySegmentInit_def holds_cells_def)
qed

lemma cell_write_targets:
  assumes "write_ok n w" "\<forall>cs \<in> set css. targets_ok n cs" shows "\<forall>cs \<in> set (cell_write w css). targets_ok n cs"
proof (cases w)
  case (Bytes k bs)
  have "cs \<in> set css \<or> k < length css \<and> cs = css ! k @ [Data bs]" if "cs \<in> set (css[k := css ! k @ [Data bs]])" for cs
    using that set_update_subset_insert [of css k] by (cases "k < length css") (auto simp: in_set_conv_nth nth_list_update)
  then show ?thesis using assms(2) Bytes by (fastforce simp: targets_ok_def)
next
  case (PointerTo k loc)
  have "cs \<in> set css \<or> k < length css \<and> cs = css ! k @ [Pointer loc]" if "cs \<in> set (css[k := css ! k @ [Pointer loc]])" for cs
    using that set_update_subset_insert [of css k] by (cases "k < length css") (auto simp: in_set_conv_nth nth_list_update)
  then show ?thesis using assms PointerTo by (fastforce simp: targets_ok_def)
qed

lemma cell_writes_targets:
  "\<forall>w \<in> set ws. write_ok n w \<Longrightarrow> \<forall>cs \<in> set css. targets_ok n cs \<Longrightarrow> \<forall>cs \<in> set (cell_writes ws css). targets_ok n cs"
  unfolding cell_writes_def by (induction ws arbitrary: css) (simp, metis cell_write_targets fold_simps(2) list.set_intros)

lemma cell_writes_grow: "k < length css \<Longrightarrow> \<exists>cs. cell_writes ws css ! k = css ! k @ cs"
proof (induction ws arbitrary: css)
  case (Cons w ws)
  have "\<exists>cs. (css[i := css ! i @ [c]]) ! k = css ! k @ cs" for i c using Cons.prems by (cases "i = k") auto
  then have "\<exists>cs. cell_write w css ! k = css ! k @ cs" by (cases w) auto
  then show ?case using Cons.IH [of "cell_write w css"] Cons.prems by (auto simp: cell_writes_def)
qed (simp add: cell_writes_def)

lemma file_position_place:
  assumes "writer_holds segs css" "bl_SegIndex loc < length css"
  shows "file_position segs loc = place css loc"
proof -
  have "map (\<lambda>seg. BinarySegmentSize (BinarySegmentAlign seg 16)) (take (bl_SegIndex loc) segs) =
      map (\<lambda>cs. cells_size (padded cs)) (take (bl_SegIndex loc) css)"
    using assms holds_cells_size [OF holds_cells_align]
    by (intro nth_equalityI) (simp_all add: writer_holds_def BinarySegmentSize_def padded_def)
  then show ?thesis by (simp add: file_position_def place_def seg_start_def)
qed

lemma write_loop_all: "write_loop (\<lambda>_. True) segs i out = (True, out @ concat (map sg_Bytes segs))"
  by (induction segs arbitrary: i out) simp_all

section \<open>Properties\<close>

text \<open>
  C31: Everything written is found again. After any sequence of writes to the segments of a
  writer and a flush that succeeds, the bytes of each write are in the file at the position
  its locator stands for, and a pointer, read by \<open>FrozenPtr\<close>, leads to the position of its
  target (a pointer to itself reads as null).
\<close>

theorem written_is_found:
  assumes "\<forall>w \<in> set (ws1 @ w # ws2). write_ok n w"
    "segs1 = run_writes ws1 (new_segments n)" "segs = run_writes (ws1 @ w # ws2) (new_segments n)"
    "BinaryWriterFlush True (\<lambda>_. True) segs = Inr (True, Some file')"
  shows "case w of
      Bytes k bs \<Rightarrow> read_bytes file' (file_position segs (BinarySegmentPosition (segs1 ! k))) (length bs) = Some bs
    | PointerTo k loc \<Rightarrow>
        FrozenPtr_Get file' (file_position segs (BinarySegmentPosition (segs1 ! k))) =
        Some (if file_position segs loc = file_position segs (BinarySegmentPosition (segs1 ! k)) then None
              else Some (int (file_position segs loc)))"
proof -
  define css1 where "css1 = cell_writes ws1 (replicate n [])"
  define css where "css = cell_writes (ws1 @ w # ws2) (replicate n [])"
  have len: "length css1 = n" "length css = n" by (simp_all add: css1_def css_def)
  have h1: "writer_holds segs1 css1" and h: "writer_holds segs css"
    unfolding assms(2,3) css1_def css_def using assms(1) by (auto intro!: run_writes_holds new_segments_holds)
  have t: "targets_ok (length css) cs" if "cs \<in> set css" for cs
    using cell_writes_targets [of "ws1 @ w # ws2" n "replicate n []"] assms(1) that len
    by (auto simp: css_def targets_ok_def)
  obtain segs' where fin: "BinaryWriterFinalize segs = Inr segs'" and fil: "file' = concat (map sg_Bytes segs')"
    using assms(4) by (auto simp: BinaryWriterFlush_def write_loop_all split: sum.splits)
  note f = BinaryWriterFinalize_file [OF h t]
  have image: "file' = file_of css" using f(1) fin fil by simp
  have split: "\<exists>cs2. css ! k = css1 ! k @ c # cs2"
    if "k < n" "cell_write w css1 = css1[k := css1 ! k @ [c]]" for k c
  proof -
    have "css = cell_writes ws2 (cell_write w css1)" by (simp add: css_def css1_def cell_writes_def)
    then show ?thesis using cell_writes_grow [of k "cell_write w css1" ws2] that len by auto
  qed
  have pos: "file_position segs (BinarySegmentPosition (segs1 ! k)) = seg_start css k + cells_size (css1 ! k)" if "k < n" for k
    using file_position_place [OF h, of "BinarySegmentPosition (segs1 ! k)"]
      holds_cells_position [of "segs1 ! k" "css1 ! k"] h1 that len
    by (simp add: writer_holds_def place_def)
  show ?thesis
  proof (cases w)
    case (Bytes k bs)
    then have "k < n" using assms(1) by simp
    then show ?thesis using split [of k "Data bs"] read_data [of k css "css1 ! k" bs] pos Bytes len image by auto
  next
    case (PointerTo k loc)
    then have k: "k < n" "bl_SegIndex loc < n" using assms(1) by simp_all
    then obtain cs2 where "css ! k = css1 ! k @ Pointer loc # cs2" using split [of k "Pointer loc"] PointerTo by auto
    then show ?thesis
      using read_pointer [of k css "css1 ! k" loc cs2] f(2) [OF _ fin, of k] pos [OF k(1)] file_position_place [OF h, of loc] k PointerTo len image
      by simp
  qed
qed

definition ex_writes :: "seg_write list" where
  "ex_writes = [Bytes 0 [1, 2, 3], PointerTo 0 \<lparr>bl_SegIndex = 1, bl_Offset = 2\<rparr>, Bytes 1 [7, 8, 9]]"

definition ex_file :: "u8 list" where
  "ex_file = the (snd (projr (BinaryWriterFlush True (\<lambda>_. True) (run_writes ex_writes (new_segments 2)))))"

theorem written_is_found_witness: "FrozenPtr_Get ex_file 3 = Some (Some 18)"
proof -
  let ?loc = "\<lparr>bl_SegIndex = 1, bl_Offset = 2\<rparr>"
  have "ex_writes = [Bytes 0 [1, 2, 3]] @ PointerTo 0 ?loc # [Bytes 1 [7, 8, 9]]" by (simp add: ex_writes_def)
  moreover have "BinaryWriterFlush True (\<lambda>_. True) (run_writes ex_writes (new_segments 2)) = Inr (True, Some ex_file)"
    by code_simp
  moreover have "file_position (run_writes ex_writes (new_segments 2)) ?loc = 18"
    "file_position (run_writes ex_writes (new_segments 2))
       (BinarySegmentPosition (run_writes [Bytes 0 [1, 2, 3]] (new_segments 2) ! 0)) = 3"
    by code_simp+
  moreover have "\<forall>w \<in> set ex_writes. write_ok 2 w" by (simp add: ex_writes_def)
  ultimately show ?thesis
    using written_is_found [OF _ refl refl, of "[Bytes 0 [1, 2, 3]]" "PointerTo 0 ?loc" "[Bytes 1 [7, 8, 9]]" 2 ex_file] by simp
qed

end
