(* ===== verification/T2_SaveState.thy ===== *)
theory T2_SaveState
  imports T2_DriverNodes T2_BinaryWriter
begin

text \<open>
  Model of \<open>DriverSaveBuildState\<close> and \<open>LoadFrozenData\<close> of \<open>src/Driver.cpp\<close>: the results of a build are
  merged with the results of earlier builds and written to the state file, which the next build
  maps into memory and reads in place.
\<close>

section \<open>Writing the state of the nodes\<close>

record state_writer =
  sw_main_seg :: BinarySegment
  sw_guid_seg :: BinarySegment
  sw_state_seg :: BinarySegment
  sw_array_seg :: BinarySegment
  sw_string_seg :: BinarySegment
  sw_entry_count :: int

text \<open>A digest in memory: two 64 bit words.\<close>

definition digest_bytes :: "digest \<Rightarrow> u8 list" where
  "digest_bytes d = bytes_of 8 (fst d) @ bytes_of 8 (snd d)"

fun files_loop :: "string list \<Rightarrow> state_writer \<Rightarrow> state_writer" where
  "files_loop [] w = w"
| "files_loop (filename # files) w =
     files_loop files
       (w\<lparr>sw_array_seg := BinarySegmentWritePointer (sw_array_seg w) (BinarySegmentPosition (sw_string_seg w)),
          sw_string_seg := BinarySegmentWriteStringData (sw_string_seg w) filename\<rparr>)"

definition write_files :: "string list \<Rightarrow> state_writer \<Rightarrow> state_writer" where
  "write_files files w =
     files_loop files
       (w\<lparr>sw_state_seg := BinarySegmentWritePointer (BinarySegmentWriteInt32 (sw_state_seg w) (int (length files)))
            (BinarySegmentPosition (sw_array_seg w))\<rparr>)"

text \<open>
  \<open>save_node_state\<close> and \<open>save_node_state_old\<close>, which take the same steps on file names from the DAG
  and from the old state.
\<close>

definition save_node_state :: "int \<Rightarrow> digest \<Rightarrow> string list \<Rightarrow> string list \<Rightarrow> digest \<Rightarrow> state_writer \<Rightarrow> state_writer" where
  "save_node_state build_result input_signature output_files aux_output_files guid w =
     (let w = w\<lparr>sw_guid_seg := BinarySegmentWrite (sw_guid_seg w) (digest_bytes guid)\<rparr>;
          w = w\<lparr>sw_state_seg := BinarySegmentWriteInt32 (sw_state_seg w) build_result\<rparr>;
          w = w\<lparr>sw_state_seg := BinarySegmentWrite (sw_state_seg w) (digest_bytes input_signature)\<rparr>
      in write_files aux_output_files (write_files output_files w))"

definition count_entry :: "state_writer \<Rightarrow> state_writer" where
  "count_entry w = w\<lparr>sw_entry_count := sw_entry_count w + 1\<rparr>"

definition old_guids :: "Driver \<Rightarrow> digest list" where
  "old_guids self = (case dr_StateData self of None \<Rightarrow> [] | Some st \<Rightarrow> st_NodeGuids st)"

definition old_states :: "Driver \<Rightarrow> NodeStateData list" where
  "old_states self = (case dr_StateData self of None \<Rightarrow> [] | Some st \<Rightarrow> st_NodeStates st)"

definition save_new :: "Driver \<Rightarrow> nat \<Rightarrow> state_writer \<Rightarrow> state_writer" where
  "save_new self index w =
     (let elem = dr_Nodes self ! index; src_index = ns_MmapData elem;
          src_elem = dag_NodeData (dr_DagData self) ! src_index; guid = dag_NodeGuids (dr_DagData self) ! src_index
      in if BuildProgress_value (ns_Progress elem) < BuildProgress_value kUnblocked then
           (case BinarySearch (old_guids self) (int (length (old_guids self))) guid of
              Some old_index \<Rightarrow>
                (let data = old_states self ! old_index
                 in count_entry (save_node_state (sd_BuildResult data) (sd_InputSignature data)
                      (sd_OutputFiles data) (sd_AuxOutputFiles data) guid w))
            | None \<Rightarrow> w)
         else count_entry (save_node_state (ns_BuildResult elem) (ns_InputSignature elem)
                (map fst (nd_OutputFiles src_elem)) (map fst (nd_AuxOutputFiles src_elem)) guid w))"

definition save_old :: "Driver \<Rightarrow> nat \<Rightarrow> state_writer \<Rightarrow> state_writer" where
  "save_old self index w =
     (let guid = old_guids self ! index
      in case BinarySearch (dag_NodeGuids (dr_DagData self)) (int (length (dag_NodeGuids (dr_DagData self)))) guid of
           Some src_index \<Rightarrow>
             (let src_elem = dag_NodeData (dr_DagData self) ! src_index; data = old_states self ! index
              in count_entry (save_node_state (sd_BuildResult data) (sd_InputSignature data)
                   (map fst (nd_OutputFiles src_elem)) (map fst (nd_AuxOutputFiles src_elem)) guid w))
         | None \<Rightarrow> w)"

definition key_new :: "Driver \<Rightarrow> nat \<Rightarrow> digest" where
  "key_new self index = dag_NodeGuids (dr_DagData self) ! ns_MmapData (dr_Nodes self ! index)"

definition key_old :: "Driver \<Rightarrow> nat \<Rightarrow> digest" where
  "key_old self index = old_guids self ! index"

definition state_MagicNumber :: u32 where
  "state_MagicNumber = 0x15890102 XOR 0x7810221e"

text \<open>The five segments when the traversal starts.\<close>

definition state_writer_init :: state_writer where
  "state_writer_init = \<lparr>sw_main_seg = BinarySegmentInit 0, sw_guid_seg = BinarySegmentInit 1,
     sw_state_seg = BinarySegmentInit 2, sw_array_seg = BinarySegmentInit 3, sw_string_seg = BinarySegmentInit 4,
     sw_entry_count = 0\<rparr>"

definition write_main :: "BinaryLocator \<Rightarrow> BinaryLocator \<Rightarrow> state_writer \<Rightarrow> state_writer" where
  "write_main guid_ptr state_ptr w =
     w\<lparr>sw_main_seg :=
         BinarySegmentWritePointer (BinarySegmentWritePointer
           (BinarySegmentWriteInt32 (BinarySegmentWriteUint32 (sw_main_seg w) state_MagicNumber) (sw_entry_count w))
           guid_ptr) state_ptr\<rparr>"

definition state_segments :: "state_writer \<Rightarrow> BinarySegment list" where
  "state_segments w = [sw_main_seg w, sw_guid_seg w, sw_state_seg w, sw_array_seg w, sw_string_seg w]"

text \<open>
  The file system: whether the temporary file can be opened, whether each write succeeds, and
  whether the rename does. The result has the driver, the return value, and the contents of the
  state file where it was replaced.
\<close>

record file_system =
  fs_opened :: bool
  fs_written :: "nat \<Rightarrow> bool"
  fs_renamed :: bool

definition DriverSaveBuildState :: "file_system \<Rightarrow> Driver \<Rightarrow> (Driver \<times> bool \<times> u8 list option) result" where
  "DriverSaveBuildState fs self =
     (let self = self\<lparr>dr_Nodes := sort_key ns_MmapData (dr_Nodes self)\<rparr>;
          guid_ptr = BinarySegmentPosition (sw_guid_seg state_writer_init);
          state_ptr = BinarySegmentPosition (sw_state_seg state_writer_init);
          w = TraverseSortedArrays (length (dr_Nodes self)) (save_new self) (key_new self)
                (length (old_guids self)) (save_old self) (key_old self) state_writer_init;
          w = write_main guid_ptr state_ptr w
      in case BinaryWriterFlush (fs_opened fs) (fs_written fs) (state_segments w) of
           Inl e \<Rightarrow> Inl e
         | Inr (success, contents) \<Rightarrow>
             Inr (self\<lparr>dr_StateData := None\<rparr>, success \<and> fs_renamed fs,
                  if success \<and> fs_renamed fs then contents else None))"

section \<open>Loading\<close>

text \<open>\<open>LoadFrozenData\<close> on the contents of a mapped file, and the accesses through the frozen types.\<close>

definition read_digest :: "u8 list \<Rightarrow> nat \<Rightarrow> digest option" where
  "read_digest mem pos = do { a \<leftarrow> read_u64 mem pos; b \<leftarrow> read_u64 mem (pos + 8); Some (a, b) }"

definition read_node_state :: "u8 list \<Rightarrow> nat \<Rightarrow> NodeStateData option" where
  "read_node_state mem pos = do {
     build_result \<leftarrow> read_i32 mem pos;
     input_signature \<leftarrow> read_digest mem (pos + 4);
     output_files \<leftarrow> FrozenArray_read mem (read_string mem) 4 (pos + 20);
     aux_output_files \<leftarrow> FrozenArray_read mem (read_string mem) 4 (pos + 28);
     Some \<lparr>sd_BuildResult = build_result, sd_InputSignature = input_signature, sd_OutputFiles = output_files,
           sd_AuxOutputFiles = aux_output_files\<rparr>
   }"

definition LoadFrozenData_state :: "u8 list option \<Rightarrow> StateData option" where
  "LoadFrozenData_state mapping =
     (case mapping of
        None \<Rightarrow> None
      | Some mem \<Rightarrow>
          if length mem < 16 then None
          else if read_u32 mem 0 \<noteq> Some state_MagicNumber then None
          else do {
            node_count \<leftarrow> read_i32 mem 4;
            guid_array \<leftarrow> FrozenPtr_Get mem 8;
            state_array \<leftarrow> FrozenPtr_Get mem 12;
            guids \<leftarrow> read_elements (read_digest mem) 16 node_count guid_array;
            states \<leftarrow> read_elements (read_node_state mem) 36 node_count state_array;
            Some \<lparr>st_NodeGuids = guids, st_NodeStates = states\<rparr>
          })"

end
