(* ===== verification/T2_StateFile.thy ===== *)
theory T2_StateFile
  imports T2_SaveState T2_Driver
begin

text \<open>
  The state file: what \<open>DriverSaveBuildState\<close> writes is what \<open>LoadFrozenData\<close> finds, and the entries
  are the merge of the results of this build with those of earlier builds.
\<close>

section \<open>The cells of the state file\<close>

type_synonym entry = "digest \<times> NodeStateData"

definition entry_files :: "entry \<Rightarrow> string list" where
  "entry_files e = sd_OutputFiles (snd e) @ sd_AuxOutputFiles (snd e)"

definition all_files :: "entry list \<Rightarrow> string list" where
  "all_files es = concat (map entry_files es)"

definition int_cell :: "int \<Rightarrow> cell" where
  "int_cell i = Data (bytes_of 4 (of_int i :: u32))"

definition string_bytes :: "string \<Rightarrow> u8 list" where
  "string_bytes s = map of_char (c_str s) @ [0]"

definition guid_cells :: "entry list \<Rightarrow> cell list" where
  "guid_cells es = map (\<lambda>e. Data (digest_bytes (fst e))) es"

definition array_at :: "nat \<Rightarrow> BinaryLocator" where
  "array_at a = \<lparr>bl_SegIndex = 3, bl_Offset = 4 * a\<rparr>"

definition entry_cells :: "nat \<Rightarrow> entry \<Rightarrow> cell list" where
  "entry_cells a e =
     [int_cell (sd_BuildResult (snd e)), Data (digest_bytes (sd_InputSignature (snd e))),
      int_cell (int (length (sd_OutputFiles (snd e)))), Pointer (array_at a),
      int_cell (int (length (sd_AuxOutputFiles (snd e)))), Pointer (array_at (a + length (sd_OutputFiles (snd e))))]"

fun state_cells :: "nat \<Rightarrow> entry list \<Rightarrow> cell list" where
  "state_cells a [] = []"
| "state_cells a (e # es) = entry_cells a e @ state_cells (a + length (entry_files e)) es"

fun array_cells :: "nat \<Rightarrow> string list \<Rightarrow> cell list" where
  "array_cells off [] = []"
| "array_cells off (f # fs) = Pointer \<lparr>bl_SegIndex = 4, bl_Offset = off\<rparr> # array_cells (off + length (string_bytes f)) fs"

definition string_cells :: "string list \<Rightarrow> cell list" where
  "string_cells fs = map (\<lambda>f. Data (string_bytes f)) fs"

definition main_cells :: "nat \<Rightarrow> cell list" where
  "main_cells n = [Data (bytes_of 4 state_MagicNumber), int_cell (int n),
     Pointer \<lparr>bl_SegIndex = 1, bl_Offset = 0\<rparr>, Pointer \<lparr>bl_SegIndex = 2, bl_Offset = 0\<rparr>]"

definition state_file_cells :: "entry list \<Rightarrow> cell list list" where
  "state_file_cells es =
     [main_cells (length es), guid_cells es, state_cells 0 es, array_cells 0 (all_files es), string_cells (all_files es)]"

lemma state_cells_append [simp]:
  "state_cells a (es @ ds) = state_cells a es @ state_cells (a + length (all_files es)) ds"
  by (induction es arbitrary: a) (simp_all add: all_files_def add.assoc)

lemma array_cells_append [simp]:
  "array_cells off (fs @ gs) = array_cells off fs @ array_cells (off + cells_size (string_cells fs)) gs"
  by (induction fs arbitrary: off) (simp_all add: string_cells_def add.assoc)

lemma length_digest_bytes [simp]: "length (digest_bytes d) = 16"
  by (simp add: digest_bytes_def)

lemma sizes [simp]:
  "cell_size (int_cell i) = 4" "cells_size (guid_cells es) = 16 * length es" "cells_size (entry_cells a e) = 36"
  "cells_size (state_cells a es) = 36 * length es" "cells_size (array_cells off fs) = 4 * length fs"
proof -
  show i: "cell_size (int_cell i) = 4" for i by (simp add: int_cell_def)
  show "cells_size (guid_cells es) = 16 * length es" by (induction es) (simp_all add: guid_cells_def)
  show e: "cells_size (entry_cells a e) = 36" for a e by (simp add: entry_cells_def i)
  show "cells_size (state_cells a es) = 36 * length es" by (induction es arbitrary: a) (simp_all add: e)
  show "cells_size (array_cells off fs) = 4 * length fs" by (induction fs arbitrary: off) simp_all
qed

lemma all_files_append [simp]: "all_files (es @ ds) = all_files es @ all_files ds"
  by (simp add: all_files_def)

lemma string_cells_append [simp]: "string_cells (fs @ gs) = string_cells fs @ string_cells gs"
  by (simp add: string_cells_def)

section \<open>The writer\<close>

text \<open>The segments hold the entries written so far, and the files \<open>fs\<close> of the next one.\<close>

definition sw_holds :: "state_writer \<Rightarrow> cell list \<Rightarrow> cell list \<Rightarrow> string list \<Rightarrow> bool" where
  "sw_holds w gs ss fs \<longleftrightarrow> holds_cells (sw_guid_seg w) gs \<and> holds_cells (sw_state_seg w) ss \<and>
     holds_cells (sw_array_seg w) (array_cells 0 fs) \<and> holds_cells (sw_string_seg w) (string_cells fs) \<and>
     sw_main_seg w = BinarySegmentInit 0 \<and> sg_Index (sw_guid_seg w) = 1 \<and> sg_Index (sw_state_seg w) = 2 \<and>
     sg_Index (sw_array_seg w) = 3 \<and> sg_Index (sw_string_seg w) = 4"

definition sw_entries :: "state_writer \<Rightarrow> entry list \<Rightarrow> bool" where
  "sw_entries w es \<longleftrightarrow> sw_holds w (guid_cells es) (state_cells 0 es) (all_files es) \<and> sw_entry_count w = int (length es)"

lemma index_writes [simp]:
  "sg_Index (BinarySegmentWriteInt32 seg i) = sg_Index seg" "sg_Index (BinarySegmentWriteStringData seg s) = sg_Index seg"
  by (simp_all add: BinarySegmentWriteInt32_def BinarySegmentWriteStringData_def)

lemma files_loop_holds:
  assumes "sw_holds w gs ss fs"
  shows "sw_holds (files_loop files w) gs ss (fs @ files) \<and> sw_entry_count (files_loop files w) = sw_entry_count w"
  using assms
proof (induction files arbitrary: w fs)
  case (Cons f files)
  let ?w = "w\<lparr>sw_array_seg := BinarySegmentWritePointer (sw_array_seg w) (BinarySegmentPosition (sw_string_seg w)),
      sw_string_seg := BinarySegmentWriteStringData (sw_string_seg w) f\<rparr>"
  have "BinarySegmentPosition (sw_string_seg w) = \<lparr>bl_SegIndex = 4, bl_Offset = cells_size (string_cells fs)\<rparr>"
    using holds_cells_position [of "sw_string_seg w" "string_cells fs"] Cons.prems by (simp add: sw_holds_def)
  then have "sw_holds ?w gs ss (fs @ [f])"
    using Cons.prems holds_cells_pointer [of "sw_array_seg w" "array_cells 0 fs"]
      holds_cells_write [of "sw_string_seg w" "string_cells fs" "string_bytes f"]
    by (simp add: sw_holds_def BinarySegmentWriteStringData_def string_cells_def flip: string_bytes_def)
  then show ?case using Cons.IH by fastforce
qed simp

lemma write_files_holds:
  assumes "sw_holds w gs ss fs"
  shows "sw_holds (write_files files w) gs (ss @ [int_cell (int (length files)), Pointer (array_at (length fs))]) (fs @ files) \<and>
    sw_entry_count (write_files files w) = sw_entry_count w"
proof -
  let ?seg = "BinarySegmentWritePointer (BinarySegmentWriteInt32 (sw_state_seg w) (int (length files)))
            (BinarySegmentPosition (sw_array_seg w))"
  have "BinarySegmentPosition (sw_array_seg w) = array_at (length fs)"
    using holds_cells_position [of "sw_array_seg w" "array_cells 0 fs"] assms by (simp add: sw_holds_def array_at_def)
  moreover have "holds_cells (BinarySegmentWriteInt32 (sw_state_seg w) (int (length files))) (ss @ [int_cell (int (length files))])"
    using assms holds_cells_write by (simp add: sw_holds_def BinarySegmentWriteInt32_def int_cell_def)
  ultimately have "holds_cells ?seg (ss @ [int_cell (int (length files)), Pointer (array_at (length fs))])"
    using holds_cells_pointer by fastforce
  then have "sw_holds (w\<lparr>sw_state_seg := ?seg\<rparr>) gs (ss @ [int_cell (int (length files)), Pointer (array_at (length fs))]) fs"
    using assms by (simp add: sw_holds_def)
  from files_loop_holds [OF this, of files] show ?thesis by (simp add: write_files_def)
qed

lemma save_node_state_entries:
  assumes "sw_entries w es"
  shows "sw_entries (count_entry (save_node_state r sig outs auxs guid w))
    (es @ [(guid, \<lparr>sd_BuildResult = r, sd_InputSignature = sig, sd_OutputFiles = outs, sd_AuxOutputFiles = auxs\<rparr>)])"
proof -
  let ?e = "(guid, \<lparr>sd_BuildResult = r, sd_InputSignature = sig, sd_OutputFiles = outs, sd_AuxOutputFiles = auxs\<rparr>)"
  let ?w = "w\<lparr>sw_guid_seg := BinarySegmentWrite (sw_guid_seg w) (digest_bytes guid),
    sw_state_seg := BinarySegmentWrite (BinarySegmentWriteInt32 (sw_state_seg w) r) (digest_bytes sig)\<rparr>"
  have "holds_cells (BinarySegmentWriteInt32 (sw_state_seg w) r) (state_cells 0 es @ [int_cell r])"
    using assms holds_cells_write by (simp add: sw_entries_def sw_holds_def BinarySegmentWriteInt32_def int_cell_def)
  from holds_cells_write [OF this, of "digest_bytes sig"]
  have "sw_holds ?w (guid_cells es @ [Data (digest_bytes guid)]) (state_cells 0 es @ [int_cell r, Data (digest_bytes sig)]) (all_files es)"
    using assms holds_cells_write by (simp add: sw_entries_def sw_holds_def)
  note f1 = write_files_holds [OF this, of outs]
  note f2 = write_files_holds [OF conjunct1 [OF f1], of auxs]
  have "save_node_state r sig outs auxs guid w = write_files auxs (write_files outs ?w)"
    by (simp add: save_node_state_def Let_def)
  then show ?thesis
    using f1 f2 assms
    by (simp add: sw_entries_def count_entry_def sw_holds_def guid_cells_def entry_cells_def entry_files_def all_files_def)
qed

lemma save_data_entries:
  "sw_entries w es \<Longrightarrow> sw_entries (count_entry (save_node_state (sd_BuildResult data) (sd_InputSignature data)
     (sd_OutputFiles data) (sd_AuxOutputFiles data) guid w)) (es @ [(guid, data)])"
  using save_node_state_entries by (cases data) fastforce

section \<open>The entries\<close>

definition old_lookup :: "Driver \<Rightarrow> digest \<Rightarrow> NodeStateData option" where
  "old_lookup self guid = old_state (dr_StateData self) guid"

definition dag_entry :: "Driver \<Rightarrow> int \<Rightarrow> digest \<Rightarrow> nat \<Rightarrow> NodeStateData" where
  "dag_entry self r sig src_index =
     \<lparr>sd_BuildResult = r, sd_InputSignature = sig,
      sd_OutputFiles = map fst (nd_OutputFiles (dag_NodeData (dr_DagData self) ! src_index)),
      sd_AuxOutputFiles = map fst (nd_AuxOutputFiles (dag_NodeData (dr_DagData self) ! src_index))\<rparr>"

text \<open>What is saved for a node of this build, and for a node known from an earlier build only.\<close>

definition new_entry :: "Driver \<Rightarrow> NodeState \<Rightarrow> NodeStateData option" where
  "new_entry self elem =
     (if BuildProgress_value (ns_Progress elem) < BuildProgress_value kUnblocked
      then old_lookup self (dag_NodeGuids (dr_DagData self) ! ns_MmapData elem)
      else Some (dag_entry self (ns_BuildResult elem) (ns_InputSignature elem) (ns_MmapData elem)))"

definition old_entry :: "Driver \<Rightarrow> digest \<Rightarrow> NodeStateData option" where
  "old_entry self guid =
     (case (BinarySearch (dag_NodeGuids (dr_DagData self)) (int (length (dag_NodeGuids (dr_DagData self)))) guid, old_lookup self guid) of
        (Some src_index, Some data) \<Rightarrow> Some (dag_entry self (sd_BuildResult data) (sd_InputSignature data) src_index)
      | _ \<Rightarrow> None)"

fun call_entry :: "Driver \<Rightarrow> nat + nat \<Rightarrow> entry option" where
  "call_entry self (Inl i) = map_option (Pair (key_new self i)) (new_entry self (dr_Nodes self ! i))"
| "call_entry self (Inr j) = map_option (Pair (key_old self j)) (old_entry self (key_old self j))"

definition old_ok :: "Driver \<Rightarrow> bool" where
  "old_ok self \<longleftrightarrow> sorted_wrt (<) (old_guids self) \<and> length (old_states self) = length (old_guids self)"

lemma sorted_less_sorted: "sorted_wrt (<) xs \<Longrightarrow> sorted xs" for xs :: "'a::linorder list"
  by (rule sorted_wrt_mono_rel [of _ "(<)"]) auto

lemma old_lookup_eq:
  "old_lookup self guid =
   map_option (\<lambda>i. old_states self ! i) (BinarySearch (old_guids self) (int (length (old_guids self))) guid)"
  by (cases "dr_StateData self") (simp_all add: old_lookup_def old_state_def old_states_def old_guids_def BinarySearch_def)

lemma save_new_entries:
  "sw_entries w es \<Longrightarrow> sw_entries (save_new self i w) (es @ (case call_entry self (Inl i) of None \<Rightarrow> [] | Some e \<Rightarrow> [e]))"
  by (auto simp: save_new_def Let_def new_entry_def key_new_def old_lookup_eq dag_entry_def
      dest: save_node_state_entries intro: save_data_entries split: option.splits)

lemma BinarySearch_member:
  assumes "sorted_wrt (<) xs" "i < length xs" shows "BinarySearch xs (int (length xs)) (xs ! i) = Some i"
proof -
  let ?k = "lower_bound xs (xs ! i) 0 (length xs)"
  have lb: "(\<forall>j < ?k. xs ! j < xs ! i) \<and> (\<forall>j. ?k \<le> j \<and> j < length xs \<longrightarrow> xs ! i \<le> xs ! j) \<and> ?k \<le> 0 + length xs"
    by (rule lower_bound_correct) (use sorted_less_sorted [OF assms(1)] in auto)
  have "\<not> i < ?k" using lb by blast
  moreover have "\<not> ?k < i" using lb assms by (metis dual_order.strict_trans1 not_less sorted_wrt_nth_less order_refl)
  ultimately show ?thesis using assms(2) by (auto simp: BinarySearch_def)
qed

lemma BinarySearch_None:
  assumes "sorted_wrt (<) xs" "g \<notin> set xs" shows "BinarySearch xs (int (length xs)) g = None"
proof -
  have "lower_bound xs g 0 (length xs) \<le> 0 + length xs"
    by (rule lower_bound_correct [THEN conjunct2, THEN conjunct2]) (use sorted_less_sorted [OF assms(1)] in auto)
  then have "xs ! lower_bound xs g 0 (length xs) \<noteq> g" if "lower_bound xs g 0 (length xs) \<noteq> length xs"
    using assms(2) that nth_mem [of "lower_bound xs g 0 (length xs)" xs] by fastforce
  then show ?thesis by (auto simp: BinarySearch_def Let_def)
qed

lemma save_old_entries:
  assumes "sw_entries w es" "old_ok self" "j < length (old_guids self)"
  shows "sw_entries (save_old self j w) (es @ (case call_entry self (Inr j) of None \<Rightarrow> [] | Some e \<Rightarrow> [e]))"
proof -
  have "old_lookup self (key_old self j) = Some (old_states self ! j)"
    using assms(2,3) BinarySearch_member [of "old_guids self" j] by (simp add: old_lookup_eq old_ok_def key_old_def)
  then show ?thesis
    using assms(1) by (auto simp: save_old_def Let_def old_entry_def key_old_def dag_entry_def
      dest: save_node_state_entries split: option.splits)
qed

definition calls :: "Driver \<Rightarrow> (nat + nat) list" where
  "calls self = merge_from 0 (map (key_new self) [0..<length (dr_Nodes self)]) 0 (old_guids self)"

definition saved_entries :: "Driver \<Rightarrow> entry list" where
  "saved_entries self = concat (map (\<lambda>c. case call_entry self c of None \<Rightarrow> [] | Some e \<Rightarrow> [e]) (calls self))"

lemma traverse_cong:
  assumes "\<And>i. i < n1 \<Longrightarrow> k1 i = l1 i" "\<And>i. i < n2 \<Longrightarrow> k2 i = l2 i"
  shows "TraverseSortedArraysImpl n1 f k1 n2 g k2 i j s = TraverseSortedArraysImpl n1 f l1 n2 g l2 i j s"
  using assms
proof (induction n1 f k1 n2 g k2 i j s rule: TraverseSortedArraysImpl.induct)
  case (1 n1 f k1 n2 g k2 i j s)
  show ?case
    by (subst (1 2) TraverseSortedArraysImpl.simps) (use 1 in \<open>simp add: Let_def\<close>)
qed

lemma merge_from_range:
  "Inr n \<in> set (merge_from i ks1 j ks2) \<Longrightarrow> j \<le> n \<and> n < j + length ks2"
  "Inl n \<in> set (merge_from i ks1 j ks2) \<Longrightarrow> i \<le> n \<and> n < i + length ks1"
  by (induction i ks1 j ks2 rule: merge_from.induct) (auto split: if_splits simp del: upt_Suc)

lemma traversal_entries:
  assumes "old_ok self"
  shows "sw_entries (TraverseSortedArrays (length (dr_Nodes self)) (save_new self) (key_new self)
    (length (old_guids self)) (save_old self) (key_old self) state_writer_init) (saved_entries self)"
proof -
  let ?ks = "map (key_new self) [0..<length (dr_Nodes self)]"
  have "TraverseSortedArrays (length (dr_Nodes self)) (save_new self) (key_new self)
      (length (old_guids self)) (save_old self) (key_old self) state_writer_init =
    TraverseSortedArrays (length ?ks) (save_new self) ((!) ?ks) (length (old_guids self)) (save_old self) ((!) (old_guids self)) state_writer_init"
    unfolding TraverseSortedArrays_def by (simp, rule traverse_cong) (simp_all add: key_old_def)
  also have "\<dots> = fold (dispatch (save_new self) (save_old self)) (calls self) state_writer_init"
    by (simp only: TraverseSortedArrays_merge calls_def)
  finally have tr: "TraverseSortedArrays (length (dr_Nodes self)) (save_new self) (key_new self)
      (length (old_guids self)) (save_old self) (key_old self) state_writer_init =
    fold (dispatch (save_new self) (save_old self)) (calls self) state_writer_init" .
  have "sw_entries (fold (dispatch (save_new self) (save_old self)) cs w)
      (es @ concat (map (\<lambda>c. case call_entry self c of None \<Rightarrow> [] | Some e \<Rightarrow> [e]) cs))"
    if "sw_entries w es" "\<And>j. Inr j \<in> set cs \<Longrightarrow> j < length (old_guids self)" for w es cs
    using that
  proof (induction cs arbitrary: w es)
    case (Cons c cs)
    have "sw_entries (dispatch (save_new self) (save_old self) c w) (es @ (case call_entry self c of None \<Rightarrow> [] | Some e \<Rightarrow> [e]))"
      using Cons.prems save_new_entries save_old_entries [OF _ assms] by (cases c) (simp_all del: call_entry.simps)
    from Cons.IH [OF this] show ?case using Cons.prems(2) by simp
  qed simp
  moreover have "sw_entries state_writer_init []"
    by (simp add: sw_entries_def sw_holds_def state_writer_init_def guid_cells_def all_files_def string_cells_def) (simp add: BinarySegmentInit_def)
  moreover have "j < length (old_guids self)" if "Inr j \<in> set (calls self)" for j
    using merge_from_range(1) that by (fastforce simp: calls_def)
  ultimately show ?thesis unfolding tr saved_entries_def by fastforce
qed

section \<open>Reading the file\<close>

text \<open>Entries that fit the file format: 32 bit numbers and names without a terminator in them.\<close>

definition entry_ok :: "entry \<Rightarrow> bool" where
  "entry_ok e \<longleftrightarrow> - (2 ^ 31) \<le> sd_BuildResult (snd e) \<and> sd_BuildResult (snd e) < 2 ^ 31 \<and>
     length (sd_OutputFiles (snd e)) < 2 ^ 31 \<and> length (sd_AuxOutputFiles (snd e)) < 2 ^ 31 \<and>
     (\<forall>f \<in> set (entry_files e). NUL \<notin> set f)"

lemma read_bytes_sub:
  "read_bytes mem pos n = Some bs \<Longrightarrow> i + m \<le> n \<Longrightarrow> read_bytes mem (pos + i) m = Some (take m (drop i bs))"
  by (auto simp: read_bytes_def take_drop ac_simps split: if_splits)

lemma read_i32_cell:
  assumes "read_bytes mem pos 4 = Some (bytes_of 4 (of_int i :: u32))" "- (2 ^ 31) \<le> i" "i < 2 ^ 31"
  shows "read_i32 mem pos = Some i"
  using assms by (simp add: read_i32_def read_u32_def)

lemma read_digest_cell:
  assumes "read_bytes mem pos 16 = Some (digest_bytes d)" shows "read_digest mem pos = Some d"
  using read_bytes_sub [OF assms, of 0 8] read_bytes_sub [OF assms, of 8 8]
  by (simp add: read_digest_def read_u64_def digest_bytes_def)

lemma read_chars_string: "NUL \<notin> set s \<Longrightarrow> read_chars (map of_char s @ 0 # rest) = Some s"
  by (induction s) (auto simp: unat_of_char)

lemma those_map: "(\<And>x. x \<in> set xs \<Longrightarrow> f x = Some (g x)) \<Longrightarrow> those (map f xs) = Some (map g xs)"
  by (induction xs) auto

text \<open>The file of a list of entries, once its distances fit in 32 bits.\<close>

definition linked :: "cell list list \<Rightarrow> bool" where
  "linked css \<longleftrightarrow> (\<forall>k < length css. near (\<lambda>i. int (seg_start css i)) (int (seg_start css k)) (padded (css ! k)))"

text \<open>A pointer into a later segment is never null.\<close>

lemma seg_start_mono: "k < j \<Longrightarrow> j \<le> length css \<Longrightarrow> seg_start css k + cells_size (css ! k) \<le> seg_start css j"
proof -
  assume k: "k < j" "j \<le> length css"
  have "take (Suc k) css = take k css @ [css ! k]" using k by (simp add: take_Suc_conv_app_nth)
  then have "seg_start css (Suc k) = seg_start css k + cells_size (padded (css ! k))" by (simp add: seg_start_def)
  moreover have "seg_start css (Suc k) \<le> seg_start css j"
  proof -
    have "take j css = take (Suc k) css @ take (j - Suc k) (drop (Suc k) css)"
      using k by (metis Suc_leI le_add_diff_inverse take_add)
    then show ?thesis by (simp add: seg_start_def)
  qed
  ultimately show ?thesis by (simp add: padded_def)
qed

lemma read_forward_pointer:
  assumes "linked css" "k < length css" "css ! k = cs1 @ Pointer loc # cs2" "k < bl_SegIndex loc" "bl_SegIndex loc < length css"
  shows "FrozenPtr_Get (file_of css) (seg_start css k + cells_size cs1) = Some (Some (int (place css loc)))"
proof -
  have "seg_start css k + cells_size cs1 < seg_start css (bl_SegIndex loc)"
    using seg_start_mono [OF assms(4), of css] assms(3,5) by simp
  then show ?thesis
    using read_pointer [OF assms(2,3)] assms(1,2) by (simp add: linked_def place_def)
qed

lemma read_string_file:
  assumes "linked (state_file_cells es)" "all_files es = fs1 @ f # fs2" "NUL \<notin> set f"
  shows "read_string (file_of (state_file_cells es)) (seg_start (state_file_cells es) 3 + 4 * length fs1) = Some f"
proof -
  let ?css = "state_file_cells es"
  let ?loc = "\<lparr>bl_SegIndex = 4, bl_Offset = cells_size (string_cells fs1)\<rparr>"
  have c3: "?css ! 3 = array_cells 0 fs1 @ Pointer ?loc # array_cells (cells_size (string_cells fs1) + length (string_bytes f)) fs2"
    and c4: "?css ! 4 = string_cells fs1 @ Data (string_bytes f) # string_cells fs2"
    by (simp_all add: state_file_cells_def assms(2) string_cells_def)
  have ptr: "FrozenPtr_Get (file_of ?css) (seg_start ?css 3 + 4 * length fs1) = Some (Some (int (place ?css ?loc)))"
    using read_forward_pointer [OF assms(1) _ c3] by (simp add: state_file_cells_def)
  have "read_bytes (file_of ?css) (place ?css ?loc) (length (string_bytes f)) = Some (string_bytes f)"
    using read_data [OF _ c4] by (simp add: state_file_cells_def place_def)
  then obtain rest where "drop (place ?css ?loc) (file_of ?css) = string_bytes f @ rest"
    by (metis append_take_drop_id option.distinct(1) option.sel read_bytes_def)
  then show ?thesis using ptr read_chars_string [OF assms(3)] assms(3) by (simp add: read_string_def string_bytes_def)
qed

lemma read_files:
  assumes "linked (state_file_cells es)" "all_files es = fs1 @ fs @ fs2" "\<forall>f \<in> set fs. NUL \<notin> set f" "length fs < 2 ^ 31"
    "state_file_cells es ! 2 = cs1 @ int_cell (int (length fs)) # Pointer (array_at (length fs1)) # cs2"
  defines "pos \<equiv> seg_start (state_file_cells es) 2 + cells_size cs1"
  shows "FrozenArray_read (file_of (state_file_cells es)) (read_string (file_of (state_file_cells es))) 4 pos = Some fs"
proof -
  let ?css = "state_file_cells es"
  define q where "q = seg_start ?css 3 + 4 * length fs1"
  have five: "length ?css = 5" by (simp add: state_file_cells_def)
  have n: "read_i32 (file_of ?css) pos = Some (int (length fs))"
    using read_data [of 2 ?css cs1] assms(4,5) five unfolding pos_def int_cell_def by (intro read_i32_cell) simp_all
  have "?css ! 2 = (cs1 @ [int_cell (int (length fs))]) @ Pointer (array_at (length fs1)) # cs2" using assms(5) by simp
  from read_forward_pointer [OF assms(1) _ this]
  have p: "FrozenPtr_Get (file_of ?css) (pos + 4) = Some (Some (int q))"
    using five by (simp add: pos_def q_def array_at_def place_def add.assoc)
  have elem: "read_string (file_of ?css) (q + i * 4) = Some (fs ! i)" if "i < length fs" for i
  proof -
    have "all_files es = (fs1 @ take i fs) @ fs ! i # (drop (Suc i) fs @ fs2)"
      using assms(2) id_take_nth_drop [OF that] by simp
    from read_string_file [OF assms(1) this] show ?thesis
      using assms(3) that by (simp add: q_def algebra_simps)
  qed
  show ?thesis
  proof (cases "fs = []")
    case True
    then show ?thesis using n p by (simp add: FrozenArray_read_def read_elements_def)
  next
    case False
    have "those (map (\<lambda>i. read_string (file_of ?css) (q + i * 4)) [0..<length fs]) =
        Some (map ((!) fs) [0..<length fs])"
      using elem by (intro those_map) simp
    then show ?thesis using n p False by (simp add: FrozenArray_read_def read_elements_def map_nth)
  qed
qed

lemma read_entry:
  assumes "linked (state_file_cells (es1 @ e # es2))" "entry_ok e"
  shows "read_node_state (file_of (state_file_cells (es1 @ e # es2)))
    (seg_start (state_file_cells (es1 @ e # es2)) 2 + 36 * length es1) = Some (snd e)"
proof -
  let ?es = "es1 @ e # es2"
  let ?css = "state_file_cells ?es" and ?d = "snd e" and ?a = "length (all_files es1)"
  let ?pos = "seg_start ?css 2 + 36 * length es1"
  let ?post = "state_cells (?a + length (entry_files e)) es2"
  let ?outs = "sd_OutputFiles ?d" and ?auxs = "sd_AuxOutputFiles ?d"
  have five: "2 < length ?css" by (simp add: state_file_cells_def)
  have c2: "?css ! 2 = state_cells 0 es1 @ entry_cells ?a e @ ?post" by (simp add: state_file_cells_def)
  have r: "read_i32 (file_of ?css) ?pos = Some (sd_BuildResult ?d)"
    using read_data [OF five, of "state_cells 0 es1" "bytes_of 4 (of_int (sd_BuildResult ?d) :: u32)"] c2 assms(2)
    by (intro read_i32_cell) (simp_all add: entry_cells_def int_cell_def entry_ok_def)
  have s: "read_digest (file_of ?css) (?pos + 4) = Some (sd_InputSignature ?d)"
    using read_data [OF five, of "state_cells 0 es1 @ [int_cell (sd_BuildResult ?d)]" "digest_bytes (sd_InputSignature ?d)"] c2
    by (intro read_digest_cell) (simp add: entry_cells_def add.assoc)
  have o: "FrozenArray_read (file_of ?css) (read_string (file_of ?css)) 4 (?pos + 20) = Some ?outs"
  proof -
    let ?cs = "state_cells 0 es1 @ [int_cell (sd_BuildResult ?d), Data (digest_bytes (sd_InputSignature ?d))]"
    have f: "all_files ?es = all_files es1 @ ?outs @ (?auxs @ all_files es2)" by (simp add: all_files_def entry_files_def)
    have "?css ! 2 = ?cs @ int_cell (int (length ?outs)) # Pointer (array_at ?a) #
        (drop 4 (entry_cells ?a e) @ ?post)"
      using c2 by (simp add: entry_cells_def numeral_eq_Suc)
    from read_files [OF assms(1) f _ _ this]
    have "FrozenArray_read (file_of ?css) (read_string (file_of ?css)) 4 (seg_start ?css 2 + cells_size ?cs) = Some ?outs"
      using assms(2) by (simp add: entry_ok_def entry_files_def)
    then show ?thesis by (simp add: add.assoc)
  qed
  have a: "FrozenArray_read (file_of ?css) (read_string (file_of ?css)) 4 (?pos + 28) = Some ?auxs"
  proof -
    let ?cs = "state_cells 0 es1 @ take 4 (entry_cells ?a e)"
    have f: "all_files ?es = (all_files es1 @ ?outs) @ ?auxs @ all_files es2" by (simp add: all_files_def entry_files_def)
    have "?css ! 2 = ?cs @ int_cell (int (length ?auxs)) # Pointer (array_at (length (all_files es1 @ ?outs))) # ?post"
      using c2 by (simp add: entry_cells_def numeral_eq_Suc)
    from read_files [OF assms(1) f _ _ this]
    have "FrozenArray_read (file_of ?css) (read_string (file_of ?css)) 4 (seg_start ?css 2 + cells_size ?cs) = Some ?auxs"
      using assms(2) by (simp add: entry_ok_def entry_files_def)
    then show ?thesis by (simp add: entry_cells_def numeral_eq_Suc add.assoc)
  qed
  show ?thesis using r s o a by (simp add: read_node_state_def)
qed

lemma read_guid:
  "read_digest (file_of (state_file_cells (es1 @ e # es2))) (seg_start (state_file_cells (es1 @ e # es2)) 1 + 16 * length es1) = Some (fst e)"
proof (rule read_digest_cell)
  let ?css = "state_file_cells (es1 @ e # es2)"
  have "?css ! 1 = guid_cells es1 @ Data (digest_bytes (fst e)) # guid_cells es2" by (simp add: state_file_cells_def guid_cells_def)
  from read_data [OF _ this] show "read_bytes (file_of ?css) (seg_start ?css 1 + 16 * length es1) 16 = Some (digest_bytes (fst e))"
    by (simp add: state_file_cells_def)
qed

lemma read_elements_all:
  assumes "\<And>es1 e es2. es = es1 @ e # es2 \<Longrightarrow> read (q + length es1 * n) = Some (f e)"
  shows "read_elements read n (int (length es)) (Some (int q)) = Some (map f es)"
proof -
  have "read (q + i * n) = Some (f (es ! i))" if "i < length es" for i
    using assms [OF id_take_nth_drop [OF that]] that by simp
  then have "those (map (\<lambda>i. read (q + i * n)) [0..<length es]) = Some (map (\<lambda>i. f (es ! i)) [0..<length es])"
    by (intro those_map) simp
  moreover have "map (\<lambda>i. f (es ! i)) [0..<length es] = map f es" by (intro nth_equalityI) simp_all
  ultimately show ?thesis by (simp add: read_elements_def)
qed

lemma LoadFrozenData_file:
  assumes "linked (state_file_cells es)" "\<forall>e \<in> set es. entry_ok e" "length es < 2 ^ 31"
  shows "LoadFrozenData_state (Some (file_of (state_file_cells es))) =
    Some \<lparr>st_NodeGuids = map fst es, st_NodeStates = map snd es\<rparr>"
proof -
  let ?css = "state_file_cells es"
  let ?mem = "file_of ?css"
  have five: "length ?css = 5" by (simp add: state_file_cells_def)
  have c0: "?css ! 0 = main_cells (length es)" and z: "seg_start ?css 0 = 0" by (simp_all add: state_file_cells_def seg_start_def)
  have m: "read_bytes ?mem 0 4 = Some (bytes_of 4 state_MagicNumber)"
    using read_data [of 0 ?css "[]" "bytes_of 4 state_MagicNumber"] five c0 z by (simp add: main_cells_def)
  have n: "read_i32 ?mem 4 = Some (int (length es))"
    using read_data [of 0 ?css "[Data (bytes_of 4 state_MagicNumber)]" "bytes_of 4 (of_int (int (length es)) :: u32)"] five c0 z assms(3)
    by (intro read_i32_cell) (simp_all add: main_cells_def int_cell_def)
  have g: "FrozenPtr_Get ?mem 8 = Some (Some (int (seg_start ?css 1)))"
    using read_forward_pointer [OF assms(1), of 0 "take 2 (main_cells (length es))"] five c0 z
    by (simp add: main_cells_def numeral_eq_Suc place_def)
  have s: "FrozenPtr_Get ?mem 12 = Some (Some (int (seg_start ?css 2)))"
    using read_forward_pointer [OF assms(1), of 0 "take 3 (main_cells (length es))"] five c0 z
    by (simp add: main_cells_def numeral_eq_Suc place_def)
  have "16 \<le> length ?mem"
    using file_cells [of 0 ?css "[]" "main_cells (length es)" "[]"] five c0 z by (auto simp: main_cells_def int_cell_def)
  moreover have "read_elements (read_digest ?mem) 16 (int (length es)) (Some (int (seg_start ?css 1))) = Some (map fst es)"
    using read_guid by (intro read_elements_all) (simp add: mult.commute)
  moreover have "read_elements (read_node_state ?mem) 36 (int (length es)) (Some (int (seg_start ?css 2))) = Some (map snd es)"
    using read_entry assms(1,2) by (intro read_elements_all) (simp add: mult.commute)
  ultimately show ?thesis
    using m n g s by (simp add: LoadFrozenData_state_def read_u32_def)
qed

section \<open>Saving and loading\<close>

text \<open>\<open>DriverSaveBuildState\<close> sorts the node states by their place in the DAG first.\<close>

definition sorted_driver :: "Driver \<Rightarrow> Driver" where
  "sorted_driver self = self\<lparr>dr_Nodes := sort_key ns_MmapData (dr_Nodes self)\<rparr>"

lemma dag_entry_nodes [simp]: "dag_entry (self\<lparr>dr_Nodes := sts\<rparr>) r sig i = dag_entry self r sig i"
  by (simp add: dag_entry_def)

lemma sorted_driver_sel [simp]:
  "old_guids (sorted_driver self) = old_guids self" "old_states (sorted_driver self) = old_states self"
  "old_ok (sorted_driver self) = old_ok self" "old_entry (sorted_driver self) = old_entry self"
  "new_entry (sorted_driver self) = new_entry self" "set (dr_Nodes (sorted_driver self)) = set (dr_Nodes self)"
  "dr_DagData (sorted_driver self) = dr_DagData self"
  by (simp_all add: sorted_driver_def old_guids_def old_states_def old_ok_def old_entry_def new_entry_def old_lookup_def
      fun_eq_iff split: option.split)

lemma write_loop_success: "write_loop written sgs i out = (True, r) \<Longrightarrow> r = out @ concat (map sg_Bytes sgs)"
  by (induction sgs arbitrary: i out) (simp, fastforce split: if_splits)

lemma state_segments_hold:
  assumes "sw_entries w es"
  shows "writer_holds (state_segments (write_main \<lparr>bl_SegIndex = 1, bl_Offset = 0\<rparr> \<lparr>bl_SegIndex = 2, bl_Offset = 0\<rparr> w)) (state_file_cells es)"
proof -
  let ?m1 = "BinarySegmentWriteUint32 (BinarySegmentInit 0) state_MagicNumber"
  let ?m2 = "BinarySegmentWriteInt32 ?m1 (int (length es))"
  have "holds_cells ?m1 [Data (bytes_of 4 state_MagicNumber)]"
    using holds_cells_write [OF holds_cells_init] by (simp add: BinarySegmentWriteUint32_def)
  then have "holds_cells ?m2 [Data (bytes_of 4 state_MagicNumber), int_cell (int (length es))]"
    using holds_cells_write by (fastforce simp: BinarySegmentWriteInt32_def int_cell_def)
  note p1 = holds_cells_pointer [OF this, of "\<lparr>bl_SegIndex = 1, bl_Offset = 0\<rparr>"]
  note p2 = holds_cells_pointer [OF p1, of "\<lparr>bl_SegIndex = 2, bl_Offset = 0\<rparr>"]
  have "sg_Index ?m2 = 0" by (simp add: BinarySegmentWriteUint32_def BinarySegmentInit_def)
  then show ?thesis
    using p2 assms unfolding writer_holds_def
    by (auto simp: state_segments_def write_main_def sw_entries_def sw_holds_def state_file_cells_def main_cells_def
        less_Suc_eq numeral_eq_Suc)
qed

lemma state_targets: "cs \<in> set (state_file_cells es) \<Longrightarrow> targets_ok 5 cs"
proof -
  have "targets_ok 5 (state_cells a es)" for a
    by (induction es arbitrary: a) (auto simp: targets_ok_def entry_cells_def int_cell_def array_at_def)
  moreover have "targets_ok 5 (array_cells off fs)" for off fs
    by (induction fs arbitrary: off) (auto simp: targets_ok_def)
  moreover have "targets_ok 5 (guid_cells es)" "targets_ok 5 (string_cells fs)" "targets_ok 5 (main_cells n)" for fs n
    by (auto simp: targets_ok_def guid_cells_def string_cells_def main_cells_def int_cell_def)
  ultimately show "cs \<in> set (state_file_cells es) \<Longrightarrow> targets_ok 5 cs" by (auto simp: state_file_cells_def)
qed

lemma saved_file:
  assumes "old_ok self" "DriverSaveBuildState fs self = Inr (self', True, contents)"
  shows "contents = Some (file_of (state_file_cells (saved_entries (sorted_driver self)))) \<and>
    linked (state_file_cells (saved_entries (sorted_driver self)))"
proof -
  let ?self = "sorted_driver self"
  let ?es = "saved_entries ?self"
  define w where "w = TraverseSortedArrays (length (dr_Nodes ?self)) (save_new ?self) (key_new ?self)
    (length (old_guids ?self)) (save_old ?self) (key_old ?self) state_writer_init"
  define sgs where "sgs = state_segments (write_main \<lparr>bl_SegIndex = 1, bl_Offset = 0\<rparr> \<lparr>bl_SegIndex = 2, bl_Offset = 0\<rparr> w)"
  have "sw_entries w ?es" unfolding w_def using traversal_entries [of ?self] assms(1) by simp
  then have h: "writer_holds sgs (state_file_cells ?es)" unfolding sgs_def by (rule state_segments_hold)
  have five: "length (state_file_cells ?es) = 5" by (simp add: state_file_cells_def)
  have ptrs: "BinarySegmentPosition (sw_guid_seg state_writer_init) = \<lparr>bl_SegIndex = 1, bl_Offset = 0\<rparr>"
    "BinarySegmentPosition (sw_state_seg state_writer_init) = \<lparr>bl_SegIndex = 2, bl_Offset = 0\<rparr>"
    by (simp_all add: state_writer_init_def BinarySegmentPosition_def BinarySegmentInit_def)
  obtain flushed where flush: "BinaryWriterFlush (fs_opened fs) (fs_written fs) sgs = Inr (True, flushed)" "contents = flushed"
    using assms(2) unfolding DriverSaveBuildState_def sorted_driver_def [symmetric]
    by (auto simp: ptrs sgs_def w_def Let_def split: sum.splits if_splits)
  obtain sgs' where fin: "BinaryWriterFinalize sgs = Inr sgs'" and out: "flushed = Some (concat (map sg_Bytes sgs'))"
    using flush(1) by (auto simp: BinaryWriterFlush_def dest!: write_loop_success split: sum.splits if_splits prod.splits)
  have t: "targets_ok (length (state_file_cells ?es)) cs" if "cs \<in> set (state_file_cells ?es)" for cs
    using state_targets that five by simp
  note f = BinaryWriterFinalize_file [OF h t]
  show ?thesis using f(1,2) fin out flush(2) by (simp add: linked_def)
qed

section \<open>The entries of the merge\<close>

lemma in_kept: "e \<in> set (concat (map (\<lambda>c. case f c of None \<Rightarrow> [] | Some e \<Rightarrow> [e]) cs)) \<longleftrightarrow> (\<exists>c \<in> set cs. f c = Some e)"
  by (induction cs) (auto split: option.splits)

lemma map_of_concat:
  assumes "distinct (map k cs)" "\<And>c e. c \<in> set cs \<Longrightarrow> f c = Some e \<Longrightarrow> fst e = k c" "c \<in> set cs"
  shows "map_of (concat (map (\<lambda>c. case f c of None \<Rightarrow> [] | Some e \<Rightarrow> [e]) cs)) (k c) = map_option snd (f c)"
  using assms
proof (induction cs)
  case (Cons d cs)
  have none: "map_of (concat (map (\<lambda>c. case f c of None \<Rightarrow> [] | Some e \<Rightarrow> [e]) cs)) (k d) = None"
    if "distinct (map k (d # cs))"
  proof -
    have "k d \<noteq> fst e" if "e \<in> set (concat (map (\<lambda>c. case f c of None \<Rightarrow> [] | Some e \<Rightarrow> [e]) cs))" for e
      using that Cons.prems(1,2) unfolding in_kept by fastforce
    then show ?thesis unfolding map_of_eq_None_iff by blast
  qed
  show ?case
  proof (cases "c = d")
    case True
    then show ?thesis using none Cons.prems by (cases "f d") auto
  next
    case False
    then have "k d \<noteq> k c" "c \<in> set cs" using Cons.prems by auto
    moreover have "fst e = k d" if "f d = Some e" for e using Cons.prems(2) that by simp
    ultimately show ?thesis using Cons by (cases "f d") auto
  qed
qed simp

lemma map_of_concat_None:
  assumes "\<And>c e. c \<in> set cs \<Longrightarrow> f c = Some e \<Longrightarrow> fst e = k c" "g \<notin> k ` set cs"
  shows "map_of (concat (map (\<lambda>c. case f c of None \<Rightarrow> [] | Some e \<Rightarrow> [e]) cs)) g = None"
proof -
  have "fst e \<noteq> g" if "e \<in> set (concat (map (\<lambda>c. case f c of None \<Rightarrow> [] | Some e \<Rightarrow> [e]) cs))" for e
    using that assms unfolding in_kept by fastforce
  then show ?thesis unfolding map_of_eq_None_iff by blast
qed

lemma sorted_concat:
  assumes "sorted_wrt (<) (map k cs)" "\<And>c e. c \<in> set cs \<Longrightarrow> f c = Some e \<Longrightarrow> fst e = k c"
  shows "sorted_wrt (<) (map fst (concat (map (\<lambda>c. case f c of None \<Rightarrow> [] | Some e \<Rightarrow> [e]) cs)))"
  using assms
proof (induction cs)
  case (Cons d cs)
  define C where "C = concat (map (\<lambda>c. case f c of None \<Rightarrow> [] | Some e \<Rightarrow> [e]) cs)"
  have "k d < fst e" if "e \<in> set C" for e
    using that Cons.prems unfolding C_def in_kept by fastforce
  moreover have "fst e = k d" if "f d = Some e" for e using Cons.prems(2) that by simp
  moreover have "sorted_wrt (<) (map fst C)" using Cons by (simp add: C_def)
  ultimately show ?case by (cases "f d") (auto simp flip: C_def)
qed simp

definition node_guid :: "Driver \<Rightarrow> NodeState \<Rightarrow> digest" where
  "node_guid self elem = dag_NodeGuids (dr_DagData self) ! ns_MmapData elem"

text \<open>The node states point to different nodes of the DAG, whose guids ascend.\<close>

definition nodes_ok :: "Driver \<Rightarrow> bool" where
  "nodes_ok self \<longleftrightarrow> distinct (map ns_MmapData (dr_Nodes self)) \<and>
     (\<forall>elem \<in> set (dr_Nodes self). ns_MmapData elem < length (dag_NodeGuids (dr_DagData self))) \<and>
     sorted_wrt (<) (dag_NodeGuids (dr_DagData self))"

lemma keys_sorted:
  assumes "nodes_ok self"
  shows "sorted_wrt (<) (map (key_new (sorted_driver self)) [0..<length (dr_Nodes (sorted_driver self))])"
proof -
  let ?sts = "dr_Nodes (sorted_driver self)"
  have sts: "?sts = sort_key ns_MmapData (dr_Nodes self)" by (simp add: sorted_driver_def)
  have "mset (map ns_MmapData ?sts) = mset (map ns_MmapData (dr_Nodes self))" by (simp add: sts)
  then have "distinct (map ns_MmapData ?sts)" using assms by (metis mset_eq_imp_distinct_iff nodes_ok_def)
  moreover have "sorted (map ns_MmapData ?sts)" by (simp add: sts)
  ultimately have "sorted_wrt (<) (map ns_MmapData ?sts)" by (simp add: strict_sorted_iff)
  then have "ns_MmapData (?sts ! i) < ns_MmapData (?sts ! j)" if "i < j" "j < length ?sts" for i j
    using that by (simp add: sorted_wrt_iff_nth_less)
  moreover have "ns_MmapData (?sts ! i) < length (dag_NodeGuids (dr_DagData self))" if "i < length ?sts" for i
    using assms nth_mem [OF that] by (simp add: nodes_ok_def)
  ultimately show ?thesis
    using assms by (simp add: sorted_wrt_iff_nth_less nodes_ok_def key_new_def)
qed

lemma saved_entries_map:
  assumes "nodes_ok self" "old_ok self"
  defines "es \<equiv> saved_entries (sorted_driver self)"
  shows "sorted_wrt (<) (map fst es)"
    "elem \<in> set (dr_Nodes self) \<Longrightarrow> map_of es (node_guid self elem) = new_entry self elem"
    "g \<notin> node_guid self ` set (dr_Nodes self) \<Longrightarrow> map_of es g = old_entry self g"
proof -
  let ?self = "sorted_driver self"
  let ?ks = "map (key_new ?self) [0..<length (dr_Nodes ?self)]"
  let ?k = "case_sum (key_new ?self) (key_old ?self)"
  have old: "map (key_old ?self) [0..<0 + length (old_guids ?self)] = old_guids ?self"
    by (intro nth_equalityI) (simp_all add: key_old_def)
  have keys: "sorted_wrt (<) (map ?k (calls ?self))" "set (map ?k (calls ?self)) = set ?ks \<union> set (old_guids self)"
  proof -
    from old have "sorted_wrt (<) (map ?k (calls ?self)) \<and> set (map ?k (calls ?self)) = set ?ks \<union> set (old_guids ?self)"
      using merge_from_sorted [of "key_new ?self" 0 ?ks "key_old ?self" 0 "old_guids ?self"] keys_sorted [OF assms(1)] assms(2)
      by (simp add: calls_def old_ok_def)
    then show "sorted_wrt (<) (map ?k (calls ?self))" "set (map ?k (calls ?self)) = set ?ks \<union> set (old_guids self)" by simp_all
  qed
  have ent: "fst e = ?k c" if "call_entry ?self c = Some e" for c e using that by (cases c) auto
  show "sorted_wrt (<) (map fst es)" unfolding es_def saved_entries_def by (rule sorted_concat [OF keys(1) ent])
  have dist: "distinct (map ?k (calls ?self))" using keys(1) by (simp add: strict_sorted_iff)
  have at: "map_of es (?k c) = map_option snd (call_entry ?self c)" if "c \<in> set (calls ?self)" for c
    unfolding es_def saved_entries_def by (rule map_of_concat [OF dist ent that])
  have kn: "key_new ?self i = node_guid self (dr_Nodes ?self ! i)" for i by (simp add: key_new_def node_guid_def)
  have inr: "Inr j \<in> set (calls ?self) \<Longrightarrow> key_old ?self j \<notin> set ?ks" for j
    using merge_from_second [of "key_old ?self" 0 "old_guids ?self" ?ks j 0] keys_sorted [OF assms(1)] assms(2) old
    by (simp add: calls_def old_ok_def)
  have pick: "\<exists>c \<in> set (calls ?self). ?k c = x" if "x \<in> set ?ks \<union> set (old_guids self)" for x
    using keys(2) that by (metis (no_types, lifting) image_iff image_set)
  show "map_of es (node_guid self elem) = new_entry self elem" if elem: "elem \<in> set (dr_Nodes self)"
  proof -
    obtain i where i: "i < length (dr_Nodes ?self)" "elem = dr_Nodes ?self ! i"
      using elem by (metis in_set_conv_nth sorted_driver_sel(6))
    then have mem: "node_guid self elem \<in> set ?ks" by (simp add: kn)
    then obtain c where c: "c \<in> set (calls ?self)" "?k c = node_guid self elem" using pick by blast
    obtain j where cj: "c = Inl j"
    proof (cases c)
      case (Inr j)
      then show ?thesis using inr [of j] c mem by simp
    qed (use that in blast)
    have "j < length (dr_Nodes ?self)" using merge_from_range(2) c(1) cj by (fastforce simp: calls_def)
    moreover have "key_new ?self j = key_new ?self i" using c(2) cj kn i(2) by simp
    ultimately have "j = i"
      using keys_sorted [OF assms(1)] i(1) strict_sorted_iff [of ?ks] nth_eq_iff_index_eq [of ?ks j i] by simp
    then show ?thesis using at [OF c(1)] c(2) cj i(2) by (simp add: option.map_comp comp_def option.map_ident)
  qed
  show "map_of es g = old_entry self g" if g: "g \<notin> node_guid self ` set (dr_Nodes self)"
  proof -
    have nk: "g \<notin> set ?ks" using g nth_mem by (fastforce simp: kn)
    show ?thesis
    proof (cases "g \<in> set (old_guids self)")
      case True
      then obtain c where c: "c \<in> set (calls ?self)" "?k c = g" using pick by blast
      obtain j where cj: "c = Inr j"
      proof (cases c)
        case (Inl j)
        then have "j < length (dr_Nodes ?self)" using merge_from_range(2) c(1) by (fastforce simp: calls_def)
        then show ?thesis using nk c(2) Inl by auto
      qed (use that in blast)
      then show ?thesis using at [OF c(1)] c(2) by (simp add: option.map_comp comp_def option.map_ident)
    next
      case False
      then have "g \<notin> ?k ` set (calls ?self)" using nk keys(2) by (metis UnE image_set)
      then have "map_of es g = None" unfolding es_def saved_entries_def using ent by (intro map_of_concat_None)
      moreover have "old_lookup self g = None"
        using BinarySearch_None [of "old_guids self" g] False assms(2) by (simp add: old_lookup_eq old_ok_def)
      ultimately show ?thesis by (simp add: old_entry_def split: option.split)
    qed
  qed
qed

lemma old_state_map_of:
  assumes "sorted_wrt (<) (map fst es)"
  shows "old_state (Some \<lparr>st_NodeGuids = map fst es, st_NodeStates = map snd es\<rparr>) g = map_of es g"
proof (cases "g \<in> fst ` set es")
  case True
  then obtain i where i: "i < length es" "g = fst (es ! i)" by (metis imageE in_set_conv_nth)
  then have "BinarySearch (map fst es) (int (length (map fst es))) g = Some i"
    using BinarySearch_member [OF assms, of i] by simp
  moreover have "map_of es g = Some (snd (es ! i))"
    using assms i nth_mem [OF i(1)] by (metis map_of_is_SomeI prod.collapse strict_sorted_iff)
  ultimately show ?thesis using i(1) by (simp add: old_state_def)
next
  case False
  then have "map_of es g = None" by (simp add: map_of_eq_None_iff)
  moreover have "BinarySearch (map fst es) (int (length es)) g = None"
    using BinarySearch_None [OF assms, of g] False by simp
  ultimately show ?thesis by (simp add: old_state_def)
qed

text \<open>The entries fit the format of the file.\<close>

definition fits_format :: "entry list \<Rightarrow> bool" where
  "fits_format es \<longleftrightarrow> length es < 2 ^ 31 \<and> (\<forall>e \<in> set es. entry_ok e)"

lemma saved_state_loads:
  assumes "old_ok self" "DriverSaveBuildState fs self = Inr (self', True, contents)"
    "fits_format (saved_entries (sorted_driver self))"
  shows "LoadFrozenData_state contents =
    Some \<lparr>st_NodeGuids = map fst (saved_entries (sorted_driver self)), st_NodeStates = map snd (saved_entries (sorted_driver self))\<rparr>"
  using saved_file [OF assms(1,2)] LoadFrozenData_file assms(3) by (auto simp: fits_format_def)

section \<open>An example\<close>

definition ex_saved :: Driver where
  "ex_saved = (DriverInit ex_options ex_dag None)\<lparr>dr_DagData := ex_dag\<lparr>dag_NodeData := [ex_node\<lparr>nd_OutputFiles := [(''a.o'', Djb2Hash ''a.o'')]\<rparr>, ex_nodes ! 1]\<rparr>,
     dr_Nodes := [ex_state\<lparr>ns_MmapData := 1, ns_Progress := kCompleted, ns_InputSignature := (3, 4)\<rparr>,
       ex_state\<lparr>ns_Progress := kCompleted, ns_InputSignature := (1, 2)\<rparr>]\<rparr>"

definition ex_fs :: file_system where
  "ex_fs = \<lparr>fs_opened = True, fs_written = \<lambda>_. True, fs_renamed = True\<rparr>"

definition ex_contents :: "u8 list option" where
  "ex_contents = snd (snd (projr (DriverSaveBuildState ex_fs ex_saved)))"

lemma ex_saved_ok:
  "nodes_ok ex_saved" "old_ok ex_saved" "fits_format (saved_entries (sorted_driver ex_saved))"
  "\<exists>self'. DriverSaveBuildState ex_fs ex_saved = Inr (self', True, ex_contents)"
proof -
  show "nodes_ok ex_saved" unfolding nodes_ok_def by code_simp
  show "old_ok ex_saved" unfolding old_ok_def by code_simp
  have "saved_entries (sorted_driver ex_saved) =
      [((0, 1), \<lparr>sd_BuildResult = 0, sd_InputSignature = (1, 2), sd_OutputFiles = [''a.o''], sd_AuxOutputFiles = []\<rparr>),
       ((0, 2), \<lparr>sd_BuildResult = 0, sd_InputSignature = (3, 4), sd_OutputFiles = [], sd_AuxOutputFiles = []\<rparr>)]"
    by code_simp
  then show "fits_format (saved_entries (sorted_driver ex_saved))"
    by (simp add: fits_format_def entry_ok_def entry_files_def)
  have "isl (DriverSaveBuildState ex_fs ex_saved) = False" "fst (snd (projr (DriverSaveBuildState ex_fs ex_saved))) = True"
    by code_simp+
  then show "\<exists>self'. DriverSaveBuildState ex_fs ex_saved = Inr (self', True, ex_contents)"
    by (cases "DriverSaveBuildState ex_fs ex_saved") (auto simp: ex_contents_def)
qed

section \<open>Properties\<close>

text \<open>
  C32: What \<open>DriverSaveBuildState\<close> writes is what \<open>LoadFrozenData\<close> reads: when saving succeeds, the
  state file, mapped into memory and read through the frozen pointers, arrays and strings, holds
  exactly the guids, results, signatures and file names of the merged entries.
\<close>

theorem state_file_roundtrip:
  assumes "old_ok self" "DriverSaveBuildState fs self = Inr (self', True, contents)"
    "fits_format (saved_entries (sorted_driver self))"
  shows "LoadFrozenData_state contents =
    Some \<lparr>st_NodeGuids = map fst (saved_entries (sorted_driver self)), st_NodeStates = map snd (saved_entries (sorted_driver self))\<rparr>"
  by (rule saved_state_loads [OF assms])

theorem state_file_roundtrip_witness:
  "LoadFrozenData_state ex_contents =
    Some \<lparr>st_NodeGuids = map fst (saved_entries (sorted_driver ex_saved)), st_NodeStates = map snd (saved_entries (sorted_driver ex_saved))\<rparr>"
  using state_file_roundtrip ex_saved_ok by blast

text \<open>
  C33: What the next build finds for a node: the result, signature and files of this build if the node
  got as far as its signature; otherwise what was known before; and for a node that was not part of
  this build what was known before with the files of the DAG, or nothing if the node has left
  the DAG.
\<close>

theorem next_build_sees:
  assumes "nodes_ok self" "old_ok self" "DriverSaveBuildState fs self = Inr (self', True, contents)"
    "fits_format (saved_entries (sorted_driver self))"
  shows "(\<forall>elem \<in> set (dr_Nodes self). old_state (LoadFrozenData_state contents) (node_guid self elem) = new_entry self elem) \<and>
    (\<forall>g. g \<notin> node_guid self ` set (dr_Nodes self) \<longrightarrow> old_state (LoadFrozenData_state contents) g = old_entry self g)"
  using saved_entries_map [OF assms(1,2)] saved_state_loads [OF assms(2-)] by (simp add: old_state_map_of)

theorem next_build_sees_witness:
  "old_state (LoadFrozenData_state ex_contents) (0, 1) =
     Some \<lparr>sd_BuildResult = 0, sd_InputSignature = (1, 2), sd_OutputFiles = [''a.o''], sd_AuxOutputFiles = []\<rparr>"
proof -
  obtain self' where "DriverSaveBuildState ex_fs ex_saved = Inr (self', True, ex_contents)" using ex_saved_ok(4) by blast
  from next_build_sees [OF ex_saved_ok(1,2) this ex_saved_ok(3)]
  have "old_state (LoadFrozenData_state ex_contents) (node_guid ex_saved (dr_Nodes ex_saved ! 1)) = new_entry ex_saved (dr_Nodes ex_saved ! 1)"
    if "1 < length (dr_Nodes ex_saved)" using that by simp
  moreover have "1 < length (dr_Nodes ex_saved)" "node_guid ex_saved (dr_Nodes ex_saved ! 1) = (0, 1)"
    "new_entry ex_saved (dr_Nodes ex_saved ! 1) =
       Some \<lparr>sd_BuildResult = 0, sd_InputSignature = (1, 2), sd_OutputFiles = [''a.o''], sd_AuxOutputFiles = []\<rparr>"
    by code_simp+
  ultimately show ?thesis by simp
qed

end
