(* ===== verification/T2_FileInfo.thy ===== *)
theory T2_FileInfo
  imports T2_DagData T2_HashUpdate
begin

text \<open>
  Model of \<open>src/FileInfo.cpp\<close> on Unix and of \<open>src/StatCache.cpp\<close>, \<open>src/StatCache.hpp\<close>. The file
  system is a parameter: what \<open>stat\<close> reports for a path, what a file contains and what a directory
  holds. The lemmas show that the cache answers as the file system would as long as every clean
  entry agrees with the file system, although a path can have several entries.
\<close>

section \<open>The file system\<close>

text \<open>The fields of \<open>struct stat\<close> that are read, or the value of \<open>errno\<close>.\<close>

datatype stat_result = StatOk (st_mode: u32) (st_mtime: u64) (st_size: u64) | StatErr int

record world =
  w_stat :: "string \<Rightarrow> stat_result"
  w_content :: "string \<Rightarrow> string option"
  w_dir :: "string \<Rightarrow> string list option"

definition S_IFMT :: u32 where "S_IFMT = 0xF000"
definition S_IFDIR :: u32 where "S_IFDIR = 0x4000"
definition S_IFREG :: u32 where "S_IFREG = 0x8000"
definition ENOENT :: int where "ENOENT = 2"

definition GetFileInfo :: "world \<Rightarrow> string \<Rightarrow> FileInfo" where
  "GetFileInfo w path =
     (case w_stat w path of
        StatOk mode mtime sz \<Rightarrow>
          (let flags = kFlagExists;
               flags = (if mode AND S_IFMT = S_IFDIR then flags OR kFlagDirectory
                        else if mode AND S_IFMT = S_IFREG then flags OR kFlagFile else flags)
           in \<lparr>fi_Flags = flags, fi_Size = sz, fi_Timestamp = mtime\<rparr>)
      | StatErr errno \<Rightarrow>
          \<lparr>fi_Flags = (if errno = ENOENT then 0 else kFlagError), fi_Size = 0, fi_Timestamp = 0\<rparr>)"

section \<open>Directories\<close>

definition ShouldFilter_len :: "string \<Rightarrow> nat \<Rightarrow> bool" where
  "ShouldFilter_len name len \<longleftrightarrow>
     (if 1 = len \<and> name ! 0 = CHR ''.'' then True
      else if 2 = len \<and> name ! 0 = CHR ''.'' \<and> name ! 1 = CHR ''.'' then True
      else if len \<ge> 4 \<and> name ! 0 = CHR ''.'' \<and> take 4 (drop (len - 4) name) = ''.swp'' then True
      else if len \<ge> 9 \<and> take 9 name = ''.tundra2.'' then True
      else if len > 1 \<and> name ! (len - 1) = CHR ''~'' then True
      else False)"

definition ShouldFilter :: "string \<Rightarrow> bool" where
  "ShouldFilter name = ShouldFilter_len name (length (c_str name))"

text \<open>The entries that the callback gets, in the order of \<open>readdir_r\<close>.\<close>

fun ListDirectory_loop :: "world \<Rightarrow> string \<Rightarrow> string list \<Rightarrow> (FileInfo \<times> string) list" where
  "ListDirectory_loop w path [] = []"
| "ListDirectory_loop w path (d_name # names) =
     (let len = length d_name
      in if ShouldFilter_len d_name len then ListDirectory_loop w path names
         else if len + length path + 2 \<ge> 512 then ListDirectory_loop w path names
         else (GetFileInfo w (path @ CHR ''/'' # d_name), d_name) # ListDirectory_loop w path names)"

definition ListDirectory :: "world \<Rightarrow> string \<Rightarrow> (FileInfo \<times> string) list" where
  "ListDirectory w path =
     (if length path + 1 > 512 then []
      else case w_dir w path of None \<Rightarrow> [] | Some names \<Rightarrow> ListDirectory_loop w path names)"

section \<open>The cache\<close>

type_synonym StatCache = "FileInfo hash_table"

definition StatCacheInit :: StatCache where
  "StatCacheInit = HashTableInit"

definition StatCacheInsert :: "StatCache \<Rightarrow> u32 \<Rightarrow> string \<Rightarrow> FileInfo \<Rightarrow> StatCache option" where
  "StatCacheInsert self hash path info = HashTableInsert self hash path info"

definition StatCacheMarkDirty :: "bool \<Rightarrow> StatCache \<Rightarrow> string \<Rightarrow> u32 \<Rightarrow> StatCache option" where
  "StatCacheMarkDirty nocase self path hash =
     (case HashTableLookup nocase self hash path of
        None \<Rightarrow> None
      | Some None \<Rightarrow> Some self
      | Some (Some fi) \<Rightarrow>
          Some (put_payload self fi ((the (m_Payloads self ! fi))\<lparr>fi_Flags := kFlagDirty\<rparr>)))"

definition StatCacheStat :: "bool \<Rightarrow> world \<Rightarrow> StatCache \<Rightarrow> string \<Rightarrow> u32 \<Rightarrow> (FileInfo \<times> StatCache) option" where
  "StatCacheStat nocase w self path hash =
     (case HashTableLookup nocase self hash path of
        None \<Rightarrow> None
      | Some fi \<Rightarrow>
          if fi \<noteq> None \<and> fi_Flags (the (m_Payloads self ! the fi)) AND kFlagDirty = 0
          then Some (the (m_Payloads self ! the fi), self)
          else let file_info = GetFileInfo w path
               in map_option (\<lambda>self'. (file_info, self')) (StatCacheInsert self hash path file_info))"

definition StatCacheStat_path :: "bool \<Rightarrow> world \<Rightarrow> StatCache \<Rightarrow> string \<Rightarrow> (FileInfo \<times> StatCache) option" where
  "StatCacheStat_path nocase w self path = StatCacheStat nocase w self path (Djb2HashPath nocase path)"

section \<open>Coherence\<close>

text \<open>
  Paths that the tables identify are the same file: nothing after the terminator of a C string
  matters and, where the tables ignore case, neither does case.
\<close>

definition same_files :: "bool \<Rightarrow> world \<Rightarrow> bool" where
  "same_files nocase w \<longleftrightarrow> (\<forall>s s'. canon nocase s = canon nocase s' \<longrightarrow>
     w_stat w s = w_stat w s' \<and> w_content w s = w_content w s')"

text \<open>Every clean entry, also one of several for a path, is what the file system would answer.\<close>

definition stat_coherent :: "world \<Rightarrow> StatCache \<Rightarrow> bool" where
  "stat_coherent w t \<longleftrightarrow> ht_wf t \<and> (\<forall>e \<in> set (entries (slots t)).
     fi_Flags (the (snd (snd e))) AND kFlagDirty = 0 \<longrightarrow> the (snd (snd e)) = GetFileInfo w (fst (snd e)))"

lemma GetFileInfo_same: "same_files nocase w \<Longrightarrow> canon nocase s = canon nocase s' \<Longrightarrow> GetFileInfo w s = GetFileInfo w s'"
proof -
  assume "same_files nocase w" "canon nocase s = canon nocase s'"
  then have "w_stat w s = w_stat w s'" unfolding same_files_def by blast
  then show ?thesis by (simp only: GetFileInfo_def)
qed

lemma stat_coherentD:
  assumes "stat_coherent w t" "e \<in> set (entries (slots t))" "snd (snd e) = Some v" "fi_Flags v AND kFlagDirty = 0"
  shows "v = GetFileInfo w (fst (snd e))"
proof -
  have "fi_Flags (the (snd (snd e))) AND kFlagDirty = 0 \<longrightarrow> the (snd (snd e)) = GetFileInfo w (fst (snd e))"
    using assms(1,2) unfolding stat_coherent_def by blast
  then show ?thesis using assms(3,4) by simp
qed

lemma stat_coherent_init [simp]: "stat_coherent w StatCacheInit"
  by (simp add: stat_coherent_def StatCacheInit_def) (simp add: HashTableInit_def slots_def)

lemma stat_coherent_insert:
  assumes "stat_coherent w t" "hash \<noteq> 0"
  shows "\<exists>t'. StatCacheInsert t hash path (GetFileInfo w path) = Some t' \<and> stat_coherent w t'"
proof -
  obtain t' where t': "HashTableInsert t hash path (GetFileInfo w path) = Some t'" "ht_wf t'"
      "mset (entries (slots t')) = add_mset (hash, path, Some (GetFileInfo w path)) (mset (entries (slots t)))"
    using HashTableInsert_entries [of t hash path "GetFileInfo w path"] assms unfolding stat_coherent_def by blast
  have "set (entries (slots t')) = insert (hash, path, Some (GetFileInfo w path)) (set (entries (slots t)))"
    using arg_cong [OF t'(3), of set_mset] by simp
  then have "stat_coherent w t'" using t'(2) assms(1) unfolding stat_coherent_def by simp
  then show ?thesis using t'(1) by (simp add: StatCacheInsert_def)
qed

lemma StatCacheStat_ok:
  assumes "stat_coherent w t" "same_files nocase w" "hash \<noteq> 0"
  shows "\<exists>t'. StatCacheStat nocase w t path hash = Some (GetFileInfo w path, t') \<and> stat_coherent w t'"
proof -
  obtain t' where t': "StatCacheInsert t hash path (GetFileInfo w path) = Some t'" "stat_coherent w t'"
    using stat_coherent_insert [OF assms(1,3)] by blast
  have wf: "ht_wf t" using assms(1) by (simp add: stat_coherent_def)
  from wf assms(3) show ?thesis
  proof (rule HashTableLookup_slot [of t hash nocase path])
    assume "HashTableLookup nocase t hash path = Some None"
    then show ?thesis using t' by (simp add: StatCacheStat_def Let_def)
  next
    fix p v
    assume look: "HashTableLookup nocase t hash path = Some (Some p)" and e: "slots t ! p \<in> set (entries (slots t))"
      and key: "slot_key nocase (slots t ! p) = (hash, canon nocase path)"
      and v: "m_Payloads t ! p = Some v" "snd (snd (slots t ! p)) = Some v"
    have "v = GetFileInfo w path" if clean: "fi_Flags v AND kFlagDirty = 0"
    proof -
      have "canon nocase (fst (snd (slots t ! p))) = canon nocase path" using key by (simp add: slot_key_def)
      from GetFileInfo_same [OF assms(2) this] show ?thesis
        using stat_coherentD [OF assms(1) e v(2) clean] by simp
    qed
    then show ?thesis using t' assms(1) look v(1) by (simp add: StatCacheStat_def Let_def)
  qed
qed

lemma StatCacheStat_path_ok:
  assumes "stat_coherent w t" "same_files nocase w"
  shows "\<exists>t'. StatCacheStat_path nocase w t path = Some (GetFileInfo w path, t') \<and> stat_coherent w t'"
  unfolding StatCacheStat_path_def by (rule StatCacheStat_ok [OF assms]) simp

text \<open>
  After a file changed, marking it dirty makes the cache coherent with the new file system,
  provided that the path has no second entry: only the entry that a lookup finds is marked.
\<close>

lemma StatCacheMarkDirty_ok:
  assumes "stat_coherent w t" "hash \<noteq> 0"
    and others: "\<forall>s. canon nocase s \<noteq> canon nocase path \<longrightarrow> GetFileInfo w' s = GetFileInfo w s"
    and single: "\<forall>i < length (slots t). \<forall>j < length (slots t). fst (slots t ! i) \<noteq> 0 \<longrightarrow> fst (slots t ! j) \<noteq> 0 \<longrightarrow>
      canon nocase (fst (snd (slots t ! i))) = canon nocase path \<longrightarrow> canon nocase (fst (snd (slots t ! j))) = canon nocase path \<longrightarrow> i = j"
    and hashes: "\<forall>e \<in> set (entries (slots t)). canon nocase (fst (snd e)) = canon nocase path \<longrightarrow> fst e = hash"
  shows "\<exists>t'. StatCacheMarkDirty nocase t path hash = Some t' \<and> stat_coherent w' t'"
proof -
  have wf: "ht_wf t" using assms(1) by (simp add: stat_coherent_def)
  from wf assms(2) show ?thesis
  proof (rule HashTableLookup_slot [of t hash nocase path])
    assume look: "HashTableLookup nocase t hash path = Some None"
      and none: "\<forall>e \<in> set (entries (slots t)). slot_key nocase e \<noteq> (hash, canon nocase path)"
    have "GetFileInfo w' (fst (snd e)) = GetFileInfo w (fst (snd e))" if "e \<in> set (entries (slots t))" for e
      using that none hashes others by (metis slot_key_def)
    then have "stat_coherent w' t" using assms(1) unfolding stat_coherent_def by simp
    then show ?thesis using look by (simp add: StatCacheMarkDirty_def)
  next
    fix q v
    assume look: "HashTableLookup nocase t hash path = Some (Some q)" and q: "q < m_TableSize t"
      and e: "slots t ! q \<in> set (entries (slots t))" and key: "slot_key nocase (slots t ! q) = (hash, canon nocase path)"
    let ?v = "(the (m_Payloads t ! q))\<lparr>fi_Flags := kFlagDirty\<rparr>"
    have len: "length (slots t) = m_TableSize t" by (rule length_slots [OF wf])
    have slots: "slots (put_payload t q ?v) = (slots t)[q := (fst (slots t ! q), fst (snd (slots t ! q)), Some ?v)]"
      by (rule slots_put [OF wf q])
    have "the (snd (snd e)) = GetFileInfo w' (fst (snd e))"
      if new: "e \<in> set (entries (slots (put_payload t q ?v)))" and clean: "fi_Flags (the (snd (snd e))) AND kFlagDirty = 0" for e
    proof -
      obtain i where i: "i < m_TableSize t" "slots (put_payload t q ?v) ! i = e" "fst e \<noteq> 0"
        using new len unfolding slots set_filter in_set_conv_nth length_list_update mem_Collect_eq by metis
      have "i \<noteq> q"
      proof
        assume "i = q"
        then have "snd (snd e) = Some ?v" using i len unfolding slots by auto
        then show False using clean by (simp add: kFlagDirty_def)
      qed
      then have ti: "slots t ! i = e" using i unfolding slots by simp
      then have mem: "e \<in> set (entries (slots t))" using i len by auto
      have "canon nocase (fst (snd e)) \<noteq> canon nocase path"
      proof
        assume "canon nocase (fst (snd e)) = canon nocase path"
        moreover have "canon nocase (fst (snd (slots t ! q))) = canon nocase path" "fst (slots t ! q) \<noteq> 0"
          using key e by (simp_all add: slot_key_def)
        ultimately have "i = q" using single i(1,3) ti q len by metis
        then show False using \<open>i \<noteq> q\<close> by simp
      qed
      then show ?thesis using others mem assms(1) clean unfolding stat_coherent_def by metis
    qed
    then have "stat_coherent w' (put_payload t q ?v)"
      using put_payload_wf [OF wf q] unfolding stat_coherent_def by blast
    then show ?thesis using look by (simp add: StatCacheMarkDirty_def)
  qed
qed

end
