(* ===== verification/T2_DigestCache.thy ===== *)
theory T2_DigestCache
  imports T2_FileInfo T2_SaveState
begin

text \<open>
  Model of the tables of \<open>src/DigestCache.cpp\<close>: digests of file contents, kept under the path and
  valid for one time stamp of the file. Reading and writing the cache file is in \<open>T2_DigestFile\<close>.
\<close>

section \<open>Definitions\<close>

record DigestCacheRecord =
  dcr_ContentDigest :: digest
  dcr_Timestamp :: u64
  dcr_AccessTime :: u64

record DigestCache =
  dc_Table :: "DigestCacheRecord hash_table"
  dc_AccessTime :: u64

text \<open>The argument is the result of \<open>time(nullptr)\<close>.\<close>

definition DigestCacheInit :: "u64 \<Rightarrow> DigestCache" where
  "DigestCacheInit now = \<lparr>dc_Table = HashTableInit, dc_AccessTime = now\<rparr>"

definition DigestCacheGet ::
  "bool \<Rightarrow> DigestCache \<Rightarrow> string \<Rightarrow> u32 \<Rightarrow> u64 \<Rightarrow> (digest option \<times> DigestCache) option" where
  "DigestCacheGet nocase self filename hash timestamp =
     (case HashTableLookup nocase (dc_Table self) hash filename of
        None \<Rightarrow> None
      | Some None \<Rightarrow> Some (None, self)
      | Some (Some p) \<Rightarrow>
          (let r = the (m_Payloads (dc_Table self) ! p)
           in if dcr_Timestamp r = timestamp
              then Some (Some (dcr_ContentDigest r),
                     self\<lparr>dc_Table := put_payload (dc_Table self) p (r\<lparr>dcr_AccessTime := dc_AccessTime self\<rparr>)\<rparr>)
              else Some (None, self)))"

definition DigestCacheSet ::
  "bool \<Rightarrow> DigestCache \<Rightarrow> string \<Rightarrow> u32 \<Rightarrow> u64 \<Rightarrow> digest \<Rightarrow> DigestCache option" where
  "DigestCacheSet nocase self filename hash timestamp digest =
     (let r = \<lparr>dcr_ContentDigest = digest, dcr_Timestamp = timestamp, dcr_AccessTime = dc_AccessTime self\<rparr>
      in case HashTableLookup nocase (dc_Table self) hash filename of
           None \<Rightarrow> None
         | Some (Some p) \<Rightarrow> Some (self\<lparr>dc_Table := put_payload (dc_Table self) p r\<rparr>)
         | Some None \<Rightarrow>
             map_option (\<lambda>table. self\<lparr>dc_Table := table\<rparr>) (HashTableInsert (dc_Table self) hash filename r))"

section \<open>The cache as a map\<close>

abbreviation digest_entry :: "bool \<Rightarrow> DigestCache \<Rightarrow> u32 \<Rightarrow> string \<Rightarrow> DigestCacheRecord option" where
  "digest_entry nocase self hash filename \<equiv> HashTableGet nocase (dc_Table self) (hash, filename)"

definition digest_ok :: "bool \<Rightarrow> DigestCache \<Rightarrow> bool" where
  "digest_ok nocase self \<longleftrightarrow> ht_ok nocase (dc_Table self)"

lemma digest_ok_init [simp]: "digest_ok nocase (DigestCacheInit now)" "hash \<noteq> 0 \<Longrightarrow> digest_entry nocase (DigestCacheInit now) hash s = None"
  using table.inv_empty [of nocase] table.get_empty [of "(hash, s)" nocase] by (simp_all add: digest_ok_def DigestCacheInit_def)

lemma DigestCacheSet_store:
  "DigestCacheSet nocase self filename hash timestamp digest =
     map_option (\<lambda>table. self\<lparr>dc_Table := table\<rparr>) (store.set_value nocase (dc_Table self) (hash, filename)
       \<lparr>dcr_ContentDigest = digest, dcr_Timestamp = timestamp, dcr_AccessTime = dc_AccessTime self\<rparr>)"
  by (simp add: DigestCacheSet_def store.set_value_def Let_def split: option.split)

lemma DigestCacheSet_ok:
  assumes "digest_ok nocase self" "hash \<noteq> 0"
  shows "\<exists>self'. DigestCacheSet nocase self filename hash timestamp digest = Some self' \<and> digest_ok nocase self' \<and>
    (\<forall>h s. h \<noteq> 0 \<longrightarrow> digest_entry nocase self' h s =
      (if h = hash \<and> canon nocase s = canon nocase filename
       then Some \<lparr>dcr_ContentDigest = digest, dcr_Timestamp = timestamp, dcr_AccessTime = dc_AccessTime self\<rparr>
       else digest_entry nocase self h s))"
proof -
  let ?r = "\<lparr>dcr_ContentDigest = digest, dcr_Timestamp = timestamp, dcr_AccessTime = dc_AccessTime self\<rparr>"
  have ok: "ht_ok nocase (dc_Table self)" using assms(1) by (simp add: digest_ok_def)
  obtain t where t: "store.set_value nocase (dc_Table self) (hash, filename) ?r = Some t" "ht_ok nocase t"
      "\<forall>k. fst k \<noteq> 0 \<longrightarrow> HashTableGet nocase t k = (if same_key nocase (hash, filename) k then Some ?r else HashTableGet nocase (dc_Table self) k)"
    using store.set_value_ok [OF ok, of "(hash, filename)" ?r] assms(2) by auto
  have "HashTableGet nocase t (h, s) = (if h = hash \<and> canon nocase s = canon nocase filename then Some ?r
      else HashTableGet nocase (dc_Table self) (h, s))" if "h \<noteq> 0" for h s
    using t(3) [rule_format, of "(h, s)"] that by (auto simp: same_key_def)
  then show ?thesis using t(1,2) by (simp add: DigestCacheSet_store digest_ok_def)
qed

lemma DigestCacheGet_ok:
  assumes "digest_ok nocase self" "hash \<noteq> 0"
  shows "\<exists>self'. DigestCacheGet nocase self filename hash timestamp =
      Some (case digest_entry nocase self hash filename of
              Some r \<Rightarrow> if dcr_Timestamp r = timestamp then Some (dcr_ContentDigest r) else None
            | None \<Rightarrow> None, self') \<and> digest_ok nocase self' \<and>
    (\<forall>h s. h \<noteq> 0 \<longrightarrow> map_option (\<lambda>r. (dcr_ContentDigest r, dcr_Timestamp r)) (digest_entry nocase self' h s) =
      map_option (\<lambda>r. (dcr_ContentDigest r, dcr_Timestamp r)) (digest_entry nocase self h s))"
proof -
  have ok: "ht_ok nocase (dc_Table self)" using assms(1) by (simp add: digest_ok_def)
  obtain p where p: "HashTableLookup nocase (dc_Table self) hash filename = Some p"
      "p = None \<longleftrightarrow> digest_entry nocase self hash filename = None"
    using store.find_get [OF ok, of "(hash, filename)"] assms(2) by auto
  show ?thesis
  proof (cases p)
    case None
    then show ?thesis using p assms(1) by (simp add: DigestCacheGet_def)
  next
    case (Some q)
    have look: "HashTableLookup nocase (dc_Table self) (fst (hash, filename)) (snd (hash, filename)) = Some (Some q)"
      using p Some by simp
    obtain r where r: "digest_entry nocase self hash filename = Some r" using p(2) Some by auto
    then have pay: "the (m_Payloads (dc_Table self) ! q) = r" using p(1) Some by (simp add: HashTableGet_def)
    let ?t = "put_payload (dc_Table self) q (r\<lparr>dcr_AccessTime := dc_AccessTime self\<rparr>)"
    have put: "ht_ok nocase ?t" "\<And>h s. h \<noteq> 0 \<Longrightarrow> HashTableGet nocase ?t (h, s) =
        (if same_key nocase (hash, filename) (h, s) then Some (r\<lparr>dcr_AccessTime := dc_AccessTime self\<rparr>) else digest_entry nocase self h s)"
      using store_put [OF ok _ look, of "r\<lparr>dcr_AccessTime := dc_AccessTime self\<rparr>"] assms(2) by simp_all
    have "map_option (\<lambda>r. (dcr_ContentDigest r, dcr_Timestamp r)) (HashTableGet nocase ?t (h, s)) =
        map_option (\<lambda>r. (dcr_ContentDigest r, dcr_Timestamp r)) (digest_entry nocase self h s)" if "h \<noteq> 0" for h s
    proof (cases "same_key nocase (hash, filename) (h, s)")
      case True
      have "digest_entry nocase self h s = Some r" using table.same_get [OF ok True] r by simp
      then show ?thesis using put(2) [OF that, of s] True by simp
    next
      case False
      then show ?thesis using put(2) [OF that, of s] by simp
    qed
    then show ?thesis
      using p(1) Some r assms(1) put(1) by (simp add: DigestCacheGet_def Let_def pay digest_ok_def)
  qed
qed

end
