(* ===== verification/T2_FileSign.thy ===== *)
theory T2_FileSign
  imports T2_DigestCache "HOL-Library.List_Lexorder"
begin

text \<open>
  Model of \<open>src/FileSign.cpp\<close>: what a file adds to the signature of a node (a digest of its
  contents or its time stamp) and the signature of a directory. The lemmas show that the caches do
  not matter: the bytes that are hashed are a function of the file system, and the signature of a
  directory does not depend on the order in which the system lists it.
\<close>

section \<open>Definitions\<close>

type_synonym sig_state = "fast_state HashState"

text \<open>\<open>while (size_t nbytes = fread (...))\<close>: the file in pieces of 8192 bytes.\<close>

function file_loop :: "sig_state \<Rightarrow> u8 list \<Rightarrow> sig_state option" where
  "file_loop h data =
     (if data = [] then Some h
      else case HashUpdate HashBlock h (take 8192 data) of
             None \<Rightarrow> None
           | Some h' \<Rightarrow> file_loop h' (drop 8192 data))"
  by pat_completeness auto
termination by (relation "measure (\<lambda>(h, data). length data)") auto

declare file_loop.simps [simp del]

definition content_bytes :: "string \<Rightarrow> u8 list" where
  "content_bytes s = map of_char s"

text \<open>The argument \<open>garbage\<close> is the uninitialized buffer of the local \<open>HashState\<close>.\<close>

definition ComputeFileSignatureSha1 ::
  "bool \<Rightarrow> world \<Rightarrow> u8 list \<Rightarrow> sig_state \<Rightarrow> StatCache \<Rightarrow> DigestCache \<Rightarrow> string \<Rightarrow> u32
     \<Rightarrow> (sig_state \<times> StatCache \<times> DigestCache) option" where
  "ComputeFileSignatureSha1 nocase w garbage state stat_cache digest_cache filename fn_hash = do {
     (file_info, stat_cache) \<leftarrow> StatCacheStat nocase w stat_cache filename fn_hash;
     if \<not> Exists file_info then do {
       state \<leftarrow> HashAddInteger HashBlock state (NOT 0);
       Some (state, stat_cache, digest_cache)
     } else do {
       (cached, digest_cache) \<leftarrow> DigestCacheGet nocase digest_cache filename fn_hash (fi_Timestamp file_info);
       (case cached of
          None \<Rightarrow>
            (case w_content w filename of
               None \<Rightarrow> do {
                 state \<leftarrow> HashAddString HashBlock state ''<missing>'';
                 Some (state, stat_cache, digest_cache)
               }
             | Some content \<Rightarrow> do {
                 h \<leftarrow> file_loop (HashInit HashInitImpl garbage) (content_bytes content);
                 digest \<leftarrow> HashFinalize HashBlock HashFinalizeImpl h;
                 digest_cache \<leftarrow> DigestCacheSet nocase digest_cache filename fn_hash (fi_Timestamp file_info) digest;
                 state \<leftarrow> HashUpdate HashBlock state (digest_bytes digest);
                 Some (state, stat_cache, digest_cache)
               })
        | Some digest \<Rightarrow> do {
            state \<leftarrow> HashUpdate HashBlock state (digest_bytes digest);
            Some (state, stat_cache, digest_cache)
          })
     }
   }"

definition ComputeFileSignatureTimestamp ::
  "bool \<Rightarrow> world \<Rightarrow> sig_state \<Rightarrow> StatCache \<Rightarrow> string \<Rightarrow> u32 \<Rightarrow> (sig_state \<times> StatCache) option" where
  "ComputeFileSignatureTimestamp nocase w out stat_cache filename hash = do {
     (info, stat_cache) \<leftarrow> StatCacheStat nocase w stat_cache filename hash;
     out \<leftarrow> HashAddInteger HashBlock out (if Exists info then fi_Timestamp info else NOT 0);
     Some (out, stat_cache)
   }"

definition strrchr :: "string \<Rightarrow> char \<Rightarrow> string option" where
  "strrchr s c =
     (let t = c_str s in if c \<in> set t then Some (c # rev (takeWhile (\<lambda>d. d \<noteq> c) (rev t))) else None)"

definition uses_digest :: "u32 list \<Rightarrow> string \<Rightarrow> bool" where
  "uses_digest sha_extension_hashes filename \<longleftrightarrow>
     (case strrchr filename (CHR ''.'') of
        None \<Rightarrow> False
      | Some ext \<Rightarrow> list_ex (\<lambda>h. h = Djb2Hash ext) sha_extension_hashes)"

definition ComputeFileSignature ::
  "bool \<Rightarrow> world \<Rightarrow> u8 list \<Rightarrow> sig_state \<Rightarrow> StatCache \<Rightarrow> DigestCache \<Rightarrow> string \<Rightarrow> u32 \<Rightarrow> u32 list
     \<Rightarrow> (sig_state \<times> StatCache \<times> DigestCache) option" where
  "ComputeFileSignature nocase w garbage out stat_cache digest_cache filename fn_hash sha_extension_hashes =
     (if uses_digest sha_extension_hashes filename
      then ComputeFileSignatureSha1 nocase w garbage out stat_cache digest_cache filename fn_hash
      else do {
        (out, stat_cache) \<leftarrow> ComputeFileSignatureTimestamp nocase w out stat_cache filename fn_hash;
        Some (out, stat_cache, digest_cache)
      })"

text \<open>The two buffers of directories and files, in the order of the callbacks.\<close>

definition glob_dirs :: "(FileInfo \<times> string) list \<Rightarrow> string list" where
  "glob_dirs listing = map snd (filter (\<lambda>(info, path). IsDirectory info) listing)"

definition glob_files :: "(FileInfo \<times> string) list \<Rightarrow> string list" where
  "glob_files listing = map snd (filter (\<lambda>(info, path). \<not> IsDirectory info) listing)"

fun hash_paths :: "bool \<Rightarrow> string list \<Rightarrow> sig_state \<Rightarrow> sig_state option" where
  "hash_paths nocase [] h = Some h"
| "hash_paths nocase (p # ps) h = do {
     h \<leftarrow> HashAddPath nocase HashBlock h p;
     h \<leftarrow> HashAddSeparator HashBlock h;
     hash_paths nocase ps h
   }"

text \<open>\<open>qsort\<close> with \<open>strcmp\<close> is the parameter \<open>qsort_paths\<close>.\<close>

definition CalculateGlobSignatureFor ::
  "bool \<Rightarrow> world \<Rightarrow> (string list \<Rightarrow> string list) \<Rightarrow> u8 list \<Rightarrow> string \<Rightarrow> digest option" where
  "CalculateGlobSignatureFor nocase w qsort_paths garbage path = do {
     let listing = ListDirectory w path;
     h \<leftarrow> hash_paths nocase (qsort_paths (glob_dirs listing)) (HashInit HashInitImpl garbage);
     h \<leftarrow> hash_paths nocase (qsort_paths (glob_files listing)) h;
     HashFinalize HashBlock HashFinalizeImpl h
   }"

section \<open>What is hashed\<close>

abbreviation fed :: "u8 list \<Rightarrow> sig_state \<Rightarrow> bool" where
  "fed msg h \<equiv> consumed HashBlock HashInitImpl msg h"

text \<open>The bytes that a file adds, without any cache.\<close>

definition file_signature :: "world \<Rightarrow> u32 list \<Rightarrow> string \<Rightarrow> u8 list" where
  "file_signature w sha_extension_hashes filename =
     (let info = GetFileInfo w filename
      in if \<not> Exists info then be64 (NOT 0)
         else if uses_digest sha_extension_hashes filename then
           (case w_content w filename of
              None \<Rightarrow> T2_Hash.bytes_of ''<missing>''
            | Some content \<Rightarrow> digest_bytes (fast_digest (content_bytes content)))
         else be64 (fi_Timestamp info))"

text \<open>
  Coherence of the digest cache: a digest under the current time stamp of a file is the digest of
  its contents. This is what Tundra assumes of time stamps.
\<close>

definition digest_coherent :: "bool \<Rightarrow> world \<Rightarrow> DigestCache \<Rightarrow> bool" where
  "digest_coherent nocase w dc \<longleftrightarrow> digest_ok nocase dc \<and>
     (\<forall>h s r. h \<noteq> 0 \<longrightarrow> digest_entry nocase dc h s = Some r \<longrightarrow> dcr_Timestamp r = fi_Timestamp (GetFileInfo w s) \<longrightarrow>
        (\<exists>content. w_content w s = Some content \<and> dcr_ContentDigest r = fast_digest (content_bytes content)))"

lemma file_loop_fed: "fed msg h \<Longrightarrow> \<exists>h'. file_loop h data = Some h' \<and> fed (msg @ data) h'"
proof (induction h data arbitrary: msg rule: file_loop.induct)
  case (1 h data)
  show ?case
  proof (cases "data = []")
    case True
    then show ?thesis using 1 by (simp add: file_loop.simps)
  next
    case False
    obtain h1 where h1: "HashUpdate HashBlock h (take 8192 data) = Some h1" "fed (msg @ take 8192 data) h1"
      using fast.upd_fed [OF "1.prems"] by blast
    obtain h' where "file_loop h1 (drop 8192 data) = Some h'" "fed ((msg @ take 8192 data) @ drop 8192 data) h'"
      using "1.IH" [OF False h1(1) h1(2)] by blast
    then show ?thesis using False h1(1) by (simp add: file_loop.simps [of h])
  qed
qed

lemma file_digest:
  assumes "length garbage = 64"
  shows "file_loop (HashInit HashInitImpl garbage) data \<bind> HashFinalize HashBlock HashFinalizeImpl = Some (fast_digest data)"
proof -
  obtain h where h: "file_loop (HashInit HashInitImpl garbage) data = Some h" "fed ([] @ data) h"
    using file_loop_fed [OF HashInit_consumed [OF assms]] by blast
  then show ?thesis using fast.finalize_fed [OF h(2)] by simp
qed

lemma digest_coherent_set:
  assumes "digest_coherent nocase w dc" "same_files nocase w" "hash \<noteq> 0" "w_content w filename = Some content"
  shows "\<exists>dc'. DigestCacheSet nocase dc filename hash timestamp (fast_digest (content_bytes content)) = Some dc' \<and>
    digest_coherent nocase w dc'"
proof -
  have ok: "digest_ok nocase dc" using assms(1) by (simp add: digest_coherent_def)
  obtain dc' where dc': "DigestCacheSet nocase dc filename hash timestamp (fast_digest (content_bytes content)) = Some dc'"
      "digest_ok nocase dc'" and entry: "\<And>h s. h \<noteq> 0 \<Longrightarrow> digest_entry nocase dc' h s =
        (if h = hash \<and> canon nocase s = canon nocase filename
         then Some \<lparr>dcr_ContentDigest = fast_digest (content_bytes content), dcr_Timestamp = timestamp, dcr_AccessTime = dc_AccessTime dc\<rparr>
         else digest_entry nocase dc h s)"
    using DigestCacheSet_ok [OF ok assms(3), of filename timestamp "fast_digest (content_bytes content)"] by blast
  have "\<exists>content. w_content w s = Some content \<and> dcr_ContentDigest r = fast_digest (content_bytes content)"
    if "h \<noteq> 0" "digest_entry nocase dc' h s = Some r" "dcr_Timestamp r = fi_Timestamp (GetFileInfo w s)" for h s r
  proof (cases "h = hash \<and> canon nocase s = canon nocase filename")
    case True
    then have "w_content w s = Some content" using assms(2,4) unfolding same_files_def by metis
    moreover have "dcr_ContentDigest r = fast_digest (content_bytes content)" using entry [OF that(1), of s] True that(2) by auto
    ultimately show ?thesis by blast
  next
    case False
    then have "digest_entry nocase dc h s = Some r" using entry [OF that(1), of s] that(2) by auto
    then show ?thesis using assms(1) that(1,3) unfolding digest_coherent_def by blast
  qed
  then show ?thesis using dc' unfolding digest_coherent_def by blast
qed

lemma digest_coherent_get:
  assumes "digest_coherent nocase w dc" "hash \<noteq> 0"
  shows "\<exists>r dc'. DigestCacheGet nocase dc filename hash (fi_Timestamp (GetFileInfo w filename)) = Some (r, dc') \<and>
    digest_coherent nocase w dc' \<and>
    (\<forall>d. r = Some d \<longrightarrow> (\<exists>content. w_content w filename = Some content \<and> d = fast_digest (content_bytes content)))"
proof -
  have ok: "digest_ok nocase dc" using assms(1) by (simp add: digest_coherent_def)
  let ?ts = "fi_Timestamp (GetFileInfo w filename)"
  let ?r = "case digest_entry nocase dc hash filename of
      Some r \<Rightarrow> if dcr_Timestamp r = ?ts then Some (dcr_ContentDigest r) else None | None \<Rightarrow> None"
  obtain dc' where dc': "DigestCacheGet nocase dc filename hash ?ts = Some (?r, dc')" "digest_ok nocase dc'"
      and same: "\<And>h s. h \<noteq> 0 \<Longrightarrow> map_option (\<lambda>r. (dcr_ContentDigest r, dcr_Timestamp r)) (digest_entry nocase dc' h s) =
        map_option (\<lambda>r. (dcr_ContentDigest r, dcr_Timestamp r)) (digest_entry nocase dc h s)"
    using DigestCacheGet_ok [OF ok assms(2), of filename ?ts] by blast
  have coh: "\<exists>content. w_content w s = Some content \<and> dcr_ContentDigest r = fast_digest (content_bytes content)"
    if "h \<noteq> 0" "digest_entry nocase dc h s = Some r" "dcr_Timestamp r = fi_Timestamp (GetFileInfo w s)" for h s r
    using assms(1) that unfolding digest_coherent_def by blast
  have "\<exists>content. w_content w s = Some content \<and> dcr_ContentDigest r = fast_digest (content_bytes content)"
    if h: "h \<noteq> 0" "digest_entry nocase dc' h s = Some r" "dcr_Timestamp r = fi_Timestamp (GetFileInfo w s)" for h s r
  proof -
    obtain r0 where "digest_entry nocase dc h s = Some r0" "dcr_ContentDigest r = dcr_ContentDigest r0" "dcr_Timestamp r = dcr_Timestamp r0"
      using same [OF h(1), of s] h(2) by (cases "digest_entry nocase dc h s") simp_all
    then show ?thesis using coh [OF h(1)] h(3) by metis
  qed
  then have "digest_coherent nocase w dc'" using dc'(2) unfolding digest_coherent_def by blast
  moreover have "\<exists>content. w_content w filename = Some content \<and> d = fast_digest (content_bytes content)" if "?r = Some d" for d
    using that coh [OF assms(2)] by (auto split: option.splits if_splits)
  ultimately show ?thesis using dc'(1) by blast
qed

lemma ComputeFileSignature_ok:
  assumes "stat_coherent w sc" "digest_coherent nocase w dc" "same_files nocase w" "hash \<noteq> 0" "length garbage = 64" "fed msg h"
  shows "\<exists>h' sc' dc'. ComputeFileSignature nocase w garbage h sc dc filename hash exts = Some (h', sc', dc') \<and>
    fed (msg @ file_signature w exts filename) h' \<and> stat_coherent w sc' \<and> digest_coherent nocase w dc'"
proof -
  let ?info = "GetFileInfo w filename"
  obtain sc' where sc': "StatCacheStat nocase w sc filename hash = Some (?info, sc')" "stat_coherent w sc'"
    using StatCacheStat_ok [OF assms(1,3,4)] by blast
  have upd: "\<exists>h'. HashUpdate HashBlock h data = Some h' \<and> fed (msg @ data) h'" for data
    by (rule fast.upd_fed [OF assms(6)])
  show ?thesis
  proof (cases "Exists ?info \<and> uses_digest exts filename")
    case False
    then show ?thesis
      using upd [of "be64 (NOT 0)"] upd [of "be64 (fi_Timestamp ?info)"] sc' assms(2)
      by (cases "uses_digest exts filename"; cases "Exists ?info")
        (auto simp: ComputeFileSignature_def ComputeFileSignatureSha1_def ComputeFileSignatureTimestamp_def
          file_signature_def HashAddInteger_be64 Let_def)
  next
    case True
    obtain r dc1 where get: "DigestCacheGet nocase dc filename hash (fi_Timestamp ?info) = Some (r, dc1)"
        "digest_coherent nocase w dc1"
        "\<forall>d. r = Some d \<longrightarrow> (\<exists>content. w_content w filename = Some content \<and> d = fast_digest (content_bytes content))"
      using digest_coherent_get [OF assms(2,4)] by blast
    show ?thesis
    proof (cases "w_content w filename")
      case None
      then show ?thesis
        using True sc' get upd [of "T2_Hash.bytes_of ''<missing>''"]
        by (cases r) (auto simp: ComputeFileSignature_def ComputeFileSignatureSha1_def file_signature_def Let_def HashAddString_def)
    next
      case (Some content)
      let ?d = "fast_digest (content_bytes content)"
      obtain dc2 where set: "DigestCacheSet nocase dc1 filename hash (fi_Timestamp ?info) ?d = Some dc2" "digest_coherent nocase w dc2"
        using digest_coherent_set [OF get(2) assms(3,4) Some] by blast
      obtain h0 where h0: "file_loop (HashInit HashInitImpl garbage) (content_bytes content) = Some h0"
          "HashFinalize HashBlock HashFinalizeImpl h0 = Some ?d"
        using file_digest [OF assms(5), of "content_bytes content"] by (auto simp: Option.bind_eq_Some_conv)
      show ?thesis
        using True sc' get Some set h0 upd [of "digest_bytes ?d"]
        by (cases r) (auto simp: ComputeFileSignature_def ComputeFileSignatureSha1_def file_signature_def Let_def)
    qed
  qed
qed

section \<open>Signatures of directories\<close>

text \<open>The contract of \<open>qsort\<close> with \<open>strcmp\<close>, which compares strings as sequences of unsigned characters.\<close>

definition sorts_by_strcmp :: "(string list \<Rightarrow> string list) \<Rightarrow> bool" where
  "sorts_by_strcmp qsort_paths \<longleftrightarrow> (\<forall>ps. mset (qsort_paths ps) = mset ps \<and> sorted (map (canon False) (qsort_paths ps)))"

definition path_line :: "bool \<Rightarrow> string \<Rightarrow> u8 list" where
  "path_line nocase p = canon nocase p @ [0]"

lemma canon_canon: "canon nocase s = map (if nocase then fold8 else id) (canon False s)"
  by (simp add: canon_def)

lemma hash_paths_fed: "fed msg h \<Longrightarrow> \<exists>h'. hash_paths nocase ps h = Some h' \<and> fed (msg @ concat (map (path_line nocase) ps)) h'"
proof (induction ps arbitrary: msg h)
  case (Cons p ps)
  obtain h1 where h1: "HashAddPath nocase HashBlock h p = Some h1" "fed (msg @ canon nocase p) h1"
    using HashAddPath_fast [OF Cons.prems] by blast
  obtain h2 where h2: "HashAddSeparator HashBlock h1 = Some h2" "fed ((msg @ canon nocase p) @ [0]) h2"
    using fast.upd_fed [OF h1(2), of "[0]"] by (auto simp: HashAddSeparator_def)
  then show ?case using Cons.IH [OF h2(2)] h1(1) by (simp add: path_line_def)
qed simp

lemma CalculateGlobSignatureFor_digest:
  assumes "length garbage = 64"
  shows "CalculateGlobSignatureFor nocase w qsort_paths garbage path =
    Some (fast_digest (concat (map (path_line nocase)
      (qsort_paths (glob_dirs (ListDirectory w path)) @ qsort_paths (glob_files (ListDirectory w path))))))"
proof -
  let ?dirs = "qsort_paths (glob_dirs (ListDirectory w path))" and ?files = "qsort_paths (glob_files (ListDirectory w path))"
  obtain h1 where h1: "hash_paths nocase ?dirs (HashInit HashInitImpl garbage) = Some h1"
      "fed ([] @ concat (map (path_line nocase) ?dirs)) h1"
    using hash_paths_fed [OF HashInit_consumed [OF assms]] by blast
  obtain h2 where "hash_paths nocase ?files h1 = Some h2"
      "fed (([] @ concat (map (path_line nocase) ?dirs)) @ concat (map (path_line nocase) ?files)) h2"
    using hash_paths_fed [OF h1(2)] by blast
  then show ?thesis using h1(1) fast.finalize_fed by (simp add: CalculateGlobSignatureFor_def Let_def)
qed

lemma sorted_paths_unique:
  assumes "sorts_by_strcmp qsort_paths" "mset xs = mset ys"
  shows "map (path_line nocase) (qsort_paths xs) = map (path_line nocase) (qsort_paths ys)"
proof -
  have "mset (map (canon False) (qsort_paths xs)) = mset (map (canon False) (qsort_paths ys))"
    using assms unfolding sorts_by_strcmp_def mset_map by metis
  then have "map (canon False) (qsort_paths xs) = map (canon False) (qsort_paths ys)"
    using assms(1) unfolding sorts_by_strcmp_def by (metis properties_for_sort)
  moreover have "path_line nocase = (\<lambda>bs. map (if nocase then fold8 else id) bs @ [0]) \<circ> canon False"
    by (rule ext) (simp add: path_line_def canon_canon [of nocase])
  ultimately show ?thesis by (metis map_map)
qed

lemma ListDirectory_loop_filter:
  "ListDirectory_loop w path names = map (\<lambda>d. (GetFileInfo w (path @ CHR ''/'' # d), d))
     (filter (\<lambda>d. \<not> ShouldFilter_len d (length d) \<and> length d + length path + 2 < 512) names)"
  by (induction names) (auto simp: Let_def)

text \<open>
  C36: The signature of a directory is a function of the set of its entries: two listings of the same
  entries in a different order give the same signature, so that the DAG is not regenerated.
\<close>

theorem glob_signature_order:
  assumes "sorts_by_strcmp qsort_paths" "length garbage = 64" "length garbage' = 64"
    and "w_dir w path = Some names" "mset names' = mset names"
  shows "CalculateGlobSignatureFor nocase (w\<lparr>w_dir := (w_dir w)(path \<mapsto> names')\<rparr>) qsort_paths garbage' path =
    CalculateGlobSignatureFor nocase w qsort_paths garbage path"
proof -
  let ?w = "w\<lparr>w_dir := (w_dir w)(path \<mapsto> names')\<rparr>"
  have info: "GetFileInfo ?w = GetFileInfo w" by (rule ext) (simp add: GetFileInfo_def)
  have perm: "mset (ListDirectory ?w path) = mset (ListDirectory w path)"
    using assms(4,5) by (simp add: ListDirectory_def ListDirectory_loop_filter info)
  have dirs: "mset (glob_dirs (ListDirectory ?w path)) = mset (glob_dirs (ListDirectory w path))"
    and files: "mset (glob_files (ListDirectory ?w path)) = mset (glob_files (ListDirectory w path))"
    unfolding glob_dirs_def glob_files_def mset_map mset_filter perm by simp_all
  show ?thesis
    unfolding CalculateGlobSignatureFor_digest [OF assms(2)] CalculateGlobSignatureFor_digest [OF assms(3)] map_append
      sorted_paths_unique [OF assms(1) dirs] sorted_paths_unique [OF assms(1) files] ..
qed

definition ex_world :: world where
  "ex_world = \<lparr>w_stat = (\<lambda>p. StatOk 0x8000 1 1), w_content = Map.empty, w_dir = [''src'' \<mapsto> [''a.c'', ''b.c'']]\<rparr>"

theorem glob_signature_order_witness:
  "CalculateGlobSignatureFor False (ex_world\<lparr>w_dir := (w_dir ex_world)(''src'' \<mapsto> [''b.c'', ''a.c''])\<rparr>)
      (sort_key (canon False)) (replicate 64 7) ''src'' =
    CalculateGlobSignatureFor False ex_world (sort_key (canon False)) (replicate 64 0) ''src''"
proof (rule glob_signature_order)
  show "sorts_by_strcmp (sort_key (canon False))" by (simp add: sorts_by_strcmp_def)
  show "w_dir ex_world ''src'' = Some [''a.c'', ''b.c'']" by (simp add: ex_world_def)
  show "mset [''b.c'', ''a.c''] = mset [''a.c'', ''b.c'']" by (simp only: mset.simps) (rule add_mset_commute)
qed simp_all

end
