(* ===== verification/T2_ScanCache.thy ===== *)
theory T2_ScanCache
  imports T2_SaveState
begin

text \<open>
  Model of the tables of \<open>src/ScanCache.cpp\<close>, \<open>src/ScanCache.hpp\<close> and \<open>src/ScanData.hpp\<close>: the
  files that a file includes, from the frozen cache file of earlier builds and from a chained hash
  table of this build, each valid for one time stamp. A chain is the list of its records from the
  head. A pointer to a record stays valid when the table grows; records are identified by their
  key, which no two records share. Writing the cache file is in \<open>T2_ScanFile\<close>.
\<close>

section \<open>Definitions\<close>

record ScanRecord =
  sr_Key :: digest
  sr_FileTimestamp :: u64
  sr_Includes :: "file_and_hash list"

record ScanCacheEntry =
  se_FileTimestamp :: u64
  se_IncludedFiles :: "file_and_hash list"

record ScanData =
  sn_Keys :: "digest list"
  sn_Data :: "ScanCacheEntry list"
  sn_AccessTimes :: "u64 list"

record ScanCache =
  cs_FrozenData :: "ScanData option"
  cs_RecordCount :: nat
  cs_Table :: "ScanRecord list list"
  cs_FrozenAccess :: "bool list"

definition ComputeScanCacheKey :: "bool \<Rightarrow> string \<Rightarrow> digest \<Rightarrow> digest" where
  "ComputeScanCacheKey nocase filename scanner_hash =
     (fst scanner_hash XOR Djb2HashPath64 nocase filename, snd scanner_hash)"

definition ScanCacheInit :: ScanCache where
  "ScanCacheInit = \<lparr>cs_FrozenData = None, cs_RecordCount = 0, cs_Table = [], cs_FrozenAccess = []\<rparr>"

text \<open>The check of a checked build that the keys are sorted is a fault.\<close>

definition ScanCacheSetCache :: "ScanCache \<Rightarrow> ScanData option \<Rightarrow> ScanCache result" where
  "ScanCacheSetCache self frozen_data =
     (case frozen_data of
        None \<Rightarrow> Inr (self\<lparr>cs_FrozenData := None\<rparr>)
      | Some d \<Rightarrow>
          if list_ex (\<lambda>i. sn_Keys d ! i < sn_Keys d ! (i - 1)) [1..<length (sn_Keys d)]
          then Inl (Croak ''Header scanning cache is not sorted'')
          else Inr (self\<lparr>cs_FrozenData := Some d, cs_FrozenAccess := replicate (length (sn_Keys d)) False\<rparr>))"

definition key_index :: "digest \<Rightarrow> nat \<Rightarrow> nat" where
  "key_index key table_size = unat (ucast (fst key) :: u32) AND (table_size - 1)"

definition LookupDynamic :: "ScanCache \<Rightarrow> digest \<Rightarrow> ScanRecord option" where
  "LookupDynamic self key =
     (let table_size = length (cs_Table self)
      in if table_size > 0 then find (\<lambda>r. sr_Key r = key) (cs_Table self ! key_index key table_size) else None)"

definition lookup_frozen :: "ScanCache \<Rightarrow> digest \<Rightarrow> u64 \<Rightarrow> (nat \<times> file_and_hash list) option" where
  "lookup_frozen self key timestamp =
     (case cs_FrozenData self of
        None \<Rightarrow> None
      | Some scan_data \<Rightarrow>
          (case BinarySearch (sn_Keys scan_data) (int (length (sn_Keys scan_data))) key of
             None \<Rightarrow> None
           | Some index \<Rightarrow>
               if se_FileTimestamp (sn_Data scan_data ! index) = timestamp
               then Some (index, se_IncludedFiles (sn_Data scan_data ! index)) else None))"

definition ScanCacheLookup :: "ScanCache \<Rightarrow> digest \<Rightarrow> u64 \<Rightarrow> file_and_hash list option \<times> ScanCache" where
  "ScanCacheLookup self key timestamp =
     (case lookup_frozen self key timestamp of
        Some (index, files) \<Rightarrow> (Some files, self\<lparr>cs_FrozenAccess := (cs_FrozenAccess self)[index := True]\<rparr>)
      | None \<Rightarrow>
          (case LookupDynamic self key of
             None \<Rightarrow> (None, self)
           | Some r \<Rightarrow> (if sr_FileTimestamp r = timestamp then Some (sr_Includes r) else None, self)))"

text \<open>Moving the records of a chain, from its head, to the heads of the new chains.\<close>

fun move_chain :: "ScanRecord list \<Rightarrow> ScanRecord list list \<Rightarrow> ScanRecord list list" where
  "move_chain [] new_table = new_table"
| "move_chain (r # rs) new_table =
     (let index = key_index (sr_Key r) (length new_table)
      in move_chain rs (new_table[index := r # new_table ! index]))"

definition ScanCachePrepareInsert :: "ScanCache \<Rightarrow> ScanCache" where
  "ScanCachePrepareInsert self =
     (let old_size = length (cs_Table self)
      in if old_size > 0 \<and> (0x100 * cs_RecordCount self) mod 2 ^ 32 div old_size < 0xc0 then self
         else let new_size = unat (NextPowerOfTwo (of_nat (old_size + 1)));
                  new_size = (if new_size < 64 then 64 else new_size)
              in self\<lparr>cs_Table := fold move_chain (cs_Table self) (replicate new_size [])\<rparr>)"

text \<open>Writing the fields of the record with the given key.\<close>

definition set_record :: "ScanRecord \<Rightarrow> ScanRecord list \<Rightarrow> ScanRecord list" where
  "set_record r chain = map (\<lambda>r'. if sr_Key r' = sr_Key r then r else r') chain"

definition ScanCacheInsert :: "bool \<Rightarrow> ScanCache \<Rightarrow> digest \<Rightarrow> u64 \<Rightarrow> string list \<Rightarrow> ScanCache" where
  "ScanCacheInsert nocase self key timestamp included_files =
     (let record = LookupDynamic self key
      in if record = None \<or> sr_FileTimestamp (the record) \<noteq> timestamp then
           (let self = ScanCachePrepareInsert self;
                index = key_index key (length (cs_Table self));
                r = \<lparr>sr_Key = key, sr_FileTimestamp = timestamp,
                     sr_Includes = map (\<lambda>f. (f, Djb2HashPath nocase f)) included_files\<rparr>
            in if record = None
               then self\<lparr>cs_Table := (cs_Table self)[index := r # cs_Table self ! index],
                         cs_RecordCount := cs_RecordCount self + 1\<rparr>
               else self\<lparr>cs_Table := (cs_Table self)[index := set_record r (cs_Table self ! index)]\<rparr>)
         else self)"

definition ScanCacheDirty :: "ScanCache \<Rightarrow> bool" where
  "ScanCacheDirty self \<longleftrightarrow> cs_RecordCount self > 0"

section \<open>The table as a map\<close>

text \<open>Every record is in the chain of its key, and no key occurs twice.\<close>

definition chains_ok :: "ScanRecord list list \<Rightarrow> bool" where
  "chains_ok table \<longleftrightarrow> (\<forall>i < length table. \<forall>r \<in> set (table ! i). key_index (sr_Key r) (length table) = i) \<and>
     distinct (map sr_Key (concat table))"

definition scan_ok :: "ScanCache \<Rightarrow> bool" where
  "scan_ok self \<longleftrightarrow> chains_ok (cs_Table self) \<and> cs_RecordCount self = length (concat (cs_Table self))"

lemma key_index_less [simp]: "0 < n \<Longrightarrow> key_index key n < n"
proof -
  assume n: "0 < n"
  have "unat (ucast (fst key) :: u32) AND (n - 1) \<le> n - 1"
    by (metis and.commute and_nat_def nat_int nat_le_iff AND_upper1 of_nat_0_le_iff)
  then show ?thesis using n by (simp add: key_index_def)
qed

lemma LookupDynamic_iff:
  assumes "chains_ok (cs_Table self)"
  shows "LookupDynamic self key = Some r \<longleftrightarrow> r \<in> set (concat (cs_Table self)) \<and> sr_Key r = key"
proof -
  let ?t = "cs_Table self"
  let ?chain = "?t ! key_index key (length ?t)"
  have inj: "r = r'" if "r \<in> set (concat ?t)" "r' \<in> set (concat ?t)" "sr_Key r = sr_Key r'" for r r'
    using assms that unfolding chains_ok_def distinct_map by (meson inj_onD)
  show ?thesis
  proof
    assume l: "LookupDynamic self key = Some r"
    then have t: "0 < length ?t" "find (\<lambda>r. sr_Key r = key) ?chain = Some r"
      by (simp_all add: LookupDynamic_def Let_def split: if_splits)
    then have "r \<in> set ?chain" "sr_Key r = key" by (auto simp: find_Some_iff)
    moreover have "?chain \<in> set ?t" using t(1) by simp
    ultimately show "r \<in> set (concat ?t) \<and> sr_Key r = key" by auto
  next
    assume r: "r \<in> set (concat ?t) \<and> sr_Key r = key"
    then obtain i where i: "i < length ?t" "r \<in> set (?t ! i)"
      unfolding set_concat by (metis UN_E in_set_conv_nth)
    then have "key_index key (length ?t) = i" using assms r unfolding chains_ok_def by blast
    then have "find (\<lambda>r. sr_Key r = key) ?chain \<noteq> None" using i r by (auto simp: find_None_iff)
    then obtain r' where r': "find (\<lambda>r. sr_Key r = key) ?chain = Some r'" by blast
    then have "r' \<in> set ?chain" "sr_Key r' = key" by (auto simp: find_Some_iff)
    moreover have "?chain \<in> set ?t" using i(1) by (intro nth_mem key_index_less) linarith
    ultimately have "r' = r" using inj [of r' r] r by auto
    then show "LookupDynamic self key = Some r" using r' i(1) by (cases ?t) (auto simp: LookupDynamic_def)
  qed
qed

lemma LookupDynamic_cong:
  assumes "chains_ok (cs_Table a)" "chains_ok (cs_Table b)" "set (concat (cs_Table a)) = set (concat (cs_Table b))"
  shows "LookupDynamic a key = LookupDynamic b key"
  using LookupDynamic_iff [OF assms(1), of key] LookupDynamic_iff [OF assms(2), of key] assms(3)
  by (metis option.exhaust)

lemma concat_push:
  assumes "i < length t" shows "mset (concat (t[i := r # t ! i])) = add_mset r (mset (concat t))"
proof -
  have "mset (concat t) = mset (concat (take i t)) + mset (t ! i) + mset (concat (drop (Suc i) t))"
    using arg_cong [OF id_take_nth_drop [OF assms], of "\<lambda>t. mset (concat t)"] by simp
  then show ?thesis unfolding upd_conv_take_nth_drop [OF assms] by simp
qed

lemma chains_ok_push:
  assumes "chains_ok t" "0 < length t" "sr_Key r \<notin> sr_Key ` set (concat t)"
  defines "t' \<equiv> t[key_index (sr_Key r) (length t) := r # t ! key_index (sr_Key r) (length t)]"
  shows "chains_ok t'" "mset (concat t') = add_mset r (mset (concat t))" "length t' = length t"
proof -
  show m: "mset (concat t') = add_mset r (mset (concat t))" unfolding t'_def by (rule concat_push [OF key_index_less [OF assms(2)]])
  show len: "length t' = length t" by (simp add: t'_def)
  have "distinct (map sr_Key (r # concat t))" using assms(1,3) by (simp add: chains_ok_def)
  moreover have "mset (map sr_Key (concat t')) = mset (map sr_Key (r # concat t))" unfolding mset_map m by simp
  ultimately have "distinct (map sr_Key (concat t'))" by (metis mset_eq_imp_distinct_iff)
  moreover have "key_index (sr_Key r') (length t') = i" if "i < length t'" "r' \<in> set (t' ! i)" for i r'
    using that assms(1) unfolding len
    by (cases "i = key_index (sr_Key r) (length t)") (auto simp: t'_def chains_ok_def)
  ultimately show "chains_ok t'" unfolding chains_ok_def by blast
qed

lemma move_chain_ok:
  assumes "chains_ok t" "0 < length t" "distinct (map sr_Key (concat t @ rs))"
  shows "chains_ok (move_chain rs t) \<and> mset (concat (move_chain rs t)) = mset (concat t @ rs) \<and>
    length (move_chain rs t) = length t"
  using assms
proof (induction rs arbitrary: t)
  case (Cons r rs)
  have "sr_Key r \<notin> sr_Key ` set (concat t)" using Cons.prems(3) by auto
  note push = chains_ok_push [OF Cons.prems(1,2) this]
  let ?t = "t[key_index (sr_Key r) (length t) := r # t ! key_index (sr_Key r) (length t)]"
  have m: "mset (concat ?t @ rs) = mset (concat t @ r # rs)" using push(2) by simp
  have "mset (map sr_Key (concat ?t @ rs)) = mset (map sr_Key (concat t @ r # rs))" unfolding mset_map m ..
  then have "distinct (map sr_Key (concat ?t @ rs))" using Cons.prems(3) by (metis mset_eq_imp_distinct_iff)
  from Cons.IH [OF push(1) _ this] show ?case using Cons.prems(2) push(3) m by (simp add: Let_def)
qed simp

lemma fold_move_ok:
  assumes "chains_ok t" "0 < length t" "distinct (map sr_Key (concat t @ concat old))"
  shows "chains_ok (fold move_chain old t) \<and> mset (concat (fold move_chain old t)) = mset (concat t @ concat old) \<and>
    length (fold move_chain old t) = length t"
  using assms
proof (induction old arbitrary: t)
  case (Cons rs old)
  have "map sr_Key (concat t @ concat (rs # old)) = map sr_Key (concat t @ rs) @ map sr_Key (concat old)" by simp
  then have d: "distinct (map sr_Key (concat t @ rs))" using Cons.prems(3) by (metis distinct_append)
  note move = move_chain_ok [OF Cons.prems(1,2) d]
  have m: "mset (concat (move_chain rs t) @ concat old) = mset (concat t @ concat (rs # old))" using move by simp
  have "mset (map sr_Key (concat (move_chain rs t) @ concat old)) = mset (map sr_Key (concat t @ concat (rs # old)))"
    unfolding mset_map m ..
  then have "distinct (map sr_Key (concat (move_chain rs t) @ concat old))" using Cons.prems(3) by (metis mset_eq_imp_distinct_iff)
  from Cons.IH [OF _ _ this] show ?case using Cons.prems(2) move m by simp
qed simp

text \<open>Growing keeps every record; afterwards the table is not empty.\<close>

lemma ScanCachePrepareInsert_ok:
  assumes "scan_ok self"
  shows "scan_ok (ScanCachePrepareInsert self)" "0 < length (cs_Table (ScanCachePrepareInsert self))"
    "set (concat (cs_Table (ScanCachePrepareInsert self))) = set (concat (cs_Table self))"
    "cs_FrozenData (ScanCachePrepareInsert self) = cs_FrozenData self"
    "cs_FrozenAccess (ScanCachePrepareInsert self) = cs_FrozenAccess self"
    "cs_RecordCount (ScanCachePrepareInsert self) = cs_RecordCount self"
proof -
  define n where "n = unat (NextPowerOfTwo (of_nat (length (cs_Table self) + 1)))"
  define n' where "n' = (if n < 64 then 64 else n)"
  let ?empty = "replicate n' [] :: ScanRecord list list"
  have n': "0 < n'" by (simp add: n'_def)
  have empty: "chains_ok ?empty" "concat ?empty = []" by (simp_all add: chains_ok_def)
  have grow: "chains_ok (fold move_chain (cs_Table self) ?empty)"
      "mset (concat (fold move_chain (cs_Table self) ?empty)) = mset (concat (cs_Table self))"
      "length (fold move_chain (cs_Table self) ?empty) = n'"
    using fold_move_ok [OF empty(1), of "cs_Table self"] assms n' unfolding empty(2) by (simp_all add: scan_ok_def chains_ok_def [of "cs_Table self"])
  have prep: "ScanCachePrepareInsert self = (if length (cs_Table self) > 0 \<and>
      (0x100 * cs_RecordCount self) mod 2 ^ 32 div length (cs_Table self) < 0xc0 then self
      else self\<lparr>cs_Table := fold move_chain (cs_Table self) ?empty\<rparr>)"
    by (simp add: ScanCachePrepareInsert_def Let_def n'_def n_def)
  show "scan_ok (ScanCachePrepareInsert self)" "0 < length (cs_Table (ScanCachePrepareInsert self))"
    "set (concat (cs_Table (ScanCachePrepareInsert self))) = set (concat (cs_Table self))"
    "cs_FrozenData (ScanCachePrepareInsert self) = cs_FrozenData self"
    "cs_FrozenAccess (ScanCachePrepareInsert self) = cs_FrozenAccess self"
    "cs_RecordCount (ScanCachePrepareInsert self) = cs_RecordCount self"
    unfolding prep using assms grow n' mset_eq_setD [OF grow(2)] mset_eq_length [OF grow(2)]
    by (auto simp add: scan_ok_def simp flip: length_greater_0_conv)
qed

lemma set_record_keys: "map sr_Key (set_record r chain) = map sr_Key chain"
  by (simp add: set_record_def)

lemma set_record_absent: "sr_Key r \<notin> sr_Key ` set chain \<Longrightarrow> set_record r chain = chain"
  unfolding set_record_def by (rule map_idI) (metis image_eqI)

lemma set_record_table:
  fixes r :: ScanRecord
  assumes "chains_ok t" "0 < length t"
  defines "i \<equiv> key_index (sr_Key r) (length t)"
  shows "t[i := set_record r (t ! i)] = map (set_record r) t"
proof (rule nth_equalityI)
  fix j assume "j < length (t[i := set_record r (t ! i)])"
  then have j: "j < length t" by simp
  show "t[i := set_record r (t ! i)] ! j = map (set_record r) t ! j"
  proof (cases "j = i")
    case False
    have "sr_Key r \<notin> sr_Key ` set (t ! j)"
    proof
      assume "sr_Key r \<in> sr_Key ` set (t ! j)"
      then obtain r' where r': "r' \<in> set (t ! j)" "sr_Key r' = sr_Key r" by auto
      then have "key_index (sr_Key r') (length t) = j" using assms(1) j unfolding chains_ok_def by blast
      then show False using False r'(2) by (simp add: i_def)
    qed
    then show ?thesis using j False by (simp add: set_record_absent)
  qed (use j in simp)
qed simp

lemma set_record_ok:
  assumes "chains_ok t"
  shows "chains_ok (map (set_record r) t)" "concat (map (set_record r) t) = set_record r (concat t)"
proof -
  show c: "concat (map (set_record r) t) = set_record r (concat t)"
    by (induction t) (simp_all add: set_record_def)
  have "key_index (sr_Key r') (length t) = i" if "i < length t" "r' \<in> set (set_record r (t ! i))" for i r'
  proof -
    have "sr_Key r' \<in> set (map sr_Key (set_record r (t ! i)))" using that(2) by simp
    then obtain r0 where "r0 \<in> set (t ! i)" "sr_Key r0 = sr_Key r'" unfolding set_record_keys by auto
    then show ?thesis using assms that(1) unfolding chains_ok_def by metis
  qed
  then show "chains_ok (map (set_record r) t)"
    using assms unfolding chains_ok_def c set_record_keys by simp
qed

text \<open>The record of a key after an insertion; a record with the same time stamp stays.\<close>

definition new_record :: "bool \<Rightarrow> digest \<Rightarrow> u64 \<Rightarrow> string list \<Rightarrow> ScanRecord" where
  "new_record nocase key timestamp included_files = \<lparr>sr_Key = key, sr_FileTimestamp = timestamp,
     sr_Includes = map (\<lambda>f. (f, Djb2HashPath nocase f)) included_files\<rparr>"

lemma ScanCacheInsert_ok:
  fixes key :: digest and timestamp :: u64 and files :: "string list" and nocase :: bool
  assumes "scan_ok self"
  defines "self' \<equiv> ScanCacheInsert nocase self key timestamp files"
  shows "scan_ok self' \<and> cs_FrozenData self' = cs_FrozenData self \<and>
    (\<forall>k. LookupDynamic self' k =
      (if k = key \<and> \<not> (\<exists>r. LookupDynamic self key = Some r \<and> sr_FileTimestamp r = timestamp)
       then Some (new_record nocase key timestamp files) else LookupDynamic self k))"
proof (cases "\<exists>r. LookupDynamic self key = Some r \<and> sr_FileTimestamp r = timestamp")
  case True
  then have "self' = self" by (auto simp: self'_def ScanCacheInsert_def)
  then show ?thesis using assms(1) True by auto
next
  case False
  let ?r = "new_record nocase key timestamp files" and ?s = "ScanCachePrepareInsert self"
  note prep = ScanCachePrepareInsert_ok [OF assms(1)]
  have ok: "chains_ok (cs_Table self)" "chains_ok (cs_Table ?s)" using assms(1) prep(1) by (simp_all add: scan_ok_def)
  let ?i = "key_index key (length (cs_Table ?s))"
  have key: "sr_Key ?r = key" by (simp add: new_record_def)
  show ?thesis
  proof (cases "LookupDynamic self key")
    case None
    have absent: "sr_Key ?r \<notin> sr_Key ` set (concat (cs_Table ?s))"
      using LookupDynamic_iff [OF ok(1), of key] None unfolding prep(3) key by (metis imageE option.distinct(1))
    note push = chains_ok_push [OF ok(2) prep(2) absent, unfolded key]
    have self': "self' = ?s\<lparr>cs_Table := (cs_Table ?s)[?i := ?r # cs_Table ?s ! ?i], cs_RecordCount := cs_RecordCount ?s + 1\<rparr>"
      using None by (simp add: self'_def ScanCacheInsert_def Let_def new_record_def)
    have sets: "set (concat (cs_Table self')) = insert ?r (set (concat (cs_Table self)))"
      using arg_cong [OF push(2), of set_mset] prep(3) by (simp add: self')
    have "length (concat ((cs_Table ?s)[?i := ?r # cs_Table ?s ! ?i])) = Suc (length (concat (cs_Table ?s)))"
      using arg_cong [OF push(2), of size] by simp
    then have ok': "scan_ok self'" using push(1) prep(1) by (simp add: scan_ok_def self')
    then have chains': "chains_ok (cs_Table self')" by (simp add: scan_ok_def)
    have "LookupDynamic self' k = Some x \<longleftrightarrow> (if k = key then Some ?r else LookupDynamic self k) = Some x" for k x
    proof (cases "k = key")
      case True
      have "x \<notin> set (concat (cs_Table self))" if "sr_Key x = key" for x
        using absent that prep(3) key by (metis image_eqI)
      then show ?thesis using True key unfolding LookupDynamic_iff [OF chains'] sets by auto
    next
      case False
      then show ?thesis using key unfolding LookupDynamic_iff [OF chains'] sets by (auto simp: LookupDynamic_iff [OF ok(1)])
    qed
    then have "LookupDynamic self' k = (if k = key then Some ?r else LookupDynamic self k)" for k
      by (metis option.exhaust)
    then show ?thesis using ok' prep(4) False by (simp add: self')
  next
    case (Some r0)
    have ts: "sr_FileTimestamp r0 \<noteq> timestamp" using False Some by blast
    have r0: "r0 \<in> set (concat (cs_Table self))" "sr_Key r0 = key" using LookupDynamic_iff [OF ok(1)] Some by blast+
    have self': "self' = ?s\<lparr>cs_Table := map (set_record ?r) (cs_Table ?s)\<rparr>"
      using Some ts set_record_table [OF ok(2) prep(2), of ?r] key
      by (simp add: self'_def ScanCacheInsert_def Let_def flip: new_record_def)
    note rec = set_record_ok [OF ok(2), of ?r]
    have ok': "scan_ok self'"
      using rec prep(1) by (simp add: scan_ok_def self' set_record_def)
    then have chains': "chains_ok (cs_Table self')" by (simp add: scan_ok_def)
    have sets: "x \<in> set (concat (cs_Table self')) \<longleftrightarrow> x = ?r \<or> x \<in> set (concat (cs_Table self)) \<and> sr_Key x \<noteq> key" for x
      using r0 rec(2) prep(3) key by (auto simp: self' set_record_def image_iff)
    have "LookupDynamic self' k = Some x \<longleftrightarrow> (if k = key then Some ?r else LookupDynamic self k) = Some x" for k x
      using key unfolding LookupDynamic_iff [OF chains'] sets by (auto simp: LookupDynamic_iff [OF ok(1)])
    then have "LookupDynamic self' k = (if k = key then Some ?r else LookupDynamic self k)" for k
      by (metis option.exhaust)
    then show ?thesis using ok' prep(4) False by (simp add: self')
  qed
qed

text \<open>What a lookup returns, and that it changes nothing but the access marks.\<close>

definition scan_get :: "ScanCache \<Rightarrow> digest \<Rightarrow> u64 \<Rightarrow> file_and_hash list option" where
  "scan_get self key timestamp = fst (ScanCacheLookup self key timestamp)"

lemma ScanCacheLookup_ok:
  assumes "scan_ok self"
  shows "scan_ok (snd (ScanCacheLookup self key timestamp))"
    "scan_get (snd (ScanCacheLookup self key timestamp)) k ts = scan_get self k ts"
  using assms
  by (auto simp: ScanCacheLookup_def scan_get_def scan_ok_def lookup_frozen_def LookupDynamic_def Let_def split: option.splits)

lemma ScanCacheInsert_get:
  assumes "scan_ok self"
  shows "scan_ok (ScanCacheInsert nocase self key timestamp files)"
    "scan_get (ScanCacheInsert nocase self key timestamp files) k ts =
      (if k = key \<and> scan_get self k ts = None \<and> ts = timestamp then Some (map (\<lambda>f. (f, Djb2HashPath nocase f)) files)
       else if k = key \<and> lookup_frozen self k ts = None \<and> ts \<noteq> timestamp \<and>
          \<not> (\<exists>r. LookupDynamic self key = Some r \<and> sr_FileTimestamp r = timestamp) then None
       else scan_get self k ts)"
proof -
  note ins = ScanCacheInsert_ok [OF assms, of nocase key timestamp files]
  then show "scan_ok (ScanCacheInsert nocase self key timestamp files)" by blast
  have frozen: "lookup_frozen (ScanCacheInsert nocase self key timestamp files) k ts = lookup_frozen self k ts"
    using ins by (simp add: lookup_frozen_def)
  have dyn: "LookupDynamic (ScanCacheInsert nocase self key timestamp files) k =
      (if k = key \<and> \<not> (\<exists>r. LookupDynamic self key = Some r \<and> sr_FileTimestamp r = timestamp)
       then Some (new_record nocase key timestamp files) else LookupDynamic self k)"
    using ins by blast
  show "scan_get (ScanCacheInsert nocase self key timestamp files) k ts =
      (if k = key \<and> scan_get self k ts = None \<and> ts = timestamp then Some (map (\<lambda>f. (f, Djb2HashPath nocase f)) files)
       else if k = key \<and> lookup_frozen self k ts = None \<and> ts \<noteq> timestamp \<and>
          \<not> (\<exists>r. LookupDynamic self key = Some r \<and> sr_FileTimestamp r = timestamp) then None
       else scan_get self k ts)"
    unfolding scan_get_def ScanCacheLookup_def frozen dyn
    by (auto simp: new_record_def split: option.splits)
qed

end
