(* ===== verification/T2_Scanner.thy ===== *)
theory T2_Scanner
  imports T2_PathSet T2_FileInfo T2_ScanCache T2_IncludeScanner
begin

text \<open>
  Model of \<open>src/Scanner.cpp\<close>: the files that a file includes, directly or through other files.
  Files are scanned with the include scanner, names are resolved against the directory of the
  including file and the include paths, and results are kept in the scan cache. The loop over the
  work stack is a partial function, since nothing bounds the files of an arbitrary file system.
\<close>

section \<open>Definitions\<close>

text \<open>\<open>None\<close> where a loop does not end, otherwise a fault or a value.\<close>

type_synonym 'a outcome = "'a result option"

definition attempt :: "'a result \<Rightarrow> ('a \<Rightarrow> 'b outcome) \<Rightarrow> 'b outcome" where
  "attempt r f = (case r of Inl e \<Rightarrow> Some (Inl e) | Inr x \<Rightarrow> f x)"

definition and_then :: "'a outcome \<Rightarrow> ('a \<Rightarrow> 'b outcome) \<Rightarrow> 'b outcome" where
  "and_then m f = (case m of None \<Rightarrow> None | Some r \<Rightarrow> attempt r f)"

definition IncludeSetAddNoDuplicateString ::
  "bool \<Rightarrow> hash_table_base \<Rightarrow> string \<Rightarrow> u32 \<Rightarrow> (bool \<times> hash_table_base) option" where
  "IncludeSetAddNoDuplicateString nocase self str hash =
     (case HashSetLookup nocase self hash str of
        None \<Rightarrow> None
      | Some found \<Rightarrow> if found then Some (False, self) else map_option (Pair True) (HashSetInsert self hash str))"

text \<open>The same with a copy of the string in the linear allocator.\<close>

definition IncludeSetAddDuplicateString ::
  "bool \<Rightarrow> hash_table_base \<Rightarrow> string \<Rightarrow> u32 \<Rightarrow> (bool \<times> hash_table_base) option" where
  "IncludeSetAddDuplicateString nocase self str hash =
     (case HashSetLookup nocase self hash str of
        None \<Rightarrow> None
      | Some found \<Rightarrow> if found then Some (False, self) else map_option (Pair True) (HashSetInsert self hash str))"

text \<open>\<open>PathConcat\<close> and \<open>PathFormat\<close>: the path that is tried.\<close>

definition tried_path :: "PathBuffer \<Rightarrow> PathBuffer \<Rightarrow> string result" where
  "tried_path buffer include_buf =
     (case PathConcat buffer include_buf of Inl e \<Rightarrow> Inl e | Inr b \<Rightarrow> PathFormat b)"

fun FindFile_loop ::
  "platform \<Rightarrow> world \<Rightarrow> StatCache \<Rightarrow> PathBuffer \<Rightarrow> string list \<Rightarrow> (string option \<times> StatCache) outcome" where
  "FindFile_loop pl w stat_cache include_buf [] = Some (Inr (None, stat_cache))"
| "FindFile_loop pl w stat_cache include_buf (include_path # include_paths) =
     attempt (PathInit (pl_uninit pl) include_path (pl_native pl)) (\<lambda>buffer.
     attempt (tried_path buffer include_buf) (\<lambda>path_buf.
       case StatCacheStat_path (pl_nocase pl) w stat_cache path_buf of
         None \<Rightarrow> None
       | Some (info, stat_cache) \<Rightarrow>
           if Exists info then Some (Inr (Some path_buf, stat_cache))
           else FindFile_loop pl w stat_cache include_buf include_paths))"

definition FindFile ::
  "platform \<Rightarrow> world \<Rightarrow> StatCache \<Rightarrow> string \<Rightarrow> ScannerData \<Rightarrow> IncludeData \<Rightarrow> (string option \<times> StatCache) outcome" where
  "FindFile pl w stat_cache filename scanner_config inc =
     attempt (PathInit (pl_uninit pl) filename (pl_native pl)) (\<lambda>filename_buf.
     attempt (PathInit (pl_uninit pl) (inc_String inc) (pl_native pl)) (\<lambda>include_buf.
       if \<not> inc_IsSystemInclude inc then
         attempt (tried_path (fst (PathStripLast filename_buf)) include_buf) (\<lambda>path_buf.
           case StatCacheStat_path (pl_nocase pl) w stat_cache path_buf of
             None \<Rightarrow> None
           | Some (info, stat_cache) \<Rightarrow>
               if Exists info then Some (Inr (Some path_buf, stat_cache))
               else FindFile_loop pl w stat_cache include_buf (sc_IncludePaths scanner_config))
       else FindFile_loop pl w stat_cache include_buf (sc_IncludePaths scanner_config)))"

fun ScanFile_loop ::
  "platform \<Rightarrow> world \<Rightarrow> StatCache \<Rightarrow> string \<Rightarrow> ScannerData \<Rightarrow> IncludeData list \<Rightarrow> string list
     \<Rightarrow> (string list \<times> StatCache) outcome" where
  "ScanFile_loop pl w stat_cache filename scanner_config [] found_includes = Some (Inr (found_includes, stat_cache))"
| "ScanFile_loop pl w stat_cache filename scanner_config (inc # incs) found_includes =
     and_then (FindFile pl w stat_cache filename scanner_config inc) (\<lambda>(found, stat_cache).
       ScanFile_loop pl w stat_cache filename scanner_config incs
         (case found of None \<Rightarrow> found_includes | Some path_buf \<Rightarrow> found_includes @ [path_buf]))"

definition scan_includes :: "ScannerData \<Rightarrow> string \<Rightarrow> IncludeData list" where
  "scan_includes scanner_config file_data =
     (case sc_ScannerType scanner_config of
        kGeneric \<Rightarrow> ScanIncludesGeneric file_data scanner_config
      | kCpp \<Rightarrow> ScanIncludesCpp file_data)"

definition ScanFile ::
  "platform \<Rightarrow> world \<Rightarrow> StatCache \<Rightarrow> string \<Rightarrow> string \<Rightarrow> ScannerData \<Rightarrow> (string list \<times> StatCache) outcome" where
  "ScanFile pl w stat_cache filename file_data scanner_config =
     ScanFile_loop pl w stat_cache filename scanner_config (scan_includes scanner_config file_data) []"

text \<open>The buffer from \<open>scan_start\<close>: a newline at the end, without the UTF-8 marker at the start.\<close>

definition scan_start :: "string \<Rightarrow> string" where
  "scan_start content =
     (if length content \<ge> 3 \<and> take 3 content = [CHR 0xEF, CHR 0xBB, CHR 0xBF] then drop 3 content else content) @ [CHR 0x0A]"

record scan_state =
  ss_filename_stack :: "string list"
  ss_incset :: hash_table_base
  ss_stat_cache :: StatCache
  ss_scan_cache :: ScanCache

text \<open>New files are added to the set and pushed; both loops of the function do this.\<close>

type_synonym add_fn = "hash_table_base \<Rightarrow> string \<Rightarrow> u32 \<Rightarrow> (bool \<times> hash_table_base) option"

fun add_includes ::
  "add_fn \<Rightarrow> file_and_hash list \<Rightarrow> string list \<Rightarrow> hash_table_base \<Rightarrow> (string list \<times> hash_table_base) option" where
  "add_includes add [] filename_stack incset = Some (filename_stack, incset)"
| "add_includes add ((f, hash) # files) filename_stack incset =
     (case add incset f hash of
        None \<Rightarrow> None
      | Some (new, incset) \<Rightarrow>
          add_includes add files (if new then filename_stack @ [f] else filename_stack) incset)"

definition hashed :: "bool \<Rightarrow> string list \<Rightarrow> file_and_hash list" where
  "hashed nocase = map (\<lambda>f. (f, Djb2HashPath nocase f))"

definition push_includes :: "add_fn \<Rightarrow> file_and_hash list \<Rightarrow> scan_state \<Rightarrow> scan_state outcome" where
  "push_includes add files st =
     (case add_includes add files (ss_filename_stack st) (ss_incset st) of
        None \<Rightarrow> None
      | Some (filename_stack, incset) \<Rightarrow>
          Some (Inr (st\<lparr>ss_filename_stack := filename_stack, ss_incset := incset\<rparr>)))"

text \<open>One round of the loop; \<open>BufferPopOne\<close> takes the last element.\<close>

definition scan_round :: "platform \<Rightarrow> world \<Rightarrow> ScannerData \<Rightarrow> scan_state \<Rightarrow> scan_state outcome" where
  "scan_round pl w scanner_config st =
     (let fn = last (ss_filename_stack st); st = st\<lparr>ss_filename_stack := butlast (ss_filename_stack st)\<rparr>
      in case StatCacheStat_path (pl_nocase pl) w (ss_stat_cache st) fn of
           None \<Rightarrow> None
         | Some (info, stat_cache) \<Rightarrow>
             (let st = st\<lparr>ss_stat_cache := stat_cache\<rparr>
              in if \<not> Exists info then Some (Inr st)
                 else let scan_key = ComputeScanCacheKey (pl_nocase pl) fn (sc_ScannerGuid scanner_config);
                          (cache_result, scan_cache) = ScanCacheLookup (ss_scan_cache st) scan_key (fi_Timestamp info);
                          st = st\<lparr>ss_scan_cache := scan_cache\<rparr>
                      in case cache_result of
                           Some files \<Rightarrow> push_includes (IncludeSetAddNoDuplicateString (pl_nocase pl)) files st
                         | None \<Rightarrow>
                             (case w_content w fn of
                                None \<Rightarrow> Some (Inr st)
                              | Some content \<Rightarrow>
                                  if content = [] then Some (Inr st)
                                  else and_then (ScanFile pl w (ss_stat_cache st) fn (scan_start content) scanner_config)
                                         (\<lambda>(found_includes, stat_cache).
                                            push_includes (IncludeSetAddDuplicateString (pl_nocase pl)) (hashed (pl_nocase pl) found_includes)
                                              (st\<lparr>ss_stat_cache := stat_cache,
                                                 ss_scan_cache := ScanCacheInsert (pl_nocase pl) (ss_scan_cache st)
                                                   scan_key (fi_Timestamp info) found_includes\<rparr>)))))"

partial_function (option) deps_loop :: "platform \<Rightarrow> world \<Rightarrow> ScannerData \<Rightarrow> scan_state \<Rightarrow> scan_state outcome" where
  "deps_loop pl w scanner_config st =
     (if ss_filename_stack st = [] then Some (Inr st)
      else case scan_round pl w scanner_config st of
             None \<Rightarrow> None
           | Some r \<Rightarrow> (case r of Inl e \<Rightarrow> Some (Inl e) | Inr st' \<Rightarrow> deps_loop pl w scanner_config st'))"

definition ScanImplicitDeps ::
  "platform \<Rightarrow> world \<Rightarrow> StatCache \<Rightarrow> ScanCache \<Rightarrow> ScannerData \<Rightarrow> string
     \<Rightarrow> (file_and_hash list \<times> StatCache \<times> ScanCache) outcome" where
  "ScanImplicitDeps pl w stat_cache scan_cache scanner_config filename =
     and_then (deps_loop pl w scanner_config
                 \<lparr>ss_filename_stack = [filename], ss_incset = HashSetInit, ss_stat_cache = stat_cache, ss_scan_cache = scan_cache\<rparr>)
       (\<lambda>st. Some (Inr (map (\<lambda>(hash, path). (path, hash)) (HashSetWalk (ss_incset st)), ss_stat_cache st, ss_scan_cache st)))"

section \<open>Without caches\<close>

text \<open>The same, on the file system itself: where an include leads, and what a file includes.\<close>

definition first_existing :: "world \<Rightarrow> string \<Rightarrow> string option result \<Rightarrow> string option result" where
  "first_existing w path rest = (if Exists (GetFileInfo w path) then Inr (Some path) else rest)"

fun find_in_paths :: "platform \<Rightarrow> world \<Rightarrow> PathBuffer \<Rightarrow> string list \<Rightarrow> string option result" where
  "find_in_paths pl w include_buf [] = Inr None"
| "find_in_paths pl w include_buf (include_path # include_paths) =
     (case PathInit (pl_uninit pl) include_path (pl_native pl) of
        Inl e \<Rightarrow> Inl e
      | Inr buffer \<Rightarrow>
          (case tried_path buffer include_buf of
             Inl e \<Rightarrow> Inl e
           | Inr path \<Rightarrow> first_existing w path (find_in_paths pl w include_buf include_paths)))"

definition find_include :: "platform \<Rightarrow> world \<Rightarrow> string \<Rightarrow> ScannerData \<Rightarrow> IncludeData \<Rightarrow> string option result" where
  "find_include pl w filename scanner_config inc =
     (case PathInit (pl_uninit pl) filename (pl_native pl) of
        Inl e \<Rightarrow> Inl e
      | Inr filename_buf \<Rightarrow>
          (case PathInit (pl_uninit pl) (inc_String inc) (pl_native pl) of
             Inl e \<Rightarrow> Inl e
           | Inr include_buf \<Rightarrow>
               (let rest = find_in_paths pl w include_buf (sc_IncludePaths scanner_config)
                in if inc_IsSystemInclude inc then rest
                   else case tried_path (fst (PathStripLast filename_buf)) include_buf of
                          Inl e \<Rightarrow> Inl e
                        | Inr path \<Rightarrow> first_existing w path rest)))"

fun find_includes :: "platform \<Rightarrow> world \<Rightarrow> string \<Rightarrow> ScannerData \<Rightarrow> IncludeData list \<Rightarrow> string list result" where
  "find_includes pl w filename scanner_config [] = Inr []"
| "find_includes pl w filename scanner_config (inc # incs) =
     (case find_include pl w filename scanner_config inc of
        Inl e \<Rightarrow> Inl e
      | Inr found \<Rightarrow>
          (case find_includes pl w filename scanner_config incs of
             Inl e \<Rightarrow> Inl e
           | Inr paths \<Rightarrow> Inr ((case found of None \<Rightarrow> [] | Some p \<Rightarrow> [p]) @ paths)))"

definition includes_of :: "platform \<Rightarrow> world \<Rightarrow> ScannerData \<Rightarrow> string \<Rightarrow> string list result" where
  "includes_of pl w scanner_config filename =
     (if \<not> Exists (GetFileInfo w filename) then Inr []
      else case w_content w filename of
             None \<Rightarrow> Inr []
           | Some content \<Rightarrow>
               if content = [] then Inr []
               else find_includes pl w filename scanner_config (scan_includes scanner_config (scan_start content)))"

text \<open>The work stack on a function that gives the includes of a file.\<close>

partial_function (option) closure_loop :: "bool \<Rightarrow> (string \<Rightarrow> string list) \<Rightarrow> string list \<Rightarrow> hash_table_base \<Rightarrow> hash_table_base option" where
  "closure_loop nocase incs stack incset =
     (if stack = [] then Some incset
      else case add_includes (IncludeSetAddNoDuplicateString nocase) (hashed nocase (incs (last stack))) (butlast stack) incset of
             None \<Rightarrow> None
           | Some r \<Rightarrow> (case r of (stack', incset') \<Rightarrow> closure_loop nocase incs stack' incset'))"

definition implicit_deps :: "bool \<Rightarrow> (string \<Rightarrow> string list) \<Rightarrow> string \<Rightarrow> file_and_hash list option" where
  "implicit_deps nocase incs filename =
     map_option (\<lambda>incset. map (\<lambda>(hash, path). (path, hash)) (HashSetWalk incset)) (closure_loop nocase incs [filename] HashSetInit)"

section \<open>The caches do not matter\<close>

lemma FindFile_loop_ok:
  assumes "same_files (pl_nocase pl) w" "stat_coherent w sc" "find_in_paths pl w include_buf paths = Inr r"
  shows "\<exists>sc'. FindFile_loop pl w sc include_buf paths = Some (Inr (r, sc')) \<and> stat_coherent w sc'"
  using assms(2,3)
proof (induction paths arbitrary: sc)
  case (Cons p paths)
  obtain b where b: "PathInit (pl_uninit pl) p (pl_native pl) = Inr b" using Cons.prems(2) by (auto split: sum.splits)
  obtain path where path: "tried_path b include_buf = Inr path" using Cons.prems(2) b by (auto split: sum.splits)
  obtain sc1 where sc1: "StatCacheStat_path (pl_nocase pl) w sc path = Some (GetFileInfo w path, sc1)" "stat_coherent w sc1"
    using StatCacheStat_path_ok [OF Cons.prems(1) assms(1)] by blast
  show ?case
    using Cons.IH [OF sc1(2)] Cons.prems(2) b path sc1
    by (cases "Exists (GetFileInfo w path)") (auto simp: attempt_def first_existing_def)
qed simp

lemma FindFile_ok:
  assumes "same_files (pl_nocase pl) w" "stat_coherent w sc" "find_include pl w filename config inc = Inr r"
  shows "\<exists>sc'. FindFile pl w sc filename config inc = Some (Inr (r, sc')) \<and> stat_coherent w sc'"
proof -
  obtain fb ib where bufs: "PathInit (pl_uninit pl) filename (pl_native pl) = Inr fb"
      "PathInit (pl_uninit pl) (inc_String inc) (pl_native pl) = Inr ib"
    using assms(3) by (auto simp: find_include_def split: sum.splits)
  note loop = FindFile_loop_ok [OF assms(1)]
  show ?thesis
  proof (cases "inc_IsSystemInclude inc")
    case True
    then show ?thesis using loop [OF assms(2)] assms(3) bufs by (simp add: find_include_def FindFile_def attempt_def)
  next
    case False
    then obtain path where path: "tried_path (fst (PathStripLast fb)) ib = Inr path"
      using assms(3) bufs by (auto simp: find_include_def Let_def split: sum.splits)
    obtain sc1 where sc1: "StatCacheStat_path (pl_nocase pl) w sc path = Some (GetFileInfo w path, sc1)" "stat_coherent w sc1"
      using StatCacheStat_path_ok [OF assms(2,1)] by blast
    show ?thesis
      using loop [OF sc1(2), of ib "sc_IncludePaths config" r] assms(3) bufs path sc1 False
      by (cases "Exists (GetFileInfo w path)") (auto simp: find_include_def FindFile_def attempt_def first_existing_def)
  qed
qed

lemma ScanFile_loop_ok:
  assumes "same_files (pl_nocase pl) w" "stat_coherent w sc" "find_includes pl w filename config incs = Inr paths"
  shows "\<exists>sc'. ScanFile_loop pl w sc filename config incs found = Some (Inr (found @ paths, sc')) \<and> stat_coherent w sc'"
  using assms(2,3)
proof (induction incs arbitrary: sc found paths)
  case (Cons inc incs)
  obtain r where r: "find_include pl w filename config inc = Inr r" using Cons.prems(2) by (auto split: sum.splits)
  obtain ps where ps: "find_includes pl w filename config incs = Inr ps" "paths = (case r of None \<Rightarrow> [] | Some p \<Rightarrow> [p]) @ ps"
    using Cons.prems(2) r by (auto split: sum.splits)
  obtain sc1 where sc1: "FindFile pl w sc filename config inc = Some (Inr (r, sc1))" "stat_coherent w sc1"
    using FindFile_ok [OF assms(1) Cons.prems(1) r] by blast
  show ?case
    using Cons.IH [OF sc1(2) ps(1), of "case r of None \<Rightarrow> found | Some p \<Rightarrow> found @ [p]"] sc1(1) ps(2)
    by (cases r) (auto simp: and_then_def attempt_def)
qed simp

text \<open>What the loop assumes of the file system: files \<open>F\<close> closed under inclusion, with one spelling each.\<close>

definition files_ok :: "platform \<Rightarrow> world \<Rightarrow> ScannerData \<Rightarrow> (string \<Rightarrow> string list) \<Rightarrow> string set \<Rightarrow> bool" where
  "files_ok pl w config incs F \<longleftrightarrow> same_files (pl_nocase pl) w \<and> finite F \<and> inj_on (canon (pl_nocase pl)) F \<and>
     (\<forall>f \<in> F. includes_of pl w config f = Inr (incs f) \<and> set (incs f) \<subseteq> F) \<and>
     (\<forall>f \<in> F. \<forall>g \<in> F. Djb2HashPath64 (pl_nocase pl) f = Djb2HashPath64 (pl_nocase pl) g \<longrightarrow>
        fi_Timestamp (GetFileInfo w f) = fi_Timestamp (GetFileInfo w g) \<longrightarrow> incs f = incs g)"

text \<open>
  Coherence of the scan cache: an entry under the key and the current time stamp of a file is what
  the file includes.
\<close>

definition scan_coherent :: "bool \<Rightarrow> world \<Rightarrow> ScannerData \<Rightarrow> (string \<Rightarrow> string list) \<Rightarrow> string set \<Rightarrow> ScanCache \<Rightarrow> bool" where
  "scan_coherent nocase w config incs F cs \<longleftrightarrow> scan_ok cs \<and> (\<forall>f \<in> F. Exists (GetFileInfo w f) \<longrightarrow>
     scan_get cs (ComputeScanCacheKey nocase f (sc_ScannerGuid config)) (fi_Timestamp (GetFileInfo w f)) \<in>
       {None, Some (hashed nocase (incs f))})"

lemma scan_coherent_lookup:
  assumes "scan_coherent nocase w config incs F cs"
  shows "scan_coherent nocase w config incs F (snd (ScanCacheLookup cs key ts))"
  using assms ScanCacheLookup_ok [of cs key ts] by (simp add: scan_coherent_def)

lemma key_eq: "ComputeScanCacheKey nocase f guid = ComputeScanCacheKey nocase g guid \<longleftrightarrow> Djb2HashPath64 nocase f = Djb2HashPath64 nocase g"
proof -
  have "x = y" if "a XOR x = a XOR y" for a x y :: u64
    using arg_cong [OF that, of "\<lambda>z. a XOR z"] by (simp flip: xor.assoc)
  then show ?thesis by (auto simp: ComputeScanCacheKey_def)
qed

lemma scan_coherent_insert:
  assumes "files_ok pl w config incs F" "scan_coherent (pl_nocase pl) w config incs F cs" "f \<in> F"
  shows "scan_coherent (pl_nocase pl) w config incs F (ScanCacheInsert (pl_nocase pl) cs
    (ComputeScanCacheKey (pl_nocase pl) f (sc_ScannerGuid config)) (fi_Timestamp (GetFileInfo w f)) (incs f))"
proof -
  let ?nc = "pl_nocase pl" and ?key = "\<lambda>f. ComputeScanCacheKey (pl_nocase pl) f (sc_ScannerGuid config)"
  let ?ts = "\<lambda>f. fi_Timestamp (GetFileInfo w f)"
  have ok: "scan_ok cs" using assms(2) by (simp add: scan_coherent_def)
  note ins = ScanCacheInsert_get [OF ok, of ?nc "?key f" "?ts f" "incs f"]
  have "scan_get (ScanCacheInsert ?nc cs (?key f) (?ts f) (incs f)) (?key g) (?ts g) \<in> {None, Some (hashed ?nc (incs g))}"
    if g: "g \<in> F" "Exists (GetFileInfo w g)" for g
  proof (cases "?key g = ?key f \<and> ?ts g = ?ts f")
    case True
    then have "incs g = incs f" using assms(1,3) g(1) key_eq unfolding files_ok_def by metis
    moreover have "scan_get cs (?key g) (?ts g) \<in> {None, Some (hashed ?nc (incs g))}"
      using assms(2) g unfolding scan_coherent_def by blast
    ultimately show ?thesis using True unfolding ins(2) by (auto simp: hashed_def)
  next
    case False
    moreover have "scan_get cs (?key g) (?ts g) \<in> {None, Some (hashed ?nc (incs g))}"
      using assms(2) g unfolding scan_coherent_def by blast
    ultimately show ?thesis unfolding ins(2) by auto
  qed
  then show ?thesis using ins(1) unfolding scan_coherent_def by blast
qed

lemma Duplicate_eq: "IncludeSetAddDuplicateString = IncludeSetAddNoDuplicateString"
  by (intro ext) (simp add: IncludeSetAddDuplicateString_def IncludeSetAddNoDuplicateString_def)

text \<open>Both caches of a state.\<close>

definition caches_ok :: "platform \<Rightarrow> world \<Rightarrow> ScannerData \<Rightarrow> (string \<Rightarrow> string list) \<Rightarrow> string set \<Rightarrow> scan_state \<Rightarrow> bool" where
  "caches_ok pl w config incs F st \<longleftrightarrow> stat_coherent w (ss_stat_cache st) \<and>
     scan_coherent (pl_nocase pl) w config incs F (ss_scan_cache st)"

lemma scan_round_ok:
  assumes F: "files_ok pl w config incs F" and st: "caches_ok pl w config incs F st"
    and fn: "last (ss_filename_stack st) \<in> F"
    and add: "add_includes (IncludeSetAddNoDuplicateString (pl_nocase pl))
      (hashed (pl_nocase pl) (incs (last (ss_filename_stack st)))) (butlast (ss_filename_stack st)) (ss_incset st) = Some (stack', incset')"
  shows "\<exists>st'. scan_round pl w config st = Some (Inr st') \<and> caches_ok pl w config incs F st' \<and>
    ss_filename_stack st' = stack' \<and> ss_incset st' = incset'"
proof -
  let ?fn = "last (ss_filename_stack st)" and ?nc = "pl_nocase pl"
  let ?info = "GetFileInfo w ?fn" and ?key = "ComputeScanCacheKey (pl_nocase pl) (last (ss_filename_stack st)) (sc_ScannerGuid config)"
  have same: "same_files ?nc w" and incs: "includes_of pl w config ?fn = Inr (incs ?fn)"
    using F fn unfolding files_ok_def by blast+
  obtain sc where sc: "StatCacheStat_path ?nc w (ss_stat_cache st) ?fn = Some (?info, sc)" "stat_coherent w sc"
    using StatCacheStat_path_ok [OF conjunct1 [OF st [unfolded caches_ok_def]] same] by blast
  have coh: "scan_coherent ?nc w config incs F (ss_scan_cache st)" using st by (simp add: caches_ok_def)
  obtain r cs where look: "ScanCacheLookup (ss_scan_cache st) ?key (fi_Timestamp ?info) = (r, cs)" by (rule prod.exhaust)
  then have cs: "scan_coherent ?nc w config incs F cs" using scan_coherent_lookup [OF coh, of ?key "fi_Timestamp ?info"] by simp
  have r: "r = None \<or> r = Some (hashed ?nc (incs ?fn))" if "Exists ?info"
  proof -
    have "scan_get (ss_scan_cache st) ?key (fi_Timestamp ?info) \<in> {None, Some (hashed ?nc (incs ?fn))}"
      using coh fn that unfolding scan_coherent_def by blast
    then show ?thesis using look by (simp add: scan_get_def)
  qed
  let ?st = "st\<lparr>ss_filename_stack := butlast (ss_filename_stack st), ss_stat_cache := sc\<rparr>"
  let ?scanned = "\<lambda>found stat. ?st\<lparr>ss_stat_cache := stat, ss_scan_cache := ScanCacheInsert ?nc cs ?key (fi_Timestamp ?info) found\<rparr>"
  have round: "scan_round pl w config st =
      (if \<not> Exists ?info then Some (Inr ?st)
       else case r of
         Some files \<Rightarrow> push_includes (IncludeSetAddNoDuplicateString ?nc) files (?st\<lparr>ss_scan_cache := cs\<rparr>)
       | None \<Rightarrow> (case w_content w ?fn of
            None \<Rightarrow> Some (Inr (?st\<lparr>ss_scan_cache := cs\<rparr>))
          | Some content \<Rightarrow> if content = [] then Some (Inr (?st\<lparr>ss_scan_cache := cs\<rparr>))
              else and_then (ScanFile pl w sc ?fn (scan_start content) config) (\<lambda>(found, stat).
                push_includes (IncludeSetAddNoDuplicateString ?nc) (hashed ?nc found) (?scanned found stat))))"
    unfolding scan_round_def Let_def by (simp add: sc(1) look Duplicate_eq split: option.split)
  consider (missing) "\<not> Exists ?info" | (cached) "Exists ?info" "r = Some (hashed ?nc (incs ?fn))"
    | (empty) "Exists ?info" "r = None" "w_content w ?fn = None \<or> w_content w ?fn = Some []"
    | (scan) content where "Exists ?info" "r = None" "w_content w ?fn = Some content" "content \<noteq> []"
  proof (cases "Exists ?info")
    case True
    then show ?thesis using r cached empty scan by (cases "w_content w ?fn") auto
  qed (rule missing)
  then show ?thesis
  proof cases
    case missing
    then have "incs ?fn = []" using incs by (simp add: includes_of_def)
    then show ?thesis using add sc(2) coh missing unfolding round by (simp add: hashed_def caches_ok_def)
  next
    case cached
    then show ?thesis using add sc(2) cs unfolding round by (simp add: push_includes_def caches_ok_def)
  next
    case empty
    then have "incs ?fn = []" using incs by (auto simp: includes_of_def)
    then show ?thesis using add sc(2) cs empty unfolding round by (auto simp: hashed_def caches_ok_def)
  next
    case scan
    have "find_includes pl w ?fn config (scan_includes config (scan_start content)) = Inr (incs ?fn)"
      using incs scan by (simp add: includes_of_def)
    from ScanFile_loop_ok [OF same sc(2) this, of "[]"] obtain sc1 where
      sc1: "ScanFile pl w sc ?fn (scan_start content) config = Some (Inr (incs ?fn, sc1))" "stat_coherent w sc1"
      by (auto simp: ScanFile_def)
    have "scan_coherent ?nc w config incs F (ScanCacheInsert ?nc cs ?key (fi_Timestamp ?info) (incs ?fn))"
      by (rule scan_coherent_insert [OF F cs fn])
    then show ?thesis
      using scan sc1 add unfolding round by (simp add: and_then_def attempt_def push_includes_def caches_ok_def)
  qed
qed

section \<open>The transitive closure\<close>

definition names :: "hash_table_base \<Rightarrow> string set" where
  "names t = snd ` set (HashSetWalk t)"

lemma add_includes_ok:
  assumes "paths_ok nocase t" "names t \<subseteq> F" "inj_on (canon nocase) F" "set files \<subseteq> F"
  shows "\<exists>new t'. add_includes (IncludeSetAddNoDuplicateString nocase) (hashed nocase files) stack t = Some (stack @ new, t') \<and>
    paths_ok nocase t' \<and> names t' = names t \<union> set files \<and> set new = set files - names t \<and> distinct new"
  using assms(1,2,4)
proof (induction files arbitrary: stack t)
  case (Cons f files)
  let ?h = "Djb2HashPath nocase f"
  have ok: "hs_ok nocase t" using Cons.prems(1) by (simp add: paths_ok_def)
  have "members nocase t = canon nocase ` names t"
    using walk_members(1) [OF Cons.prems(1)] by (simp add: names_def)
  moreover have "canon nocase f \<in> canon nocase ` names t \<longleftrightarrow> f \<in> names t"
    using inj_on_image_mem_iff [OF assms(3), of f "names t"] Cons.prems(2,3) by simp
  ultimately have look: "HashSetLookup nocase t ?h f = Some (f \<in> names t)" using lookup_members [OF ok] by simp
  show ?case
  proof (cases "f \<in> names t")
    case True
    obtain new t' where "add_includes (IncludeSetAddNoDuplicateString nocase) (hashed nocase files) stack t = Some (stack @ new, t')"
        "paths_ok nocase t'" "names t' = names t \<union> set files" "set new = set files - names t" "distinct new"
      using Cons.IH [OF Cons.prems(1,2), of stack] Cons.prems(3) by auto
    moreover have "IncludeSetAddNoDuplicateString nocase t f ?h = Some (False, t)"
      using True look by (simp add: IncludeSetAddNoDuplicateString_def)
    ultimately show ?thesis using True by (auto simp: hashed_def)
  next
    case False
    have "set_add nocase ?h f t = HashSetInsert t ?h f" using look False by (simp add: set_add_def)
    then obtain t1 where t1: "HashSetInsert t ?h f = Some t1" "paths_ok nocase t1" using set_add_ok [OF Cons.prems(1), of f] by auto
    have "set (HashSetWalk t1) = insert (?h, f) (set (HashSetWalk t))"
      using arg_cong [OF HashSetInsert_walk [OF ok _ t1(1)], of set_mset] by simp
    then have names1: "names t1 = insert f (names t)" by (simp add: names_def)
    obtain new t' where "add_includes (IncludeSetAddNoDuplicateString nocase) (hashed nocase files) (stack @ [f]) t1 = Some ((stack @ [f]) @ new, t')"
        "paths_ok nocase t'" "names t' = names t1 \<union> set files" "set new = set files - names t1" "distinct new"
      using Cons.IH [OF t1(2), of "stack @ [f]"] Cons.prems(2,3) names1 by auto
    moreover have "IncludeSetAddNoDuplicateString nocase t f ?h = Some (True, t1)"
      using False look t1(1) by (simp add: IncludeSetAddNoDuplicateString_def)
    ultimately show ?thesis
      using False names1 by (intro exI [of _ "f # new"]) (auto simp: hashed_def)
  qed
qed (simp add: hashed_def)

text \<open>What a file includes directly, among the files considered.\<close>

definition include_rel :: "(string \<Rightarrow> string list) \<Rightarrow> string set \<Rightarrow> (string \<times> string) set" where
  "include_rel incs F = {(f, g). f \<in> F \<and> g \<in> set (incs f)}"

text \<open>
  The invariant of the work stack: only files that the root reaches are in the set, and every file
  that is not waiting on the stack has its includes there.
\<close>

definition closing :: "(string \<Rightarrow> string list) \<Rightarrow> string set \<Rightarrow> string \<Rightarrow> string list \<Rightarrow> string set \<Rightarrow> bool" where
  "closing incs F root stack S \<longleftrightarrow> S \<subseteq> F \<and> S \<subseteq> (include_rel incs F)\<^sup>+ `` {root} \<and> set stack \<subseteq> insert root S \<and>
     (\<forall>x \<in> insert root S. x \<in> set stack \<or> set (incs x) \<subseteq> S)"

lemma closing_step:
  assumes "closing incs F root stack S" "root \<in> F" "stack \<noteq> []" "\<forall>f \<in> F. set (incs f) \<subseteq> F"
    and new: "set new = set (incs (last stack)) - S"
  shows "closing incs F root (butlast stack @ new) (S \<union> set (incs (last stack)))"
proof -
  let ?f = "last stack" and ?R = "include_rel incs F"
  have f: "?f \<in> insert root S" "?f \<in> F" using assms(1-3) last_in_set [OF assms(3)] unfolding closing_def by blast+
  have reach: "g \<in> ?R\<^sup>+ `` {root}" if "g \<in> set (incs ?f)" for g
  proof -
    have "(?f, g) \<in> ?R" using f(2) that by (simp add: include_rel_def)
    then show ?thesis
      using f(1) assms(1) unfolding closing_def by (metis Image_singleton_iff insertE r_into_trancl' subsetD trancl_into_trancl)
  qed
  have stack: "set stack = insert ?f (set (butlast stack))"
    using append_butlast_last_id [OF assms(3)] by (metis list.simps(15) rotate1.simps(2) set_rotate1)
  have "x \<in> set (butlast stack @ new) \<or> set (incs x) \<subseteq> S \<union> set (incs ?f)" if "x \<in> insert root (S \<union> set (incs ?f))" for x
    using that assms(1) stack new unfolding closing_def by auto
  moreover have "S \<union> set (incs ?f) \<subseteq> F" using assms(1,4) f(2) unfolding closing_def by blast
  moreover have "S \<union> set (incs ?f) \<subseteq> ?R\<^sup>+ `` {root}" using assms(1) reach unfolding closing_def by blast
  moreover have "set (butlast stack @ new) \<subseteq> insert root (S \<union> set (incs ?f))"
    using assms(1) stack new unfolding closing_def by auto
  ultimately show ?thesis unfolding closing_def by blast
qed

lemma closing_done:
  assumes "closing incs F root [] S" "root \<in> F"
  shows "S = (include_rel incs F)\<^sup>+ `` {root}"
proof -
  have "g \<in> S" if "(root, g) \<in> (include_rel incs F)\<^sup>+" for g
    using that
  proof (induction rule: trancl_induct)
    case (base g)
    then show ?case using assms(1) unfolding closing_def include_rel_def by auto
  next
    case (step g h)
    then show ?case using assms(1) unfolding closing_def include_rel_def by auto
  qed
  then show ?thesis using assms(1) unfolding closing_def by blast
qed

lemma deps_loop_ok:
  assumes F: "files_ok pl w config incs F" "root \<in> F"
    and st: "caches_ok pl w config incs F st" "paths_ok (pl_nocase pl) (ss_incset st)"
    and cl: "closing incs F root (ss_filename_stack st) (names (ss_incset st))"
  shows "\<exists>st'. deps_loop pl w config st = Some (Inr st') \<and>
    closure_loop (pl_nocase pl) incs (ss_filename_stack st) (ss_incset st) = Some (ss_incset st') \<and>
    caches_ok pl w config incs F st' \<and> paths_ok (pl_nocase pl) (ss_incset st') \<and>
    names (ss_incset st') = (include_rel incs F)\<^sup>+ `` {root}"
  using st cl
proof (induction "2 * card (F - names (ss_incset st)) + length (ss_filename_stack st)" arbitrary: st rule: less_induct)
  case less
  let ?nc = "pl_nocase pl" and ?stack = "ss_filename_stack st" and ?t = "ss_incset st"
  have fin: "finite F" and inj: "inj_on (canon ?nc) F" and closed: "\<forall>f \<in> F. set (incs f) \<subseteq> F"
    using F(1) unfolding files_ok_def by blast+
  show ?case
  proof (cases "?stack = []")
    case True
    then show ?thesis
      using less.prems closing_done [of incs F root "names ?t"] F(2)
      by (simp add: deps_loop.simps [of pl] closure_loop.simps [of ?nc])
  next
    case False
    have names: "names ?t \<subseteq> F" and fn: "last ?stack \<in> F"
      using less.prems(3) F(2) last_in_set [OF False] unfolding closing_def by blast+
    then have incs: "set (incs (last ?stack)) \<subseteq> F" using closed by blast
    obtain new t' where add: "add_includes (IncludeSetAddNoDuplicateString ?nc) (hashed ?nc (incs (last ?stack))) (butlast ?stack) ?t =
        Some (butlast ?stack @ new, t')" "paths_ok ?nc t'" "names t' = names ?t \<union> set (incs (last ?stack))"
        "set new = set (incs (last ?stack)) - names ?t" "distinct new"
      using add_includes_ok [OF less.prems(2) names inj incs, of "butlast ?stack"] by blast
    obtain st' where st': "scan_round pl w config st = Some (Inr st')" "caches_ok pl w config incs F st'"
        "ss_filename_stack st' = butlast ?stack @ new" "ss_incset st' = t'"
      using scan_round_ok [OF F(1) less.prems(1) fn add(1)] by blast
    have cl': "closing incs F root (ss_filename_stack st') (names (ss_incset st'))"
      unfolding st'(3,4) add(3) by (rule closing_step [OF less.prems(3) F(2) False closed add(4)])
    have "F - names ?t = (F - names t') \<union> set new" "(F - names t') \<inter> set new = {}"
      using add(3,4) incs by auto
    then have "card (F - names ?t) = card (F - names t') + length new"
      using fin add(5) by (simp add: card_Un_disjoint distinct_card)
    then have "2 * card (F - names (ss_incset st')) + length (ss_filename_stack st') <
        2 * card (F - names ?t) + length ?stack"
      using False by (cases ?stack) (simp_all add: st'(3,4))
    from less.hyps [OF this st'(2) _ cl'] show ?thesis
      using add(1,2) st' False by (simp add: deps_loop.simps [of pl w config st] closure_loop.simps [of ?nc incs ?stack])
  qed
qed

lemma walk_hash:
  assumes "paths_ok nocase t" "(h, s) \<in> set (HashSetWalk t)" shows "h = Djb2HashPath nocase s"
proof -
  have "h \<noteq> 0" using assms(2) by (simp add: HashSetWalk_def)
  moreover have "(h, canon nocase s) \<in> set (map (\<lambda>(h, s). (h, canon nocase s)) (HashSetWalk t))"
    using assms(2) by (auto intro!: image_eqI [of _ _ "(h, s)"])
  ultimately show ?thesis using HashSetWalk_keys(3) [of nocase t h s] assms(1) by (simp add: paths_ok_def)
qed

lemma ScanImplicitDeps_ok:
  assumes "files_ok pl w config incs F" "filename \<in> F" "stat_coherent w sc" "scan_coherent (pl_nocase pl) w config incs F cs"
  shows "\<exists>files sc' cs'. ScanImplicitDeps pl w sc cs config filename = Some (Inr (files, sc', cs')) \<and>
    implicit_deps (pl_nocase pl) incs filename = Some files \<and>
    set (map fst files) = (include_rel incs F)\<^sup>+ `` {filename} \<and> distinct (map fst files) \<and>
    (\<forall>(f, h) \<in> set files. h = Djb2HashPath (pl_nocase pl) f) \<and>
    stat_coherent w sc' \<and> scan_coherent (pl_nocase pl) w config incs F cs'"
proof -
  let ?nc = "pl_nocase pl"
  let ?st = "\<lparr>ss_filename_stack = [filename], ss_incset = HashSetInit, ss_stat_cache = sc, ss_scan_cache = cs\<rparr>"
  have init: "names HashSetInit = {}" by (simp add: names_def HashSetWalk_def HashSetInit_def)
  have "closing incs F filename (ss_filename_stack ?st) (names (ss_incset ?st))" by (simp add: closing_def init)
  moreover have "caches_ok pl w config incs F ?st" "paths_ok ?nc (ss_incset ?st)" using assms(3,4) by (simp_all add: caches_ok_def)
  ultimately obtain st where st: "deps_loop pl w config ?st = Some (Inr st)"
      "closure_loop ?nc incs [filename] HashSetInit = Some (ss_incset st)" "caches_ok pl w config incs F st"
      "paths_ok ?nc (ss_incset st)" "names (ss_incset st) = (include_rel incs F)\<^sup>+ `` {filename}"
    using deps_loop_ok [OF assms(1,2), of ?st] by auto
  let ?files = "map (\<lambda>(hash, path). (path, hash)) (HashSetWalk (ss_incset st))"
  have fst: "map fst ?files = map snd (HashSetWalk (ss_incset st))" by (simp add: case_prod_beta)
  have "distinct (map fst ?files)"
    using walk_members(2) [OF st(4)] unfolding fst by (metis distinct_map)
  moreover have "\<forall>(f, h) \<in> set ?files. h = Djb2HashPath ?nc f" using walk_hash [OF st(4)] by auto
  moreover have "set (map fst ?files) = (include_rel incs F)\<^sup>+ `` {filename}"
    unfolding fst using st(5) by (simp add: names_def)
  moreover have "ScanImplicitDeps pl w sc cs config filename = Some (Inr (?files, ss_stat_cache st, ss_scan_cache st))"
    using st(1) by (simp add: ScanImplicitDeps_def and_then_def attempt_def)
  moreover have "implicit_deps ?nc incs filename = Some ?files" using st(2) by (simp add: implicit_deps_def)
  ultimately show ?thesis using st(3) unfolding caches_ok_def by blast
qed

text \<open>
  C35: Scanning a file for implicit dependencies ends and returns exactly the files that it includes
  directly or through other files, each once and with its path hash. Whatever is in the stat cache
  and the scan cache, if it agrees with the file system, the result is the list that the same search
  gives without caches, and the caches still agree with the file system afterwards.
\<close>

theorem ScanImplicitDeps_closure:
  assumes "files_ok pl w config incs F" "filename \<in> F" "stat_coherent w sc" "scan_coherent (pl_nocase pl) w config incs F cs"
  shows "\<exists>files sc' cs'. ScanImplicitDeps pl w sc cs config filename = Some (Inr (files, sc', cs')) \<and>
    implicit_deps (pl_nocase pl) incs filename = Some files \<and>
    set (map fst files) = (include_rel incs F)\<^sup>+ `` {filename} \<and> distinct (map fst files) \<and>
    (\<forall>(f, h) \<in> set files. h = Djb2HashPath (pl_nocase pl) f) \<and>
    stat_coherent w sc' \<and> scan_coherent (pl_nocase pl) w config incs F cs'"
  by (rule ScanImplicitDeps_ok [OF assms])

section \<open>An example\<close>

definition ex_source :: string where
  "ex_source = ''#include '' @ [CHR 0x22] @ ''b.h'' @ [CHR 0x22]"

definition ex_files :: world where
  "ex_files = \<lparr>w_stat = (\<lambda>p. if c_str p \<in> {''a.c'', ''b.h''} then StatOk 0x8000 1 1 else StatErr 2),
     w_content = (\<lambda>p. if c_str p = ''a.c'' then Some ex_source
        else if c_str p = ''b.h'' then Some ''int b;'' else None),
     w_dir = Map.empty\<rparr>"

definition ex_cpp :: ScannerData where
  "ex_cpp = \<lparr>sc_ScannerType = kCpp, sc_IncludePaths = [], sc_ScannerGuid = (1, 2), sc_Flags = 0, sc_Keywords = []\<rparr>"

definition ex_pl :: platform where
  "ex_pl = \<lparr>pl_nocase = False, pl_native = kUnix, pl_cwd = None,
     pl_uninit = \<lparr>pb_Type = kUnix, pb_Flags = 0, pb_SegCount = 0, pb_LeadingDotDots = 0,
       pb_SegEnds = [0, 0, 0], pb_Data = ''........''\<rparr>\<rparr>"

definition ex_incs :: "string \<Rightarrow> string list" where
  "ex_incs f = (if f = ''a.c'' then [''b.h''] else [])"

lemma canon_False: "canon False s = canon False s' \<longleftrightarrow> c_str s = c_str s'"
  unfolding compare_fn_eq_canon [symmetric] compare_fn_eq_def by simp

lemmas path_defs = PathInit_def PathGetSegments_def add_segment_def is_separator_def kMaxPathSegments_def kMaxPathLength_def
  path_root_def tried_path_def PathConcat_def PathConcatImpl_def PathIsAbsolute_def PathStripLast_def min_seg_count_def
  BufferSize_def PathFormat_def PathFormatPartial_def SegLength_def kFlagAbsolute_def kFlagWindowsDevicePath_def Let_def

definition ex_buffer :: "string \<Rightarrow> PathBuffer" where
  "ex_buffer name = \<lparr>pb_Type = kUnix, pb_Flags = 0, pb_SegCount = 1, pb_LeadingDotDots = 0,
     pb_SegEnds = [3, 0, 0], pb_Data = name @ ''.....''\<rparr>"

lemma ex_init: "PathInit (pl_uninit ex_pl) ''a.c'' kUnix = Inr (ex_buffer ''a.c'')"
    "PathInit (pl_uninit ex_pl) ''b.h'' kUnix = Inr (ex_buffer ''b.h'')"
  by (simp_all add: path_defs ex_pl_def ex_buffer_def)

lemma ex_tried: "tried_path (fst (PathStripLast (ex_buffer ''a.c''))) (ex_buffer ''b.h'') = Inr ''b.h''"
proof -
  have "PathConcat (fst (PathStripLast (ex_buffer ''a.c''))) (ex_buffer ''b.h'') = Inr (ex_buffer ''b.h'')"
    by (simp add: path_defs ex_buffer_def)
  moreover have "PathFormat (ex_buffer ''b.h'') = Inr ''b.h''" by (simp add: path_defs ex_buffer_def)
  ultimately show ?thesis by (simp add: tried_path_def)
qed

lemma ex_scan: "map inc_String (scan_includes ex_cpp (scan_start ex_source)) = [''b.h'']"
    "list_all (\<lambda>i. \<not> inc_IsSystemInclude i) (scan_includes ex_cpp (scan_start ex_source))"
    "scan_includes ex_cpp (scan_start ''int b;'') = []"
  by code_simp+

lemma ex_exists: "Exists (GetFileInfo ex_files ''a.c'')" "Exists (GetFileInfo ex_files ''b.h'')"
  by code_simp+

lemma ex_includes: "includes_of ex_pl ex_files ex_cpp ''a.c'' = Inr [''b.h'']"
    "includes_of ex_pl ex_files ex_cpp ''b.h'' = Inr []"
proof -
  obtain inc where inc: "scan_includes ex_cpp (scan_start ex_source) = [inc]" "inc_String inc = ''b.h''" "\<not> inc_IsSystemInclude inc"
    using ex_scan(1,2) by (auto simp: map_eq_Cons_conv)
  have native: "pl_native ex_pl = kUnix" by (simp add: ex_pl_def)
  have "find_include ex_pl ex_files ''a.c'' ex_cpp inc = Inr (Some ''b.h'')"
    using inc(3) by (simp add: find_include_def native ex_init inc(2) ex_tried first_existing_def ex_exists)
  moreover have "w_content ex_files ''a.c'' = Some ex_source" "ex_source \<noteq> []" by code_simp+
  ultimately show "includes_of ex_pl ex_files ex_cpp ''a.c'' = Inr [''b.h'']"
    using inc(1) by (simp add: includes_of_def ex_exists)
  have "w_content ex_files ''b.h'' = Some ''int b;''" by code_simp
  then show "includes_of ex_pl ex_files ex_cpp ''b.h'' = Inr []"
    by (simp add: includes_of_def ex_exists ex_scan(3))
qed

lemma ex_files_ok: "files_ok ex_pl ex_files ex_cpp ex_incs {''a.c'', ''b.h''}"
proof -
  have "same_files False ex_files" by (simp add: same_files_def canon_False ex_files_def)
  moreover have "inj_on (canon False) {''a.c'', ''b.h''}" by (simp add: canon_False)
  moreover have "Djb2HashPath64 False ''a.c'' \<noteq> Djb2HashPath64 False ''b.h''" by code_simp
  moreover have "pl_nocase ex_pl = False" by (simp add: ex_pl_def)
  ultimately show ?thesis using ex_includes by (simp add: files_ok_def ex_incs_def)
qed

lemma ex_closure: "(include_rel ex_incs {''a.c'', ''b.h''})\<^sup>+ `` {''a.c''} = {''b.h''}"
proof -
  have rel: "include_rel ex_incs {''a.c'', ''b.h''} = {(''a.c'', ''b.h'')}" by (auto simp: include_rel_def ex_incs_def)
  have "g = ''b.h''" if "(''a.c'', g) \<in> {(''a.c'', ''b.h'')}\<^sup>+" for g
    using that by (induction rule: trancl_induct) simp_all
  then show ?thesis unfolding rel by auto
qed

lemma scan_coherent_init [simp]: "scan_coherent nocase w config incs F ScanCacheInit"
  by (simp add: scan_coherent_def scan_ok_def chains_ok_def ScanCacheInit_def scan_get_def ScanCacheLookup_def
      lookup_frozen_def LookupDynamic_def)

theorem ScanImplicitDeps_closure_witness:
  "\<exists>sc' cs'. ScanImplicitDeps ex_pl ex_files StatCacheInit ScanCacheInit ex_cpp ''a.c'' =
     Some (Inr ([(''b.h'', Djb2HashPath False ''b.h'')], sc', cs'))"
proof -
  have nc: "pl_nocase ex_pl = False" by (simp add: ex_pl_def)
  obtain files sc' cs' where files: "ScanImplicitDeps ex_pl ex_files StatCacheInit ScanCacheInit ex_cpp ''a.c'' = Some (Inr (files, sc', cs'))"
      "set (map fst files) = {''b.h''}" "distinct (map fst files)" "\<forall>(f, h) \<in> set files. h = Djb2HashPath False f"
    using ScanImplicitDeps_closure [OF ex_files_ok insertI1 stat_coherent_init scan_coherent_init, unfolded ex_closure nc]
    by (elim exE conjE that)
  have "length files = 1" using files(2) distinct_card [OF files(3)] by simp
  then obtain f h where "files = [(f, h)]" by (cases files) auto
  then have "files = [(''b.h'', Djb2HashPath False ''b.h'')]" using files(2,4) by simp
  then show ?thesis using files(1) by blast
qed

end
