(* ===== verification/T2_NodeCheck.thy ===== *)
theory T2_NodeCheck
  imports T2_FileSign T2_Scanner
begin

text \<open>
  Model of the part of \<open>CheckInputSignature\<close> in \<open>src/BuildQueue.cpp\<close> that runs without the queue
  lock: the signature of a node's inputs, and whether the node has to be built. In the step relation
  of the build queue (\<open>T2_BuildQueue\<close>) the outcome of this part is a parameter of a step; here it is
  computed from the node, its saved state, the file system and the caches.
\<close>

section \<open>Definitions\<close>

text \<open>The caches that the threads share.\<close>

record caches =
  ca_StatCache :: StatCache
  ca_DigestCache :: DigestCache
  ca_ScanCache :: ScanCache

definition lift :: "'a option \<Rightarrow> 'a outcome" where
  "lift m = map_option Inr m"

text \<open>\<open>HashAddPath\<close> and \<open>ComputeFileSignature\<close>, for a direct or an indirect input.\<close>

definition sign_file ::
  "platform \<Rightarrow> world \<Rightarrow> u32 list \<Rightarrow> u8 list \<Rightarrow> file_and_hash \<Rightarrow> sig_state \<times> caches \<Rightarrow> (sig_state \<times> caches) option" where
  "sign_file pl w exts garbage input = (\<lambda>(sighash, ca). do {
     sighash \<leftarrow> HashAddPath (pl_nocase pl) HashBlock sighash (fst input);
     (sighash, stat_cache, digest_cache) \<leftarrow> ComputeFileSignature (pl_nocase pl) w garbage sighash
        (ca_StatCache ca) (ca_DigestCache ca) (fst input) (snd input) exts;
     Some (sighash, ca\<lparr>ca_StatCache := stat_cache, ca_DigestCache := digest_cache\<rparr>)
   })"

fun sign_files ::
  "platform \<Rightarrow> world \<Rightarrow> u32 list \<Rightarrow> u8 list \<Rightarrow> file_and_hash list \<Rightarrow> sig_state \<times> caches \<Rightarrow> (sig_state \<times> caches) option" where
  "sign_files pl w exts garbage [] st = Some st"
| "sign_files pl w exts garbage (path # paths) st = do {
     st \<leftarrow> sign_file pl w exts garbage path st;
     sign_files pl w exts garbage paths st
   }"

fun sign_inputs ::
  "platform \<Rightarrow> world \<Rightarrow> u32 list \<Rightarrow> u8 list \<Rightarrow> ScannerData option \<Rightarrow> file_and_hash list \<Rightarrow> sig_state \<times> caches
     \<Rightarrow> (sig_state \<times> caches) outcome" where
  "sign_inputs pl w exts garbage scanner [] st = Some (Inr st)"
| "sign_inputs pl w exts garbage scanner (input # inputs) st =
     and_then (lift (sign_file pl w exts garbage input st)) (\<lambda>(sighash, ca).
       case scanner of
         None \<Rightarrow> sign_inputs pl w exts garbage scanner inputs (sighash, ca)
       | Some config \<Rightarrow>
           and_then (ScanImplicitDeps pl w (ca_StatCache ca) (ca_ScanCache ca) config (fst input))
             (\<lambda>(included_files, stat_cache, scan_cache).
               and_then (lift (sign_files pl w exts garbage included_files
                   (sighash, ca\<lparr>ca_StatCache := stat_cache, ca_ScanCache := scan_cache\<rparr>)))
                 (sign_inputs pl w exts garbage scanner inputs)))"

text \<open>The command lines; \<open>strlen\<close> of a null pointer is a fault.\<close>

definition sign_action :: "NodeData \<Rightarrow> sig_state \<Rightarrow> sig_state outcome" where
  "sign_action nd sighash =
     (case nd_Action nd of
        None \<Rightarrow> Some (Inl (Overrun ''m_Action''))
      | Some action \<Rightarrow> lift (do {
          sighash \<leftarrow> HashAddString HashBlock sighash action;
          sighash \<leftarrow> HashAddSeparator HashBlock sighash;
          (case nd_PreAction nd of
             None \<Rightarrow> Some sighash
           | Some pre_action \<Rightarrow> do {
               sighash \<leftarrow> HashAddString HashBlock sighash pre_action;
               HashAddSeparator HashBlock sighash
             })
        }))"

definition input_signature ::
  "platform \<Rightarrow> world \<Rightarrow> u32 list \<Rightarrow> u8 list \<Rightarrow> NodeData \<Rightarrow> caches \<Rightarrow> (digest \<times> caches) outcome" where
  "input_signature pl w exts garbage nd ca =
     and_then (sign_action nd (HashInit HashInitImpl garbage)) (\<lambda>sighash.
     and_then (sign_inputs pl w exts garbage (nd_Scanner nd) (nd_InputFiles nd) (sighash, ca)) (\<lambda>(sighash, ca).
     and_then (lift (HashFinalize HashBlock HashFinalizeImpl sighash)) (\<lambda>signature.
       Some (Inr (signature, ca)))))"

fun OutputFilesMissing_loop :: "bool \<Rightarrow> world \<Rightarrow> file_and_hash list \<Rightarrow> StatCache \<Rightarrow> (bool \<times> StatCache) option" where
  "OutputFilesMissing_loop nocase w [] stat_cache = Some (False, stat_cache)"
| "OutputFilesMissing_loop nocase w (f # fs) stat_cache =
     (case StatCacheStat nocase w stat_cache (fst f) (snd f) of
        None \<Rightarrow> None
      | Some (i, stat_cache) \<Rightarrow>
          if \<not> Exists i then Some (True, stat_cache) else OutputFilesMissing_loop nocase w fs stat_cache)"

definition OutputFilesMissing :: "bool \<Rightarrow> world \<Rightarrow> StatCache \<Rightarrow> NodeData \<Rightarrow> (bool \<times> StatCache) option" where
  "OutputFilesMissing nocase w stat_cache nd = OutputFilesMissing_loop nocase w (nd_OutputFiles nd) stat_cache"

text \<open>
  The function between releasing and taking the lock; it sets the signature of the node and returns
  the next progress. The output files are looked at only if everything else is up to date.
\<close>

definition CheckInputSignature ::
  "platform \<Rightarrow> world \<Rightarrow> u32 list \<Rightarrow> u8 list \<Rightarrow> NodeData \<Rightarrow> NodeStateData option \<Rightarrow> caches
     \<Rightarrow> (digest \<times> BuildProgress \<times> caches) outcome" where
  "CheckInputSignature pl w exts garbage nd prev_state ca =
     and_then (input_signature pl w exts garbage nd ca) (\<lambda>(signature, ca).
       case prev_state of
         None \<Rightarrow> Some (Inr (signature, kRunAction, ca))
       | Some prev \<Rightarrow>
           if sd_InputSignature prev \<noteq> signature then Some (Inr (signature, kRunAction, ca))
           else if sd_BuildResult prev \<noteq> 0 then Some (Inr (signature, kRunAction, ca))
           else if OutputFilesDiffer nd prev then Some (Inr (signature, kRunAction, ca))
           else and_then (lift (OutputFilesMissing (pl_nocase pl) w (ca_StatCache ca) nd)) (\<lambda>(missing, stat_cache).
                  Some (Inr (signature, if missing then kRunAction else kUpToDate, ca\<lparr>ca_StatCache := stat_cache\<rparr>))))"

section \<open>Specification\<close>

text \<open>What is hashed: the command lines, and name and contents of every file the node depends on.\<close>

definition file_line :: "platform \<Rightarrow> world \<Rightarrow> u32 list \<Rightarrow> string \<Rightarrow> u8 list" where
  "file_line pl w exts f = canon (pl_nocase pl) f @ file_signature w exts f"

definition input_files :: "platform \<Rightarrow> (string \<Rightarrow> string list) \<Rightarrow> ScannerData option \<Rightarrow> string \<Rightarrow> string list" where
  "input_files pl incs scanner f =
     f # (if scanner = None then [] else map fst (the (implicit_deps (pl_nocase pl) incs f)))"

definition action_message :: "NodeData \<Rightarrow> u8 list" where
  "action_message nd = T2_Hash.bytes_of (the (nd_Action nd)) @ [0] @
     (case nd_PreAction nd of None \<Rightarrow> [] | Some pre \<Rightarrow> T2_Hash.bytes_of pre @ [0])"

definition node_message :: "platform \<Rightarrow> world \<Rightarrow> u32 list \<Rightarrow> (string \<Rightarrow> string list) \<Rightarrow> NodeData \<Rightarrow> u8 list" where
  "node_message pl w exts incs nd = action_message nd @
     concat (map (file_line pl w exts) (concat (map (\<lambda>f. input_files pl incs (nd_Scanner nd) (fst f)) (nd_InputFiles nd))))"

text \<open>What the functions rely on.\<close>

definition caches_coherent :: "platform \<Rightarrow> world \<Rightarrow> ScannerData option \<Rightarrow> (string \<Rightarrow> string list) \<Rightarrow> string set \<Rightarrow> caches \<Rightarrow> bool" where
  "caches_coherent pl w scanner incs F ca \<longleftrightarrow> stat_coherent w (ca_StatCache ca) \<and>
     digest_coherent (pl_nocase pl) w (ca_DigestCache ca) \<and>
     (\<forall>config. scanner = Some config \<longrightarrow> scan_coherent (pl_nocase pl) w config incs F (ca_ScanCache ca))"

definition inputs_ok :: "platform \<Rightarrow> world \<Rightarrow> ScannerData option \<Rightarrow> (string \<Rightarrow> string list) \<Rightarrow> string set \<Rightarrow> file_and_hash list \<Rightarrow> bool" where
  "inputs_ok pl w scanner incs F files \<longleftrightarrow> same_files (pl_nocase pl) w \<and> (\<forall>f \<in> set files. snd f \<noteq> 0) \<and>
     (\<forall>config. scanner = Some config \<longrightarrow> files_ok pl w config incs F \<and> fst ` set files \<subseteq> F)"

section \<open>Signatures\<close>

lemma and_then_simps [simp]: "and_then (Some (Inr x)) f = f x" "and_then (lift (Some x)) f = f x"
  by (simp_all add: and_then_def attempt_def lift_def)

lemma sign_file_ok:
  assumes "same_files (pl_nocase pl) w" "snd f \<noteq> 0" "length garbage = 64" "fed msg h" "caches_coherent pl w scanner incs F ca"
  shows "\<exists>h' ca'. sign_file pl w exts garbage f (h, ca) = Some (h', ca') \<and> fed (msg @ file_line pl w exts (fst f)) h' \<and>
    caches_coherent pl w scanner incs F ca'"
proof -
  have st: "stat_coherent w (ca_StatCache ca)" and dg: "digest_coherent (pl_nocase pl) w (ca_DigestCache ca)"
    using assms(5) by (simp_all add: caches_coherent_def)
  obtain h1 where h1: "HashAddPath (pl_nocase pl) HashBlock h (fst f) = Some h1" "fed (msg @ canon (pl_nocase pl) (fst f)) h1"
    using HashAddPath_fast [OF assms(4)] by blast
  obtain h2 sc dc where "ComputeFileSignature (pl_nocase pl) w garbage h1 (ca_StatCache ca) (ca_DigestCache ca) (fst f) (snd f) exts = Some (h2, sc, dc)"
      "fed ((msg @ canon (pl_nocase pl) (fst f)) @ file_signature w exts (fst f)) h2" "stat_coherent w sc" "digest_coherent (pl_nocase pl) w dc"
    using ComputeFileSignature_ok [OF st dg assms(1,2,3) h1(2)] by blast
  then show ?thesis using h1(1) assms(5) by (simp add: sign_file_def file_line_def caches_coherent_def)
qed

lemma sign_files_ok:
  assumes "same_files (pl_nocase pl) w" "\<forall>f \<in> set fs. snd f \<noteq> 0" "length garbage = 64" "fed msg h" "caches_coherent pl w scanner incs F ca"
  shows "\<exists>h' ca'. sign_files pl w exts garbage fs (h, ca) = Some (h', ca') \<and>
    fed (msg @ concat (map (file_line pl w exts) (map fst fs))) h' \<and> caches_coherent pl w scanner incs F ca'"
  using assms(2,4,5)
proof (induction fs arbitrary: msg h ca)
  case (Cons f fs)
  obtain h1 ca1 where f: "sign_file pl w exts garbage f (h, ca) = Some (h1, ca1)" "fed (msg @ file_line pl w exts (fst f)) h1"
      "caches_coherent pl w scanner incs F ca1"
    using sign_file_ok [OF assms(1) _ assms(3) Cons.prems(2,3), of f exts] Cons.prems(1) by auto
  show ?case using Cons.IH [OF _ f(2,3)] Cons.prems(1) f(1) by simp
qed simp

lemma implicit_input_ok:
  assumes "inputs_ok pl w (Some config) incs F [f]" "caches_coherent pl w (Some config) incs F ca"
  shows "\<exists>files sc cs. ScanImplicitDeps pl w (ca_StatCache ca) (ca_ScanCache ca) config (fst f) = Some (Inr (files, sc, cs)) \<and>
    implicit_deps (pl_nocase pl) incs (fst f) = Some files \<and> (\<forall>g \<in> set files. snd g \<noteq> 0) \<and>
    caches_coherent pl w (Some config) incs F (ca\<lparr>ca_StatCache := sc, ca_ScanCache := cs\<rparr>)"
proof -
  have F: "files_ok pl w config incs F" "fst f \<in> F" using assms(1) by (simp_all add: inputs_ok_def)
  have coh: "stat_coherent w (ca_StatCache ca)" "scan_coherent (pl_nocase pl) w config incs F (ca_ScanCache ca)"
    using assms(2) by (simp_all add: caches_coherent_def)
  obtain files sc cs where s: "ScanImplicitDeps pl w (ca_StatCache ca) (ca_ScanCache ca) config (fst f) = Some (Inr (files, sc, cs))"
      "implicit_deps (pl_nocase pl) incs (fst f) = Some files" "\<forall>(f, h) \<in> set files. h = Djb2HashPath (pl_nocase pl) f"
      "stat_coherent w sc" "scan_coherent (pl_nocase pl) w config incs F cs"
    using ScanImplicitDeps_ok [OF F coh] by blast
  have "snd g \<noteq> 0" if "g \<in> set files" for g
    using s(3) that Djb2HashPath_nonzero [of "pl_nocase pl" "fst g"] by (cases g) auto
  then show ?thesis using s assms(2) by (simp add: caches_coherent_def)
qed

lemma sign_inputs_ok:
  assumes "inputs_ok pl w scanner incs F fs" "length garbage = 64" "fed msg h" "caches_coherent pl w scanner incs F ca"
  shows "\<exists>h' ca'. sign_inputs pl w exts garbage scanner fs (h, ca) = Some (Inr (h', ca')) \<and>
    fed (msg @ concat (map (file_line pl w exts) (concat (map (\<lambda>f. input_files pl incs scanner (fst f)) fs)))) h' \<and>
    caches_coherent pl w scanner incs F ca'"
  using assms(1,3,4)
proof (induction fs arbitrary: msg h ca)
  case (Cons f fs)
  have same: "same_files (pl_nocase pl) w" and hash: "snd f \<noteq> 0" and rest: "inputs_ok pl w scanner incs F fs"
    and one: "inputs_ok pl w scanner incs F [f]" using Cons.prems(1) by (simp_all add: inputs_ok_def)
  obtain h1 ca1 where f: "sign_file pl w exts garbage f (h, ca) = Some (h1, ca1)" "fed (msg @ file_line pl w exts (fst f)) h1"
      "caches_coherent pl w scanner incs F ca1"
    using sign_file_ok [OF same hash assms(2) Cons.prems(2,3), of exts] by blast
  show ?case
  proof (cases scanner)
    case None
    show ?thesis using Cons.IH [OF rest f(2,3)] f(1) None by (simp add: input_files_def)
  next
    case (Some config)
    obtain files sc cs where d: "ScanImplicitDeps pl w (ca_StatCache ca1) (ca_ScanCache ca1) config (fst f) = Some (Inr (files, sc, cs))"
        "implicit_deps (pl_nocase pl) incs (fst f) = Some files" "\<forall>g \<in> set files. snd g \<noteq> 0"
        "caches_coherent pl w scanner incs F (ca1\<lparr>ca_StatCache := sc, ca_ScanCache := cs\<rparr>)"
      using implicit_input_ok [of pl w config incs F f ca1] one f(3) unfolding Some by blast
    obtain h2 ca2 where g: "sign_files pl w exts garbage files (h1, ca1\<lparr>ca_StatCache := sc, ca_ScanCache := cs\<rparr>) = Some (h2, ca2)"
        "fed ((msg @ file_line pl w exts (fst f)) @ concat (map (file_line pl w exts) (map fst files))) h2"
        "caches_coherent pl w scanner incs F ca2"
      using sign_files_ok [OF same d(3) assms(2) f(2) d(4), of exts] by blast
    show ?thesis using Cons.IH [OF rest g(2,3)] f(1) d(1,2) g(1) Some by (simp add: input_files_def)
  qed
qed simp

lemma sign_action_ok:
  assumes "nd_Action nd \<noteq> None" "fed [] h"
  shows "\<exists>h'. sign_action nd h = Some (Inr h') \<and> fed (action_message nd) h'"
proof -
  obtain a where a: "nd_Action nd = Some a" using assms(1) by blast
  obtain h1 where h1: "HashUpdate HashBlock h (T2_Hash.bytes_of a) = Some h1" "fed ([] @ T2_Hash.bytes_of a) h1"
    using fast.upd_fed [OF assms(2)] by blast
  obtain h2 where h2: "HashUpdate HashBlock h1 [0] = Some h2" "fed (([] @ T2_Hash.bytes_of a) @ [0]) h2"
    using fast.upd_fed [OF h1(2)] by blast
  show ?thesis
  proof (cases "nd_PreAction nd")
    case None
    then show ?thesis using a h1 h2 by (simp add: sign_action_def action_message_def HashAddString_def HashAddSeparator_def lift_def)
  next
    case (Some p)
    obtain h3 where h3: "HashUpdate HashBlock h2 (T2_Hash.bytes_of p) = Some h3"
        "fed ((([] @ T2_Hash.bytes_of a) @ [0]) @ T2_Hash.bytes_of p) h3" using fast.upd_fed [OF h2(2)] by blast
    obtain h4 where "HashUpdate HashBlock h3 [0] = Some h4"
        "fed (((([] @ T2_Hash.bytes_of a) @ [0]) @ T2_Hash.bytes_of p) @ [0]) h4" using fast.upd_fed [OF h3(2)] by blast
    then show ?thesis using a h1 h2 h3 Some
      by (simp add: sign_action_def action_message_def HashAddString_def HashAddSeparator_def lift_def)
  qed
qed

lemma input_signature_ok:
  assumes "nd_Action nd \<noteq> None" "length garbage = 64" "inputs_ok pl w (nd_Scanner nd) incs F (nd_InputFiles nd)"
    "caches_coherent pl w (nd_Scanner nd) incs F ca"
  shows "\<exists>ca'. input_signature pl w exts garbage nd ca = Some (Inr (fast_digest (node_message pl w exts incs nd), ca')) \<and>
    caches_coherent pl w (nd_Scanner nd) incs F ca'"
proof -
  obtain h1 where h1: "sign_action nd (HashInit HashInitImpl garbage) = Some (Inr h1)" "fed (action_message nd) h1"
    using sign_action_ok [OF assms(1) HashInit_consumed [OF assms(2)]] by blast
  obtain h2 ca' where h2: "sign_inputs pl w exts garbage (nd_Scanner nd) (nd_InputFiles nd) (h1, ca) = Some (Inr (h2, ca'))"
      "fed (node_message pl w exts incs nd) h2" "caches_coherent pl w (nd_Scanner nd) incs F ca'"
    using sign_inputs_ok [OF assms(3,2) h1(2) assms(4), of exts] unfolding node_message_def by blast
  show ?thesis using h1(1) h2(1,3) fast.finalize_fed [OF h2(2)] by (simp add: input_signature_def)
qed

lemma OutputFilesMissing_ok:
  assumes "stat_coherent w sc" "same_files nocase w" "\<forall>f \<in> set fs. snd f \<noteq> 0"
  shows "\<exists>sc'. OutputFilesMissing_loop nocase w fs sc = Some (\<exists>f \<in> set fs. \<not> Exists (GetFileInfo w (fst f)), sc') \<and> stat_coherent w sc'"
  using assms(1,3)
proof (induction fs arbitrary: sc)
  case (Cons f fs)
  obtain sc1 where sc1: "StatCacheStat nocase w sc (fst f) (snd f) = Some (GetFileInfo w (fst f), sc1)" "stat_coherent w sc1"
    using StatCacheStat_ok [OF Cons.prems(1) assms(2), of "snd f"] Cons.prems(2) by auto
  show ?case using Cons.IH [OF sc1(2)] Cons.prems(2) sc1 by auto
qed simp

lemma OutputFilesDiffer_names:
  "OutputFilesDiffer nd prev \<longleftrightarrow> map (c_str \<circ> fst) (nd_OutputFiles nd) \<noteq> map c_str (sd_OutputFiles prev)"
proof -
  have "list_all2 (\<lambda>f p. c_str (fst f) = c_str p) xs ys \<longleftrightarrow> map (c_str \<circ> fst) xs = map c_str ys" for xs :: "file_and_hash list" and ys
    by (simp add: list.rel_eq [symmetric] list_all2_map1 list_all2_map2)
  moreover have "map (c_str \<circ> fst) xs = map c_str ys \<Longrightarrow> length xs = length ys" for xs :: "file_and_hash list" and ys
    using map_eq_imp_length_eq by blast
  ultimately show ?thesis unfolding OutputFilesDiffer_def by blast
qed

section \<open>When a node is up to date\<close>

text \<open>
  C7: The input signature of a node is the digest of its command lines and of the name and the
  contents (or time stamp) of every input file and every file that those include. Caches
  that agree with the file system do not influence it. The node is up to date exactly if it was
  built before with this signature, without failure and with the same output files, and all its
  output files exist; otherwise its action is run.
\<close>

theorem CheckInputSignature_up_to_date:
  assumes "nd_Action nd \<noteq> None" "length garbage = 64" "inputs_ok pl w (nd_Scanner nd) incs F (nd_InputFiles nd)"
    and "caches_coherent pl w (nd_Scanner nd) incs F ca" "\<forall>f \<in> set (nd_OutputFiles nd). snd f \<noteq> 0"
  shows "\<exists>ca'. CheckInputSignature pl w exts garbage nd prev_state ca =
      Some (Inr (fast_digest (node_message pl w exts incs nd),
        if \<exists>prev. prev_state = Some prev \<and> sd_InputSignature prev = fast_digest (node_message pl w exts incs nd) \<and>
             sd_BuildResult prev = 0 \<and> map (c_str \<circ> fst) (nd_OutputFiles nd) = map c_str (sd_OutputFiles prev) \<and>
             (\<forall>f \<in> set (nd_OutputFiles nd). Exists (GetFileInfo w (fst f)))
        then kUpToDate else kRunAction, ca')) \<and>
    caches_coherent pl w (nd_Scanner nd) incs F ca'"
proof -
  let ?sig = "fast_digest (node_message pl w exts incs nd)"
  obtain ca1 where ca1: "input_signature pl w exts garbage nd ca = Some (Inr (?sig, ca1))" "caches_coherent pl w (nd_Scanner nd) incs F ca1"
    using input_signature_ok [OF assms(1-4)] by blast
  have st: "stat_coherent w (ca_StatCache ca1)" "same_files (pl_nocase pl) w"
    using ca1(2) assms(3) by (simp_all add: caches_coherent_def inputs_ok_def)
  obtain sc where sc: "OutputFilesMissing (pl_nocase pl) w (ca_StatCache ca1) nd =
      Some (\<exists>f \<in> set (nd_OutputFiles nd). \<not> Exists (GetFileInfo w (fst f)), sc)" "stat_coherent w sc"
    using OutputFilesMissing_ok [OF st assms(5)] by (auto simp: OutputFilesMissing_def)
  have differ: "OutputFilesDiffer nd prev \<longleftrightarrow> map (c_str \<circ> fst) (nd_OutputFiles nd) \<noteq> map c_str (sd_OutputFiles prev)" for prev
    by (simp only: OutputFilesDiffer_names)
  have ca2: "caches_coherent pl w (nd_Scanner nd) incs F (ca1\<lparr>ca_StatCache := sc\<rparr>)"
    using ca1(2) sc(2) by (simp add: caches_coherent_def)
  show ?thesis
    using ca1 ca2 sc(1) by (cases prev_state) (auto simp: CheckInputSignature_def differ)
qed

section \<open>An example\<close>

definition ex_cc :: "file_and_hash list \<Rightarrow> NodeData" where
  "ex_cc outputs = \<lparr>nd_Action = Some ''cc a.c'', nd_PreAction = None, nd_Annotation = None, nd_PassIndex = 0, nd_Dependencies = [],
     nd_BackLinks = [], nd_InputFiles = [(''a.c'', Djb2HashPath False ''a.c'')], nd_OutputFiles = outputs, nd_AuxOutputFiles = [],
     nd_EnvVars = [], nd_Scanner = Some ex_cpp, nd_Flags = 0\<rparr>"

definition ex_caches :: caches where
  "ex_caches = \<lparr>ca_StatCache = StatCacheInit, ca_DigestCache = DigestCacheInit 0, ca_ScanCache = ScanCacheInit\<rparr>"

lemma ex_caches_coherent: "caches_coherent ex_pl ex_files (Some ex_cpp) ex_incs {''a.c'', ''b.h''} ex_caches"
proof -
  have "digest_coherent nocase w (DigestCacheInit 0)" for nocase w
    unfolding digest_coherent_def using digest_ok_init by simp
  then show ?thesis by (simp add: caches_coherent_def ex_caches_def stat_coherent_init)
qed

lemma ex_inputs_ok: "inputs_ok ex_pl ex_files (Some ex_cpp) ex_incs {''a.c'', ''b.h''} [(''a.c'', Djb2HashPath False ''a.c'')]"
proof -
  have "same_files (pl_nocase ex_pl) ex_files" using ex_files_ok unfolding files_ok_def by blast
  then show ?thesis unfolding inputs_ok_def using ex_files_ok Djb2HashPath_nonzero by simp
qed

text \<open>With the right signature the node is up to date, unless an output file is missing.\<close>

theorem CheckInputSignature_up_to_date_witness:
  "let sig = (\<lambda>outputs. fast_digest (node_message ex_pl ex_files [] ex_incs (ex_cc outputs)));
       prev = (\<lambda>outputs. \<lparr>sd_BuildResult = 0, sd_InputSignature = sig outputs, sd_OutputFiles = map fst outputs, sd_AuxOutputFiles = []\<rparr>);
       check = (\<lambda>outputs. CheckInputSignature ex_pl ex_files [] (replicate 64 0) (ex_cc outputs) (Some (prev outputs)) ex_caches)
   in (\<exists>ca'. check [(''b.h'', 1)] = Some (Inr (sig [(''b.h'', 1)], kUpToDate, ca'))) \<and>
      (\<exists>ca'. check [(''a.o'', 1)] = Some (Inr (sig [(''a.o'', 1)], kRunAction, ca')))"
proof -
  have gone: "\<not> Exists (GetFileInfo ex_files ''a.o'')" by code_simp
  have hyps: "nd_Action (ex_cc outputs) \<noteq> None" "nd_Scanner (ex_cc outputs) = Some ex_cpp"
    "nd_InputFiles (ex_cc outputs) = [(''a.c'', Djb2HashPath False ''a.c'')]" "nd_OutputFiles (ex_cc outputs) = outputs" for outputs
    by (simp_all add: ex_cc_def)
  note ok = CheckInputSignature_up_to_date [of "ex_cc outputs" "replicate 64 0" ex_pl ex_files ex_incs "{''a.c'', ''b.h''}" ex_caches "[]" for outputs,
      unfolded hyps, OF hyps(1) length_replicate ex_inputs_ok ex_caches_coherent]
  show ?thesis
    using ok [of "[(''b.h'', 1)]" "Some \<lparr>sd_BuildResult = 0, sd_InputSignature =
        fast_digest (node_message ex_pl ex_files [] ex_incs (ex_cc [(''b.h'', 1)])), sd_OutputFiles = [''b.h''], sd_AuxOutputFiles = []\<rparr>"]
      ok [of "[(''a.o'', 1)]" "Some \<lparr>sd_BuildResult = 0, sd_InputSignature =
        fast_digest (node_message ex_pl ex_files [] ex_incs (ex_cc [(''a.o'', 1)])), sd_OutputFiles = [''a.o''], sd_AuxOutputFiles = []\<rparr>"]
      ex_exists(2) gone
    unfolding Let_def by auto
qed

end
