(* ===== verification/T2_RunAction.thy ===== *)
theory T2_RunAction
  imports T2_NodeCheck T2_StaleOutputs "HOL-Library.Sublist"
begin

text \<open>
  Model of the part of \<open>RunAction\<close> in \<open>src/BuildQueue.cpp\<close> that follows the release of the queue
  lock: creating the directories of the outputs, removing old outputs, running the processes and
  cleaning up after a failure. What the operating system does is a parameter: \<open>mkdir\<close>, \<open>remove\<close>,
  \<open>stat\<close> and the execution of a command line, on a state of the world of any type. Messages are
  not modelled; the clean-up after a failure takes the lock back first, which nothing depends on.
\<close>

section \<open>Definitions\<close>

record ExecResult =
  er_ReturnCode :: int
  er_WasSignalled :: bool

text \<open>
  \<open>sys_mkdir\<close> returns 0 or the error number; \<open>sys_exec\<close> gets the arguments of \<open>ExecuteProcess\<close>.
\<close>

record 'w system =
  sys_world :: "'w \<Rightarrow> world"
  sys_mkdir :: "string \<Rightarrow> 'w \<Rightarrow> int \<times> 'w"
  sys_remove :: "'w remove"
  sys_exec :: "string \<Rightarrow> (string \<times> string) list \<Rightarrow> nat \<Rightarrow> bool \<Rightarrow> string option \<Rightarrow> 'w \<Rightarrow> ExecResult \<times> 'w"

definition EEXIST :: int where "EEXIST = 17"

definition MakeDirectory :: "'w system \<Rightarrow> string \<Rightarrow> 'w \<Rightarrow> bool \<times> 'w" where
  "MakeDirectory sys path w = (let (rc, w') = sys_mkdir sys path w in (0 = rc \<or> EEXIST = rc, w'))"

definition make_missing :: "platform \<Rightarrow> 'w system \<Rightarrow> string \<Rightarrow> StatCache \<times> 'w \<Rightarrow> (bool \<times> StatCache \<times> 'w) outcome" where
  "make_missing pl sys path = (\<lambda>(stat_cache, w).
     and_then (lift (StatCacheStat_path (pl_nocase pl) (sys_world sys w) stat_cache path)) (\<lambda>(info, stat_cache).
       if Exists info then Some (Inr (True, stat_cache, w))
       else let (success, w) = MakeDirectory sys path w
            in and_then (lift (StatCacheMarkDirty (pl_nocase pl) stat_cache path (Djb2HashPath (pl_nocase pl) path)))
                 (\<lambda>stat_cache. Some (Inr (success, stat_cache, w)))))"

lemma PathBuffer_eq_refl: "PathBuffer_eq b b = Inr True"
  by (auto simp: PathBuffer_eq_def SegLength_def)

function MakeDirectoriesRecursive ::
  "platform \<Rightarrow> 'w system \<Rightarrow> PathBuffer \<Rightarrow> StatCache \<times> 'w \<Rightarrow> (bool \<times> StatCache \<times> 'w) outcome" where
  "MakeDirectoriesRecursive pl sys dir st =
     (let parent_dir = fst (PathStripLast dir)
      in case PathBuffer_eq dir parent_dir of
           Inl e \<Rightarrow> Some (Inl e)
         | Inr True \<Rightarrow> Some (Inr (True, st))
         | Inr False \<Rightarrow>
             and_then (MakeDirectoriesRecursive pl sys parent_dir st) (\<lambda>(success, st).
               if \<not> success then Some (Inr (False, st))
               else attempt (PathFormat dir) (\<lambda>path. make_missing pl sys path st)))"
  by pat_completeness auto
termination
proof (relation "measure (\<lambda>(_, _, dir, _). pb_SegCount dir)", goal_cases)
  case (2 pl sys dir st parent_dir)
  then have "PathBuffer_eq dir (fst (PathStripLast dir)) = Inr False" by simp
  then have "fst (PathStripLast dir) \<noteq> dir" using PathBuffer_eq_refl [of dir] by auto
  then show ?case using 2(1) by (auto simp: PathStripLast_def Let_def split: if_splits)
qed simp

declare MakeDirectoriesRecursive.simps [simp del]

definition MakeDirectoriesForFile ::
  "platform \<Rightarrow> 'w system \<Rightarrow> PathBuffer \<Rightarrow> StatCache \<times> 'w \<Rightarrow> (bool \<times> StatCache \<times> 'w) outcome" where
  "MakeDirectoriesForFile pl sys buffer st = MakeDirectoriesRecursive pl sys (fst (PathStripLast buffer)) st"

fun make_directories ::
  "platform \<Rightarrow> 'w system \<Rightarrow> file_and_hash list \<Rightarrow> StatCache \<times> 'w \<Rightarrow> (bool \<times> StatCache \<times> 'w) outcome" where
  "make_directories pl sys [] st = Some (Inr (True, st))"
| "make_directories pl sys (output_file # output_files) st =
     attempt (PathInit (pl_uninit pl) (fst output_file) (pl_native pl)) (\<lambda>path.
       and_then (MakeDirectoriesForFile pl sys path st) (\<lambda>(success, st).
         if \<not> success then Some (Inr (False, st)) else make_directories pl sys output_files st))"

fun mark_outputs :: "bool \<Rightarrow> file_and_hash list \<Rightarrow> StatCache \<Rightarrow> StatCache option" where
  "mark_outputs nocase [] stat_cache = Some stat_cache"
| "mark_outputs nocase (f # fs) stat_cache = do {
     stat_cache \<leftarrow> StatCacheMarkDirty nocase stat_cache (fst f) (snd f);
     mark_outputs nocase fs stat_cache
   }"

fun remove_outputs :: "bool \<Rightarrow> 'w system \<Rightarrow> file_and_hash list \<Rightarrow> StatCache \<times> 'w \<Rightarrow> (StatCache \<times> 'w) option" where
  "remove_outputs nocase sys [] st = Some st"
| "remove_outputs nocase sys (f # fs) (stat_cache, w) = do {
     let w = snd (sys_remove sys (fst f) w);
     stat_cache \<leftarrow> StatCacheMarkDirty nocase stat_cache (fst f) (snd f);
     remove_outputs nocase sys fs (stat_cache, w)
   }"

text \<open>The pre-action, and the action unless the pre-action failed.\<close>

definition run_commands ::
  "'w system \<Rightarrow> nat \<Rightarrow> bool \<Rightarrow> bool \<Rightarrow> NodeData \<Rightarrow> string \<Rightarrow> 'w \<Rightarrow> ExecResult \<times> 'w" where
  "run_commands sys job_id echo_annotations echo_cmdline nd cmd_line w =
     (let result = \<lparr>er_ReturnCode = 0, er_WasSignalled = False\<rparr>;
          (result, w) = (case nd_PreAction nd of
             None \<Rightarrow> (result, w)
           | Some pre_cmd_line \<Rightarrow> sys_exec sys pre_cmd_line (nd_EnvVars nd) job_id echo_cmdline
               (if echo_annotations then Some ''(pre-build command)'' else None) w)
      in if 0 = er_ReturnCode result
         then sys_exec sys cmd_line (nd_EnvVars nd) job_id echo_cmdline
                (if echo_annotations then nd_Annotation nd else None) w
         else (result, w))"

text \<open>The result holds whether \<open>SignalSet\<close> is called.\<close>

definition RunAction_unlocked ::
  "platform \<Rightarrow> 'w system \<Rightarrow> nat \<Rightarrow> bool \<Rightarrow> bool \<Rightarrow> NodeData \<Rightarrow> string \<Rightarrow> StatCache \<times> 'w
     \<Rightarrow> (BuildProgress \<times> bool \<times> StatCache \<times> 'w) outcome" where
  "RunAction_unlocked pl sys job_id echo_annotations echo_cmdline nd cmd_line st =
     and_then (make_directories pl sys (nd_OutputFiles nd) st) (\<lambda>(success, st).
       if \<not> success then Some (Inr (kFailed, False, st))
       else and_then (lift (if 0 = nd_Flags nd AND kFlagOverwriteOutputs
                            then remove_outputs (pl_nocase pl) sys (nd_OutputFiles nd) st else Some st)) (\<lambda>(stat_cache, w).
         let (result, w) = run_commands sys job_id echo_annotations echo_cmdline nd cmd_line w
         in and_then (lift (mark_outputs (pl_nocase pl) (nd_OutputFiles nd) stat_cache)) (\<lambda>stat_cache.
              if 0 = er_ReturnCode result then Some (Inr (kSucceeded, er_WasSignalled result, stat_cache, w))
              else and_then (lift (if 0 = kFlagPreciousOutputs AND nd_Flags nd
                                   then remove_outputs (pl_nocase pl) sys (nd_OutputFiles nd) (stat_cache, w)
                                   else Some (stat_cache, w)))
                     (\<lambda>st. Some (Inr (kFailed, er_WasSignalled result, st))))))"

section \<open>Specification\<close>

abbreviation present :: "'w system \<Rightarrow> 'w \<Rightarrow> string \<Rightarrow> bool" where
  "present sys w path \<equiv> Exists (GetFileInfo (sys_world sys w) path)"

text \<open>
  What is assumed of the operating system: a directory that \<open>mkdir\<close> created or found is there, a
  file that \<open>remove\<close> reports as removed is gone (it may fail on any file), and nothing disappears by
  creating a directory or appears by removing a file.
\<close>

definition system_ok :: "bool \<Rightarrow> 'w system \<Rightarrow> bool" where
  "system_ok nocase sys \<longleftrightarrow> (\<forall>w. same_files nocase (sys_world sys w)) \<and>
     (\<forall>w p. fst (MakeDirectory sys p w) \<longrightarrow> present sys (snd (MakeDirectory sys p w)) p) \<and>
     (\<forall>w p q. present sys w q \<longrightarrow> present sys (snd (MakeDirectory sys p w)) q) \<and>
     (\<forall>w p. fst (sys_remove sys p w) = 0 \<longrightarrow> \<not> present sys (snd (sys_remove sys p w)) p) \<and>
     (\<forall>w p q. present sys (snd (sys_remove sys p w)) q \<longrightarrow> present sys w q)"

text \<open>Calls of the operating system on one path after the other: what they returned, and the world after them.\<close>

fun calls :: "(string \<Rightarrow> 'w \<Rightarrow> 'r \<times> 'w) \<Rightarrow> string list \<Rightarrow> 'w \<Rightarrow> 'r list \<times> 'w" where
  "calls call [] w = ([], w)"
| "calls call (p # ps) w = (let (r, w') = call p w; (rs, w'') = calls call ps w' in (r # rs, w''))"

lemma calls_append:
  assumes "calls call ps w = (rs, w')" "calls call qs w' = (rs', w'')"
  shows "calls call (ps @ qs) w = (rs @ rs', w'')"
  using assms by (induction ps arbitrary: w rs) (auto simp: Let_def split: prod.splits)

text \<open>A stat cache that believes in no file that has gone; it may have missed new files.\<close>

definition stat_sound :: "world \<Rightarrow> StatCache \<Rightarrow> bool" where
  "stat_sound w t \<longleftrightarrow> ht_wf t \<and> (\<forall>e \<in> set (entries (slots t)).
     fi_Flags (the (snd (snd e))) AND kFlagDirty = 0 \<longrightarrow> Exists (the (snd (snd e))) \<longrightarrow> Exists (GetFileInfo w (fst (snd e))))"

section \<open>The stat cache\<close>

lemma attempt_Inr [simp]: "attempt (Inr x) f = f x"
  by (simp add: attempt_def)

lemma coherent_sound: "stat_coherent w t \<Longrightarrow> stat_sound w t"
  unfolding stat_coherent_def stat_sound_def by metis

lemma StatCacheMarkDirty_entries:
  assumes "ht_wf t" "hash \<noteq> 0"
  shows "\<exists>t'. StatCacheMarkDirty nocase t path hash = Some t' \<and> ht_wf t' \<and>
    (\<forall>e \<in> set (entries (slots t')). e \<in> set (entries (slots t)) \<or> fi_Flags (the (snd (snd e))) = kFlagDirty)"
  using assms
proof (rule HashTableLookup_slot [of t hash nocase path])
  assume "HashTableLookup nocase t hash path = Some None"
  then show ?thesis using assms(1) by (simp add: StatCacheMarkDirty_def)
next
  fix q v
  assume look: "HashTableLookup nocase t hash path = Some (Some q)" and q: "q < m_TableSize t"
  let ?v = "(the (m_Payloads t ! q))\<lparr>fi_Flags := kFlagDirty\<rparr>"
  have "set (slots (put_payload t q ?v)) \<subseteq> insert (fst (slots t ! q), fst (snd (slots t ! q)), Some ?v) (set (slots t))"
    unfolding slots_put [OF assms(1) q] by (rule set_update_subset_insert)
  then show ?thesis
    using put_payload_wf [OF assms(1) q] look by (auto simp: StatCacheMarkDirty_def)
qed

lemma StatCacheMarkDirty_sound:
  assumes "stat_sound w t" "hash \<noteq> 0" "\<forall>s. Exists (GetFileInfo w s) \<longrightarrow> Exists (GetFileInfo w' s)"
  shows "\<exists>t'. StatCacheMarkDirty nocase t path hash = Some t' \<and> stat_sound w' t'"
proof -
  have "ht_wf t" using assms(1) by (simp add: stat_sound_def)
  from StatCacheMarkDirty_entries [OF this assms(2)] obtain t' where
    t': "StatCacheMarkDirty nocase t path hash = Some t'" "ht_wf t'"
      "\<forall>e \<in> set (entries (slots t')). e \<in> set (entries (slots t)) \<or> fi_Flags (the (snd (snd e))) = kFlagDirty"
    by blast
  have "kFlagDirty AND kFlagDirty \<noteq> 0" by (simp add: kFlagDirty_def)
  then have "stat_sound w' t'" using assms(1,3) t'(2,3) unfolding stat_sound_def by metis
  then show ?thesis using t'(1) by blast
qed

lemma StatCacheStat_sound:
  assumes "stat_sound w t" "same_files nocase w" "hash \<noteq> 0"
  shows "\<exists>info t'. StatCacheStat nocase w t path hash = Some (info, t') \<and> stat_sound w t' \<and>
    (Exists info \<longrightarrow> Exists (GetFileInfo w path))"
proof -
  have wf: "ht_wf t" using assms(1) by (simp add: stat_sound_def)
  obtain t' where t': "HashTableInsert t hash path (GetFileInfo w path) = Some t'" "ht_wf t'"
      "mset (entries (slots t')) = add_mset (hash, path, Some (GetFileInfo w path)) (mset (entries (slots t)))"
    using HashTableInsert_entries [OF wf assms(3)] by blast
  have "set (entries (slots t')) = insert (hash, path, Some (GetFileInfo w path)) (set (entries (slots t)))"
    using arg_cong [OF t'(3), of set_mset] by simp
  then have sound: "stat_sound w t'" using t'(2) assms(1) unfolding stat_sound_def by simp
  from wf assms(3) show ?thesis
  proof (rule HashTableLookup_slot [of t hash nocase path])
    assume "HashTableLookup nocase t hash path = Some None"
    then show ?thesis using t'(1) sound by (simp add: StatCacheStat_def StatCacheInsert_def Let_def)
  next
    fix p v
    assume look: "HashTableLookup nocase t hash path = Some (Some p)" and e: "slots t ! p \<in> set (entries (slots t))"
      and key: "slot_key nocase (slots t ! p) = (hash, canon nocase path)"
      and v: "m_Payloads t ! p = Some v" "snd (snd (slots t ! p)) = Some v"
    have "canon nocase (fst (snd (slots t ! p))) = canon nocase path" using key by (simp add: slot_key_def)
    note same = GetFileInfo_same [OF assms(2) this]
    have "fi_Flags v AND kFlagDirty = 0 \<longrightarrow> Exists v \<longrightarrow> Exists (GetFileInfo w path)"
      using assms(1) e v(2) unfolding stat_sound_def same [symmetric] by (metis option.sel)
    then show ?thesis
      using t'(1) sound assms(1) look v(1) by (auto simp: StatCacheStat_def StatCacheInsert_def Let_def)
  qed
qed

section \<open>Directories\<close>

text \<open>The directory of the first \<open>k\<close> segments.\<close>

definition dir_text :: "PathBuffer \<Rightarrow> nat \<Rightarrow> string" where
  "dir_text b k = path_text (PathIsAbsolute b) (pb_LeadingDotDots b, take k (segs b))"

text \<open>The directories above a file, from the outermost one inwards.\<close>

definition parent_list :: "string \<Rightarrow> string list" where
  "parent_list path = map (\<lambda>k. path_text (is_absolute path) (fst (norm path), take k (snd (norm path)))) [1..<length (snd (norm path))]"

lemma set_parent_list: "set (parent_list path) = parent_dirs path"
  by (auto simp: parent_list_def parent_dirs_def)

text \<open>
  What creating the directories \<open>D\<close> does: \<open>mkdir\<close> is called for some of them, in this order and
  until the first failure, and nothing else happens to the world; the cache stays sound, nothing
  disappears, and without a failure all the directories are there.
\<close>

definition makes :: "'w system \<Rightarrow> string list \<Rightarrow> 'w \<Rightarrow> (bool \<times> StatCache \<times> 'w) outcome \<Rightarrow> bool" where
  "makes sys D w r \<longleftrightarrow> (\<exists>success sc' w' ds rs. r = Some (Inr (success, sc', w')) \<and> stat_sound (sys_world sys w') sc' \<and>
     (\<forall>q. present sys w q \<longrightarrow> present sys w' q) \<and> subseq ds D \<and> calls (MakeDirectory sys) ds w = (rs, w') \<and>
     (if success then False \<notin> set rs \<and> (\<forall>d \<in> set D. present sys w' d) else \<exists>n. rs = replicate n True @ [False]))"

lemma makesI:
  assumes "r = Some (Inr (success, sc', w'))" "stat_sound (sys_world sys w') sc'" "\<And>q. present sys w q \<Longrightarrow> present sys w' q"
    and "subseq ds D" "calls (MakeDirectory sys) ds w = (rs, w')"
    and "success \<Longrightarrow> False \<notin> set rs \<and> (\<forall>d \<in> set D. present sys w' d)" "\<not> success \<Longrightarrow> \<exists>n. rs = replicate n True @ [False]"
  shows "makes sys D w r"
  unfolding makes_def using assms
  by (intro exI [of _ success] exI [of _ sc'] exI [of _ w'] exI [of _ ds] exI [of _ rs]) simp

lemma strip_last:
  assumes "printable b" "pb_SegCount b = Suc n"
  defines "b' \<equiv> b\<lparr>pb_SegCount := n\<rparr>"
  shows "fst (PathStripLast b) = b'" "printable b'" "pb_SegCount b' = n" "PathBuffer_eq b b' = Inr False"
    "k \<le> n \<Longrightarrow> dir_text b' k = dir_text b k"
proof -
  show "fst (PathStripLast b) = b'" using assms(2) min_seg_count_unix [OF assms(1)] by (simp add: PathStripLast_def b'_def)
  show "printable b'" unfolding b'_def by (rule printable_strip [OF assms(1)]) (simp add: assms(2))
  show "pb_SegCount b' = n" "PathBuffer_eq b b' = Inr False" using assms(2) by (simp_all add: b'_def PathBuffer_eq_def)
  have "segs b' = take n (segs b)"
    using strip_path(2) [of b n] assms(1,2) by (simp add: b'_def printable_def vpath_def)
  then show "k \<le> n \<Longrightarrow> dir_text b' k = dir_text b k" by (simp add: dir_text_def b'_def PathIsAbsolute_def min_def)
qed

lemma make_missing_makes:
  assumes "system_ok (pl_nocase pl) sys" "stat_sound (sys_world sys w) sc"
  shows "makes sys [path] w (make_missing pl sys path (sc, w))"
proof -
  let ?w' = "snd (MakeDirectory sys path w)"
  have laws: "same_files (pl_nocase pl) (sys_world sys w)" "fst (MakeDirectory sys path w) \<longrightarrow> present sys ?w' path"
      "\<forall>q. present sys w q \<longrightarrow> present sys ?w' q"
    using assms(1) by (simp_all add: system_ok_def)
  have hash: "Djb2HashPath (pl_nocase pl) path \<noteq> 0" by simp
  obtain info sc1 where sc1: "StatCacheStat_path (pl_nocase pl) (sys_world sys w) sc path = Some (info, sc1)"
      "stat_sound (sys_world sys w) sc1" "Exists info \<longrightarrow> present sys w path"
    using StatCacheStat_sound [OF assms(2) laws(1) hash] unfolding StatCacheStat_path_def by blast
  obtain sc2 where sc2: "StatCacheMarkDirty (pl_nocase pl) sc1 path (Djb2HashPath (pl_nocase pl) path) = Some sc2"
      "stat_sound (sys_world sys ?w') sc2"
    using StatCacheMarkDirty_sound [OF sc1(2) hash laws(3)] by blast
  show ?thesis
  proof (cases "Exists info")
    case True
    then show ?thesis
      using sc1 by (intro makesI [of _ True sc1 w _ _ "[]" _ "[]"]) (simp_all add: make_missing_def)
  next
    case False
    define ok where "ok \<longleftrightarrow> fst (MakeDirectory sys path w)"
    have "ok \<longrightarrow> present sys ?w' path" using laws(2) by (simp only: ok_def)
    then show ?thesis
      using False sc1(1) sc2 laws(3)
      by (intro makesI [of _ ok sc2 ?w' _ _ "[path]" _ "[ok]"]) (simp_all add: make_missing_def split_beta Let_def ok_def)
  qed
qed

lemma makes_then:
  assumes "makes sys D w r" "\<And>sc' w'. stat_sound (sys_world sys w') sc' \<Longrightarrow> makes sys E w' (f (sc', w'))"
  shows "makes sys (D @ E) w (and_then r (\<lambda>(success, st). if \<not> success then Some (Inr (False, st)) else f st))"
proof -
  obtain success sc1 w1 ds rs where r: "r = Some (Inr (success, sc1, w1))" "stat_sound (sys_world sys w1) sc1"
      "\<forall>q. present sys w q \<longrightarrow> present sys w1 q" "subseq ds D" "calls (MakeDirectory sys) ds w = (rs, w1)"
      "if success then False \<notin> set rs \<and> (\<forall>d \<in> set D. present sys w1 d) else \<exists>n. rs = replicate n True @ [False]"
    using assms(1) unfolding makes_def by blast
  show ?thesis
  proof (cases success)
    case True
    obtain ok sc2 w2 es qs where f: "f (sc1, w1) = Some (Inr (ok, sc2, w2))" "stat_sound (sys_world sys w2) sc2"
        "\<forall>q. present sys w1 q \<longrightarrow> present sys w2 q" "subseq es E" "calls (MakeDirectory sys) es w1 = (qs, w2)"
        "if ok then False \<notin> set qs \<and> (\<forall>d \<in> set E. present sys w2 d) else \<exists>n. qs = replicate n True @ [False]"
      using assms(2) [OF r(2)] unfolding makes_def by blast
    have rs: "False \<notin> set rs" using r(6) True by simp
    then have all: "rs = replicate (length rs) True" by (metis (full_types) replicate_length_same)
    show ?thesis
    proof (rule makesI [of _ ok sc2 w2, OF _ f(2)])
      show "and_then r (\<lambda>(success, st). if \<not> success then Some (Inr (False, st)) else f st) = Some (Inr (ok, sc2, w2))"
        using True r(1) f(1) by simp
      show "present sys w q \<Longrightarrow> present sys w2 q" for q using r(3) f(3) by blast
      show "subseq (ds @ es) (D @ E)" using r(4) f(4) by (rule list_emb_append_mono)
      show "calls (MakeDirectory sys) (ds @ es) w = (rs @ qs, w2)" using r(5) f(5) by (rule calls_append)
      show "False \<notin> set (rs @ qs) \<and> (\<forall>d \<in> set (D @ E). present sys w2 d)" if ok using that True r(6) f(3,6) by auto
      show "\<exists>n. rs @ qs = replicate n True @ [False]" if "\<not> ok"
      proof -
        obtain n where "qs = replicate n True @ [False]" using f(6) \<open>\<not> ok\<close> by auto
        then have "rs @ qs = replicate (length rs + n) True @ [False]" using all by (simp add: replicate_add)
        then show ?thesis ..
      qed
    qed
  next
    case False
    have "subseq ds (D @ E)" using r(4) by (rule list_emb_prefix)
    then show ?thesis using False r by (intro makesI [of _ False sc1 w1 _ _ ds _ rs]) auto
  qed
qed

lemma MakeDirectoriesRecursive_makes:
  assumes "system_ok (pl_nocase pl) sys" "printable b" "stat_sound (sys_world sys w) sc"
  shows "makes sys (map (dir_text b) [1..<Suc (pb_SegCount b)]) w (MakeDirectoriesRecursive pl sys b (sc, w))"
  using assms(2,3)
proof (induction "pb_SegCount b" arbitrary: b sc w)
  case 0
  then have "PathBuffer_eq b (fst (PathStripLast b)) = Inr True" by (simp add: PathStripLast_def PathBuffer_eq_refl)
  then show ?case using 0 by (intro makesI [of _ True sc w _ _ "[]" _ "[]"]) (simp_all add: MakeDirectoriesRecursive.simps [of pl sys b])
next
  case (Suc n)
  let ?b = "b\<lparr>pb_SegCount := n\<rparr>"
  note b = strip_last [OF Suc.prems(1) Suc.hyps(2) [symmetric]]
  have fmt: "PathFormat b = Inr (dir_text b (Suc n))"
    using printable_format [OF Suc.prems(1)] Suc.prems(1) Suc.hyps(2) length_segs [of b]
    by (simp add: dir_text_def vpath_def printable_def)
  have same: "map (dir_text ?b) [1..<Suc n] = map (dir_text b) [1..<Suc n]"
    by (rule map_cong) (simp_all add: b(5) less_Suc_eq_le del: upt_Suc)
  have "makes sys (map (dir_text ?b) [1..<Suc n]) w (MakeDirectoriesRecursive pl sys ?b (sc, w))"
    using Suc.hyps(1) [of ?b] b(2,3) Suc.prems(2) by (simp del: upt_Suc)
  then have ih: "makes sys (map (dir_text b) [1..<Suc n]) w (MakeDirectoriesRecursive pl sys ?b (sc, w))" unfolding same .
  have range: "map (dir_text b) [1..<Suc (pb_SegCount b)] = map (dir_text b) [1..<Suc n] @ [dir_text b (Suc n)]"
    unfolding Suc.hyps(2) [symmetric] by simp
  show ?case
    unfolding range MakeDirectoriesRecursive.simps [of pl sys b] b(1,4) fmt attempt_Inr Let_def
    using makes_then [of _ _ _ _ _ "make_missing pl sys (dir_text b (Suc n))", OF ih make_missing_makes [OF assms(1)]]
    by simp
qed

lemma make_directories_makes:
  assumes "system_ok (pl_nocase pl) sys" "unix_platform pl" "\<forall>f \<in> set fs. path_fits (fst f)" "stat_sound (sys_world sys w) sc"
  shows "makes sys (concat (map (\<lambda>f. parent_list (fst f)) fs)) w (make_directories pl sys fs (sc, w))"
  using assms(3,4)
proof (induction fs arbitrary: sc w)
  case Nil
  then show ?case by (intro makesI [of _ True sc w _ _ "[]" _ "[]"]) simp_all
next
  case (Cons f fs)
  obtain b where b: "PathInit (pl_uninit pl) (fst f) (pl_native pl) = Inr b" "printable b" "vpath b = norm (fst f)"
      "PathIsAbsolute b = is_absolute (fst f)"
    using PathInit_printable [OF assms(2), of "fst f"] Cons.prems(1) by auto
  have dirs: "parent_list (fst f) = map (dir_text b) [1..<pb_SegCount b]"
    using b(2-4) length_segs [of b] by (auto simp: parent_list_def dir_text_def vpath_def printable_def prod_eq_iff)
  have "makes sys (parent_list (fst f)) w (MakeDirectoriesForFile pl sys b (sc, w))"
  proof (cases "pb_SegCount b")
    case 0
    then have "fst (PathStripLast b) = b" by (simp add: PathStripLast_def)
    then show ?thesis
      using MakeDirectoriesRecursive_makes [OF assms(1) b(2) Cons.prems(2)] 0 by (simp add: MakeDirectoriesForFile_def dirs)
  next
    case (Suc n)
    note s = strip_last [OF b(2) Suc]
    have "map (dir_text b) [1..<Suc n] = map (dir_text (b\<lparr>pb_SegCount := n\<rparr>)) [1..<Suc n]"
      by (rule map_cong) (simp_all add: s(5) less_Suc_eq_le del: upt_Suc)
    then show ?thesis
      using MakeDirectoriesRecursive_makes [OF assms(1) s(2) Cons.prems(2)] s(1,3)
      by (simp only: MakeDirectoriesForFile_def dirs Suc)
  qed
  moreover have "makes sys (concat (map (\<lambda>f. parent_list (fst f)) fs)) w' (make_directories pl sys fs (sc', w'))"
    if "stat_sound (sys_world sys w') sc'" for sc' w' using Cons.IH [OF _ that] Cons.prems(1) by simp
  ultimately show ?case
    using makes_then [of sys _ w _ _ "make_directories pl sys fs"] b(1) by simp
qed

section \<open>Outputs\<close>

text \<open>A name that the stat cache will not answer from an old entry.\<close>

definition marked :: "bool \<Rightarrow> StatCache \<Rightarrow> file_and_hash \<Rightarrow> bool" where
  "marked nocase t f \<longleftrightarrow> (\<forall>q. HashTableLookup nocase t (snd f) (fst f) = Some (Some q) \<longrightarrow>
     fi_Flags (the (m_Payloads t ! q)) AND kFlagDirty \<noteq> 0)"

lemma HashTableLookup_put [simp]: "HashTableLookup nocase (put_payload t q v) h s = HashTableLookup nocase t h s"
proof -
  have "m_Hashes (put_payload t q v) = m_Hashes t" "m_Strings (put_payload t q v) = m_Strings t" "m_TableSize (put_payload t q v) = m_TableSize t"
    by (simp_all add: put_payload_def)
  then show ?thesis by (simp only: HashTableLookup_def HashTableBaseLookup_def)
qed

lemma StatCacheMarkDirty_marked:
  assumes "ht_wf t" "hash \<noteq> 0"
  shows "\<exists>t'. StatCacheMarkDirty nocase t path hash = Some t' \<and> ht_wf t' \<and> marked nocase t' (path, hash) \<and>
    (\<forall>g. marked nocase t g \<longrightarrow> marked nocase t' g)"
  using assms
proof (rule HashTableLookup_slot [of t hash nocase path])
  assume "HashTableLookup nocase t hash path = Some None"
  then show ?thesis using assms(1) by (simp add: StatCacheMarkDirty_def marked_def)
next
  fix q v
  assume look: "HashTableLookup nocase t hash path = Some (Some q)" and q: "q < m_TableSize t"
  let ?t = "put_payload t q ((the (m_Payloads t ! q))\<lparr>fi_Flags := kFlagDirty\<rparr>)"
  have "q < length (m_Payloads t)" using assms(1) q by (simp add: ht_wf_def)
  then have "fi_Flags (the (m_Payloads ?t ! q')) AND kFlagDirty \<noteq> 0"
    if "q' = q \<or> fi_Flags (the (m_Payloads t ! q')) AND kFlagDirty \<noteq> 0" for q'
    using that by (cases "q' = q") (simp_all add: put_payload_def kFlagDirty_def)
  then have "marked nocase ?t (path, hash)" "marked nocase t g \<Longrightarrow> marked nocase ?t g" for g
    using look by (auto simp: marked_def)
  then show ?thesis using put_payload_wf [OF assms(1) q] look by (auto simp: StatCacheMarkDirty_def)
qed

lemma StatCacheStat_marked:
  assumes "ht_wf t" "marked nocase t f" "snd f \<noteq> 0"
  shows "\<exists>t'. StatCacheStat nocase w t (fst f) (snd f) = Some (GetFileInfo w (fst f), t')"
proof -
  obtain t' where t': "HashTableInsert t (snd f) (fst f) (GetFileInfo w (fst f)) = Some t'"
    using HashTableInsert_entries [OF assms(1,3)] by blast
  from assms(1,3) show ?thesis
    by (rule HashTableLookup_slot [of t "snd f" nocase "fst f"])
      (use t' assms(2) in \<open>auto simp: StatCacheStat_def StatCacheInsert_def Let_def marked_def\<close>)
qed

lemma mark_outputs_wf:
  "ht_wf sc \<Longrightarrow> \<forall>f \<in> set fs. snd f \<noteq> 0 \<Longrightarrow>
     \<exists>sc'. mark_outputs nocase fs sc = Some sc' \<and> ht_wf sc' \<and> (\<forall>g. marked nocase sc g \<or> g \<in> set fs \<longrightarrow> marked nocase sc' g)"
proof (induction fs arbitrary: sc)
  case (Cons f fs)
  obtain sc1 where sc1: "StatCacheMarkDirty nocase sc (fst f) (snd f) = Some sc1" "ht_wf sc1"
      "marked nocase sc1 f" "\<forall>g. marked nocase sc g \<longrightarrow> marked nocase sc1 g"
    using StatCacheMarkDirty_marked [OF Cons.prems(1), of "snd f" nocase "fst f"] Cons.prems(2) by auto
  then show ?case using Cons.IH [of sc1] Cons.prems(2) by fastforce
qed simp

lemma remove_outputs_wf:
  "ht_wf sc \<Longrightarrow> \<forall>f \<in> set fs. snd f \<noteq> 0 \<Longrightarrow>
     \<exists>sc'. remove_outputs nocase sys fs (sc, w) = Some (sc', snd (calls (sys_remove sys) (map fst fs) w)) \<and> ht_wf sc' \<and>
       (\<forall>g. marked nocase sc g \<longrightarrow> marked nocase sc' g)"
proof (induction fs arbitrary: sc w)
  case (Cons f fs)
  obtain sc1 where sc1: "StatCacheMarkDirty nocase sc (fst f) (snd f) = Some sc1" "ht_wf sc1"
      "\<forall>g. marked nocase sc g \<longrightarrow> marked nocase sc1 g"
    using StatCacheMarkDirty_marked [OF Cons.prems(1), of "snd f" nocase "fst f"] Cons.prems(2) by auto
  then show ?case
    using Cons.IH [of sc1 "snd (sys_remove sys (fst f) w)"] Cons.prems(2) by (auto simp: split_beta Let_def)
qed simp

text \<open>A removal that succeeded is final.\<close>

lemma calls_removed:
  assumes "system_ok nocase sys" "calls (sys_remove sys) ps w = (rcs, w')"
  shows "length rcs = length ps" "\<forall>(p, rc) \<in> set (zip ps rcs). rc = 0 \<longrightarrow> \<not> present sys w' p" "present sys w' q \<Longrightarrow> present sys w q"
proof -
  have gone: "rc = 0 \<Longrightarrow> \<not> present sys w1 p" and stays: "present sys w1 q \<Longrightarrow> present sys w q"
    if "sys_remove sys p w = (rc, w1)" for p q w w1 rc
    using assms(1) that unfolding system_ok_def by (metis fst_conv snd_conv)+
  have "length rcs = length ps \<and> (\<forall>(p, rc) \<in> set (zip ps rcs). rc = 0 \<longrightarrow> \<not> present sys w' p) \<and> (\<forall>q. present sys w' q \<longrightarrow> present sys w q)"
    using assms(2)
  proof (induction ps arbitrary: w rcs)
    case (Cons p ps)
    obtain rc w1 rcs1 where r: "sys_remove sys p w = (rc, w1)" "calls (sys_remove sys) ps w1 = (rcs1, w')" "rcs = rc # rcs1"
      using Cons.prems by (auto simp: Let_def split: prod.splits)
    then show ?case using Cons.IH [OF r(2)] gone [OF r(1)] stays [OF r(1)] by auto
  qed simp
  then show "length rcs = length ps" "\<forall>(p, rc) \<in> set (zip ps rcs). rc = 0 \<longrightarrow> \<not> present sys w' p" "present sys w' q \<Longrightarrow> present sys w q"
    by blast+
qed

text \<open>
  The removal of the outputs, unless a flag of the node says otherwise: \<open>remove\<close> is called on each of them, in order,
  its result being ignored, and those that it could remove are gone.
\<close>

definition cleared :: "'w system \<Rightarrow> NodeData \<Rightarrow> u32 \<Rightarrow> 'w \<Rightarrow> 'w \<Rightarrow> bool" where
  "cleared sys nd flag w w' \<longleftrightarrow>
     (if nd_Flags nd AND flag = 0
      then \<exists>rcs. calls (sys_remove sys) (map fst (nd_OutputFiles nd)) w = (rcs, w') \<and>
        (\<forall>(p, rc) \<in> set (zip (map fst (nd_OutputFiles nd)) rcs). rc = 0 \<longrightarrow> \<not> present sys w' p)
      else w' = w)"

lemma removes_cleared:
  assumes "system_ok (pl_nocase pl) sys" "ht_wf sc" "\<forall>f \<in> set (nd_OutputFiles nd). snd f \<noteq> 0"
  shows "\<exists>sc' w'. (if 0 = nd_Flags nd AND flag then remove_outputs (pl_nocase pl) sys (nd_OutputFiles nd) (sc, w) else Some (sc, w)) = Some (sc', w') \<and>
    ht_wf sc' \<and> (\<forall>g. marked (pl_nocase pl) sc g \<longrightarrow> marked (pl_nocase pl) sc' g) \<and> cleared sys nd flag w w'"
proof (cases "nd_Flags nd AND flag = 0")
  case True
  obtain rcs w' where c: "calls (sys_remove sys) (map fst (nd_OutputFiles nd)) w = (rcs, w')" by fastforce
  then show ?thesis
    using True remove_outputs_wf [OF assms(2,3), of "pl_nocase pl" sys w] calls_removed(2) [OF assms(1) c]
    by (auto simp: cleared_def)
next
  case False
  then show ?thesis using assms(2) by (simp add: cleared_def eq_commute [of 0])
qed

section \<open>The contract of an action\<close>

text \<open>Running command lines one after the other up to the first failure.\<close>

fun run_all :: "('c \<Rightarrow> 'w \<Rightarrow> ExecResult \<times> 'w) \<Rightarrow> 'c list \<Rightarrow> 'w \<Rightarrow> ExecResult list \<times> 'w" where
  "run_all run [] w = ([], w)"
| "run_all run (c # cs) w =
     (let (r, w') = run c w; (rs, w'') = (if er_ReturnCode r = 0 then run_all run cs w' else ([], w')) in (r # rs, w''))"

definition node_commands :: "NodeData \<Rightarrow> string \<Rightarrow> (string \<times> string option) list" where
  "node_commands nd cmd_line =
     (case nd_PreAction nd of None \<Rightarrow> [] | Some pre \<Rightarrow> [(pre, Some ''(pre-build command)'')]) @ [(cmd_line, nd_Annotation nd)]"

definition node_exec ::
  "'w system \<Rightarrow> nat \<Rightarrow> bool \<Rightarrow> bool \<Rightarrow> NodeData \<Rightarrow> string \<times> string option \<Rightarrow> 'w \<Rightarrow> ExecResult \<times> 'w" where
  "node_exec sys job_id echo_annotations echo_cmdline nd = (\<lambda>(cmd, annotation).
     sys_exec sys cmd (nd_EnvVars nd) job_id echo_cmdline (if echo_annotations then annotation else None))"

lemma run_commands_all:
  assumes "run_all (node_exec sys job_id ann cmd nd) (node_commands nd cmd_line) w = (rs, w')"
  shows "run_commands sys job_id ann cmd nd cmd_line w = (last rs, w')"
    and "(\<forall>r \<in> set rs. er_ReturnCode r = 0) \<longleftrightarrow> er_ReturnCode (last rs) = 0"
proof -
  let ?run = "node_exec sys job_id ann cmd nd" and ?cmd = "(cmd_line, nd_Annotation nd)"
  have "run_commands sys job_id ann cmd nd cmd_line w = (last rs, w') \<and>
      ((\<forall>r \<in> set rs. er_ReturnCode r = 0) \<longleftrightarrow> er_ReturnCode (last rs) = 0)"
  proof (cases "nd_PreAction nd")
    case None
    obtain r1 w1 where 1: "?run ?cmd w = (r1, w1)" by fastforce
    have "(rs, w') = ([r1], w1)" using assms 1 None by (simp add: node_commands_def split: if_splits)
    then show ?thesis using 1 None by (simp add: run_commands_def node_exec_def)
  next
    case (Some pre)
    obtain r1 w1 where 1: "?run (pre, Some ''(pre-build command)'') w = (r1, w1)" by fastforce
    obtain r2 w2 where 2: "?run ?cmd w1 = (r2, w2)" by fastforce
    have "(rs, w') = (if er_ReturnCode r1 = 0 then ([r1, r2], w2) else ([r1], w1))"
      using assms 1 2 Some by (simp add: node_commands_def split: if_splits)
    then show ?thesis using 1 2 Some by (auto simp: run_commands_def node_exec_def split: if_splits)
  qed
  then show "run_commands sys job_id ann cmd nd cmd_line w = (last rs, w')"
    "(\<forall>r \<in> set rs. er_ReturnCode r = 0) \<longleftrightarrow> er_ReturnCode (last rs) = 0" by blast+
qed

text \<open>
  C8: The contract of running a node's action. The directories above the outputs are created first, by calls
  of \<open>mkdir\<close> in order of the outputs, outer directories first, and only for directories above outputs. If one of these calls
  fails it is the last one, the node fails, and nothing else happens: the world is the one after that
  call, so no process was started and no file removed. Otherwise all directories above the outputs exist; the old outputs are
  then removed unless the node overwrites them, the pre-action and the action run in this
  order up to the first failure, and the signal of the last one that ran is reported. The node succeeds exactly if all of
  them returned 0, and then nothing more is changed; after a failure the outputs are removed, unless they are precious.
  Removing may fail, which is ignored; an output that was removed is gone. However the processes changed the outputs,
  the stat cache then answers for each of them with its state after the action.
\<close>

theorem RunAction_contract:
  assumes "system_ok (pl_nocase pl) sys" "unix_platform pl" "stat_sound (sys_world sys w) sc"
    and "\<forall>f \<in> set (nd_OutputFiles nd). snd f \<noteq> 0 \<and> path_fits (fst f)"
  shows "\<exists>p signalled sc' w' ds made w0.
    RunAction_unlocked pl sys job_id ann cmd nd cmd_line (sc, w) = Some (Inr (p, signalled, sc', w')) \<and>
    subseq ds (concat (map (\<lambda>f. parent_list (fst f)) (nd_OutputFiles nd))) \<and> calls (MakeDirectory sys) ds w = (made, w0) \<and>
    ((\<exists>n. made = replicate n True @ [False]) \<and> p = kFailed \<and> \<not> signalled \<and> w' = w0 \<or>
     False \<notin> set made \<and> (\<forall>f \<in> set (nd_OutputFiles nd). \<forall>d \<in> parent_dirs (fst f). present sys w0 d) \<and>
     (\<exists>w1 w2 rs. cleared sys nd kFlagOverwriteOutputs w0 w1 \<and>
       run_all (node_exec sys job_id ann cmd nd) (node_commands nd cmd_line) w1 = (rs, w2) \<and>
       signalled = er_WasSignalled (last rs) \<and>
       (if \<forall>r \<in> set rs. er_ReturnCode r = 0 then p = kSucceeded \<and> w' = w2
        else p = kFailed \<and> cleared sys nd kFlagPreciousOutputs w2 w')) \<and>
     (\<forall>f \<in> set (nd_OutputFiles nd). \<exists>sc''.
       StatCacheStat (pl_nocase pl) (sys_world sys w') sc' (fst f) (snd f) = Some (GetFileInfo (sys_world sys w') (fst f), sc'')))"
proof -
  let ?fs = "nd_OutputFiles nd" and ?nc = "pl_nocase pl"
  have hash: "\<forall>f \<in> set ?fs. snd f \<noteq> 0" using assms(4) by blast
  obtain success sc0 w0 ds made where d: "make_directories pl sys ?fs (sc, w) = Some (Inr (success, sc0, w0))"
      "stat_sound (sys_world sys w0) sc0" "subseq ds (concat (map (\<lambda>f. parent_list (fst f)) ?fs))" "calls (MakeDirectory sys) ds w = (made, w0)"
      "if success then False \<notin> set made \<and> (\<forall>d \<in> set (concat (map (\<lambda>f. parent_list (fst f)) ?fs)). present sys w0 d)
       else \<exists>n. made = replicate n True @ [False]"
    using make_directories_makes [OF assms(1,2) _ assms(3)] assms(4) unfolding makes_def by blast
  show ?thesis
  proof (cases success)
    case False
    then have res: "RunAction_unlocked pl sys job_id ann cmd nd cmd_line (sc, w) = Some (Inr (kFailed, False, sc0, w0))"
      using d(1) by (simp add: RunAction_unlocked_def)
    have failed: "\<exists>n. made = replicate n True @ [False]" using False d(5) by simp
    show ?thesis by (intro exI conjI) (rule res d(3,4) disjI1 conjI failed refl notI | assumption)+
  next
    case True
    have wf0: "ht_wf sc0" using d(2) by (simp add: stat_sound_def)
    obtain sc1 w1 where sc1: "(if 0 = nd_Flags nd AND kFlagOverwriteOutputs then remove_outputs ?nc sys ?fs (sc0, w0) else Some (sc0, w0)) = Some (sc1, w1)"
        "ht_wf sc1" "cleared sys nd kFlagOverwriteOutputs w0 w1"
      using removes_cleared [OF assms(1) wf0 hash] by blast
    obtain rs w2 where rs: "run_all (node_exec sys job_id ann cmd nd) (node_commands nd cmd_line) w1 = (rs, w2)" by fastforce
    note run = run_commands_all [OF rs]
    obtain sc2 where sc2: "mark_outputs ?nc ?fs sc1 = Some sc2" "ht_wf sc2" "\<forall>f \<in> set ?fs. marked ?nc sc2 f"
      using mark_outputs_wf [OF sc1(2) hash] by blast
    obtain sc3 w3 where sc3: "(if 0 = nd_Flags nd AND kFlagPreciousOutputs then remove_outputs ?nc sys ?fs (sc2, w2) else Some (sc2, w2)) = Some (sc3, w3)"
        "ht_wf sc3" "\<forall>f \<in> set ?fs. marked ?nc sc3 f" "cleared sys nd kFlagPreciousOutputs w2 w3"
      using removes_cleared [OF assms(1) sc2(2) hash] sc2(3) by blast
    have dirs: "False \<notin> set made" "\<forall>f \<in> set ?fs. \<forall>d \<in> parent_dirs (fst f). present sys w0 d"
      using d(5) True by (auto simp: set_parent_list)
    define fail where "fail \<longleftrightarrow> \<not> (\<forall>r \<in> set rs. er_ReturnCode r = 0)"
    define sc' w' where "sc' = (if fail then sc3 else sc2)" and "w' = (if fail then w3 else w2)"
    have res: "RunAction_unlocked pl sys job_id ann cmd nd cmd_line (sc, w) =
        Some (Inr (if fail then kFailed else kSucceeded, er_WasSignalled (last rs), sc', w'))"
      using True d(1) sc1(1) sc2(1) sc3(1) run
      by (simp add: RunAction_unlocked_def fail_def sc'_def w'_def and.commute [of kFlagPreciousOutputs])
    have "ht_wf sc'" "\<forall>f \<in> set ?fs. marked ?nc sc' f" using sc2(2,3) sc3(2,3) by (simp_all add: sc'_def)
    then have fresh: "\<forall>f \<in> set ?fs. \<exists>sc''. StatCacheStat ?nc (sys_world sys w') sc' (fst f) (snd f) = Some (GetFileInfo (sys_world sys w') (fst f), sc'')"
      using StatCacheStat_marked hash by blast
    have final: "if \<forall>r \<in> set rs. er_ReturnCode r = 0 then (if fail then kFailed else kSucceeded) = kSucceeded \<and> w' = w2
        else (if fail then kFailed else kSucceeded) = kFailed \<and> cleared sys nd kFlagPreciousOutputs w2 w'"
      using sc3(4) by (simp add: fail_def w'_def)
    show ?thesis by (intro exI conjI disjI2) (rule res d(3,4) dirs sc1(3) rs refl final fresh)+
  qed
qed

section \<open>An example\<close>

text \<open>A world of file names, with a compiler that needs the directory of its output.\<close>

definition ex_sys :: "string set system" where
  "ex_sys = \<lparr>sys_world = (\<lambda>w. \<lparr>w_stat = (\<lambda>p. if c_str p \<in> w then StatOk 0x8000 1 1 else StatErr 2), w_content = (\<lambda>_. None), w_dir = (\<lambda>_. None)\<rparr>),
     sys_mkdir = (\<lambda>p w. (0, insert (c_str p) w)), sys_remove = (\<lambda>p w. (0, w - {c_str p})),
     sys_exec = (\<lambda>cmd env job echo ann w. if ''out'' \<in> w then (\<lparr>er_ReturnCode = 0, er_WasSignalled = False\<rparr>, insert ''out/a.o'' w)
       else (\<lparr>er_ReturnCode = 1, er_WasSignalled = False\<rparr>, w))\<rparr>"

definition unix_pl :: platform where
  "unix_pl = \<lparr>pl_nocase = False, pl_native = kUnix, pl_cwd = None, pl_uninit = blank\<rparr>"

lemma ex_present: "present ex_sys w p \<longleftrightarrow> c_str p \<in> w"
  by (simp add: ex_sys_def GetFileInfo_def Exists_def kFlagExists_def S_IFMT_def S_IFDIR_def S_IFREG_def kFlagDirectory_def kFlagFile_def
      ENOENT_def kFlagError_def)

lemma ex_sys_ok: "system_ok False ex_sys"
proof -
  have "same_files False (sys_world ex_sys w)" for w by (simp add: same_files_def canon_False ex_sys_def)
  moreover have "MakeDirectory ex_sys p w = (True, insert (c_str p) w)" "snd (sys_remove ex_sys p w) = w - {c_str p}" for p w
    by (simp_all add: MakeDirectory_def ex_sys_def)
  ultimately show "system_ok False ex_sys" by (simp add: system_ok_def ex_present)
qed

lemma ex_path: "path_fits ''out/a.o''" "parent_dirs ''out/a.o'' = {''out''}"
proof -
  have norm: "norm ''out/a.o'' = (0, [''out'', ''a.o''])" by code_simp
  have abs: "\<not> is_absolute ''out/a.o''" by code_simp
  have "{0<..<Suc (Suc 0)} = {1}" by auto
  then show "parent_dirs ''out/a.o'' = {''out''}" using abs by (simp add: parent_dirs_def norm path_text_def dotdots_def)
  have "comps [] (snd (path_root kUnix ''out/a.o'')) = [''out'', ''a.o'']" by code_simp
  then show "path_fits ''out/a.o''" using abs by (simp add: path_fits_def norm path_text_def dotdots_def)
qed

theorem RunAction_contract_witness:
  "\<exists>signalled sc' w'. RunAction_unlocked unix_pl ex_sys 0 False False (ex_cc [(''out/a.o'', 1)]) ''cc'' (StatCacheInit, {}) =
     Some (Inr (kSucceeded, signalled, sc', w')) \<and> {''out'', ''out/a.o''} \<subseteq> w'"
proof -
  let ?nd = "ex_cc [(''out/a.o'', 1)]"
  have pl: "pl_nocase unix_pl = False" "unix_platform unix_pl"
    by (simp_all add: unix_pl_def unix_platform_def blank_def arrays_ok_def)
  have nd: "nd_OutputFiles ?nd = [(''out/a.o'', 1)]" "nd_Flags ?nd = 0" "nd_PreAction ?nd = None" by (simp_all add: ex_cc_def)
  have no_fail: "made = replicate (length ds) True" if "calls (MakeDirectory ex_sys) ds w = (made, w0)" for ds w made w0
    using that by (induction ds arbitrary: w made) (auto simp: MakeDirectory_def ex_sys_def Let_def split: prod.splits)
  have run: "run_all (node_exec ex_sys 0 False False ?nd) (node_commands ?nd ''cc'') w1 =
      ([\<lparr>er_ReturnCode = 0, er_WasSignalled = False\<rparr>], insert ''out/a.o'' w1)" if "''out'' \<in> w1" for w1
    using that by (simp add: node_commands_def nd node_exec_def ex_sys_def)
  have clear: "w1 = w0 - {''out/a.o''}" if "cleared ex_sys ?nd flag w0 w1" for flag w0 w1
    using that by (simp add: cleared_def nd) (simp add: ex_sys_def)
  have "\<forall>f \<in> set (nd_OutputFiles ?nd). snd f \<noteq> 0 \<and> path_fits (fst f)" by (simp add: nd ex_path)
  from RunAction_contract [of unix_pl ex_sys "{}" StatCacheInit ?nd 0 False False "''cc''", unfolded pl(1), OF ex_sys_ok pl(2) coherent_sound [OF stat_coherent_init] this]
  obtain p signalled sc' w' ds made w0 where r: "RunAction_unlocked unix_pl ex_sys 0 False False ?nd ''cc'' (StatCacheInit, {}) = Some (Inr (p, signalled, sc', w'))"
      "calls (MakeDirectory ex_sys) ds {} = (made, w0)"
      "(\<exists>n. made = replicate n True @ [False]) \<or> (\<forall>f \<in> set (nd_OutputFiles ?nd). \<forall>d \<in> parent_dirs (fst f). present ex_sys w0 d) \<and>
       (\<exists>w1 w2 rs. cleared ex_sys ?nd kFlagOverwriteOutputs w0 w1 \<and>
         run_all (node_exec ex_sys 0 False False ?nd) (node_commands ?nd ''cc'') w1 = (rs, w2) \<and>
         (if \<forall>r \<in> set rs. er_ReturnCode r = 0 then p = kSucceeded \<and> w' = w2
          else p = kFailed \<and> cleared ex_sys ?nd kFlagPreciousOutputs w2 w'))"
    by blast
  have "False \<notin> set made" using no_fail [OF r(2)] by (metis in_set_replicate)
  then have "p = kSucceeded \<and> {''out'', ''out/a.o''} \<subseteq> w'"
    using r(3) by (auto dest!: clear simp: nd ex_path ex_present run [unfolded nd])
  then show ?thesis using r(1) by blast
qed

end
