(* ===== verification/T2_DigestFile.thy ===== *)
theory T2_DigestFile
  imports T2_DigestCache T2_StateFile
begin

text \<open>
  Model of \<open>DigestCacheSave\<close> and \<open>DigestCacheOpen\<close> of \<open>src/DigestCache.cpp\<close>: the table of digests is
  written to a file of three segments, which the next run maps and reads into a new table, leaving
  out what has not been used for a week.
\<close>

section \<open>Definitions\<close>

record digest_writer =
  dw_main_seg :: BinarySegment
  dw_array_seg :: BinarySegment
  dw_string_seg :: BinarySegment

definition digest_writer_init :: digest_writer where
  "digest_writer_init =
     \<lparr>dw_main_seg = BinarySegmentInit 0, dw_array_seg = BinarySegmentInit 1, dw_string_seg = BinarySegmentInit 2\<rparr>"

definition digest_MagicNumber :: u32 where
  "digest_MagicNumber = 0x12781fa6 XOR 0x7810221e"

definition save_record :: "u32 \<times> string \<times> DigestCacheRecord option \<Rightarrow> digest_writer \<Rightarrow> digest_writer" where
  "save_record = (\<lambda>(hash, path, payload) w.
     let r = the payload;
         array_seg = BinarySegmentWriteUint64 (dw_array_seg w) (dcr_Timestamp r);
         array_seg = BinarySegmentWriteUint64 array_seg (dcr_AccessTime r);
         array_seg = BinarySegmentWriteUint32 array_seg hash;
         array_seg = BinarySegmentWrite array_seg (digest_bytes (dcr_ContentDigest r));
         array_seg = BinarySegmentWritePointer array_seg (BinarySegmentPosition (dw_string_seg w));
         string_seg = BinarySegmentWriteStringData (dw_string_seg w) path;
         array_seg = BinarySegmentWriteUint32 array_seg 0;
         array_seg = BinarySegmentWriteUint32 array_seg 0
     in w\<lparr>dw_array_seg := array_seg, dw_string_seg := string_seg\<rparr>)"

text \<open>The result is the value returned and, where the file was replaced, its new contents.\<close>

definition DigestCacheSave :: "file_system \<Rightarrow> DigestCache \<Rightarrow> (bool \<times> u8 list option) result" where
  "DigestCacheSave fs self =
     (let array_ptr = BinarySegmentPosition (dw_array_seg digest_writer_init);
          w = fold save_record (HashTableWalk (dc_Table self)) digest_writer_init;
          main_seg = BinarySegmentWriteUint32 (dw_main_seg w) digest_MagicNumber;
          main_seg = BinarySegmentWriteInt32 main_seg (int (m_RecordCount (dc_Table self)));
          main_seg = BinarySegmentWritePointer main_seg array_ptr
      in case BinaryWriterFlush (fs_opened fs) (fs_written fs) [main_seg, dw_array_seg w, dw_string_seg w] of
           Inl e \<Rightarrow> Inl e
         | Inr (success, contents) \<Rightarrow>
             Inr (success \<and> fs_renamed fs, if success \<and> fs_renamed fs then contents else None))"

record FrozenDigestRecord =
  fdr_Timestamp :: u64
  fdr_AccessTime :: u64
  fdr_FilenameHash :: u32
  fdr_ContentDigest :: digest
  fdr_Filename :: string

definition read_digest_record :: "u8 list \<Rightarrow> nat \<Rightarrow> FrozenDigestRecord option" where
  "read_digest_record mem pos = do {
     timestamp \<leftarrow> read_u64 mem pos;
     access_time \<leftarrow> read_u64 mem (pos + 8);
     hash \<leftarrow> read_u32 mem (pos + 16);
     digest \<leftarrow> read_digest mem (pos + 20);
     filename \<leftarrow> read_string mem (pos + 36);
     Some \<lparr>fdr_Timestamp = timestamp, fdr_AccessTime = access_time, fdr_FilenameHash = hash,
           fdr_ContentDigest = digest, fdr_Filename = filename\<rparr>
   }"

fun open_loop :: "u64 \<Rightarrow> FrozenDigestRecord list \<Rightarrow> DigestCacheRecord hash_table \<Rightarrow> DigestCacheRecord hash_table option" where
  "open_loop cutoff_time [] table = Some table"
| "open_loop cutoff_time (record # records) table =
     (if fdr_AccessTime record < cutoff_time then open_loop cutoff_time records table
      else case HashTableInsert table (fdr_FilenameHash record) (fdr_Filename record)
             \<lparr>dcr_ContentDigest = fdr_ContentDigest record, dcr_Timestamp = fdr_Timestamp record,
              dcr_AccessTime = fdr_AccessTime record\<rparr> of
             None \<Rightarrow> None
           | Some table' \<Rightarrow> open_loop cutoff_time records table')"

text \<open>
  \<open>mapping\<close> is what the file holds, if it can be mapped. Unlike \<open>LoadFrozenData\<close> the function does not
  look at the size of the file: reading past its end is a fault.
\<close>

definition DigestCacheOpen :: "u64 \<Rightarrow> u8 list option \<Rightarrow> DigestCache \<Rightarrow> DigestCache result option" where
  "DigestCacheOpen time_now mapping self =
     (case mapping of
        None \<Rightarrow> Some (Inr self)
      | Some mem \<Rightarrow>
          (case read_u32 mem 0 of
             None \<Rightarrow> Some (Inl (Overrun ''m_StateFile''))
           | Some magic \<Rightarrow>
               if digest_MagicNumber = magic then
                 (case FrozenArray_read mem (read_digest_record mem) 48 4 of
                    None \<Rightarrow> Some (Inl (Overrun ''m_StateFile''))
                  | Some records \<Rightarrow>
                      map_option (\<lambda>table. Inr (self\<lparr>dc_Table := table\<rparr>))
                        (open_loop (time_now - 7 * 24 * 60 * 60) records (dc_Table self)))
               else Some (Inr self)))"

section \<open>The cells of the file\<close>

type_synonym digest_entry_slot = "u32 \<times> string \<times> DigestCacheRecord option"

definition frozen_record :: "digest_entry_slot \<Rightarrow> FrozenDigestRecord" where
  "frozen_record e = (let r = the (snd (snd e)) in
     \<lparr>fdr_Timestamp = dcr_Timestamp r, fdr_AccessTime = dcr_AccessTime r, fdr_FilenameHash = fst e,
      fdr_ContentDigest = dcr_ContentDigest r, fdr_Filename = c_str (fst (snd e))\<rparr>)"

definition digest_strings :: "digest_entry_slot list \<Rightarrow> cell list" where
  "digest_strings es = string_cells (map (fst \<circ> snd) es)"

definition record_cells :: "nat \<Rightarrow> digest_entry_slot \<Rightarrow> cell list" where
  "record_cells off e = (let r = the (snd (snd e)) in
     [Data (bytes_of 8 (dcr_Timestamp r)), Data (bytes_of 8 (dcr_AccessTime r)), Data (bytes_of 4 (fst e)),
      Data (digest_bytes (dcr_ContentDigest r)), Pointer \<lparr>bl_SegIndex = 2, bl_Offset = off\<rparr>,
      Data (bytes_of 4 (0 :: u32)), Data (bytes_of 4 (0 :: u32))])"

fun records_cells :: "nat \<Rightarrow> digest_entry_slot list \<Rightarrow> cell list" where
  "records_cells off [] = []"
| "records_cells off (e # es) = record_cells off e @ records_cells (off + length (string_bytes (fst (snd e)))) es"

definition digest_file_cells :: "digest_entry_slot list \<Rightarrow> cell list list" where
  "digest_file_cells es =
     [[Data (bytes_of 4 digest_MagicNumber), int_cell (int (length es)), Pointer \<lparr>bl_SegIndex = 1, bl_Offset = 0\<rparr>],
      records_cells 0 es, digest_strings es]"

lemma digest_strings_simps [simp]:
  "digest_strings [] = []" "digest_strings (e # es) = Data (string_bytes (fst (snd e))) # digest_strings es"
  "digest_strings (es @ ds) = digest_strings es @ digest_strings ds"
  by (simp_all add: digest_strings_def string_cells_def)

lemma records_cells_append [simp]:
  "records_cells off (es @ ds) = records_cells off es @ records_cells (off + cells_size (digest_strings es)) ds"
  by (induction es arbitrary: off) (simp_all add: add.assoc)

lemma records_size [simp]: "cells_size (record_cells off e) = 48" "cells_size (records_cells off es) = 48 * length es"
proof -
  show r: "cells_size (record_cells off e) = 48" for off e by (simp add: record_cells_def Let_def)
  show "cells_size (records_cells off es) = 48 * length es" by (induction es arbitrary: off) (simp_all add: r)
qed

section \<open>Writing\<close>

definition dw_holds :: "digest_writer \<Rightarrow> digest_entry_slot list \<Rightarrow> bool" where
  "dw_holds w es \<longleftrightarrow> dw_main_seg w = BinarySegmentInit 0 \<and> holds_cells (dw_array_seg w) (records_cells 0 es) \<and>
     holds_cells (dw_string_seg w) (digest_strings es) \<and> sg_Index (dw_array_seg w) = 1 \<and> sg_Index (dw_string_seg w) = 2"

lemma holds_words:
  "holds_cells seg cs \<Longrightarrow> holds_cells (BinarySegmentWriteUint64 seg v) (cs @ [Data (bytes_of 8 v)])"
  "holds_cells seg cs \<Longrightarrow> holds_cells (BinarySegmentWriteUint32 seg u) (cs @ [Data (bytes_of 4 u)])"
  "holds_cells seg cs \<Longrightarrow> holds_cells (BinarySegmentWriteInt32 seg i) (cs @ [int_cell i])"
  "holds_cells seg cs \<Longrightarrow> holds_cells (BinarySegmentWriteStringData seg s) (cs @ [Data (string_bytes s)])"
  by (simp_all add: BinarySegmentWriteUint64_def BinarySegmentWriteUint32_def BinarySegmentWriteInt32_def
      BinarySegmentWriteStringData_def int_cell_def string_bytes_def holds_cells_write)

lemma index_words [simp]:
  "sg_Index (BinarySegmentWriteUint64 seg v) = sg_Index seg" "sg_Index (BinarySegmentWriteUint32 seg u) = sg_Index seg"
  by (simp_all add: BinarySegmentWriteUint64_def BinarySegmentWriteUint32_def)

lemma save_record_holds:
  assumes "dw_holds w es" shows "dw_holds (save_record e w) (es @ [e])"
proof -
  obtain hash path payload where e: "e = (hash, path, payload)" by (cases e) auto
  have str: "holds_cells (dw_string_seg w) (digest_strings es)" and arr: "holds_cells (dw_array_seg w) (records_cells 0 es)"
    using assms by (simp_all add: dw_holds_def)
  have pos: "BinarySegmentPosition (dw_string_seg w) = \<lparr>bl_SegIndex = 2, bl_Offset = cells_size (digest_strings es)\<rparr>"
    using holds_cells_position [OF str] assms by (simp add: dw_holds_def)
  let ?r = "the payload"
  note a1 = holds_words(1) [OF arr, of "dcr_Timestamp ?r"]
  note a2 = holds_words(1) [OF a1, of "dcr_AccessTime ?r"]
  note a3 = holds_words(2) [OF a2, of hash]
  note a4 = holds_cells_write [OF a3, of "digest_bytes (dcr_ContentDigest ?r)"]
  note a5 = holds_cells_pointer [OF a4, of "\<lparr>bl_SegIndex = 2, bl_Offset = cells_size (digest_strings es)\<rparr>"]
  note a6 = holds_words(2) [OF holds_words(2) [OF a5, of 0], of 0]
  show ?thesis
    using a6 holds_words(4) [OF str, of path] assms pos
    by (simp add: dw_holds_def save_record_def e Let_def record_cells_def)
qed

lemma save_records_hold: "dw_holds w es \<Longrightarrow> dw_holds (fold save_record ds w) (es @ ds)"
proof (induction ds arbitrary: w es)
  case (Cons d ds)
  from Cons.IH [OF save_record_holds [OF Cons.prems]] show ?case by simp
qed simp

lemma digest_targets: "cs \<in> set (digest_file_cells es) \<Longrightarrow> targets_ok 3 cs"
proof -
  have "targets_ok 3 (records_cells off es)" for off
    by (induction es arbitrary: off) (auto simp: targets_ok_def record_cells_def Let_def)
  moreover have "targets_ok 3 (digest_strings es)" by (auto simp: targets_ok_def digest_strings_def string_cells_def)
  ultimately show "cs \<in> set (digest_file_cells es) \<Longrightarrow> targets_ok 3 cs"
    by (auto simp: digest_file_cells_def) (auto simp: targets_ok_def int_cell_def)
qed

lemma DigestCacheSave_file:
  assumes "DigestCacheSave fs self = Inr (True, contents)" "ht_wf (dc_Table self)"
  defines "es \<equiv> HashTableWalk (dc_Table self)"
  shows "contents = Some (file_of (digest_file_cells es)) \<and> linked (digest_file_cells es)"
proof -
  let ?w = "fold save_record es digest_writer_init"
  let ?m1 = "BinarySegmentWriteUint32 (dw_main_seg ?w) digest_MagicNumber"
  let ?m2 = "BinarySegmentWriteInt32 ?m1 (int (m_RecordCount (dc_Table self)))"
  let ?m3 = "BinarySegmentWritePointer ?m2 \<lparr>bl_SegIndex = 1, bl_Offset = 0\<rparr>"
  let ?sgs = "[?m3, dw_array_seg ?w, dw_string_seg ?w]"
  have "dw_holds digest_writer_init []"
    by (simp add: dw_holds_def digest_writer_init_def) (simp add: BinarySegmentInit_def)
  from save_records_hold [OF this, of es] have w: "dw_holds ?w es" by simp
  have n: "m_RecordCount (dc_Table self) = length es" using assms(2) by (simp add: es_def HashTableWalk_entries ht_wf_def)
  have "holds_cells (dw_main_seg ?w) []" using w by (simp add: dw_holds_def)
  note m1 = holds_words(2) [OF this, of digest_MagicNumber]
  note m2 = holds_words(3) [OF m1, of "int (length es)"]
  note m3 = holds_cells_pointer [OF m2, of "\<lparr>bl_SegIndex = 1, bl_Offset = 0\<rparr>"]
  have i: "sg_Index ?m3 = 0" using w by (simp add: dw_holds_def) (simp add: BinarySegmentInit_def)
  have h: "writer_holds ?sgs (digest_file_cells es)"
    using m3 i w unfolding writer_holds_def n by (auto simp: digest_file_cells_def dw_holds_def less_Suc_eq numeral_eq_Suc)
  have ptr: "BinarySegmentPosition (dw_array_seg digest_writer_init) = \<lparr>bl_SegIndex = 1, bl_Offset = 0\<rparr>"
    by (simp add: digest_writer_init_def BinarySegmentPosition_def BinarySegmentInit_def)
  have flush: "BinaryWriterFlush (fs_opened fs) (fs_written fs) ?sgs = Inr (True, contents)"
    using assms(1) unfolding DigestCacheSave_def ptr es_def [symmetric]
    by (auto simp: Let_def split: sum.splits if_splits)
  obtain sgs' where fin: "BinaryWriterFinalize ?sgs = Inr sgs'" and out: "contents = Some (concat (map sg_Bytes sgs'))"
    using flush by (auto simp: BinaryWriterFlush_def dest!: write_loop_success split: sum.splits if_splits prod.splits)
  have t: "targets_ok (length (digest_file_cells es)) cs" if "cs \<in> set (digest_file_cells es)" for cs
    using digest_targets [OF that] by (simp add: digest_file_cells_def numeral_3_eq_3)
  show ?thesis using BinaryWriterFinalize_file(1,2) [OF h t] fin out by (simp add: linked_def)
qed

section \<open>Reading\<close>

lemma read_string_cell:
  assumes "linked css" "css ! k = cs1 @ Pointer \<lparr>bl_SegIndex = j, bl_Offset = cells_size ds1\<rparr> # cs2"
    "css ! j = ds1 @ Data (string_bytes f) # ds2" "k < j" "j < length css"
  shows "read_string (file_of css) (seg_start css k + cells_size cs1) = Some (c_str f)"
proof -
  let ?loc = "\<lparr>bl_SegIndex = j, bl_Offset = cells_size ds1\<rparr>"
  have ptr: "FrozenPtr_Get (file_of css) (seg_start css k + cells_size cs1) = Some (Some (int (place css ?loc)))"
    using read_forward_pointer [OF assms(1) _ assms(2)] assms(4,5) by simp
  have "read_bytes (file_of css) (place css ?loc) (length (string_bytes f)) = Some (string_bytes f)"
    using read_data [OF assms(5,3)] by (simp add: place_def)
  then obtain rest where "drop (place css ?loc) (file_of css) = string_bytes f @ rest"
    by (metis append_take_drop_id option.distinct(1) option.sel read_bytes_def)
  then show ?thesis using ptr read_chars_string [of "c_str f"] by (simp add: read_string_def string_bytes_def)
qed

lemma read_digest_record_cell:
  assumes "linked (digest_file_cells (es1 @ e # es2))"
  shows "read_digest_record (file_of (digest_file_cells (es1 @ e # es2)))
    (seg_start (digest_file_cells (es1 @ e # es2)) 1 + 48 * length es1) = Some (frozen_record e)"
proof -
  let ?css = "digest_file_cells (es1 @ e # es2)" and ?r = "the (snd (snd e))"
  let ?mem = "file_of ?css" and ?pos = "seg_start ?css 1 + 48 * length es1"
  let ?off = "cells_size (digest_strings es1)"
  have three: "1 < length ?css" by (simp add: digest_file_cells_def)
  have c1: "?css ! 1 = records_cells 0 es1 @ record_cells ?off e @ records_cells (?off + length (string_bytes (fst (snd e)))) es2"
    by (simp add: digest_file_cells_def)
  have at: "read_bytes ?mem (?pos + cells_size (take i (record_cells ?off e))) (length bs) = Some bs"
    if "i < 7" "record_cells ?off e ! i = Data bs" for i bs
  proof -
    have "record_cells ?off e = take i (record_cells ?off e) @ Data bs # drop (Suc i) (record_cells ?off e)"
      using that id_take_nth_drop [of i "record_cells ?off e"] by (simp add: record_cells_def Let_def)
    then have "?css ! 1 = (records_cells 0 es1 @ take i (record_cells ?off e)) @ Data bs #
        (drop (Suc i) (record_cells ?off e) @ records_cells (?off + length (string_bytes (fst (snd e)))) es2)"
      unfolding c1 by simp
    from read_data [OF three this] show ?thesis by (simp add: add.assoc)
  qed
  have cells: "record_cells ?off e = [Data (bytes_of 8 (dcr_Timestamp ?r)), Data (bytes_of 8 (dcr_AccessTime ?r)), Data (bytes_of 4 (fst e)),
      Data (digest_bytes (dcr_ContentDigest ?r)), Pointer \<lparr>bl_SegIndex = 2, bl_Offset = ?off\<rparr>,
      Data (bytes_of 4 (0 :: u32)), Data (bytes_of 4 (0 :: u32))]"
    by (simp add: record_cells_def Let_def)
  have ts: "read_u64 ?mem ?pos = Some (dcr_Timestamp ?r)"
    using at [of 0] by (simp add: cells read_u64_def)
  have acc: "read_u64 ?mem (?pos + 8) = Some (dcr_AccessTime ?r)"
    using at [of 1] by (simp add: cells read_u64_def)
  have hash: "read_u32 ?mem (?pos + 16) = Some (fst e)"
    using at [of 2] by (simp add: cells read_u32_def)
  have dig: "read_digest ?mem (?pos + 20) = Some (dcr_ContentDigest ?r)"
    using at [of 3] by (intro read_digest_cell) (simp add: cells eval_nat_numeral)
  have p1: "?css ! 1 = (records_cells 0 es1 @ take 4 (record_cells ?off e)) @ Pointer \<lparr>bl_SegIndex = 2, bl_Offset = ?off\<rparr> #
      (drop 5 (record_cells ?off e) @ records_cells (?off + length (string_bytes (fst (snd e)))) es2)"
    unfolding c1 by (simp add: cells eval_nat_numeral)
  have p2: "?css ! 2 = digest_strings es1 @ Data (string_bytes (fst (snd e))) # digest_strings es2"
    by (simp add: digest_file_cells_def)
  have "cells_size (take 4 (record_cells ?off e)) = 36" by (simp add: cells eval_nat_numeral)
  then have name: "read_string ?mem (?pos + 36) = Some (c_str (fst (snd e)))"
    using read_string_cell [OF assms p1 p2] by (simp add: digest_file_cells_def add.assoc)
  show ?thesis using ts acc hash dig name by (simp add: read_digest_record_def frozen_record_def Let_def)
qed

lemma DigestCacheOpen_file:
  assumes "linked (digest_file_cells es)" "length es < 2 ^ 31"
  shows "DigestCacheOpen now (Some (file_of (digest_file_cells es))) self =
    map_option (\<lambda>table. Inr (self\<lparr>dc_Table := table\<rparr>)) (open_loop (now - 604800) (map frozen_record es) (dc_Table self))"
proof -
  let ?css = "digest_file_cells es"
  let ?mem = "file_of ?css"
  have three: "0 < length ?css" "1 < length ?css" by (simp_all add: digest_file_cells_def)
  have c0: "?css ! 0 = [Data (bytes_of 4 digest_MagicNumber), int_cell (int (length es)), Pointer \<lparr>bl_SegIndex = 1, bl_Offset = 0\<rparr>]"
    and z: "seg_start ?css 0 = 0" by (simp_all add: digest_file_cells_def seg_start_def)
  have magic: "read_u32 ?mem 0 = Some digest_MagicNumber"
    using read_data [of 0 ?css "[]" "bytes_of 4 digest_MagicNumber"] three c0 z by (simp add: read_u32_def)
  have n: "read_i32 ?mem 4 = Some (int (length es))"
    using read_data [of 0 ?css "[Data (bytes_of 4 digest_MagicNumber)]" "bytes_of 4 (of_int (int (length es)) :: u32)"] three c0 z assms(2)
    by (intro read_i32_cell) (simp_all add: int_cell_def)
  have p: "FrozenPtr_Get ?mem 8 = Some (Some (int (seg_start ?css 1)))"
    using read_forward_pointer [OF assms(1), of 0 "take 2 (?css ! 0)"] three c0 z
    by (simp add: numeral_eq_Suc place_def)
  have "read_elements (read_digest_record ?mem) 48 (int (length es)) (Some (int (seg_start ?css 1))) = Some (map frozen_record es)"
    using read_digest_record_cell assms(1) by (intro read_elements_all) (simp add: mult.commute)
  then have "FrozenArray_read ?mem (read_digest_record ?mem) 48 4 = Some (map frozen_record es)"
    using n p by (simp add: FrozenArray_read_def)
  then show ?thesis using magic by (simp add: DigestCacheOpen_def)
qed

section \<open>The new table\<close>

abbreviation record_key :: "bool \<Rightarrow> FrozenDigestRecord \<Rightarrow> u32 \<times> u8 list" where
  "record_key nocase r \<equiv> (fdr_FilenameHash r, canon nocase (fdr_Filename r))"

definition thaw :: "FrozenDigestRecord \<Rightarrow> DigestCacheRecord" where
  "thaw r = \<lparr>dcr_ContentDigest = fdr_ContentDigest r, dcr_Timestamp = fdr_Timestamp r, dcr_AccessTime = fdr_AccessTime r\<rparr>"

lemma open_loop_ok:
  assumes "ht_ok nocase t" "distinct (map (record_key nocase) rs)" "\<forall>r \<in> set rs. fdr_FilenameHash r \<noteq> 0"
    and "\<forall>r \<in> set rs. HashTableGet nocase t (fdr_FilenameHash r, fdr_Filename r) = None"
  shows "\<exists>t'. open_loop cutoff rs t = Some t' \<and> ht_ok nocase t' \<and>
    (\<forall>h s. h \<noteq> 0 \<longrightarrow> HashTableGet nocase t' (h, s) =
      (case find (\<lambda>r. record_key nocase r = (h, canon nocase s) \<and> \<not> fdr_AccessTime r < cutoff) rs of
         None \<Rightarrow> HashTableGet nocase t (h, s) | Some r \<Rightarrow> Some (thaw r)))"
  using assms
proof (induction rs arbitrary: t)
  case (Cons r rs)
  have rest: "distinct (map (record_key nocase) rs)" "\<forall>r \<in> set rs. fdr_FilenameHash r \<noteq> 0"
    using Cons.prems(2,3) by simp_all
  show ?case
  proof (cases "fdr_AccessTime r < cutoff")
    case True
    then show ?thesis using Cons.IH [OF Cons.prems(1) rest] Cons.prems(4) by simp
  next
    case False
    obtain t1 where t1: "HashTableInsert t (fdr_FilenameHash r) (fdr_Filename r) (thaw r) = Some t1" "ht_ok nocase t1"
        "\<forall>k'. fst k' \<noteq> 0 \<longrightarrow> HashTableGet nocase t1 k' =
           (if same_key nocase (fdr_FilenameHash r, fdr_Filename r) k' then Some (thaw r) else HashTableGet nocase t k')"
      using table.add_absent [of nocase t "(fdr_FilenameHash r, fdr_Filename r)" "thaw r"] Cons.prems(1,3,4) by auto
    have "HashTableGet nocase t1 (fdr_FilenameHash r', fdr_Filename r') = None" if "r' \<in> set rs" for r'
      using t1(3) that Cons.prems(2-4) by (auto simp: same_key_def)
    then obtain t' where t': "open_loop cutoff rs t1 = Some t'" "ht_ok nocase t'"
        "\<forall>h s. h \<noteq> 0 \<longrightarrow> HashTableGet nocase t' (h, s) =
          (case find (\<lambda>r. record_key nocase r = (h, canon nocase s) \<and> \<not> fdr_AccessTime r < cutoff) rs of
             None \<Rightarrow> HashTableGet nocase t1 (h, s) | Some r \<Rightarrow> Some (thaw r))"
      using Cons.IH [OF t1(2) rest] by blast
    have none: "find (\<lambda>r'. record_key nocase r' = record_key nocase r \<and> \<not> fdr_AccessTime r' < cutoff) rs = None"
    proof -
      have "record_key nocase r \<notin> record_key nocase ` set rs" using Cons.prems(2) by simp
      then have "record_key nocase r' \<noteq> record_key nocase r" if "r' \<in> set rs" for r'
        using imageI [OF that, of "record_key nocase"] by metis
      then show ?thesis unfolding find_None_iff by blast
    qed
    have "HashTableGet nocase t' (h, s) =
        (case find (\<lambda>r. record_key nocase r = (h, canon nocase s) \<and> \<not> fdr_AccessTime r < cutoff) (r # rs) of
           None \<Rightarrow> HashTableGet nocase t (h, s) | Some r \<Rightarrow> Some (thaw r))" if "h \<noteq> 0" for h s
    proof (cases "record_key nocase r = (h, canon nocase s)")
      case True
      then show ?thesis using t'(3) t1(3) that False none by (simp add: same_key_def)
    next
      case other: False
      then have "HashTableGet nocase t1 (h, s) = HashTableGet nocase t (h, s)" using t1(3) that by (auto simp: same_key_def)
      moreover have "find (\<lambda>r. record_key nocase r = (h, canon nocase s) \<and> \<not> fdr_AccessTime r < cutoff) (r # rs) =
          find (\<lambda>r. record_key nocase r = (h, canon nocase s) \<and> \<not> fdr_AccessTime r < cutoff) rs" using other by auto
      ultimately show ?thesis using t'(3) that by (simp only: that not_False_eq_True simp_thms)
    qed
    then show ?thesis using t'(1,2) t1(1) False by (simp add: thaw_def)
  qed
qed simp

lemma find_map_option: "find P (map f xs) = map_option f (find (P \<circ> f) xs)"
  by (induction xs) simp_all

lemma find_key:
  assumes "distinct (map k xs)"
  shows "find (\<lambda>x. k x = key \<and> Q x) xs =
    (case map_of (map (\<lambda>x. (k x, x)) xs) key of None \<Rightarrow> None | Some x \<Rightarrow> if Q x then Some x else None)"
  using assms
proof (induction xs)
  case (Cons x xs)
  have "map_of (map (\<lambda>x. (k x, x)) xs) (k x) = None" using Cons.prems by (auto simp: map_of_eq_None_iff)
  then show ?case using Cons by auto
qed simp

lemma frozen_record_simps [simp]:
  "record_key nocase (frozen_record e) = slot_key nocase e"
  "fdr_AccessTime (frozen_record e) = dcr_AccessTime (the (snd (snd e)))" "thaw (frozen_record e) = the (snd (snd e))"
  by (simp_all add: frozen_record_def Let_def slot_key_def thaw_def canon_def)

lemma DigestCache_reopens:
  assumes "digest_ok nocase self" "DigestCacheSave fs self = Inr (True, contents)" "m_RecordCount (dc_Table self) < 2 ^ 31"
  shows "\<exists>self'. DigestCacheOpen now contents (DigestCacheInit time) = Some (Inr self') \<and> digest_ok nocase self' \<and>
    (\<forall>h s. h \<noteq> 0 \<longrightarrow> digest_entry nocase self' h s =
      (case digest_entry nocase self h s of
         None \<Rightarrow> None
       | Some r \<Rightarrow> if dcr_AccessTime r < now - 604800 then None else Some r))"
proof -
  let ?es = "entries (slots (dc_Table self))" and ?k = "slot_key nocase"
  let ?rs = "map frozen_record ?es" and ?cut = "now - 604800"
  have ok: "ht_ok nocase (dc_Table self)" and wf: "ht_wf (dc_Table self)" and dist: "distinct (map ?k ?es)"
    using assms(1) by (simp_all add: digest_ok_def ht_ok_def ht_distinct_def)
  have saved: "contents = Some (file_of (digest_file_cells ?es))" "linked (digest_file_cells ?es)"
    using DigestCacheSave_file [OF assms(2) wf] by (simp_all add: HashTableWalk_entries)
  have n: "length ?es < 2 ^ 31" using assms(3) wf by (simp add: ht_wf_def)
  have hash: "fdr_FilenameHash r \<noteq> 0" if "r \<in> set ?rs" for r using that by (auto simp: frozen_record_def Let_def)
  have "distinct (map (record_key nocase) ?rs)" using dist by (simp add: comp_def)
  moreover have "\<forall>r \<in> set ?rs. HashTableGet nocase (HashTableInit :: DigestCacheRecord hash_table) (fdr_FilenameHash r, fdr_Filename r) = None"
    by (intro ballI table.get_empty) (simp only: fst_conv hash not_False_eq_True)
  ultimately obtain t where
    t: "open_loop ?cut ?rs HashTableInit = Some t" "ht_ok nocase t"
      "\<forall>h s. h \<noteq> 0 \<longrightarrow> HashTableGet nocase t (h, s) =
        (case find (\<lambda>r. record_key nocase r = (h, canon nocase s) \<and> \<not> fdr_AccessTime r < ?cut) ?rs of
           None \<Rightarrow> HashTableGet nocase HashTableInit (h, s) | Some r \<Rightarrow> Some (thaw r))"
    using open_loop_ok [OF table.inv_empty [of nocase], of ?rs ?cut] hash by blast
  have get: "HashTableGet nocase t (h, s) =
      (case digest_entry nocase self h s of None \<Rightarrow> None | Some r \<Rightarrow> if dcr_AccessTime r < ?cut then None else Some r)"
    if h: "h \<noteq> 0" for h s
  proof -
    let ?at = "map_of (map (\<lambda>e. (?k e, e)) ?es) (h, canon nocase s)"
    have "map_of (map (\<lambda>e. (?k e, the (snd (snd e)))) es) x = map_option (\<lambda>e. the (snd (snd e))) (map_of (map (\<lambda>e. (?k e, e)) es) x)" for es x
      by (induction es) simp_all
    then have old: "digest_entry nocase self h s = map_option (\<lambda>e. the (snd (snd e))) ?at"
      using HashTableGet_map [OF ok, of "(h, s)"] h by (simp add: ht_map_def)
    have "find (\<lambda>r. record_key nocase r = (h, canon nocase s) \<and> \<not> fdr_AccessTime r < ?cut) ?rs =
        map_option frozen_record (find (\<lambda>e. ?k e = (h, canon nocase s) \<and> \<not> dcr_AccessTime (the (snd (snd e))) < ?cut) ?es)"
      unfolding find_map_option comp_def frozen_record_simps ..
    also have "\<dots> = map_option frozen_record (case ?at of None \<Rightarrow> None | Some e \<Rightarrow> if \<not> dcr_AccessTime (the (snd (snd e))) < ?cut then Some e else None)"
      unfolding find_key [OF dist] ..
    finally have found: "find (\<lambda>r. record_key nocase r = (h, canon nocase s) \<and> \<not> fdr_AccessTime r < ?cut) ?rs = \<dots>" .
    have "HashTableGet nocase (HashTableInit :: DigestCacheRecord hash_table) (h, s) = None"
      by (rule table.get_empty) (simp add: h)
    moreover have "HashTableGet nocase t (h, s) =
        (case find (\<lambda>r. record_key nocase r = (h, canon nocase s) \<and> \<not> fdr_AccessTime r < ?cut) ?rs of
           None \<Rightarrow> HashTableGet nocase HashTableInit (h, s) | Some r \<Rightarrow> Some (thaw r))" using t(3) h by blast
    ultimately show ?thesis unfolding found old by (cases ?at) simp_all
  qed
  have "DigestCacheOpen now contents (DigestCacheInit time) = Some (Inr ((DigestCacheInit time)\<lparr>dc_Table := t\<rparr>))"
    unfolding saved(1) DigestCacheOpen_file [OF saved(2) n] using t(1) by (simp add: DigestCacheInit_def)
  then show ?thesis using t(2) get by (auto simp: digest_ok_def)
qed

text \<open>
  C37: The digest cache survives a restart. When saving it succeeds, opening the file in a later
  run gives a cache that holds exactly the same digests under the same paths and time stamps, except
  those last used more than a week before.
\<close>

theorem digest_cache_roundtrip:
  assumes "digest_ok nocase self" "DigestCacheSave fs self = Inr (True, contents)" "m_RecordCount (dc_Table self) < 2 ^ 31"
  shows "\<exists>self'. DigestCacheOpen now contents (DigestCacheInit time) = Some (Inr self') \<and> digest_ok nocase self' \<and>
    (\<forall>h s. h \<noteq> 0 \<longrightarrow> digest_entry nocase self' h s =
      (case digest_entry nocase self h s of
         None \<Rightarrow> None
       | Some r \<Rightarrow> if dcr_AccessTime r < now - 604800 then None else Some r))"
  by (rule DigestCache_reopens [OF assms])

section \<open>An example\<close>

definition ex_record :: DigestCacheRecord where
  "ex_record = \<lparr>dcr_ContentDigest = (7, 8), dcr_Timestamp = 5, dcr_AccessTime = 900000\<rparr>"

definition ex_digests :: DigestCache where
  "ex_digests = the (DigestCacheSet False (DigestCacheInit 900000) ''a.c'' 1 5 (7, 8))"

lemma ex_digests_ok:
  "digest_ok False ex_digests" "digest_entry False ex_digests 1 ''a.c'' = Some ex_record"
  "HashTableWalk (dc_Table ex_digests) = [(1, ''a.c'', Some ex_record)]" "m_RecordCount (dc_Table ex_digests) = 1"
proof -
  have init: "digest_ok False (DigestCacheInit 900000)" "digest_entry False (DigestCacheInit 900000) 1 ''a.c'' = None" by simp_all
  obtain c where c: "DigestCacheSet False (DigestCacheInit 900000) ''a.c'' 1 5 (7, 8) = Some c" "digest_ok False c"
      "digest_entry False c 1 ''a.c'' = Some ex_record"
    using DigestCacheSet_ok [OF init(1), of 1 "''a.c''" 5 "(7, 8)"] by (auto simp: ex_record_def DigestCacheInit_def)
  then show ok: "digest_ok False ex_digests" "digest_entry False ex_digests 1 ''a.c'' = Some ex_record" by (simp_all add: ex_digests_def)
  obtain t where t: "HashTableInsert HashTableInit 1 ''a.c'' ex_record = Some t" "ht_wf t"
      "mset (entries (slots t)) = {#(1, ''a.c'', Some ex_record)#}"
    using HashTableInsert_entries [of HashTableInit 1 "''a.c''" ex_record] table.inv_empty [of False]
    by (auto simp: ht_ok_def) (simp add: HashTableInit_def slots_def)
  have "HashTableLookup False (HashTableInit :: DigestCacheRecord hash_table) 1 ''a.c'' = Some None"
    by (simp add: HashTableLookup_def HashTableBaseLookup_def HashTableInit_def)
  then have "dc_Table ex_digests = t"
    using t(1) by (simp add: ex_digests_def DigestCacheSet_def DigestCacheInit_def ex_record_def Let_def)
  moreover have "entries (slots t) = [(1, ''a.c'', Some ex_record)]" using t(3) by (simp only: mset_single_iff)
  ultimately show "HashTableWalk (dc_Table ex_digests) = [(1, ''a.c'', Some ex_record)]" "m_RecordCount (dc_Table ex_digests) = 1"
    using t(2) by (simp_all add: HashTableWalk_entries ht_wf_def)
qed

text \<open>A digest is found again less than a week after its last use, but not later.\<close>

theorem digest_cache_roundtrip_witness:
  "let contents = snd (projr (DigestCacheSave ex_fs ex_digests)) in
     (\<exists>self'. DigestCacheOpen 1000000 contents (DigestCacheInit 0) = Some (Inr self') \<and> digest_entry False self' 1 ''a.c'' = Some ex_record) \<and>
     (\<exists>self'. DigestCacheOpen 2000000 contents (DigestCacheInit 0) = Some (Inr self') \<and> digest_entry False self' 1 ''a.c'' = None)"
proof -
  have "isl (DigestCacheSave ex_fs ex_digests) = False" "fst (projr (DigestCacheSave ex_fs ex_digests)) = True"
    unfolding DigestCacheSave_def ex_digests_ok(3,4) by code_simp+
  then have save: "DigestCacheSave ex_fs ex_digests = Inr (True, snd (projr (DigestCacheSave ex_fs ex_digests)))"
    by (cases "DigestCacheSave ex_fs ex_digests") auto
  have n: "m_RecordCount (dc_Table ex_digests) < 2 ^ 31" by (simp add: ex_digests_ok(4))
  have found: "\<exists>self'. DigestCacheOpen now (snd (projr (DigestCacheSave ex_fs ex_digests))) (DigestCacheInit 0) = Some (Inr self') \<and>
      digest_entry False self' 1 ''a.c'' = (if dcr_AccessTime ex_record < now - 604800 then None else Some ex_record)" for now
  proof -
    obtain self' where "DigestCacheOpen now (snd (projr (DigestCacheSave ex_fs ex_digests))) (DigestCacheInit 0) = Some (Inr self')"
        "\<forall>h s. h \<noteq> 0 \<longrightarrow> digest_entry False self' h s = (case digest_entry False ex_digests h s of None \<Rightarrow> None
           | Some r \<Rightarrow> if dcr_AccessTime r < now - 604800 then None else Some r)"
      using digest_cache_roundtrip [OF ex_digests_ok(1) save n, of now 0] by (elim exE conjE that)
    then show ?thesis using ex_digests_ok(2) by simp
  qed
  have "\<not> dcr_AccessTime ex_record < 1000000 - 604800" "dcr_AccessTime ex_record < 2000000 - 604800"
    unfolding ex_record_def by simp_all
  then show ?thesis using found [of 1000000] found [of 2000000] unfolding Let_def by simp
qed

end
