(* ===== verification/T2_ScanFile.thy ===== *)
theory T2_ScanFile
  imports T2_ScanCache T2_DigestFile
begin

text \<open>
  Model of \<open>ScanCacheSave\<close> of \<open>src/ScanCache.cpp\<close> and of \<open>LoadFrozenData\<close> on the file it writes: the
  records of this build are merged with those of the old cache file that were used within the
  last week. Every file name is written once; a hash table of positions finds it again.
\<close>

section \<open>Writing\<close>

record ScanCacheWriter =
  zw_MainSeg :: BinarySegment
  zw_DigestSeg :: BinarySegment
  zw_DataSeg :: BinarySegment
  zw_TimestampSeg :: BinarySegment
  zw_ArraySeg :: BinarySegment
  zw_StringSeg :: BinarySegment
  zw_RecordsOut :: nat

definition ScanCacheWriterInit :: ScanCacheWriter where
  "ScanCacheWriterInit = \<lparr>zw_MainSeg = BinarySegmentInit 0, zw_DigestSeg = BinarySegmentInit 1, zw_DataSeg = BinarySegmentInit 2,
     zw_TimestampSeg = BinarySegmentInit 3, zw_ArraySeg = BinarySegmentInit 4, zw_StringSeg = BinarySegmentInit 5, zw_RecordsOut = 0\<rparr>"

definition scan_MagicNumber :: u32 where
  "scan_MagicNumber = 0x1517000e XOR 0x7810221e"

text \<open>The three positions are those of empty segments, recorded when the writer is initialized.\<close>

definition ScanCacheWriterFlush :: "file_system \<Rightarrow> ScanCacheWriter \<Rightarrow> (bool \<times> u8 list option) result" where
  "ScanCacheWriterFlush fs self =
     (let main_seg = BinarySegmentWriteUint32 (zw_MainSeg self) scan_MagicNumber;
          main_seg = BinarySegmentWriteUint32 main_seg (of_nat (zw_RecordsOut self));
          main_seg = BinarySegmentWritePointer main_seg (BinarySegmentPosition (zw_DigestSeg ScanCacheWriterInit));
          main_seg = BinarySegmentWritePointer main_seg (BinarySegmentPosition (zw_DataSeg ScanCacheWriterInit));
          main_seg = BinarySegmentWritePointer main_seg (BinarySegmentPosition (zw_TimestampSeg ScanCacheWriterInit))
      in BinaryWriterFlush (fs_opened fs) (fs_written fs)
           [main_seg, zw_DigestSeg self, zw_DataSeg self, zw_TimestampSeg self, zw_ArraySeg self, zw_StringSeg self])"

type_synonym atoms = "BinaryLocator hash_table"

definition WriteUniqueStringPointer ::
  "bool \<Rightarrow> u32 \<Rightarrow> string \<Rightarrow> atoms \<times> BinarySegment \<times> BinarySegment \<Rightarrow> (atoms \<times> BinarySegment \<times> BinarySegment) option" where
  "WriteUniqueStringPointer nocase hash filename = (\<lambda>(atoms, out_segment, string_segment).
     case HashTableLookup nocase atoms hash filename of
       None \<Rightarrow> None
     | Some (Some l) \<Rightarrow> Some (atoms, BinarySegmentWritePointer out_segment (the (m_Payloads atoms ! l)), string_segment)
     | Some None \<Rightarrow>
         (let pos = BinarySegmentPosition string_segment
          in map_option (\<lambda>atoms. (atoms, BinarySegmentWritePointer out_segment pos, BinarySegmentWriteStringData string_segment filename))
               (HashTableInsert atoms hash filename pos)))"

fun includes_loop ::
  "bool \<Rightarrow> file_and_hash list \<Rightarrow> atoms \<times> BinarySegment \<times> BinarySegment \<Rightarrow> (atoms \<times> BinarySegment \<times> BinarySegment) option" where
  "includes_loop nocase [] st = Some st"
| "includes_loop nocase (inc # incs) st =
     (case WriteUniqueStringPointer nocase (snd inc) (fst inc) st of
        None \<Rightarrow> None
      | Some (atoms, array_seg, string_seg) \<Rightarrow>
          includes_loop nocase incs (atoms, BinarySegmentWriteUint32 array_seg (snd inc), string_seg))"

definition SaveRecord ::
  "bool \<Rightarrow> digest \<Rightarrow> file_and_hash list \<Rightarrow> u64 \<Rightarrow> u64 \<Rightarrow> atoms \<times> ScanCacheWriter \<Rightarrow> (atoms \<times> ScanCacheWriter) option" where
  "SaveRecord nocase digest incs file_timestamp access_time = (\<lambda>(atoms, self).
     let string_ptrs = BinarySegmentPosition (zw_ArraySeg self)
     in case includes_loop nocase incs (atoms, zw_ArraySeg self, zw_StringSeg self) of
          None \<Rightarrow> None
        | Some (atoms, array_seg, string_seg) \<Rightarrow>
            Some (atoms, self\<lparr>zw_ArraySeg := array_seg, zw_StringSeg := string_seg,
              zw_DigestSeg := BinarySegmentWrite (zw_DigestSeg self) (digest_bytes digest),
              zw_DataSeg := BinarySegmentWritePointer (BinarySegmentWriteUint32 (BinarySegmentWriteUint64 (zw_DataSeg self) file_timestamp)
                (of_nat (length incs))) string_ptrs,
              zw_TimestampSeg := BinarySegmentWriteUint64 (zw_TimestampSeg self) access_time,
              zw_RecordsOut := zw_RecordsOut self + 1\<rparr>))"

definition save_dynamic :: "bool \<Rightarrow> u64 \<Rightarrow> ScanRecord list \<Rightarrow> nat \<Rightarrow> atoms \<times> ScanCacheWriter \<Rightarrow> (atoms \<times> ScanCacheWriter) option" where
  "save_dynamic nocase now dyn_records index =
     (let r = dyn_records ! index in SaveRecord nocase (sr_Key r) (sr_Includes r) (sr_FileTimestamp r) now)"

definition save_frozen ::
  "bool \<Rightarrow> u64 \<Rightarrow> ScanData \<Rightarrow> bool list \<Rightarrow> nat \<Rightarrow> atoms \<times> ScanCacheWriter \<Rightarrow> (atoms \<times> ScanCacheWriter) option" where
  "save_frozen nocase now scan_data frozen_access index st =
     (let timestamp = (if frozen_access ! index then now else sn_AccessTimes scan_data ! index)
      in if timestamp > now - 60 * 60 * 24 * 7
         then SaveRecord nocase (sn_Keys scan_data ! index) (se_IncludedFiles (sn_Data scan_data ! index))
                (se_FileTimestamp (sn_Data scan_data ! index)) timestamp st
         else Some st)"

text \<open>
  \<open>now\<close> is the result of \<open>time(nullptr)\<close>. No two records have the same key, so that \<open>std::sort\<close>
  has one result. The callbacks fail only where a table operation would not return.
\<close>

definition ScanCacheSave :: "bool \<Rightarrow> u64 \<Rightarrow> file_system \<Rightarrow> ScanCache \<Rightarrow> (ScanCache \<times> bool \<times> u8 list option) result option" where
  "ScanCacheSave nocase now fs self =
     (let records = concat (cs_Table self)
      in if length records \<noteq> cs_RecordCount self then Some (Inl check_failure)
         else
           (let dyn_records = sort_key sr_Key records;
                scan_data = (case cs_FrozenData self of None \<Rightarrow> \<lparr>sn_Keys = [], sn_Data = [], sn_AccessTimes = []\<rparr> | Some d \<Rightarrow> d)
            in case TraverseSortedArrays (length dyn_records) (\<lambda>i st. Option.bind st (save_dynamic nocase now dyn_records i)) (\<lambda>i. sr_Key (dyn_records ! i))
                   (length (sn_Keys scan_data)) (\<lambda>i st. Option.bind st (save_frozen nocase now scan_data (cs_FrozenAccess self) i))
                   (\<lambda>i. sn_Keys scan_data ! i) (Some (HashTableInit, ScanCacheWriterInit)) of
                 None \<Rightarrow> None
               | Some (atoms, writer) \<Rightarrow>
                   (case ScanCacheWriterFlush fs writer of
                      Inl e \<Rightarrow> Some (Inl e)
                    | Inr (result, contents) \<Rightarrow> Some (Inr (self\<lparr>cs_FrozenData := None\<rparr>, result, contents)))))"

section \<open>Loading\<close>

definition read_file_and_hash :: "u8 list \<Rightarrow> nat \<Rightarrow> file_and_hash option" where
  "read_file_and_hash mem pos = do {
     filename \<leftarrow> read_string mem pos;
     hash \<leftarrow> read_u32 mem (pos + 4);
     Some (filename, hash)
   }"

definition read_scan_entry :: "u8 list \<Rightarrow> nat \<Rightarrow> ScanCacheEntry option" where
  "read_scan_entry mem pos = do {
     timestamp \<leftarrow> read_u64 mem pos;
     files \<leftarrow> FrozenArray_read mem (read_file_and_hash mem) 8 (pos + 8);
     Some \<lparr>se_FileTimestamp = timestamp, se_IncludedFiles = files\<rparr>
   }"

definition LoadFrozenData_scan :: "u8 list option \<Rightarrow> ScanData option" where
  "LoadFrozenData_scan mapping =
     (case mapping of
        None \<Rightarrow> None
      | Some mem \<Rightarrow>
          if length mem < 20 then None
          else if read_u32 mem 0 \<noteq> Some scan_MagicNumber then None
          else do {
            entry_count \<leftarrow> read_i32 mem 4;
            key_array \<leftarrow> FrozenPtr_Get mem 8;
            data_array \<leftarrow> FrozenPtr_Get mem 12;
            time_array \<leftarrow> FrozenPtr_Get mem 16;
            keys \<leftarrow> read_elements (read_digest mem) 16 entry_count key_array;
            data \<leftarrow> read_elements (read_scan_entry mem) 16 entry_count data_array;
            times \<leftarrow> read_elements (read_u64 mem) 8 entry_count time_array;
            Some \<lparr>sn_Keys = keys, sn_Data = data, sn_AccessTimes = times\<rparr>
          })"

section \<open>The cells of the file\<close>

text \<open>A record of the file: key, time stamp of the file, time of the last access, included files.\<close>

type_synonym scan_rec = "digest \<times> u64 \<times> u64 \<times> file_and_hash list"

abbreviation rec_files :: "scan_rec \<Rightarrow> file_and_hash list" where
  "rec_files r \<equiv> snd (snd (snd r))"

fun item_cells :: "(BinaryLocator \<times> u32) list \<Rightarrow> cell list" where
  "item_cells [] = []"
| "item_cells ((loc, h) # its) = Pointer loc # Data (bytes_of 4 h) # item_cells its"

fun data_cells :: "nat \<Rightarrow> scan_rec list \<Rightarrow> cell list" where
  "data_cells a [] = []"
| "data_cells a (r # rs) =
     [Data (bytes_of 8 (fst (snd r))), Data (bytes_of 4 (of_nat (length (rec_files r)) :: u32)), Pointer \<lparr>bl_SegIndex = 4, bl_Offset = 8 * a\<rparr>] @
     data_cells (a + length (rec_files r)) rs"

definition scan_file_cells :: "scan_rec list \<Rightarrow> (BinaryLocator \<times> u32) list \<Rightarrow> string list \<Rightarrow> cell list list" where
  "scan_file_cells rs its strs =
     [[Data (bytes_of 4 scan_MagicNumber), Data (bytes_of 4 (of_nat (length rs) :: u32)), Pointer \<lparr>bl_SegIndex = 1, bl_Offset = 0\<rparr>,
       Pointer \<lparr>bl_SegIndex = 2, bl_Offset = 0\<rparr>, Pointer \<lparr>bl_SegIndex = 3, bl_Offset = 0\<rparr>],
      map (\<lambda>r. Data (digest_bytes (fst r))) rs, data_cells 0 rs, map (\<lambda>r. Data (bytes_of 8 (fst (snd (snd r))))) rs,
      item_cells its, string_cells strs]"

text \<open>Where a name is in the pool of strings.\<close>

definition located :: "string list \<Rightarrow> BinaryLocator \<Rightarrow> string \<Rightarrow> bool" where
  "located strs loc g \<longleftrightarrow> (\<exists>ss1 s ss2. strs = ss1 @ s # ss2 \<and> loc = \<lparr>bl_SegIndex = 5, bl_Offset = cells_size (string_cells ss1)\<rparr> \<and> c_str s = g)"

definition item_ok :: "string list \<Rightarrow> BinaryLocator \<times> u32 \<Rightarrow> file_and_hash \<Rightarrow> bool" where
  "item_ok strs it g \<longleftrightarrow> snd it = snd g \<and> located strs (fst it) (fst g)"

definition same_file :: "bool \<Rightarrow> file_and_hash \<Rightarrow> file_and_hash \<Rightarrow> bool" where
  "same_file nocase g f \<longleftrightarrow> snd g = snd f \<and> canon nocase (fst g) = canon nocase (fst f)"

definition same_rec :: "bool \<Rightarrow> scan_rec \<Rightarrow> scan_rec \<Rightarrow> bool" where
  "same_rec nocase r r' \<longleftrightarrow> fst r = fst r' \<and> fst (snd r) = fst (snd r') \<and> fst (snd (snd r)) = fst (snd (snd r')) \<and>
     list_all2 (same_file nocase) (rec_files r) (rec_files r')"

definition atoms_ok :: "bool \<Rightarrow> atoms \<Rightarrow> string list \<Rightarrow> bool" where
  "atoms_ok nocase atoms strs \<longleftrightarrow> ht_ok nocase atoms \<and>
     (\<forall>h f loc. h \<noteq> 0 \<longrightarrow> HashTableGet nocase atoms (h, f) = Some loc \<longrightarrow> (\<exists>g. located strs loc g \<and> canon nocase g = canon nocase f))"

definition zw_holds :: "ScanCacheWriter \<Rightarrow> scan_rec list \<Rightarrow> (BinaryLocator \<times> u32) list \<Rightarrow> string list \<Rightarrow> bool" where
  "zw_holds w rs its strs \<longleftrightarrow> zw_MainSeg w = BinarySegmentInit 0 \<and>
     holds_cells (zw_DigestSeg w) (map (\<lambda>r. Data (digest_bytes (fst r))) rs) \<and> holds_cells (zw_DataSeg w) (data_cells 0 rs) \<and>
     holds_cells (zw_TimestampSeg w) (map (\<lambda>r. Data (bytes_of 8 (fst (snd (snd r))))) rs) \<and>
     holds_cells (zw_ArraySeg w) (item_cells its) \<and> holds_cells (zw_StringSeg w) (string_cells strs) \<and>
     sg_Index (zw_DigestSeg w) = 1 \<and> sg_Index (zw_DataSeg w) = 2 \<and> sg_Index (zw_TimestampSeg w) = 3 \<and>
     sg_Index (zw_ArraySeg w) = 4 \<and> sg_Index (zw_StringSeg w) = 5 \<and> zw_RecordsOut w = length rs \<and>
     list_all2 (item_ok strs) its (concat (map rec_files rs))"

lemma item_cells_append [simp]: "item_cells (xs @ ys) = item_cells xs @ item_cells ys"
  by (induction xs rule: item_cells.induct) simp_all

lemma data_cells_append [simp]:
  "data_cells a (rs @ rs') = data_cells a rs @ data_cells (a + length (concat (map rec_files rs))) rs'"
  by (induction rs arbitrary: a) (simp_all add: add.assoc)

lemma scan_sizes [simp]: "cells_size (item_cells its) = 8 * length its" "cells_size (data_cells a rs) = 16 * length rs"
  "cells_size (map (\<lambda>r. Data (digest_bytes (k r))) rs) = 16 * length rs" "cells_size (map (\<lambda>r. Data (bytes_of 8 (t r))) rs) = 8 * length rs"
proof -
  show "cells_size (item_cells its) = 8 * length its" by (induction its rule: item_cells.induct) simp_all
  show "cells_size (data_cells a rs) = 16 * length rs" by (induction rs arbitrary: a) simp_all
  show "cells_size (map (\<lambda>r. Data (digest_bytes (k r))) rs) = 16 * length rs" "cells_size (map (\<lambda>r. Data (bytes_of 8 (t r))) rs) = 8 * length rs"
    by (induction rs) simp_all
qed

lemma located_append: "located strs loc g \<Longrightarrow> located (strs @ add) loc g"
  unfolding located_def by fastforce

lemma located_last: "located (strs @ [f]) \<lparr>bl_SegIndex = 5, bl_Offset = cells_size (string_cells strs)\<rparr> (c_str f)"
  unfolding located_def by blast

lemma item_ok_append: "list_all2 (item_ok strs) its gs \<Longrightarrow> list_all2 (item_ok (strs @ add)) its gs"
  by (erule list_all2_mono) (auto simp: item_ok_def located_append)

lemma canon_c_str [simp]: "canon nocase (c_str s) = canon nocase s"
  by (simp add: canon_def)

section \<open>Records\<close>

lemma WriteUniqueStringPointer_ok:
  assumes "atoms_ok nocase atoms strs" "hash \<noteq> 0" "holds_cells str (string_cells strs)" "sg_Index str = 5"
  shows "\<exists>atoms' loc str' add g. WriteUniqueStringPointer nocase hash filename (atoms, out, str) = Some (atoms', BinarySegmentWritePointer out loc, str') \<and>
    atoms_ok nocase atoms' (strs @ add) \<and> holds_cells str' (string_cells (strs @ add)) \<and> sg_Index str' = 5 \<and>
    located (strs @ add) loc g \<and> canon nocase g = canon nocase filename"
proof -
  have ht: "ht_ok nocase atoms" using assms(1) by (simp add: atoms_ok_def)
  then have wf: "ht_wf atoms" by (simp add: ht_ok_def)
  from wf assms(2) show ?thesis
  proof (rule HashTableLookup_slot [of atoms hash nocase filename])
    assume look: "HashTableLookup nocase atoms hash filename = Some None"
    let ?pos = "\<lparr>bl_SegIndex = 5, bl_Offset = cells_size (string_cells strs)\<rparr>"
    have pos: "BinarySegmentPosition str = ?pos" using holds_cells_position [OF assms(3)] assms(4) by simp
    have "HashTableGet nocase atoms (hash, filename) = None" using look by (simp add: HashTableGet_def)
    then obtain atoms' where a: "HashTableInsert atoms hash filename ?pos = Some atoms'" "ht_ok nocase atoms'"
        "\<forall>k. fst k \<noteq> 0 \<longrightarrow> HashTableGet nocase atoms' k = (if same_key nocase (hash, filename) k then Some ?pos else HashTableGet nocase atoms k)"
      using table.add_absent [OF ht, of "(hash, filename)" ?pos] assms(2) by auto
    have "\<exists>g. located (strs @ [filename]) loc g \<and> canon nocase g = canon nocase f"
      if "h \<noteq> 0" "HashTableGet nocase atoms' (h, f) = Some loc" for h f loc
    proof (cases "same_key nocase (hash, filename) (h, f)")
      case True
      then have "loc = ?pos" "canon nocase filename = canon nocase f" using a(3) that by (auto simp: same_key_def)
      then show ?thesis using located_last [of strs filename] by (intro exI [of _ "c_str filename"]) simp
    next
      case False
      then have "HashTableGet nocase atoms (h, f) = Some loc" using a(3) that by simp
      then show ?thesis using assms(1) that(1) located_append unfolding atoms_ok_def by blast
    qed
    then have "atoms_ok nocase atoms' (strs @ [filename])" using a(2) unfolding atoms_ok_def by blast
    moreover have "holds_cells (BinarySegmentWriteStringData str filename) (string_cells (strs @ [filename]))"
      using holds_words(4) [OF assms(3), of filename] by (simp add: string_cells_def)
    ultimately show ?thesis
      using look a(1) pos assms(4) located_last [of strs filename]
      by (intro exI [of _ atoms'] exI [of _ ?pos] exI [of _ "BinarySegmentWriteStringData str filename"] exI [of _ "[filename]"]
          exI [of _ "c_str filename"]) (simp add: WriteUniqueStringPointer_def Let_def)
  next
    fix p v
    assume look: "HashTableLookup nocase atoms hash filename = Some (Some p)" and v: "m_Payloads atoms ! p = Some v"
    then have "HashTableGet nocase atoms (hash, filename) = Some v" by (simp add: HashTableGet_def)
    then obtain g where "located strs v g" "canon nocase g = canon nocase filename"
      using assms(1,2) unfolding atoms_ok_def by blast
    then show ?thesis
      using look v assms by (intro exI [of _ atoms] exI [of _ v] exI [of _ str] exI [of _ "[]"] exI [of _ g])
        (simp add: WriteUniqueStringPointer_def)
  qed
qed

lemma includes_loop_ok:
  assumes "atoms_ok nocase atoms strs" "\<forall>f \<in> set incs. snd f \<noteq> 0" "holds_cells str (string_cells strs)" "sg_Index str = 5"
    "holds_cells arr (item_cells its)"
  shows "\<exists>atoms' arr' str' add new gs. includes_loop nocase incs (atoms, arr, str) = Some (atoms', arr', str') \<and>
    atoms_ok nocase atoms' (strs @ add) \<and> holds_cells str' (string_cells (strs @ add)) \<and> sg_Index str' = 5 \<and>
    holds_cells arr' (item_cells (its @ new)) \<and> sg_Index arr' = sg_Index arr \<and>
    list_all2 (item_ok (strs @ add)) new gs \<and> list_all2 (same_file nocase) gs incs"
  using assms
proof (induction incs arbitrary: atoms strs str arr its)
  case Nil
  then show ?case by (intro exI [of _ atoms] exI [of _ arr] exI [of _ str] exI [of _ "[]"]) simp
next
  case (Cons f incs)
  obtain atoms1 loc str1 add1 g where w: "WriteUniqueStringPointer nocase (snd f) (fst f) (atoms, arr, str) = Some (atoms1, BinarySegmentWritePointer arr loc, str1)"
      "atoms_ok nocase atoms1 (strs @ add1)" "holds_cells str1 (string_cells (strs @ add1))" "sg_Index str1 = 5"
      "located (strs @ add1) loc g" "canon nocase g = canon nocase (fst f)"
    using WriteUniqueStringPointer_ok [OF Cons.prems(1) _ Cons.prems(3,4), of "snd f" "fst f" arr] Cons.prems(2) by auto
  let ?arr = "BinarySegmentWriteUint32 (BinarySegmentWritePointer arr loc) (snd f)"
  have arr: "holds_cells ?arr (item_cells (its @ [(loc, snd f)]))"
    using holds_words(2) [OF holds_cells_pointer [OF Cons.prems(5), of loc], of "snd f"] by simp
  obtain atoms' arr' str' add new gs where r: "includes_loop nocase incs (atoms1, ?arr, str1) = Some (atoms', arr', str')"
      "atoms_ok nocase atoms' ((strs @ add1) @ add)" "holds_cells str' (string_cells ((strs @ add1) @ add))" "sg_Index str' = 5"
      "holds_cells arr' (item_cells ((its @ [(loc, snd f)]) @ new))" "sg_Index arr' = sg_Index ?arr"
      "list_all2 (item_ok ((strs @ add1) @ add)) new gs" "list_all2 (same_file nocase) gs incs"
    using Cons.IH [OF w(2) _ w(3,4) arr] Cons.prems(2) by auto
  have "item_ok ((strs @ add1) @ add) (loc, snd f) (g, snd f)" using located_append [OF w(5)] by (simp add: item_ok_def)
  moreover have "same_file nocase (g, snd f) f" using w(6) by (simp add: same_file_def)
  ultimately show ?case
    using w(1) r by (intro exI [of _ atoms'] exI [of _ arr'] exI [of _ str'] exI [of _ "add1 @ add"] exI [of _ "(loc, snd f) # new"]
        exI [of _ "(g, snd f) # gs"]) simp
qed

text \<open>What the writer and the table of names hold together; the records are given up to spelling.\<close>

definition written :: "bool \<Rightarrow> atoms \<times> ScanCacheWriter \<Rightarrow> scan_rec list \<Rightarrow> bool" where
  "written nocase st rs \<longleftrightarrow> (\<exists>rs' its strs. zw_holds (snd st) rs' its strs \<and> atoms_ok nocase (fst st) strs \<and> list_all2 (same_rec nocase) rs' rs)"

lemma SaveRecord_written:
  assumes "written nocase st rs" "\<forall>f \<in> set incs. snd f \<noteq> 0"
  shows "\<exists>st'. SaveRecord nocase key incs ts acc st = Some st' \<and> written nocase st' (rs @ [(key, ts, acc, incs)])"
proof -
  obtain atoms w where st: "st = (atoms, w)" by (cases st)
  obtain rs' its strs where h: "zw_holds w rs' its strs" "atoms_ok nocase atoms strs" "list_all2 (same_rec nocase) rs' rs"
    using assms(1) unfolding written_def st by auto
  have segs: "holds_cells (zw_DigestSeg w) (map (\<lambda>r. Data (digest_bytes (fst r))) rs')" "holds_cells (zw_DataSeg w) (data_cells 0 rs')"
      "holds_cells (zw_TimestampSeg w) (map (\<lambda>r. Data (bytes_of 8 (fst (snd (snd r))))) rs')"
      "holds_cells (zw_ArraySeg w) (item_cells its)" "holds_cells (zw_StringSeg w) (string_cells strs)"
      "sg_Index (zw_StringSeg w) = 5" "sg_Index (zw_ArraySeg w) = 4" "list_all2 (item_ok strs) its (concat (map rec_files rs'))"
    using h(1) by (simp_all add: zw_holds_def)
  obtain atoms' arr' str' add new gs where l: "includes_loop nocase incs (atoms, zw_ArraySeg w, zw_StringSeg w) = Some (atoms', arr', str')"
      "atoms_ok nocase atoms' (strs @ add)" "holds_cells str' (string_cells (strs @ add))" "sg_Index str' = 5"
      "holds_cells arr' (item_cells (its @ new))" "sg_Index arr' = sg_Index (zw_ArraySeg w)"
      "list_all2 (item_ok (strs @ add)) new gs" "list_all2 (same_file nocase) gs incs"
    using includes_loop_ok [OF h(2) assms(2) segs(5,6,4)] by blast
  let ?r = "(key, ts, acc, gs)"
  have len: "length gs = length incs" "length its = length (concat (map rec_files rs'))"
    using l(8) segs(8) by (simp_all add: list_all2_lengthD)
  have ptr: "BinarySegmentPosition (zw_ArraySeg w) = \<lparr>bl_SegIndex = 4, bl_Offset = 8 * length (concat (map rec_files rs'))\<rparr>"
    using holds_cells_position [OF segs(4)] segs(7) len(2) by simp
  note d1 = holds_words(1) [OF segs(2), of ts]
  note d2 = holds_words(2) [OF d1, of "of_nat (length incs)"]
  note d3 = holds_cells_pointer [OF d2, of "BinarySegmentPosition (zw_ArraySeg w)"]
  have items: "list_all2 (item_ok (strs @ add)) (its @ new) (concat (map rec_files (rs' @ [?r])))"
    using item_ok_append [OF segs(8), of add] l(7) by (simp add: list_all2_appendI)
  let ?w = "w\<lparr>zw_ArraySeg := arr', zw_StringSeg := str',
      zw_DigestSeg := BinarySegmentWrite (zw_DigestSeg w) (digest_bytes key),
      zw_DataSeg := BinarySegmentWritePointer (BinarySegmentWriteUint32 (BinarySegmentWriteUint64 (zw_DataSeg w) ts)
        (of_nat (length incs))) (BinarySegmentPosition (zw_ArraySeg w)),
      zw_TimestampSeg := BinarySegmentWriteUint64 (zw_TimestampSeg w) acc, zw_RecordsOut := zw_RecordsOut w + 1\<rparr>"
  have "zw_holds ?w (rs' @ [?r]) (its @ new) (strs @ add)"
    using h(1) items l(3-6) d3 holds_cells_write [OF segs(1), of "digest_bytes key"] holds_words(1) [OF segs(3), of acc] len ptr
    by (simp add: zw_holds_def)
  moreover have "list_all2 (same_rec nocase) (rs' @ [?r]) (rs @ [(key, ts, acc, incs)])"
    using h(3) l(8) by (intro list_all2_appendI) (simp_all add: same_rec_def)
  ultimately have "written nocase (atoms', ?w) (rs @ [(key, ts, acc, incs)])"
    using l(2) unfolding written_def by auto
  then show ?thesis using l(1) by (simp add: st SaveRecord_def Let_def)
qed

section \<open>The merge\<close>

definition frozen_of :: "ScanCache \<Rightarrow> ScanData" where
  "frozen_of self = (case cs_FrozenData self of None \<Rightarrow> \<lparr>sn_Keys = [], sn_Data = [], sn_AccessTimes = []\<rparr> | Some d \<Rightarrow> d)"

definition dyn_of :: "ScanCache \<Rightarrow> ScanRecord list" where
  "dyn_of self = sort_key sr_Key (concat (cs_Table self))"

definition last_access :: "u64 \<Rightarrow> ScanCache \<Rightarrow> nat \<Rightarrow> u64" where
  "last_access now self i = (if cs_FrozenAccess self ! i then now else sn_AccessTimes (frozen_of self) ! i)"

definition dyn_rec :: "u64 \<Rightarrow> ScanRecord \<Rightarrow> scan_rec" where
  "dyn_rec now r = (sr_Key r, sr_FileTimestamp r, now, sr_Includes r)"

definition frozen_rec :: "u64 \<Rightarrow> ScanCache \<Rightarrow> nat \<Rightarrow> scan_rec option" where
  "frozen_rec now self i =
     (if last_access now self i > now - 604800
      then Some (sn_Keys (frozen_of self) ! i, se_FileTimestamp (sn_Data (frozen_of self) ! i), last_access now self i,
        se_IncludedFiles (sn_Data (frozen_of self) ! i)) else None)"

fun call_rec :: "u64 \<Rightarrow> ScanCache \<Rightarrow> nat + nat \<Rightarrow> scan_rec option" where
  "call_rec now self (Inl i) = Some (dyn_rec now (dyn_of self ! i))"
| "call_rec now self (Inr j) = frozen_rec now self j"

definition scan_calls :: "ScanCache \<Rightarrow> (nat + nat) list" where
  "scan_calls self = merge_from 0 (map sr_Key (dyn_of self)) 0 (sn_Keys (frozen_of self))"

definition saved_recs :: "u64 \<Rightarrow> ScanCache \<Rightarrow> scan_rec list" where
  "saved_recs now self = concat (map (\<lambda>c. case call_rec now self c of None \<Rightarrow> [] | Some e \<Rightarrow> [e]) (scan_calls self))"

text \<open>What the function relies on: the invariant of the table, and an old file as it wrote it.\<close>

definition scan_saveable :: "ScanCache \<Rightarrow> bool" where
  "scan_saveable self \<longleftrightarrow> scan_ok self \<and> (\<forall>r \<in> set (concat (cs_Table self)). \<forall>f \<in> set (sr_Includes r). snd f \<noteq> 0) \<and>
     sorted_wrt (<) (sn_Keys (frozen_of self)) \<and> length (sn_Data (frozen_of self)) = length (sn_Keys (frozen_of self)) \<and>
     (\<forall>e \<in> set (sn_Data (frozen_of self)). \<forall>f \<in> set (se_IncludedFiles e). snd f \<noteq> 0)"

abbreviation save_call :: "bool \<Rightarrow> u64 \<Rightarrow> ScanCache \<Rightarrow> nat + nat \<Rightarrow> (atoms \<times> ScanCacheWriter) option \<Rightarrow> (atoms \<times> ScanCacheWriter) option" where
  "save_call nocase now self \<equiv> dispatch (\<lambda>i st. Option.bind st (save_dynamic nocase now (dyn_of self) i))
     (\<lambda>i st. Option.bind st (save_frozen nocase now (frozen_of self) (cs_FrozenAccess self) i))"

abbreviation save_traversal :: "bool \<Rightarrow> u64 \<Rightarrow> ScanCache \<Rightarrow> (atoms \<times> ScanCacheWriter) option" where
  "save_traversal nocase now self \<equiv>
     TraverseSortedArrays (length (dyn_of self)) (\<lambda>i st. Option.bind st (save_dynamic nocase now (dyn_of self) i)) (\<lambda>i. sr_Key (dyn_of self ! i))
      (length (sn_Keys (frozen_of self))) (\<lambda>i st. Option.bind st (save_frozen nocase now (frozen_of self) (cs_FrozenAccess self) i))
      (\<lambda>i. sn_Keys (frozen_of self) ! i) (Some (HashTableInit, ScanCacheWriterInit))"

lemma save_call_written:
  assumes "scan_saveable self" "written nocase st rs" "c \<in> set (scan_calls self)"
  shows "\<exists>st'. save_call nocase now self c (Some st) = Some st' \<and>
    written nocase st' (rs @ (case call_rec now self c of None \<Rightarrow> [] | Some e \<Rightarrow> [e]))"
proof (cases c)
  case (Inl i)
  have "i < length (dyn_of self)" using merge_from_range(2) assms(3) Inl by (fastforce simp: scan_calls_def)
  then have "dyn_of self ! i \<in> set (concat (cs_Table self))" using nth_mem [of i "dyn_of self"] by (simp add: dyn_of_def)
  then have "\<forall>f \<in> set (sr_Includes (dyn_of self ! i)). snd f \<noteq> 0" using assms(1) unfolding scan_saveable_def by blast
  then show ?thesis
    using SaveRecord_written [OF assms(2), of "sr_Includes (dyn_of self ! i)" "sr_Key (dyn_of self ! i)" "sr_FileTimestamp (dyn_of self ! i)" now] Inl
    by (simp add: save_dynamic_def Let_def dyn_rec_def)
next
  case (Inr j)
  have "j < length (sn_Data (frozen_of self))"
    using merge_from_range(1) assms(1,3) Inr by (fastforce simp: scan_calls_def scan_saveable_def)
  then have "\<forall>f \<in> set (se_IncludedFiles (sn_Data (frozen_of self) ! j)). snd f \<noteq> 0"
    using assms(1) nth_mem unfolding scan_saveable_def by blast
  from SaveRecord_written [OF assms(2) this] show ?thesis
    using assms(2) by (cases st) (simp add: Inr save_frozen_def Let_def frozen_rec_def last_access_def)
qed

lemma traversal_written:
  assumes "scan_saveable self"
  shows "\<exists>st. save_traversal nocase now self = Some st \<and>
    written nocase st (saved_recs now self)"
proof -
  let ?ks = "map sr_Key (dyn_of self)"
  have "save_traversal nocase now self =
    TraverseSortedArrays (length ?ks) (\<lambda>i st. Option.bind st (save_dynamic nocase now (dyn_of self) i)) ((!) ?ks)
      (length (sn_Keys (frozen_of self))) (\<lambda>i st. Option.bind st (save_frozen nocase now (frozen_of self) (cs_FrozenAccess self) i))
      ((!) (sn_Keys (frozen_of self))) (Some (HashTableInit, ScanCacheWriterInit))"
    unfolding TraverseSortedArrays_def by (simp, rule traverse_cong) simp_all
  note tr = this [unfolded TraverseSortedArrays_merge, folded scan_calls_def]
  have "\<exists>st'. fold (save_call nocase now self) cs (Some st) = Some st' \<and>
      written nocase st' (rs @ concat (map (\<lambda>c. case call_rec now self c of None \<Rightarrow> [] | Some e \<Rightarrow> [e]) cs))"
    if "written nocase st rs" "set cs \<subseteq> set (scan_calls self)" for st rs cs
    using that
  proof (induction cs arbitrary: st rs)
    case (Cons c cs)
    have c: "c \<in> set (scan_calls self)" using Cons.prems(2) by simp
    obtain st1 where st1: "save_call nocase now self c (Some st) = Some st1"
        "written nocase st1 (rs @ (case call_rec now self c of None \<Rightarrow> [] | Some e \<Rightarrow> [e]))"
      using save_call_written [OF assms Cons.prems(1) c, of now] by (elim exE conjE that)
    from Cons.IH [OF st1(2)] show ?case using Cons.prems(2) st1(1) by simp
  qed auto
  moreover have "written nocase (HashTableInit, ScanCacheWriterInit) []"
  proof -
    have "atoms_ok nocase HashTableInit []"
      unfolding atoms_ok_def using table.inv_empty [of nocase] table.get_empty [of _ nocase] by (metis fst_conv option.distinct(1))
    moreover have "zw_holds ScanCacheWriterInit [] [] []"
      by (simp add: zw_holds_def ScanCacheWriterInit_def string_cells_def) (simp add: BinarySegmentInit_def)
    ultimately show ?thesis unfolding written_def by auto
  qed
  ultimately show ?thesis unfolding tr saved_recs_def by fastforce
qed

section \<open>The file\<close>

lemma scan_targets: "list_all2 (item_ok strs) its gs \<Longrightarrow> cs \<in> set (scan_file_cells rs its strs) \<Longrightarrow> targets_ok 6 cs"
proof -
  assume items: "list_all2 (item_ok strs) its gs"
  have "targets_ok 6 (item_cells its)"
    using items by (induction its gs rule: list_all2_induct) (auto simp: targets_ok_def item_ok_def located_def)
  moreover have "targets_ok 6 (data_cells a rs)" for a
    by (induction rs arbitrary: a) (auto simp: targets_ok_def)
  moreover have "targets_ok 6 (map (\<lambda>r. Data (f r)) rs)" "targets_ok 6 (string_cells strs)" for f
    by (auto simp: targets_ok_def string_cells_def)
  ultimately show "cs \<in> set (scan_file_cells rs its strs) \<Longrightarrow> targets_ok 6 cs"
    unfolding scan_file_cells_def by (auto simp: targets_ok_def)
qed

lemma ScanCacheWriterFlush_file:
  assumes "zw_holds w rs its strs" "ScanCacheWriterFlush fs w = Inr (True, contents)"
  shows "contents = Some (file_of (scan_file_cells rs its strs)) \<and> linked (scan_file_cells rs its strs)"
proof -
  let ?m1 = "BinarySegmentWriteUint32 (zw_MainSeg w) scan_MagicNumber"
  let ?m2 = "BinarySegmentWriteUint32 ?m1 (of_nat (length rs))"
  let ?loc = "\<lambda>i. \<lparr>bl_SegIndex = i, bl_Offset = 0\<rparr>"
  let ?m5 = "BinarySegmentWritePointer (BinarySegmentWritePointer (BinarySegmentWritePointer ?m2 (?loc 1)) (?loc 2)) (?loc 3)"
  let ?sgs = "[?m5, zw_DigestSeg w, zw_DataSeg w, zw_TimestampSeg w, zw_ArraySeg w, zw_StringSeg w]"
  have main: "zw_MainSeg w = BinarySegmentInit 0" and n: "zw_RecordsOut w = length rs" using assms(1) by (simp_all add: zw_holds_def)
  have "holds_cells (zw_MainSeg w) []" unfolding main by (rule holds_cells_init)
  note m2 = holds_words(2) [OF holds_words(2) [OF this, of scan_MagicNumber], of "of_nat (length rs)"]
  note m5 = holds_cells_pointer [OF holds_cells_pointer [OF holds_cells_pointer [OF m2, of "?loc 1"], of "?loc 2"], of "?loc 3"]
  have i: "sg_Index ?m5 = 0" unfolding main by simp (simp add: BinarySegmentInit_def)
  have h: "writer_holds ?sgs (scan_file_cells rs its strs)"
    using m5 i assms(1) unfolding writer_holds_def
    by (auto simp: scan_file_cells_def zw_holds_def less_Suc_eq numeral_eq_Suc)
  have pos: "BinarySegmentPosition (zw_DigestSeg ScanCacheWriterInit) = ?loc 1" "BinarySegmentPosition (zw_DataSeg ScanCacheWriterInit) = ?loc 2"
      "BinarySegmentPosition (zw_TimestampSeg ScanCacheWriterInit) = ?loc 3"
    by (simp_all add: ScanCacheWriterInit_def BinarySegmentPosition_def) (simp_all add: BinarySegmentInit_def)
  have flush: "BinaryWriterFlush (fs_opened fs) (fs_written fs) ?sgs = Inr (True, contents)"
    using assms(2) unfolding ScanCacheWriterFlush_def Let_def pos n .
  obtain sgs' where fin: "BinaryWriterFinalize ?sgs = Inr sgs'" and out: "contents = Some (concat (map sg_Bytes sgs'))"
    using flush by (auto simp: BinaryWriterFlush_def dest!: write_loop_success split: sum.splits if_splits prod.splits)
  have items: "list_all2 (item_ok strs) its (concat (map rec_files rs))" using assms(1) by (simp add: zw_holds_def)
  have t: "targets_ok (length (scan_file_cells rs its strs)) cs" if "cs \<in> set (scan_file_cells rs its strs)" for cs
    using scan_targets [OF items that] by (simp add: scan_file_cells_def eval_nat_numeral)
  show ?thesis using BinaryWriterFinalize_file(1,2) [OF h t] fin out by (simp add: linked_def)
qed

section \<open>Reading the file\<close>

lemma read_item:
  assumes "linked (scan_file_cells rs its strs)" "i < length its" "item_ok strs (its ! i) g"
  shows "read_file_and_hash (file_of (scan_file_cells rs its strs)) (seg_start (scan_file_cells rs its strs) 4 + 8 * i) = Some g"
proof -
  let ?css = "scan_file_cells rs its strs"
  obtain loc h where it: "its ! i = (loc, h)" by fastforce
  obtain ss1 s ss2 where s: "strs = ss1 @ s # ss2" "loc = \<lparr>bl_SegIndex = 5, bl_Offset = cells_size (string_cells ss1)\<rparr>" "c_str s = fst g" "h = snd g"
    using assms(3) it by (auto simp: item_ok_def located_def)
  have six: "4 < length ?css" "5 < length ?css" by (simp_all add: scan_file_cells_def)
  have c4: "?css ! 4 = item_cells (take i its) @ Pointer loc # Data (bytes_of 4 h) # item_cells (drop (Suc i) its)"
    using arg_cong [OF id_take_nth_drop [OF assms(2)], of item_cells] by (simp add: scan_file_cells_def it)
  have c5: "?css ! 5 = string_cells ss1 @ Data (string_bytes s) # string_cells ss2"
    by (simp add: scan_file_cells_def s(1) string_cells_def)
  have size: "cells_size (item_cells (take i its)) = 8 * i" using assms(2) by simp
  have "read_string (file_of ?css) (seg_start ?css 4 + cells_size (item_cells (take i its))) = Some (c_str s)"
    by (rule read_string_cell [OF assms(1) c4 [unfolded s(2)] c5]) (use six in simp_all)
  moreover have "?css ! 4 = (item_cells (take i its) @ [Pointer loc]) @ Data (bytes_of 4 h) # item_cells (drop (Suc i) its)" using c4 by simp
  from read_data [OF six(1) this] have "read_u32 (file_of ?css) (seg_start ?css 4 + 8 * i + 4) = Some h"
    using size by (simp add: read_u32_def add.assoc)
  ultimately show ?thesis using s(3,4) size by (simp add: read_file_and_hash_def)
qed

lemma read_scan_record:
  assumes "linked (scan_file_cells (r1 @ r # r2) its strs)" "list_all2 (item_ok strs) its (concat (map rec_files (r1 @ r # r2)))"
    "length (rec_files r) < 2 ^ 31"
  shows "read_scan_entry (file_of (scan_file_cells (r1 @ r # r2) its strs)) (seg_start (scan_file_cells (r1 @ r # r2) its strs) 2 + 16 * length r1) =
    Some \<lparr>se_FileTimestamp = fst (snd r), se_IncludedFiles = rec_files r\<rparr>"
proof -
  let ?css = "scan_file_cells (r1 @ r # r2) its strs"
  let ?mem = "file_of ?css" and ?pos = "seg_start ?css 2 + 16 * length r1"
  let ?a = "length (concat (map rec_files r1))" and ?n = "length (rec_files r)"
  let ?d1 = "Data (bytes_of 8 (fst (snd r)))" and ?d2 = "Data (bytes_of 4 (of_nat ?n :: u32))"
  let ?ptr = "Pointer \<lparr>bl_SegIndex = 4, bl_Offset = 8 * ?a\<rparr>" and ?rest = "data_cells (?a + ?n) r2"
  have six: "2 < length ?css" by (simp add: scan_file_cells_def)
  have c2: "?css ! 2 = data_cells 0 r1 @ ?d1 # ?d2 # ?ptr # ?rest" by (simp add: scan_file_cells_def)
  have ts: "read_u64 ?mem ?pos = Some (fst (snd r))"
    using read_data [OF six c2] by (simp add: read_u64_def)
  have n: "read_i32 ?mem (?pos + 8) = Some (int ?n)"
  proof (rule read_i32_cell)
    have "?css ! 2 = (data_cells 0 r1 @ [?d1]) @ ?d2 # ?ptr # ?rest" using c2 by simp
    from read_data [OF six this] show "read_bytes ?mem (?pos + 8) 4 = Some (bytes_of 4 (of_int (int ?n) :: u32))" by (simp add: add.assoc)
  qed (use assms(3) in simp_all)
  have "?css ! 2 = (data_cells 0 r1 @ [?d1, ?d2]) @ ?ptr # ?rest" using c2 by simp
  from read_forward_pointer [OF assms(1) six this]
  have p: "FrozenPtr_Get ?mem (?pos + 8 + 4) = Some (Some (int (seg_start ?css 4 + 8 * ?a)))"
    by (simp add: scan_file_cells_def place_def add.assoc)
  have "read_file_and_hash ?mem (seg_start ?css 4 + 8 * ?a + length gs1 * 8) = Some g" if "rec_files r = gs1 @ g # gs2" for gs1 g gs2
  proof -
    let ?i = "?a + length gs1"
    have "concat (map rec_files (r1 @ r # r2)) = (concat (map rec_files r1) @ gs1) @ g # (gs2 @ concat (map rec_files r2))"
      using that by simp
    then have at: "concat (map rec_files (r1 @ r # r2)) ! ?i = g" by (metis length_append nth_append_length)
    have i: "?i < length its" using list_all2_lengthD [OF assms(2)] that by simp
    then have "item_ok strs (its ! ?i) g" using list_all2_nthD [OF assms(2) i] at by simp
    note i = i this
    from read_item [OF assms(1) i] show ?thesis by (simp add: algebra_simps)
  qed
  then have "read_elements (read_file_and_hash ?mem) 8 (int ?n) (Some (int (seg_start ?css 4 + 8 * ?a))) = Some (map (\<lambda>g. g) (rec_files r))"
    by (rule read_elements_all)
  then show ?thesis using ts n p by (simp add: read_scan_entry_def FrozenArray_read_def)
qed

lemma LoadFrozenData_scan_file:
  assumes "linked (scan_file_cells rs its strs)" "list_all2 (item_ok strs) its (concat (map rec_files rs))"
    "length rs < 2 ^ 31" "\<forall>r \<in> set rs. length (rec_files r) < 2 ^ 31"
  shows "LoadFrozenData_scan (Some (file_of (scan_file_cells rs its strs))) =
    Some \<lparr>sn_Keys = map fst rs, sn_Data = map (\<lambda>r. \<lparr>se_FileTimestamp = fst (snd r), se_IncludedFiles = rec_files r\<rparr>) rs,
      sn_AccessTimes = map (\<lambda>r. fst (snd (snd r))) rs\<rparr>"
proof -
  let ?css = "scan_file_cells rs its strs"
  let ?mem = "file_of ?css" and ?n = "length rs"
  let ?p = "\<lambda>i. Pointer \<lparr>bl_SegIndex = i, bl_Offset = 0\<rparr>"
  let ?m1 = "Data (bytes_of 4 scan_MagicNumber)" and ?m2 = "Data (bytes_of 4 (of_nat ?n :: u32))"
  have six: "0 < length ?css" "1 < length ?css" "3 < length ?css" "length ?css = 6" by (simp_all add: scan_file_cells_def)
  have c0: "?css ! 0 = [?m1, ?m2, ?p 1, ?p 2, ?p 3]" and z: "seg_start ?css 0 = 0" by (simp_all add: scan_file_cells_def seg_start_def)
  have magic: "read_u32 ?mem 0 = Some scan_MagicNumber"
    using read_data [of 0 ?css "[]" "bytes_of 4 scan_MagicNumber"] six c0 z by (simp add: read_u32_def)
  have n: "read_i32 ?mem 4 = Some (int ?n)"
    using read_data [of 0 ?css "[?m1]" "bytes_of 4 (of_nat ?n :: u32)"] six c0 z assms(3) by (intro read_i32_cell) simp_all
  have p1: "FrozenPtr_Get ?mem 8 = Some (Some (int (seg_start ?css 1)))"
    using read_forward_pointer [OF assms(1), of 0 "[?m1, ?m2]"] six c0 z by (simp add: place_def)
  have p2: "FrozenPtr_Get ?mem 12 = Some (Some (int (seg_start ?css 2)))"
    using read_forward_pointer [OF assms(1), of 0 "[?m1, ?m2, ?p 1]"] six c0 z by (simp add: place_def)
  have p3: "FrozenPtr_Get ?mem 16 = Some (Some (int (seg_start ?css 3)))"
    using read_forward_pointer [OF assms(1), of 0 "[?m1, ?m2, ?p 1, ?p 2]"] six c0 z by (simp add: place_def)
  have size: "20 \<le> length ?mem" using file_cells [of 0 ?css "[]" "?css ! 0" "[]"] six c0 z by auto
  have keys: "read_elements (read_digest ?mem) 16 (int ?n) (Some (int (seg_start ?css 1))) = Some (map fst rs)"
  proof (rule read_elements_all, rule read_digest_cell)
    fix r1 r r2 assume "rs = r1 @ r # r2"
    then have "?css ! 1 = map (\<lambda>r. Data (digest_bytes (fst r))) r1 @ Data (digest_bytes (fst r)) # map (\<lambda>r. Data (digest_bytes (fst r))) r2"
      by (simp add: scan_file_cells_def)
    from read_data [OF six(2) this] show "read_bytes ?mem (seg_start ?css 1 + length r1 * 16) 16 = Some (digest_bytes (fst r))" by (simp add: mult.commute)
  qed
  have data: "read_elements (read_scan_entry ?mem) 16 (int ?n) (Some (int (seg_start ?css 2))) =
      Some (map (\<lambda>r. \<lparr>se_FileTimestamp = fst (snd r), se_IncludedFiles = rec_files r\<rparr>) rs)"
    using read_scan_record assms by (intro read_elements_all) (simp add: mult.commute)
  have times: "read_elements (read_u64 ?mem) 8 (int ?n) (Some (int (seg_start ?css 3))) = Some (map (\<lambda>r. fst (snd (snd r))) rs)"
  proof (rule read_elements_all)
    fix r1 r r2 assume "rs = r1 @ r # r2"
    then have "?css ! 3 = map (\<lambda>r. Data (bytes_of 8 (fst (snd (snd r))))) r1 @ Data (bytes_of 8 (fst (snd (snd r)))) #
        map (\<lambda>r. Data (bytes_of 8 (fst (snd (snd r))))) r2"
      by (simp add: scan_file_cells_def)
    from read_data [OF six(3) this] show "read_u64 ?mem (seg_start ?css 3 + length r1 * 8) = Some (fst (snd (snd r)))"
      by (simp add: read_u64_def mult.commute)
  qed
  show ?thesis using size magic n p1 p2 p3 keys data times by (simp add: LoadFrozenData_scan_def)
qed

section \<open>What the next run finds\<close>

definition scan_entry :: "ScanData \<Rightarrow> digest \<Rightarrow> scan_rec option" where
  "scan_entry d key = map_option (\<lambda>i. (key, se_FileTimestamp (sn_Data d ! i), sn_AccessTimes d ! i, se_IncludedFiles (sn_Data d ! i)))
     (BinarySearch (sn_Keys d) (int (length (sn_Keys d))) key)"

text \<open>The record of a key that is kept: that of this build, or else the old one if it was used within a week.\<close>

definition scan_kept :: "u64 \<Rightarrow> ScanCache \<Rightarrow> digest \<Rightarrow> scan_rec option" where
  "scan_kept now self key =
     (case LookupDynamic self key of
        Some r \<Rightarrow> Some (dyn_rec now r)
      | None \<Rightarrow> Option.bind (BinarySearch (sn_Keys (frozen_of self)) (int (length (sn_Keys (frozen_of self)))) key) (frozen_rec now self))"

lemma scan_entry_recs:
  assumes "list_all2 (same_rec nocase) rs' rs" "sorted_wrt (<) (map fst rs)"
  defines "d \<equiv> \<lparr>sn_Keys = map fst rs', sn_Data = map (\<lambda>r. \<lparr>se_FileTimestamp = fst (snd r), se_IncludedFiles = rec_files r\<rparr>) rs',
      sn_AccessTimes = map (\<lambda>r. fst (snd (snd r))) rs'\<rparr>"
  shows "sorted_wrt (<) (sn_Keys d)" "rel_option (same_rec nocase) (scan_entry d key) (map_option (Pair key) (map_of rs key))"
proof -
  have len: "length rs' = length rs" by (rule list_all2_lengthD [OF assms(1)])
  have keys: "map fst rs' = map fst rs"
    using assms(1) len by (auto intro!: nth_equalityI simp: list_all2_conv_all_nth same_rec_def)
  then show "sorted_wrt (<) (sn_Keys d)" using assms(2) by (simp add: d_def)
  show "rel_option (same_rec nocase) (scan_entry d key) (map_option (Pair key) (map_of rs key))"
  proof (cases "key \<in> set (map fst rs)")
    case True
    then obtain i where i: "i < length rs" "map fst rs ! i = key" by (metis in_set_conv_nth length_map)
    have "BinarySearch (map fst rs) (int (length (map fst rs))) key = Some i" using BinarySearch_member [OF assms(2), of i] i by simp
    moreover have "fst (rs' ! i) = key" using arg_cong [OF keys, of "\<lambda>ks. ks ! i"] i len by simp
    ultimately have e: "scan_entry d key = Some (rs' ! i)"
      using i len by (cases "rs' ! i") (simp add: scan_entry_def d_def keys)
    have "map_of rs key = Some (snd (rs ! i))"
      using assms(2) i nth_mem [OF i(1)] by (metis map_of_is_SomeI nth_map prod.collapse strict_sorted_iff)
    moreover have "same_rec nocase (rs' ! i) (rs ! i)" using list_all2_nthD [OF assms(1), of i] i(1) len by simp
    ultimately show ?thesis using e i by (simp add: prod_eq_iff) (metis nth_map prod.collapse)
  next
    case False
    then have "map_of rs key = None" by (simp add: map_of_eq_None_iff)
    then show ?thesis using BinarySearch_None [OF assms(2) False] by (simp add: scan_entry_def d_def keys)
  qed
qed

lemma dyn_keys:
  assumes "scan_saveable self"
  shows "sorted_wrt (<) (map sr_Key (dyn_of self))" "r \<in> set (dyn_of self) \<longleftrightarrow> LookupDynamic self (sr_Key r) = Some r"
proof -
  have ok: "chains_ok (cs_Table self)" using assms by (simp add: scan_saveable_def scan_ok_def)
  have "mset (map sr_Key (dyn_of self)) = mset (map sr_Key (concat (cs_Table self)))" by (simp add: dyn_of_def)
  then have "distinct (map sr_Key (dyn_of self))" using ok by (metis chains_ok_def mset_eq_imp_distinct_iff)
  then show "sorted_wrt (<) (map sr_Key (dyn_of self))" by (simp add: strict_sorted_iff dyn_of_def)
  show "r \<in> set (dyn_of self) \<longleftrightarrow> LookupDynamic self (sr_Key r) = Some r" by (simp add: LookupDynamic_iff [OF ok] dyn_of_def)
qed

lemma saved_recs_kept:
  assumes "scan_saveable self"
  shows "sorted_wrt (<) (map fst (saved_recs now self))" "map_option (Pair key) (map_of (saved_recs now self) key) = scan_kept now self key"
proof -
  let ?dyn = "dyn_of self" and ?old = "sn_Keys (frozen_of self)"
  let ?ks = "map sr_Key ?dyn" and ?k = "case_sum (\<lambda>i. sr_Key (dyn_of self ! i)) ((!) (sn_Keys (frozen_of self)))"
  have old: "sorted_wrt (<) ?old" using assms by (simp add: scan_saveable_def)
  note new = dyn_keys(1) [OF assms]
  have m: "map (\<lambda>i. sr_Key (?dyn ! i)) [0..<0 + length ?ks] = ?ks" "map ((!) ?old) [0..<0 + length ?old] = ?old"
    by (auto intro!: nth_equalityI)
  have keys: "sorted_wrt (<) (map ?k (scan_calls self))" "set (map ?k (scan_calls self)) = set ?ks \<union> set ?old"
    using merge_from_sorted [OF m new old] unfolding scan_calls_def by blast+
  have ent: "fst e = ?k c" if "call_rec now self c = Some e" for c e
    using that by (cases c) (auto simp: dyn_rec_def frozen_rec_def split: if_splits)
  show "sorted_wrt (<) (map fst (saved_recs now self))" unfolding saved_recs_def by (rule sorted_concat [OF keys(1) ent])
  have dist: "distinct (map ?k (scan_calls self))" using keys(1) by (simp add: strict_sorted_iff)
  have at: "map_option (Pair (?k c)) (map_of (saved_recs now self) (?k c)) = call_rec now self c" if "c \<in> set (scan_calls self)" for c
  proof -
    have "map_of (saved_recs now self) (?k c) = map_option snd (call_rec now self c)"
      unfolding saved_recs_def by (rule map_of_concat [OF dist ent that])
    then show ?thesis using ent [of c] by (cases "call_rec now self c") (auto simp: prod_eq_iff)
  qed
  have pick: "\<exists>c \<in> set (scan_calls self). ?k c = x" if "x \<in> set ?ks \<union> set ?old" for x
    using keys(2) that by (metis (no_types, lifting) image_iff image_set)
  have inr: "?old ! j \<notin> set ?ks" "j < length ?old" if "Inr j \<in> set (scan_calls self)" for j
    using merge_from_second [OF m(2) new old] merge_from_range(1) that unfolding scan_calls_def by fastforce+
  have inl: "j < length ?dyn" if "Inl j \<in> set (scan_calls self)" for j
    using merge_from_range(2) that unfolding scan_calls_def by fastforce
  show "map_option (Pair key) (map_of (saved_recs now self) key) = scan_kept now self key"
  proof (cases "LookupDynamic self key")
    case (Some r)
    have r: "r \<in> set ?dyn" "sr_Key r = key"
      using dyn_keys(2) [OF assms, of r] Some LookupDynamic_iff [of self key r] assms by (auto simp: scan_saveable_def scan_ok_def)
    then have mem: "key \<in> set ?ks" by auto
    then obtain c where c: "c \<in> set (scan_calls self)" "?k c = key" using pick by blast
    obtain j where cj: "c = Inl j"
    proof (cases c)
      case (Inr j)
      then show ?thesis using inr(1) [of j] c mem by simp
    qed (use that in blast)
    have "?dyn ! j \<in> set ?dyn" "sr_Key (?dyn ! j) = key" using inl c cj by auto
    then have "?dyn ! j = r" using dyn_keys(2) [OF assms, of "?dyn ! j"] Some by simp
    then show ?thesis using at [OF c(1)] c(2) cj Some by (simp add: scan_kept_def)
  next
    case None
    have nk: "key \<notin> set ?ks"
    proof
      assume "key \<in> set ?ks"
      then obtain r where "r \<in> set ?dyn" "sr_Key r = key" by auto
      then show False using dyn_keys(2) [OF assms, of r] None by simp
    qed
    show ?thesis
    proof (cases "key \<in> set ?old")
      case True
      then obtain c where c: "c \<in> set (scan_calls self)" "?k c = key" using pick by blast
      obtain j where cj: "c = Inr j"
      proof (cases c)
        case (Inl j)
        then have "key \<in> set ?ks" using inl [of j] c by auto
        then show ?thesis using nk by blast
      qed (use that in blast)
      have "BinarySearch ?old (int (length ?old)) key = Some j" using BinarySearch_member [OF old inr(2) [of j]] c cj by simp
      then show ?thesis using at [OF c(1)] c(2) cj None by (simp add: scan_kept_def)
    next
      case False
      then have "key \<notin> ?k ` set (scan_calls self)" using nk keys(2) by (metis UnE image_set)
      then have "map_of (saved_recs now self) key = None" unfolding saved_recs_def using ent by (intro map_of_concat_None)
      then show ?thesis using BinarySearch_None [OF old False] None by (simp add: scan_kept_def)
    qed
  qed
qed

lemma ScanCacheSave_flush:
  assumes "length (concat (cs_Table self)) = cs_RecordCount self" "save_traversal nocase now self = Some st"
  shows "ScanCacheSave nocase now fs self = (case ScanCacheWriterFlush fs (snd st) of Inl e \<Rightarrow> Some (Inl e)
      | Inr (result, contents) \<Rightarrow> Some (Inr (self\<lparr>cs_FrozenData := None\<rparr>, result, contents)))"
  using assms unfolding ScanCacheSave_def Let_def dyn_of_def [symmetric] frozen_of_def [symmetric] by (cases st) simp

definition recs_fit :: "scan_rec list \<Rightarrow> bool" where
  "recs_fit rs \<longleftrightarrow> length rs < 2 ^ 31 \<and> (\<forall>r \<in> set rs. length (rec_files r) < 2 ^ 31)"

lemma ScanCache_reloads:
  assumes "scan_saveable self" "recs_fit (saved_recs now self)"
  shows "\<exists>res. ScanCacheSave nocase now fs self = Some res \<and>
    (\<forall>self' contents. res = Inr (self', True, contents) \<longrightarrow>
      (\<exists>d. LoadFrozenData_scan contents = Some d \<and> sorted_wrt (<) (sn_Keys d) \<and>
        (\<forall>key. rel_option (same_rec nocase) (scan_entry d key) (scan_kept now self key))))"
proof -
  have n: "length (concat (cs_Table self)) = cs_RecordCount self" using assms(1) by (simp add: scan_saveable_def scan_ok_def)
  obtain st where st: "save_traversal nocase now self = Some st" "written nocase st (saved_recs now self)"
    using traversal_written [OF assms(1)] by blast
  obtain rs' its strs where w: "zw_holds (snd st) rs' its strs" "list_all2 (same_rec nocase) rs' (saved_recs now self)"
    using st(2) unfolding written_def by blast
  have save: "ScanCacheSave nocase now fs self = (case ScanCacheWriterFlush fs (snd st) of Inl e \<Rightarrow> Some (Inl e)
      | Inr (result, contents) \<Rightarrow> Some (Inr (self\<lparr>cs_FrozenData := None\<rparr>, result, contents)))"
    by (rule ScanCacheSave_flush [OF n st(1)])
  have "\<exists>d. LoadFrozenData_scan contents = Some d \<and> sorted_wrt (<) (sn_Keys d) \<and>
      (\<forall>key. rel_option (same_rec nocase) (scan_entry d key) (scan_kept now self key))"
    if "ScanCacheWriterFlush fs (snd st) = Inr (True, contents)" for contents
  proof -
    have c: "contents = Some (file_of (scan_file_cells rs' its strs))" "linked (scan_file_cells rs' its strs)"
      using ScanCacheWriterFlush_file [OF w(1) that] by blast+
    have items: "list_all2 (item_ok strs) its (concat (map rec_files rs'))" using w(1) by (simp add: zw_holds_def)
    have len: "length rs' = length (saved_recs now self)" by (rule list_all2_lengthD [OF w(2)])
    have "length (rec_files r) < 2 ^ 31" if r: "r \<in> set rs'" for r
    proof -
      obtain r0 where "r0 \<in> set (saved_recs now self)" "same_rec nocase r r0"
        using w(2) r by (metis in_set_conv_nth len list_all2_nthD)
      then show ?thesis using assms(2) list_all2_lengthD [of "same_file nocase" "rec_files r" "rec_files r0"]
        by (auto simp: same_rec_def recs_fit_def)
    qed
    then have "LoadFrozenData_scan contents = Some \<lparr>sn_Keys = map fst rs',
        sn_Data = map (\<lambda>r. \<lparr>se_FileTimestamp = fst (snd r), se_IncludedFiles = rec_files r\<rparr>) rs', sn_AccessTimes = map (\<lambda>r. fst (snd (snd r))) rs'\<rparr>"
      unfolding c(1) using LoadFrozenData_scan_file [OF c(2) items] assms(2) len by (simp add: recs_fit_def)
    moreover note scan_entry_recs [OF w(2) saved_recs_kept(1) [OF assms(1)], unfolded saved_recs_kept(2) [OF assms(1)]]
    ultimately show ?thesis by blast
  qed
  then show ?thesis unfolding save by (cases "ScanCacheWriterFlush fs (snd st)") auto
qed

text \<open>
  C38: The scan cache survives a restart. \<open>ScanCacheSave\<close> returns, and when it succeeds the next run loads a
  sorted cache file in which every key has the record of this build, or else that of the old file
  if it was used within the last week, with the same time stamps and the same included files in the
  same order; a name may be spelled in another case where the tables ignore case, because
  every name is stored once.
\<close>

theorem scan_cache_roundtrip:
  assumes "scan_saveable self" "recs_fit (saved_recs now self)"
  shows "\<exists>res. ScanCacheSave nocase now fs self = Some res \<and>
    (\<forall>self' contents. res = Inr (self', True, contents) \<longrightarrow>
      (\<exists>d. LoadFrozenData_scan contents = Some d \<and> sorted_wrt (<) (sn_Keys d) \<and>
        (\<forall>key. rel_option (same_rec nocase) (scan_entry d key) (scan_kept now self key))))"
  by (rule ScanCache_reloads [OF assms])

section \<open>An example\<close>

text \<open>A record of this build, one of an old file that was used, and one that has not been used for long.\<close>

definition ex_scans :: ScanCache where
  "ex_scans = \<lparr>cs_FrozenData = Some \<lparr>sn_Keys = [(3, 4), (5, 6)],
       sn_Data = [\<lparr>se_FileTimestamp = 7, se_IncludedFiles = []\<rparr>, \<lparr>se_FileTimestamp = 8, se_IncludedFiles = []\<rparr>], sn_AccessTimes = [100, 100]\<rparr>,
     cs_RecordCount = 1, cs_Table = [[\<lparr>sr_Key = (1, 2), sr_FileTimestamp = 5, sr_Includes = []\<rparr>]], cs_FrozenAccess = [False, True]\<rparr>"

definition ex_scan_file :: "u8 list option" where
  "ex_scan_file = snd (snd (projr (the (ScanCacheSave False 1000000 ex_fs ex_scans))))"

lemma ex_scans_ok: "scan_saveable ex_scans"
proof -
  have "chains_ok (cs_Table ex_scans)" by (simp add: chains_ok_def ex_scans_def key_index_def)
  moreover have "sorted_wrt (<) [(3, 4), (5 :: u64, 6 :: u64)]" by code_simp
  ultimately show ?thesis by (simp add: scan_saveable_def scan_ok_def) (simp add: ex_scans_def frozen_of_def)
qed

lemma ex_scans_recs: "saved_recs 1000000 ex_scans = [((1, 2), 5, 1000000, []), ((5, 6), 8, 1000000, [])]"
  by code_simp

lemma ex_scans_kept:
  "scan_kept 1000000 ex_scans (1, 2) = Some ((1, 2), 5, 1000000, [])" "scan_kept 1000000 ex_scans (3, 4) = None"
  "scan_kept 1000000 ex_scans (5, 6) = Some ((5, 6), 8, 1000000, [])"
  by code_simp+

lemma ex_scans_saved: "\<exists>self'. ScanCacheSave False 1000000 ex_fs ex_scans = Some (Inr (self', True, ex_scan_file))"
proof -
  let ?st = "save_traversal False 1000000 ex_scans"
  have n: "length (concat (cs_Table ex_scans)) = cs_RecordCount ex_scans" by code_simp
  have "Option.is_none ?st = False" by code_simp
  then have st: "?st = Some (the ?st)" by (cases ?st) simp_all
  have "isl (ScanCacheWriterFlush ex_fs (snd (the ?st))) = False" "fst (projr (ScanCacheWriterFlush ex_fs (snd (the ?st)))) = True"
    by code_simp+
  then obtain contents where "ScanCacheWriterFlush ex_fs (snd (the ?st)) = Inr (True, contents)"
    by (cases "ScanCacheWriterFlush ex_fs (snd (the ?st))") auto
  then show ?thesis using ScanCacheSave_flush [OF n st, of ex_fs] by (simp add: ex_scan_file_def)
qed

theorem scan_cache_roundtrip_witness:
  "\<exists>d. LoadFrozenData_scan ex_scan_file = Some d \<and> scan_entry d (1, 2) = Some ((1, 2), 5, 1000000, []) \<and>
     scan_entry d (3, 4) = None \<and> scan_entry d (5, 6) = Some ((5, 6), 8, 1000000, [])"
proof -
  have fit: "recs_fit (saved_recs 1000000 ex_scans)" by (simp add: ex_scans_recs recs_fit_def)
  obtain self' where save: "ScanCacheSave False 1000000 ex_fs ex_scans = Some (Inr (self', True, ex_scan_file))"
    using ex_scans_saved by blast
  obtain d where d: "LoadFrozenData_scan ex_scan_file = Some d"
      "\<forall>key. rel_option (same_rec False) (scan_entry d key) (scan_kept 1000000 ex_scans key)"
    using scan_cache_roundtrip [OF ex_scans_ok fit, of False ex_fs] unfolding save by auto
  have empty: "scan_entry d key = Some (key, ts, acc, [])" if "scan_kept 1000000 ex_scans key = Some (key, ts, acc, [])" for key ts acc
    using spec [OF d(2), of key] that by (cases "scan_entry d key") (auto simp: same_rec_def prod_eq_iff)
  have "scan_entry d (3, 4) = None" using spec [OF d(2), of "(3, 4)"] ex_scans_kept(2) by simp
  then show ?thesis using d(1) empty [OF ex_scans_kept(1)] empty [OF ex_scans_kept(3)] by simp
qed

end
