(* ===== verification/T2_PrepareDag.thy ===== *)
theory T2_PrepareDag
  imports T2_FileSign T2_DigestFile T2_ScanFile
begin

text \<open>
  Model of \<open>DriverCheckDagSignatures\<close>, \<open>DriverPrepareDag\<close> and \<open>DriverInitData\<close> of \<open>src/Driver.cpp\<close>: whether
  the DAG of an earlier run can be used, and loading what earlier runs saved. Parameters are
  the file system, the reading of a DAG file, whose format only the DAG generator writes, and
  \<open>GenerateDag\<close>, which runs the Lua build scripts. Opening the caches replaces empty caches.
\<close>

section \<open>Definitions\<close>

record 'w dag_env =
  de_world :: "'w \<Rightarrow> world"
  de_mapping :: "'w \<Rightarrow> string \<Rightarrow> u8 list option"
  de_load_dag :: "'w \<Rightarrow> DagData option"
  de_generate :: "'w \<Rightarrow> bool \<times> 'w"

text \<open>Where the text of a directory signature is hashed: the sort function and the bytes of an uninitialized hash state.\<close>

record glob_params =
  gp_nocase :: bool
  gp_qsort :: "string list \<Rightarrow> string list"
  gp_garbage :: "u8 list"

fun check_files_loop :: "world \<Rightarrow> (string \<times> u64) list \<Rightarrow> bool" where
  "check_files_loop w [] = True"
| "check_files_loop w ((path, timestamp) # sigs) =
     (if fi_Timestamp (GetFileInfo w path) \<noteq> timestamp then False else check_files_loop w sigs)"

fun check_globs_loop :: "glob_params \<Rightarrow> world \<Rightarrow> (string \<times> digest) list \<Rightarrow> bool option" where
  "check_globs_loop gp w [] = Some True"
| "check_globs_loop gp w ((path, stored) # sigs) =
     (case CalculateGlobSignatureFor (gp_nocase gp) w (gp_qsort gp) (gp_garbage gp) path of
        None \<Rightarrow> None
      | Some digest \<Rightarrow> if digest \<noteq> stored then Some False else check_globs_loop gp w sigs)"

definition DriverCheckDagSignatures :: "glob_params \<Rightarrow> world \<Rightarrow> DagData \<Rightarrow> bool result option" where
  "DriverCheckDagSignatures gp w dag_data =
     (if list_ex (\<lambda>i. dag_NodeGuids dag_data ! i < dag_NodeGuids dag_data ! (i - 1)) [1..<length (dag_NodeGuids dag_data)]
      then Some (Inl (Croak ''DAG data is not sorted by guid''))
      else if length (dag_Passes dag_data) > kMaxPasses then Some (Inr False)
      else if \<not> check_files_loop w (dag_FileSignatures dag_data) then Some (Inr False)
      else map_option Inr (check_globs_loop gp w (dag_GlobSignatures dag_data)))"

text \<open>The second half of \<open>DriverPrepareDag\<close>.\<close>

definition regenerate :: "glob_params \<Rightarrow> 'w dag_env \<Rightarrow> 'w \<Rightarrow> (DagData option \<times> 'w) result option" where
  "regenerate gp env w =
     (let (success, w) = de_generate env w
      in if \<not> success then Some (Inr (None, w))
         else case de_load_dag env w of
                None \<Rightarrow> Some (Inr (None, w))
              | Some dag_data \<Rightarrow>
                  (case DriverCheckDagSignatures gp (de_world env w) dag_data of
                     None \<Rightarrow> None
                   | Some (Inl e) \<Rightarrow> Some (Inl e)
                   | Some (Inr matches) \<Rightarrow> if matches then Some (Inr (Some dag_data, w)) else Some (Inl check_failure)))"

text \<open>The result is the DAG, or \<open>None\<close> where the function returns \<open>false\<close>.\<close>

definition DriverPrepareDag :: "glob_params \<Rightarrow> 'w dag_env \<Rightarrow> bool \<Rightarrow> 'w \<Rightarrow> (DagData option \<times> 'w) result option" where
  "DriverPrepareDag gp env force_dag_regen w =
     (if \<not> force_dag_regen then
        (case de_load_dag env w of
           None \<Rightarrow> regenerate gp env w
         | Some dag_data \<Rightarrow>
             (case DriverCheckDagSignatures gp (de_world env w) dag_data of
                None \<Rightarrow> None
              | Some (Inl e) \<Rightarrow> Some (Inl e)
              | Some (Inr matches) \<Rightarrow> if matches then Some (Inr (Some dag_data, w)) else regenerate gp env w))
      else regenerate gp env w)"

text \<open>
  The data of the driver after \<open>DriverInitData\<close>; \<open>now\<close> is the time.
\<close>

record driver_data =
  dd_DagData :: DagData
  dd_DigestCache :: DigestCache
  dd_StateData :: "StateData option"
  dd_ScanCache :: ScanCache

definition DriverInitData ::
  "glob_params \<Rightarrow> 'w dag_env \<Rightarrow> bool \<Rightarrow> u64 \<Rightarrow> 'w \<Rightarrow> (driver_data option \<times> 'w) result option" where
  "DriverInitData gp env force_dag_regen now w =
     (case DriverPrepareDag gp env force_dag_regen w of
        None \<Rightarrow> None
      | Some (Inl e) \<Rightarrow> Some (Inl e)
      | Some (Inr (None, w)) \<Rightarrow> Some (Inr (None, w))
      | Some (Inr (Some dag_data, w)) \<Rightarrow>
          (case DigestCacheOpen now (de_mapping env w (dag_DigestCacheFileName dag_data)) (DigestCacheInit now) of
             None \<Rightarrow> None
           | Some (Inl e) \<Rightarrow> Some (Inl e)
           | Some (Inr digest_cache) \<Rightarrow>
               (case ScanCacheSetCache ScanCacheInit (LoadFrozenData_scan (de_mapping env w (dag_ScanCacheFileName dag_data))) of
                  Inl e \<Rightarrow> Some (Inl e)
                | Inr scan_cache \<Rightarrow>
                    Some (Inr (Some \<lparr>dd_DagData = dag_data, dd_DigestCache = digest_cache,
                      dd_StateData = LoadFrozenData_state (de_mapping env w (dag_StateFileName dag_data)),
                      dd_ScanCache = scan_cache\<rparr>, w)))))"

section \<open>Saving the caches\<close>

text \<open>
  The results have the value returned and, where the cache file was replaced, its contents. A scan
  cache without new records is not saved.
\<close>

definition DriverSaveScanCache :: "bool \<Rightarrow> u64 \<Rightarrow> file_system \<Rightarrow> ScanCache \<Rightarrow> (ScanCache \<times> bool \<times> u8 list option) result option" where
  "DriverSaveScanCache nocase now fs scan_cache =
     (if \<not> ScanCacheDirty scan_cache then Some (Inr (scan_cache, True, None))
      else case ScanCacheSave nocase now fs scan_cache of
             None \<Rightarrow> None
           | Some (Inl e) \<Rightarrow> Some (Inl e)
           | Some (Inr (scan_cache, success, contents)) \<Rightarrow>
               Some (Inr (scan_cache, success \<and> fs_renamed fs, if success \<and> fs_renamed fs then contents else None)))"

definition DriverSaveDigestCache :: "file_system \<Rightarrow> DigestCache \<Rightarrow> (bool \<times> u8 list option) result" where
  "DriverSaveDigestCache fs digest_cache = DigestCacheSave fs digest_cache"

section \<open>When the DAG is reused\<close>

definition glob_digest :: "glob_params \<Rightarrow> world \<Rightarrow> string \<Rightarrow> digest" where
  "glob_digest gp w path = fast_digest (concat (map (path_line (gp_nocase gp))
     (gp_qsort gp (glob_dirs (ListDirectory w path)) @ gp_qsort gp (glob_files (ListDirectory w path)))))"

definition dag_current :: "glob_params \<Rightarrow> world \<Rightarrow> DagData \<Rightarrow> bool" where
  "dag_current gp w dag \<longleftrightarrow> length (dag_Passes dag) \<le> 64 \<and>
     (\<forall>(path, timestamp) \<in> set (dag_FileSignatures dag). fi_Timestamp (GetFileInfo w path) = timestamp) \<and>
     (\<forall>(path, stored) \<in> set (dag_GlobSignatures dag). glob_digest gp w path = stored)"

lemma not_descending: "sorted xs \<Longrightarrow> \<not> list_ex (\<lambda>i. xs ! i < xs ! (i - 1)) [1..<length xs]" for xs :: "'a::linorder list"
  by (auto simp: list_ex_iff not_less sorted_iff_nth_mono)

lemma check_files_loop_iff: "check_files_loop w sigs \<longleftrightarrow> (\<forall>(path, timestamp) \<in> set sigs. fi_Timestamp (GetFileInfo w path) = timestamp)"
  by (induction sigs rule: check_files_loop.induct) auto

lemma check_globs_loop_iff:
  "length (gp_garbage gp) = 64 \<Longrightarrow> check_globs_loop gp w sigs = Some (\<forall>(path, stored) \<in> set sigs. glob_digest gp w path = stored)"
  by (induction sigs rule: check_globs_loop.induct) (auto simp: CalculateGlobSignatureFor_digest glob_digest_def)

lemma DriverCheckDagSignatures_iff:
  assumes "length (gp_garbage gp) = 64" "sorted (dag_NodeGuids dag)"
  shows "DriverCheckDagSignatures gp w dag = Some (Inr (dag_current gp w dag))"
  using not_descending [OF assms(2)] check_files_loop_iff [of w "dag_FileSignatures dag"] check_globs_loop_iff [OF assms(1), of w "dag_GlobSignatures dag"]
  by (auto simp: DriverCheckDagSignatures_def dag_current_def kMaxPasses_def)

lemma glob_digest_order:
  assumes "sorts_by_strcmp (gp_qsort gp)" "mset (ListDirectory w path) = mset (ListDirectory w0 path)"
  shows "glob_digest gp w path = glob_digest gp w0 path"
proof -
  have "mset (glob_dirs (ListDirectory w path)) = mset (glob_dirs (ListDirectory w0 path))"
    "mset (glob_files (ListDirectory w path)) = mset (glob_files (ListDirectory w0 path))"
    unfolding glob_dirs_def glob_files_def mset_map mset_filter assms(2) by simp_all
  then show ?thesis unfolding glob_digest_def map_append using sorted_paths_unique [OF assms(1)] by metis
qed

definition unchanged :: "world \<Rightarrow> world \<Rightarrow> DagData \<Rightarrow> bool" where
  "unchanged w0 w dag \<longleftrightarrow>
     (\<forall>(path, _) \<in> set (dag_FileSignatures dag). fi_Timestamp (GetFileInfo w path) = fi_Timestamp (GetFileInfo w0 path)) \<and>
     (\<forall>(path, _) \<in> set (dag_GlobSignatures dag). mset (ListDirectory w path) = mset (ListDirectory w0 path))"

lemma unchanged_current:
  assumes "sorts_by_strcmp (gp_qsort gp)" "dag_current gp w0 dag" "unchanged w0 w dag"
  shows "dag_current gp w dag"
  using assms(2,3) glob_digest_order [OF assms(1), of w _ w0] unfolding dag_current_def unchanged_def by (auto 0 3)

text \<open>
  C39: When Lua runs. Let the signatures of a DAG have been recorded in the world \<open>w0\<close>. As long as the time
  stamps of the files it was made from and the contents of the directories it looked at are the same, in
  whatever order they are listed, the DAG is used as it is and nothing is generated. When a time stamp differs
  the DAG is generated anew.
\<close>

theorem DriverPrepareDag_reuses:
  assumes "length (gp_garbage gp) = 64" "sorts_by_strcmp (gp_qsort gp)" "de_load_dag env w = Some dag" "sorted (dag_NodeGuids dag)"
    and "dag_current gp w0 dag"
  shows "(unchanged w0 (de_world env w) dag \<longrightarrow> DriverPrepareDag gp env False w = Some (Inr (Some dag, w))) \<and>
    ((\<exists>(path, _) \<in> set (dag_FileSignatures dag). fi_Timestamp (GetFileInfo (de_world env w) path) \<noteq> fi_Timestamp (GetFileInfo w0 path)) \<longrightarrow>
      DriverPrepareDag gp env False w = regenerate gp env w)"
proof -
  have prep: "DriverPrepareDag gp env False w =
      (if dag_current gp (de_world env w) dag then Some (Inr (Some dag, w)) else regenerate gp env w)"
    using DriverCheckDagSignatures_iff [OF assms(1,4)] assms(3) by (simp add: DriverPrepareDag_def)
  have "\<not> dag_current gp (de_world env w) dag"
    if "\<exists>(path, _) \<in> set (dag_FileSignatures dag). fi_Timestamp (GetFileInfo (de_world env w) path) \<noteq> fi_Timestamp (GetFileInfo w0 path)"
    using that assms(5) unfolding dag_current_def by fastforce
  then show ?thesis using prep unchanged_current [OF assms(2,5)] by simp
qed

section \<open>What is loaded\<close>

definition rec_lookup :: "scan_rec option \<Rightarrow> u64 \<Rightarrow> file_and_hash list option" where
  "rec_lookup r timestamp = Option.bind r (\<lambda>r. if fst (snd r) = timestamp then Some (rec_files r) else None)"

lemma ScanCacheSetCache_get:
  assumes "sorted_wrt (<) (sn_Keys d)"
  shows "\<exists>c. ScanCacheSetCache ScanCacheInit (Some d) = Inr c \<and> (\<forall>key timestamp. scan_get c key timestamp = rec_lookup (scan_entry d key) timestamp)"
proof -
  let ?c = "ScanCacheInit\<lparr>cs_FrozenData := Some d, cs_FrozenAccess := replicate (length (sn_Keys d)) False\<rparr>"
  have "ScanCacheSetCache ScanCacheInit (Some d) = Inr ?c"
    using not_descending [OF sorted_less_sorted [OF assms]] by (simp add: ScanCacheSetCache_def)
  moreover have "scan_get ?c key timestamp = rec_lookup (scan_entry d key) timestamp" for key timestamp
    by (simp add: scan_get_def ScanCacheLookup_def lookup_frozen_def LookupDynamic_def ScanCacheInit_def scan_entry_def rec_lookup_def
        split: option.split)
  ultimately show ?thesis by blast
qed

lemma rec_lookup_same:
  "rel_option (same_rec nocase) r r' \<Longrightarrow> rel_option (list_all2 (same_file nocase)) (rec_lookup r timestamp) (rec_lookup r' timestamp)"
  by (cases r; cases r') (auto simp: rec_lookup_def same_rec_def)

lemma DriverPrepareDag_current:
  assumes "length (gp_garbage gp) = 64" "de_load_dag env w = Some dag" "sorted (dag_NodeGuids dag)" "dag_current gp (de_world env w) dag"
  shows "DriverPrepareDag gp env False w = Some (Inr (Some dag, w))"
  using DriverCheckDagSignatures_iff [OF assms(1,3)] assms(2,4) by (simp add: DriverPrepareDag_def)

section \<open>An example\<close>

definition ex_gp :: glob_params where
  "ex_gp = \<lparr>gp_nocase = False, gp_qsort = sort_key (canon False), gp_garbage = replicate 64 0\<rparr>"

definition ex_lua_dag :: DagData where
  "ex_lua_dag = ex_dag\<lparr>dag_FileSignatures := [(''tundra.lua'', 1)], dag_GlobSignatures := [(''src'', glob_digest ex_gp ex_world ''src'')]\<rparr>"

definition ex_env :: "world dag_env" where
  "ex_env = \<lparr>de_world = (\<lambda>w. w), de_mapping = (\<lambda>_ _. None), de_load_dag = (\<lambda>_. Some ex_lua_dag), de_generate = (\<lambda>w. (False, w))\<rparr>"

lemma ex_lua_dag_ok: "sorted (dag_NodeGuids ex_lua_dag)" "dag_current ex_gp ex_world ex_lua_dag" "sorts_by_strcmp (gp_qsort ex_gp)"
  "length (gp_garbage ex_gp) = 64"
proof -
  show "sorts_by_strcmp (gp_qsort ex_gp)" "length (gp_garbage ex_gp) = 64" by (simp_all add: sorts_by_strcmp_def ex_gp_def)
  have "sorted [(0 :: u64, 1 :: u64), (0, 2)]" by code_simp
  then show "sorted (dag_NodeGuids ex_lua_dag)" by (simp add: ex_lua_dag_def ex_dag_def)
  have "fi_Timestamp (GetFileInfo ex_world ''tundra.lua'') = 1" by code_simp
  then show "dag_current ex_gp ex_world ex_lua_dag" by (simp add: dag_current_def ex_lua_dag_def) (simp add: ex_dag_def)
qed

text \<open>Listing a directory in another order changes nothing; touching the build file does.\<close>

theorem DriverPrepareDag_reuses_witness:
  "let swapped = ex_world\<lparr>w_dir := [''src'' \<mapsto> [''b.c'', ''a.c'']]\<rparr>; touched = ex_world\<lparr>w_stat := \<lambda>p. StatOk 0x8000 2 1\<rparr> in
     DriverPrepareDag ex_gp ex_env False swapped = Some (Inr (Some ex_lua_dag, swapped)) \<and>
     DriverPrepareDag ex_gp ex_env False touched = Some (Inr (None, touched))"
proof -
  let ?s = "ex_world\<lparr>w_dir := [''src'' \<mapsto> [''b.c'', ''a.c'']]\<rparr>" and ?t = "ex_world\<lparr>w_stat := \<lambda>p. StatOk 0x8000 2 1\<rparr>"
  have load: "de_load_dag ex_env w = Some ex_lua_dag" "de_world ex_env w = w" for w by (simp_all add: ex_env_def)
  note reuse = DriverPrepareDag_reuses [OF ex_lua_dag_ok(4,3) load(1) ex_lua_dag_ok(1,2), unfolded load(2)]
  have sigs: "dag_FileSignatures ex_lua_dag = [(''tundra.lua'', 1)]" "map fst (dag_GlobSignatures ex_lua_dag) = [''src'']"
    by (simp_all add: ex_lua_dag_def)
  have info: "GetFileInfo ?s = GetFileInfo ex_world" by (rule ext) (simp add: GetFileInfo_def)
  have "ListDirectory ?s ''src'' = rev (ListDirectory ex_world ''src'')" by code_simp
  then have "unchanged ex_world ?s ex_lua_dag" using sigs unfolding unchanged_def info by auto
  moreover have "fi_Timestamp (GetFileInfo ?t ''tundra.lua'') \<noteq> fi_Timestamp (GetFileInfo ex_world ''tundra.lua'')" by code_simp
  then have "DriverPrepareDag ex_gp ex_env False ?t = regenerate ex_gp ex_env ?t" using reuse [of ?t] sigs(1) by simp
  moreover have "regenerate ex_gp ex_env ?t = Some (Inr (None, ?t))" by (simp add: regenerate_def ex_env_def)
  ultimately show ?thesis using reuse [of ?s] unfolding Let_def by simp
qed

end
