(* ===== verification/T2_Codec.thy ===== *)
theory T2_Codec
  imports T2_ScanFile
begin

text \<open>
  How data structures are laid out in the cells of a binary file, and that the readers of frozen data
  find them. A codec relates cells to the value they stand for; the value may be reached through
  pointers into later segments. Codecs are composed as the structs of \<open>src/DagData.hpp\<close> are: from
  integers, digests, strings, pairs of neighbours and arrays.
\<close>

section \<open>Cells in growing segments\<close>

definition grown :: "cell list list \<Rightarrow> cell list list \<Rightarrow> bool" where
  "grown css css' \<longleftrightarrow> length css' = length css \<and> (\<forall>j < length css. \<exists>add. css' ! j = css ! j @ add)"

definition holds_at :: "cell list list \<Rightarrow> BinaryLocator \<Rightarrow> cell list \<Rightarrow> bool" where
  "holds_at css loc cs \<longleftrightarrow> bl_SegIndex loc < length css \<and>
     (\<exists>pre post. css ! bl_SegIndex loc = pre @ cs @ post \<and> bl_Offset loc = cells_size pre)"

lemma grown_refl [simp]: "grown css css"
  by (simp add: grown_def)

lemma grown_trans: "grown css css' \<Longrightarrow> grown css' css'' \<Longrightarrow> grown css css''"
  unfolding grown_def by (metis append.assoc)

lemma grown_update: "grown css (css[k := css ! k @ add])"
  by (cases "k < length css") (auto simp: grown_def nth_list_update)

lemma holds_at_grown: "holds_at css loc cs \<Longrightarrow> grown css css' \<Longrightarrow> holds_at css' loc cs"
  unfolding holds_at_def grown_def by (metis append.assoc)

lemma holds_at_append:
  assumes "holds_at css loc (cs @ ds)"
  shows "holds_at css loc cs" "holds_at css (loc\<lparr>bl_Offset := bl_Offset loc + cells_size cs\<rparr>) ds"
proof -
  obtain pre post where p: "bl_SegIndex loc < length css" "css ! bl_SegIndex loc = pre @ (cs @ ds) @ post" "bl_Offset loc = cells_size pre"
    using assms unfolding holds_at_def by blast
  then show "holds_at css loc cs" unfolding holds_at_def by (metis append.assoc)
  have "css ! bl_SegIndex loc = (pre @ cs) @ ds @ post" using p(2) by simp
  then show "holds_at css (loc\<lparr>bl_Offset := bl_Offset loc + cells_size cs\<rparr>) ds"
    using p unfolding holds_at_def by (metis BinaryLocator.select_convs(1,2) BinaryLocator.surjective BinaryLocator.update_convs(2) cells_size_simps(3))
qed

lemma place_shift: "place css (loc\<lparr>bl_Offset := bl_Offset loc + n\<rparr>) = place css loc + n"
  by (simp add: place_def)

lemma read_holds_data: "holds_at css loc [Data bs] \<Longrightarrow> read_bytes (file_of css) (place css loc) (length bs) = Some bs"
  unfolding holds_at_def place_def using read_data by fastforce

lemma read_holds_pointer:
  assumes "linked css" "holds_at css loc [Pointer target]" "bl_SegIndex loc < bl_SegIndex target" "bl_SegIndex target < length css"
  shows "FrozenPtr_Get (file_of css) (place css loc) = Some (Some (int (place css target)))"
proof -
  obtain pre post where p: "bl_SegIndex loc < length css" "css ! bl_SegIndex loc = pre @ Pointer target # post" "bl_Offset loc = cells_size pre"
    using assms(2) unfolding holds_at_def by auto
  show ?thesis using read_forward_pointer [OF assms(1) p(1,2) assms(3,4)] p(3) by (simp add: place_def)
qed

text \<open>Any four bytes read as some pointer.\<close>

lemma read_any_pointer:
  assumes "linked css" "holds_at css loc [c]" "cell_size c = 4"
  shows "\<exists>p. FrozenPtr_Get (file_of css) (place css loc) = Some p"
proof (cases c)
  case (Data bs)
  then have "read_bytes (file_of css) (place css loc) 4 = Some bs" using read_holds_data assms(2,3) by fastforce
  then show ?thesis by (simp add: FrozenPtr_Get_def read_i32_def read_u32_def)
next
  case (Pointer target)
  obtain pre post where p: "bl_SegIndex loc < length css" "css ! bl_SegIndex loc = pre @ Pointer target # post" "bl_Offset loc = cells_size pre"
    using assms(2) Pointer unfolding holds_at_def by auto
  show ?thesis using read_pointer [OF p(1,2)] assms(1) p(1,3) by (simp add: linked_def place_def)
qed

section \<open>Codecs\<close>

text \<open>
  \<open>enc css cs x\<close>: in the segments \<open>css\<close> the cells \<open>cs\<close>, which are in segment \<open>k\<close>, stand for \<open>x\<close>.
\<close>

locale codec =
  fixes k :: nat
    and enc :: "cell list list \<Rightarrow> cell list \<Rightarrow> 'a \<Rightarrow> bool"
    and reader :: "u8 list \<Rightarrow> nat \<Rightarrow> 'a option"
    and sz :: nat
  assumes enc_size: "enc css cs x \<Longrightarrow> cells_size cs = sz"
    and enc_grown: "enc css cs x \<Longrightarrow> grown css css' \<Longrightarrow> enc css' cs x"
    and enc_read: "linked css \<Longrightarrow> holds_at css loc cs \<Longrightarrow> bl_SegIndex loc = k \<Longrightarrow> enc css cs x \<Longrightarrow>
      reader (file_of css) (place css loc) = Some x"

subsection \<open>Neighbours\<close>

definition pair_enc ::
  "(cell list list \<Rightarrow> cell list \<Rightarrow> 'a \<Rightarrow> bool) \<Rightarrow> (cell list list \<Rightarrow> cell list \<Rightarrow> 'b \<Rightarrow> bool) \<Rightarrow>
   cell list list \<Rightarrow> cell list \<Rightarrow> 'a \<times> 'b \<Rightarrow> bool" where
  "pair_enc e1 e2 css cs p \<longleftrightarrow> (\<exists>cs1 cs2. cs = cs1 @ cs2 \<and> e1 css cs1 (fst p) \<and> e2 css cs2 (snd p))"

definition read_pair :: "(u8 list \<Rightarrow> nat \<Rightarrow> 'a option) \<Rightarrow> nat \<Rightarrow> (u8 list \<Rightarrow> nat \<Rightarrow> 'b option) \<Rightarrow> u8 list \<Rightarrow> nat \<Rightarrow> ('a \<times> 'b) option" where
  "read_pair r1 n r2 mem pos = do { x \<leftarrow> r1 mem pos; y \<leftarrow> r2 mem (pos + n); Some (x, y) }"

lemma codec_pair:
  assumes "codec k e1 r1 n1" "codec k e2 r2 n2"
  shows "codec k (pair_enc e1 e2) (read_pair r1 n1 r2) (n1 + n2)"
proof
  fix css cs css' loc and x :: "'a \<times> 'b"
  assume "pair_enc e1 e2 css cs x"
  then obtain cs1 cs2 where c: "cs = cs1 @ cs2" "e1 css cs1 (fst x)" "e2 css cs2 (snd x)" unfolding pair_enc_def by blast
  note n1 = codec.enc_size [OF assms(1) c(2)]
  show "cells_size cs = n1 + n2" using c(1) n1 codec.enc_size [OF assms(2) c(3)] by simp
  show "pair_enc e1 e2 css' cs x" if "grown css css'"
    using c codec.enc_grown [OF assms(1) c(2) that] codec.enc_grown [OF assms(2) c(3) that] unfolding pair_enc_def by blast
  assume a: "linked css" "holds_at css loc cs" "bl_SegIndex loc = k"
  note h = holds_at_append [OF a(2) [unfolded c(1)]]
  show "read_pair r1 n1 r2 (file_of css) (place css loc) = Some x"
    using codec.enc_read [OF assms(1) a(1) h(1) a(3) c(2)] codec.enc_read [OF assms(2) a(1) h(2) _ c(3)] a(3) n1
    by (simp add: read_pair_def place_shift)
qed

definition map_enc :: "('a \<Rightarrow> 'b) \<Rightarrow> (cell list list \<Rightarrow> cell list \<Rightarrow> 'a \<Rightarrow> bool) \<Rightarrow> cell list list \<Rightarrow> cell list \<Rightarrow> 'b \<Rightarrow> bool" where
  "map_enc f e css cs y \<longleftrightarrow> (\<exists>x. e css cs x \<and> y = f x)"

lemma codec_map:
  assumes "codec k e r n" shows "codec k (map_enc f e) (\<lambda>mem pos. map_option f (r mem pos)) n"
proof
  fix css cs css' loc y
  assume "map_enc f e css cs y"
  then obtain x where x: "e css cs x" "y = f x" unfolding map_enc_def by blast
  show "cells_size cs = n" using codec.enc_size [OF assms x(1)] .
  show "map_enc f e css' cs y" if "grown css css'" using codec.enc_grown [OF assms x(1) that] x(2) unfolding map_enc_def by blast
  show "map_option f (r (file_of css) (place css loc)) = Some y" if "linked css" "holds_at css loc cs" "bl_SegIndex loc = k"
    using codec.enc_read [OF assms that x(1)] x(2) by simp
qed

subsection \<open>Integers and digests\<close>

definition data_enc :: "('a \<Rightarrow> u8 list) \<Rightarrow> cell list list \<Rightarrow> cell list \<Rightarrow> 'a \<Rightarrow> bool" where
  "data_enc f css cs x \<longleftrightarrow> cs = [Data (f x)]"

lemma codec_data:
  assumes "\<And>x. length (f x) = n" "\<And>mem pos x. read_bytes mem pos n = Some (f x) \<Longrightarrow> r mem pos = Some x"
  shows "codec k (data_enc f) r n"
proof
  fix css cs css' loc x
  assume "data_enc f css cs x"
  then have c: "cs = [Data (f x)]" by (simp add: data_enc_def)
  show "cells_size cs = n" using c assms(1) by simp
  show "data_enc f css' cs x" using c by (simp add: data_enc_def)
  show "r (file_of css) (place css loc) = Some x" if "holds_at css loc cs"
    using read_holds_data [of css loc "f x"] that c assms by simp
qed

abbreviation u32_enc :: "cell list list \<Rightarrow> cell list \<Rightarrow> u32 \<Rightarrow> bool" where
  "u32_enc \<equiv> data_enc (bytes_of 4)"

abbreviation u64_enc :: "cell list list \<Rightarrow> cell list \<Rightarrow> u64 \<Rightarrow> bool" where
  "u64_enc \<equiv> data_enc (bytes_of 8)"

abbreviation digest_enc :: "cell list list \<Rightarrow> cell list \<Rightarrow> digest \<Rightarrow> bool" where
  "digest_enc \<equiv> data_enc digest_bytes"

definition i32_enc :: "cell list list \<Rightarrow> cell list \<Rightarrow> int \<Rightarrow> bool" where
  "i32_enc css cs i \<longleftrightarrow> cs = [int_cell i] \<and> - (2 ^ 31) \<le> i \<and> i < 2 ^ 31"

lemma codec_u32: "codec k u32_enc read_u32 4"
  by (rule codec_data) (simp_all add: read_u32_def)

lemma codec_u64: "codec k u64_enc read_u64 8"
  by (rule codec_data) (simp_all add: read_u64_def)

lemma codec_digest: "codec k digest_enc read_digest 16"
  by (rule codec_data) (simp_all add: read_digest_cell)

lemma codec_i32: "codec k i32_enc read_i32 4"
proof
  fix css cs css' loc i
  assume "i32_enc css cs i"
  then have c: "cs = [Data (bytes_of 4 (of_int i :: u32))]" "- (2 ^ 31) \<le> i" "i < 2 ^ 31" by (simp_all add: i32_enc_def int_cell_def)
  show "cells_size cs = 4" using c by simp
  show "i32_enc css' cs i" using c by (simp add: i32_enc_def int_cell_def)
  show "read_i32 (file_of css) (place css loc) = Some i" if "holds_at css loc cs"
    using read_holds_data [of css loc "bytes_of 4 (of_int i :: u32)"] that c by (simp add: read_i32_def read_u32_def)
qed

text \<open>A node index.\<close>

definition read_index :: "u8 list \<Rightarrow> nat \<Rightarrow> nat option" where
  "read_index mem pos = map_option nat (read_i32 mem pos)"

definition index_enc :: "cell list list \<Rightarrow> cell list \<Rightarrow> nat \<Rightarrow> bool" where
  "index_enc css cs i \<longleftrightarrow> i32_enc css cs (int i)"

lemma codec_index: "codec k index_enc read_index 4"
  by unfold_locales
    (auto simp: index_enc_def read_index_def codec.enc_read [OF codec_i32]
      dest: codec.enc_size [OF codec_i32] codec.enc_grown [OF codec_i32])

subsection \<open>Arrays\<close>

definition list_enc :: "(cell list list \<Rightarrow> cell list \<Rightarrow> 'a \<Rightarrow> bool) \<Rightarrow> cell list list \<Rightarrow> cell list \<Rightarrow> 'a list \<Rightarrow> bool" where
  "list_enc e css cs xs \<longleftrightarrow> (\<exists>dss. cs = concat dss \<and> list_all2 (e css) dss xs)"

text \<open>A pointer to the elements, in segment \<open>j\<close>; where there are none, it can be anything.\<close>

definition elements_enc :: "nat \<Rightarrow> (cell list list \<Rightarrow> cell list \<Rightarrow> 'a \<Rightarrow> bool) \<Rightarrow> cell list list \<Rightarrow> cell list \<Rightarrow> 'a list \<Rightarrow> bool" where
  "elements_enc j e css cs xs \<longleftrightarrow> (\<exists>c. cs = [c] \<and> cell_size c = 4 \<and>
     (xs \<noteq> [] \<longrightarrow> (\<exists>loc ds. c = Pointer loc \<and> bl_SegIndex loc = j \<and> holds_at css loc ds \<and> list_enc e css ds xs)))"

definition array_enc :: "nat \<Rightarrow> (cell list list \<Rightarrow> cell list \<Rightarrow> 'a \<Rightarrow> bool) \<Rightarrow> cell list list \<Rightarrow> cell list \<Rightarrow> 'a list \<Rightarrow> bool" where
  "array_enc j e css cs xs \<longleftrightarrow> length xs < 2 ^ 31 \<and> (\<exists>ds. cs = int_cell (int (length xs)) # ds \<and> elements_enc j e css ds xs)"

lemma list_enc_Nil [simp]: "list_enc e css [] []"
  by (simp add: list_enc_def)

lemma list_enc_Cons: "e css cs x \<Longrightarrow> list_enc e css ds xs \<Longrightarrow> list_enc e css (cs @ ds) (x # xs)"
  unfolding list_enc_def by (metis concat.simps(2) list_all2_Cons)

context codec
begin

lemma list_grown:
  assumes "list_enc enc css cs xs" "grown css css'" shows "list_enc enc css' cs xs"
proof -
  obtain dss where d: "cs = concat dss" "list_all2 (enc css) dss xs" using assms(1) unfolding list_enc_def by blast
  have "list_all2 (enc css') dss xs" by (rule list_all2_mono [OF d(2)]) (rule enc_grown [OF _ assms(2)])
  then show ?thesis using d(1) unfolding list_enc_def by blast
qed

lemma elements_grown: "elements_enc k enc css cs xs \<Longrightarrow> grown css css' \<Longrightarrow> elements_enc k enc css' cs xs"
  unfolding elements_enc_def using holds_at_grown [of css _ _ css'] list_grown [of css _ xs css'] by (cases "xs = []") blast+

lemma list_read:
  assumes "linked css" "list_enc enc css cs xs" "holds_at css loc cs" "bl_SegIndex loc = k" "i < length xs"
  shows "reader (file_of css) (place css loc + i * sz) = Some (xs ! i)"
proof -
  have "\<forall>i < length xs. reader (file_of css) (place css loc + i * sz) = Some (xs ! i)"
    if "list_all2 (enc css) dss xs" "holds_at css loc (concat dss)" "bl_SegIndex loc = k" for dss xs loc
    using that
  proof (induction arbitrary: loc rule: list_all2_induct)
    case (Cons ds dss x xs)
    note h = holds_at_append [OF Cons.prems(1) [unfolded concat.simps]]
    have first: "reader (file_of css) (place css loc) = Some x"
      by (rule enc_read [OF assms(1) h(1) Cons.prems(2) Cons.hyps(1)])
    have rest: "\<forall>i < length xs. reader (file_of css) (place css loc + sz + i * sz) = Some (xs ! i)"
      using Cons.IH [OF h(2)] Cons.prems(2) enc_size [OF Cons.hyps(1)] by (simp add: place_shift)
    show ?case
    proof (intro allI impI)
      fix i
      assume "i < length (x # xs)"
      then show "reader (file_of css) (place css loc + i * sz) = Some ((x # xs) ! i)"
        using first rest by (cases i) (simp_all add: add.assoc)
    qed
  qed simp
  then show ?thesis using assms unfolding list_enc_def by blast
qed

lemma elements_read:
  assumes "linked css" "elements_enc k enc css cs xs" "holds_at css loc cs" "bl_SegIndex loc < k"
  shows "\<exists>p. FrozenPtr_Get (file_of css) (place css loc) = Some p \<and>
    read_elements (reader (file_of css)) sz (int (length xs)) p = Some xs"
proof (cases "xs = []")
  case True
  then show ?thesis
    using read_any_pointer [OF assms(1)] assms(2,3) by (fastforce simp: elements_enc_def read_elements_def)
next
  case False
  then obtain target ds where t: "cs = [Pointer target]" "bl_SegIndex target = k" "holds_at css target ds" "list_enc enc css ds xs"
    using assms(2) unfolding elements_enc_def by blast
  have p: "FrozenPtr_Get (file_of css) (place css loc) = Some (Some (int (place css target)))"
    using read_holds_pointer [OF assms(1)] assms(3,4) t by (simp add: holds_at_def)
  have "reader (file_of css) (place css target + i * sz) = Some (xs ! i)" if "i < length xs" for i
    by (rule list_read [OF assms(1) t(4,3,2) that])
  then have "read_elements (reader (file_of css)) sz (int (length xs)) (Some (int (place css target))) = Some (map (\<lambda>x. x) xs)"
    by (intro read_elements_all) simp
  then show ?thesis using p by simp
qed

lemma codec_array:
  assumes "k0 < k"
  shows "codec k0 (array_enc k enc) (\<lambda>mem. FrozenArray_read mem (reader mem) sz) 8"
proof
  fix css cs css' loc xs
  assume "array_enc k enc css cs xs"
  then obtain ds where c: "cs = [int_cell (int (length xs))] @ ds" "elements_enc k enc css ds xs" "length xs < 2 ^ 31"
    unfolding array_enc_def by auto
  show "cells_size cs = 8" using c by (auto simp: elements_enc_def int_cell_def)
  show "array_enc k enc css' cs xs" if "grown css css'"
    using c elements_grown [OF c(2) that] unfolding array_enc_def by simp
  assume a: "linked css" "holds_at css loc cs" "bl_SegIndex loc = k0"
  note h = holds_at_append [OF a(2) [unfolded c(1)]]
  have "read_i32 (file_of css) (place css loc) = Some (int (length xs))"
    using codec.enc_read [OF codec_i32 a(1) h(1) refl] c(3) by (simp add: i32_enc_def)
  moreover have "\<exists>p. FrozenPtr_Get (file_of css) (place css loc + 4) = Some p \<and>
      read_elements (reader (file_of css)) sz (int (length xs)) p = Some xs"
    using elements_read [OF a(1) c(2) h(2)] a(3) assms by (simp add: place_shift int_cell_def)
  ultimately show "FrozenArray_read (file_of css) (reader (file_of css)) sz (place css loc) = Some xs"
    by (auto simp: FrozenArray_read_def)
qed

end

subsection \<open>Strings\<close>

definition string_enc :: "nat \<Rightarrow> cell list list \<Rightarrow> cell list \<Rightarrow> string \<Rightarrow> bool" where
  "string_enc j css cs s \<longleftrightarrow> (\<exists>loc t. cs = [Pointer loc] \<and> bl_SegIndex loc = j \<and> holds_at css loc [Data (string_bytes t)] \<and> s = c_str t)"

definition opt_string_enc :: "nat \<Rightarrow> cell list list \<Rightarrow> cell list \<Rightarrow> string option \<Rightarrow> bool" where
  "opt_string_enc j css cs so \<longleftrightarrow>
     (case so of None \<Rightarrow> cs = [Data (bytes_of 4 (0 :: u32))] | Some s \<Rightarrow> string_enc j css cs s)"

text \<open>A string whose pointer can be null.\<close>

definition read_opt_string :: "u8 list \<Rightarrow> nat \<Rightarrow> string option option" where
  "read_opt_string mem pos =
     (case FrozenPtr_Get mem pos of
        None \<Rightarrow> None
      | Some None \<Rightarrow> Some None
      | Some (Some target) \<Rightarrow> map_option Some (read_string mem pos))"

lemma string_read:
  assumes "linked css" "holds_at css loc cs" "bl_SegIndex loc < j" "string_enc j css cs s"
  shows "read_string (file_of css) (place css loc) = Some s"
    "\<exists>target. FrozenPtr_Get (file_of css) (place css loc) = Some (Some target)"
proof -
  obtain target t where e: "cs = [Pointer target]" "bl_SegIndex target = j" "holds_at css target [Data (string_bytes t)]" "s = c_str t"
    using assms(4) unfolding string_enc_def by blast
  have p: "FrozenPtr_Get (file_of css) (place css loc) = Some (Some (int (place css target)))"
    using read_holds_pointer [OF assms(1)] assms(2,3) e by (simp add: holds_at_def)
  then show "\<exists>target. FrozenPtr_Get (file_of css) (place css loc) = Some (Some target)" by blast
  obtain rest where "drop (place css target) (file_of css) = string_bytes t @ rest"
    using read_holds_data [OF e(3)] by (metis append_take_drop_id option.distinct(1) option.sel read_bytes_def)
  then show "read_string (file_of css) (place css loc) = Some s"
    using p read_chars_string [of "c_str t"] by (simp add: read_string_def string_bytes_def e(4))
qed

lemma string_enc_grown: "string_enc j css cs s \<Longrightarrow> grown css css' \<Longrightarrow> string_enc j css' cs s"
  unfolding string_enc_def using holds_at_grown by blast

lemma codec_string:
  assumes "k < j" shows "codec k (string_enc j) read_string 4"
proof
  show "cells_size cs = 4" if "string_enc j css cs s" for css cs s using that by (auto simp: string_enc_def)
qed (use assms string_read(1) string_enc_grown in blast)+

lemma codec_opt_string:
  assumes "k < j" shows "codec k (opt_string_enc j) read_opt_string 4"
proof
  fix css cs css' loc so
  assume e: "opt_string_enc j css cs so"
  show "cells_size cs = 4" using e by (auto simp: opt_string_enc_def string_enc_def split: option.splits)
  show "opt_string_enc j css' cs so" if "grown css css'"
    using e string_enc_grown [OF _ that] by (auto simp: opt_string_enc_def split: option.splits)
  assume a: "linked css" "holds_at css loc cs" "bl_SegIndex loc = k"
  show "read_opt_string (file_of css) (place css loc) = Some so"
  proof (cases so)
    case None
    then have "read_bytes (file_of css) (place css loc) 4 = Some (bytes_of 4 (0 :: u32))"
      using read_holds_data [of css loc "bytes_of 4 (0 :: u32)"] e a(2) by (simp add: opt_string_enc_def)
    then show ?thesis using None by (simp add: read_opt_string_def FrozenPtr_Get_def read_i32_def read_u32_def)
  next
    case (Some s)
    then show ?thesis using string_read [OF a(1,2), of j s] e a(3) assms by (auto simp: read_opt_string_def opt_string_enc_def)
  qed
qed

section \<open>The elementary codecs\<close>

interpretation i32: codec k i32_enc read_i32 4 by (rule codec_i32)

interpretation u32: codec k u32_enc read_u32 4 by (rule codec_u32)

interpretation guid: codec k digest_enc read_digest 16 by (rule codec_digest)

end
