(* ===== verification/T2_DagGenerator.thy ===== *)
theory T2_DagGenerator
  imports T2_Codec T2_PrepareDag T2_Json
begin

text \<open>
  Model of \<open>src/DagGenerator.cpp\<close>: the compiler from the JSON description of a DAG, which the Lua
  build scripts print, to the binary DAG file. A pointer to a segment is its index in the
  writer; the six segments are created by \<open>CompileDag\<close>. A call returns \<open>Done\<close> with the new state
  of the writer, \<open>Failed\<close> where the code returns \<open>false\<close>, or \<open>Fault\<close>; \<open>None\<close> is a
  call that does not return.
\<close>

section \<open>Outcomes\<close>

datatype 'a status = Fault fault | Failed | Done 'a

type_synonym 'a gen = "'a status option"

definition of_result :: "'a result \<Rightarrow> 'a gen" where
  "of_result r = (case r of Inl e \<Rightarrow> Some (Fault e) | Inr x \<Rightarrow> Some (Done x))"

definition then_do :: "'a gen \<Rightarrow> ('a \<Rightarrow> 'b gen) \<Rightarrow> 'b gen" where
  "then_do m f = (case m of None \<Rightarrow> None | Some (Fault e) \<Rightarrow> Some (Fault e) | Some Failed \<Rightarrow> Some Failed | Some (Done x) \<Rightarrow> f x)"

text \<open>A loop over the elements of an array.\<close>

fun for_each :: "('x \<Rightarrow> 's \<Rightarrow> 's gen) \<Rightarrow> 'x list \<Rightarrow> 's \<Rightarrow> 's gen" where
  "for_each f [] s = Some (Done s)"
| "for_each f (x # xs) s = then_do (f x s) (for_each f xs)"

section \<open>The surroundings\<close>

text \<open>
  Parameters: the platform, the file system, the sort function and uninitialized memory of directory
  signatures, \<open>(int64_t) strtod\<close> of the characters of a number, and whether the storage of a
  segment of the first size moves until it has the second size.
\<close>

record gen_env =
  ge_pl :: platform
  ge_world :: world
  ge_gp :: glob_params
  ge_number :: "string \<Rightarrow> int"
  ge_moves :: "nat \<Rightarrow> nat \<Rightarrow> bool"
  ge_junk :: "nat \<Rightarrow> u8"

text \<open>The conversion \<open>(int)\<close>.\<close>

definition to_int32 :: "int \<Rightarrow> int" where
  "to_int32 i = sint (of_int i :: u32)"

section \<open>The writer\<close>

record dag_writer =
  gw_Segs :: "BinarySegment list"
  gw_Shared :: "BinaryLocator hash_table"

abbreviation (input) main_seg :: nat where "main_seg \<equiv> 0"
abbreviation (input) node_guid_seg :: nat where "node_guid_seg \<equiv> 1"
abbreviation (input) node_data_seg :: nat where "node_data_seg \<equiv> 2"
abbreviation (input) aux_seg :: nat where "aux_seg \<equiv> 3"
abbreviation (input) aux2_seg :: nat where "aux2_seg \<equiv> 4"
abbreviation (input) str_seg :: nat where "str_seg \<equiv> 5"

definition at_seg :: "nat \<Rightarrow> (BinarySegment \<Rightarrow> BinarySegment) \<Rightarrow> dag_writer \<Rightarrow> dag_writer" where
  "at_seg k f w = w\<lparr>gw_Segs := (gw_Segs w)[k := f (gw_Segs w ! k)]\<rparr>"

definition seg_position :: "dag_writer \<Rightarrow> nat \<Rightarrow> BinaryLocator" where
  "seg_position w k = BinarySegmentPosition (gw_Segs w ! k)"

text \<open>The writes of one word, with the segment as the first argument.\<close>

definition put_int32 :: "nat \<Rightarrow> int \<Rightarrow> dag_writer \<Rightarrow> dag_writer" where
  "put_int32 k v = at_seg k (\<lambda>seg. BinarySegmentWriteInt32 seg v)"

definition put_uint32 :: "nat \<Rightarrow> u32 \<Rightarrow> dag_writer \<Rightarrow> dag_writer" where
  "put_uint32 k v = at_seg k (\<lambda>seg. BinarySegmentWriteUint32 seg v)"

definition put_pointer :: "nat \<Rightarrow> BinaryLocator \<Rightarrow> dag_writer \<Rightarrow> dag_writer" where
  "put_pointer k loc = at_seg k (\<lambda>seg. BinarySegmentWritePointer seg loc)"

definition put_null :: "nat \<Rightarrow> dag_writer \<Rightarrow> dag_writer" where
  "put_null k = at_seg k BinarySegmentWriteNullPointer"

definition put_align :: "nat \<Rightarrow> dag_writer \<Rightarrow> dag_writer" where
  "put_align k = at_seg k (\<lambda>seg. BinarySegmentAlign seg 4)"

definition put_bytes :: "nat \<Rightarrow> u8 list \<Rightarrow> dag_writer \<Rightarrow> dag_writer" where
  "put_bytes k bs = at_seg k (\<lambda>seg. BinarySegmentWrite seg bs)"

text \<open>An array with no elements and no address.\<close>

definition put_no_array :: "nat \<Rightarrow> dag_writer \<Rightarrow> dag_writer" where
  "put_no_array k w = put_null k (put_int32 k 0 w)"

text \<open>The count of an array and the address of its elements, which are written to segment \<open>j\<close> next.\<close>

definition put_array_head :: "nat \<Rightarrow> nat \<Rightarrow> nat \<Rightarrow> dag_writer \<Rightarrow> dag_writer" where
  "put_array_head k j n w = (let w = put_int32 k (int n) w in put_pointer k (seg_position w j) w)"

definition WriteStringPtr :: "nat \<Rightarrow> nat \<Rightarrow> string option \<Rightarrow> dag_writer \<Rightarrow> dag_writer" where
  "WriteStringPtr seg strs text w =
     (case text of
        None \<Rightarrow> put_null seg w
      | Some s \<Rightarrow> at_seg strs (\<lambda>g. BinarySegmentWriteStringData g s) (put_pointer seg (seg_position w strs) w))"

section \<open>Values of an object\<close>

definition FindStringValue :: "JsonValue \<Rightarrow> string \<Rightarrow> string option \<Rightarrow> string option" where
  "FindStringValue obj key default_value =
     (case AsObject obj of
        None \<Rightarrow> default_value
      | Some kvs \<Rightarrow> (case Find_loop kvs key of Some (kString s) \<Rightarrow> Some s | _ \<Rightarrow> default_value))"

definition FindArrayValue :: "(string \<times> JsonValue) list option \<Rightarrow> string \<Rightarrow> JsonValue list option" where
  "FindArrayValue obj key =
     (case obj of
        None \<Rightarrow> None
      | Some kvs \<Rightarrow> (case Find_loop kvs key of Some (kArray vs) \<Rightarrow> Some vs | _ \<Rightarrow> None))"

definition FindObjectValue :: "(string \<times> JsonValue) list \<Rightarrow> string \<Rightarrow> (string \<times> JsonValue) list option" where
  "FindObjectValue obj key = (case Find_loop obj key of Some (kObject kvs) \<Rightarrow> Some kvs | _ \<Rightarrow> None)"

definition FindIntValue :: "(string \<Rightarrow> int) \<Rightarrow> (string \<times> JsonValue) list \<Rightarrow> string \<Rightarrow> int \<Rightarrow> int" where
  "FindIntValue number obj key def_value = (case Find_loop obj key of Some (kNumber n) \<Rightarrow> number n | _ \<Rightarrow> def_value)"

definition EmptyArray :: "JsonValue list option \<Rightarrow> bool" where
  "EmptyArray a \<longleftrightarrow> (case a of None \<Rightarrow> True | Some vs \<Rightarrow> vs = [])"

definition GetNodeFlag :: "(string \<times> JsonValue) list \<Rightarrow> string \<Rightarrow> u32 \<Rightarrow> u32" where
  "GetNodeFlag obj name value = (case Find_loop obj name of Some (kBoolean True) \<Rightarrow> value | _ \<Rightarrow> 0)"

definition GetBoolean :: "(string \<times> JsonValue) list \<Rightarrow> string \<Rightarrow> bool" where
  "GetBoolean obj name \<longleftrightarrow> (case Find_loop obj name of Some (kBoolean b) \<Rightarrow> b | _ \<Rightarrow> False)"

text \<open>\<open>GetString\<close> checks the type of the value.\<close>

definition GetString :: "JsonValue \<Rightarrow> string gen" where
  "GetString v = (case AsString v of None \<Rightarrow> Some (Fault check_failure) | Some s \<Rightarrow> Some (Done s))"

section \<open>Arrays\<close>

definition clean_path :: "platform \<Rightarrow> string \<Rightarrow> string gen" where
  "clean_path pl path = then_do (of_result (PathInit (pl_uninit pl) path (pl_native pl))) (\<lambda>pathbuf. of_result (PathFormat pathbuf))"

fun file_array_loop :: "gen_env \<Rightarrow> nat \<Rightarrow> nat \<Rightarrow> JsonValue list \<Rightarrow> dag_writer \<Rightarrow> (bool \<times> dag_writer) gen" where
  "file_array_loop env ptr_seg strs [] w = Some (Done (True, w))"
| "file_array_loop env ptr_seg strs (v # vs) w =
     (case AsString v of
        None \<Rightarrow> Some (Done (False, w))
      | Some path \<Rightarrow>
          then_do (clean_path (ge_pl env) path) (\<lambda>cleaned_path.
            file_array_loop env ptr_seg strs vs
              (put_uint32 ptr_seg (Djb2HashPath (pl_nocase (ge_pl env)) cleaned_path) (WriteStringPtr ptr_seg strs (Some cleaned_path) w))))"

text \<open>The result of \<open>WriteFileArray\<close> is part of \<open>Done\<close>, because the caller ignores it.\<close>

definition WriteFileArray :: "gen_env \<Rightarrow> nat \<Rightarrow> nat \<Rightarrow> nat \<Rightarrow> JsonValue list option \<Rightarrow> dag_writer \<Rightarrow> (bool \<times> dag_writer) gen" where
  "WriteFileArray env seg ptr_seg strs files w =
     (if EmptyArray files then Some (Done (True, put_no_array seg w))
      else file_array_loop env ptr_seg strs (the files) (put_array_head seg ptr_seg (length (the files)) w))"

definition WriteCommonStringPtr :: "nat \<Rightarrow> nat \<Rightarrow> string option \<Rightarrow> dag_writer \<Rightarrow> dag_writer gen" where
  "WriteCommonStringPtr segment strs text w =
     (case text of
        None \<Rightarrow> Some (Fault (Overrun ''null string''))
      | Some s \<Rightarrow>
          (let hash = Djb2Hash s
           in case HashTableLookup False (gw_Shared w) hash s of
                None \<Rightarrow> None
              | Some (Some r) \<Rightarrow> Some (Done (put_pointer segment (the (m_Payloads (gw_Shared w) ! r)) w))
              | Some None \<Rightarrow>
                  (let pos = seg_position w strs
                   in case HashTableInsert (gw_Shared w) hash s pos of
                        None \<Rightarrow> None
                      | Some table \<Rightarrow>
                          Some (Done (put_pointer segment pos (at_seg strs (\<lambda>g. BinarySegmentWriteStringData g s) (w\<lparr>gw_Shared := table\<rparr>)))))))"

definition WriteStrHashArray :: "nat \<Rightarrow> nat \<Rightarrow> nat \<Rightarrow> JsonValue list \<Rightarrow> dag_writer \<Rightarrow> dag_writer gen" where
  "WriteStrHashArray main aux strs strings w =
     then_do (for_each (\<lambda>v w. then_do (GetString v) (\<lambda>s. Some (Done (WriteStringPtr aux strs (Some s) w))))
       strings (put_array_head main aux (length strings) w)) (\<lambda>w.
     for_each (\<lambda>v w. then_do (GetString v) (\<lambda>s. Some (Done (put_uint32 aux (Djb2Hash s) w))))
       strings (put_pointer main (seg_position w aux) w))"

text \<open>\<open>remap_table [i]\<close>: outside the table, the read is undefined.\<close>

definition remap_at :: "nat list \<Rightarrow> int \<Rightarrow> nat gen" where
  "remap_at remap_table i =
     (if 0 \<le> i \<and> i < int (length remap_table) then Some (Done (remap_table ! nat i)) else Some (Fault (Overrun ''remap_table'')))"

text \<open>The index of a node in the DAG file, from its index in the JSON data.\<close>

definition node_number :: "gen_env \<Rightarrow> nat list \<Rightarrow> JsonValue \<Rightarrow> nat gen" where
  "node_number env remap_table v =
     (case AsNumber v of None \<Rightarrow> Some Failed | Some n \<Rightarrow> remap_at remap_table (to_int32 (ge_number env n)))"

definition WriteNodeArray :: "gen_env \<Rightarrow> nat \<Rightarrow> nat \<Rightarrow> JsonValue list \<Rightarrow> nat list \<Rightarrow> dag_writer \<Rightarrow> dag_writer gen" where
  "WriteNodeArray env top_seg data_seg ints remap_table w =
     for_each (\<lambda>v w. then_do (node_number env remap_table v) (\<lambda>index. Some (Done (put_int32 data_seg (int index) w))))
       ints (put_array_head top_seg data_seg (length ints) w)"

section \<open>Scanners\<close>

definition scanner_flags :: "(string \<times> JsonValue) list \<Rightarrow> u32" where
  "scanner_flags data =
     (if GetBoolean data ''RequireWhitespace'' then kFlagRequireWhitespace else 0) OR
     (if GetBoolean data ''UseSeparators'' then kFlagUseSeparators else 0) OR
     (if GetBoolean data ''BareMeansSystem'' then kFlagBareMeansSystem else 0)"

definition write_keyword :: "bool \<Rightarrow> JsonValue \<Rightarrow> dag_writer \<Rightarrow> dag_writer gen" where
  "write_keyword follow v w =
     (case AsString v of
        None \<Rightarrow> Some Failed
      | Some s \<Rightarrow>
          (let w = WriteStringPtr aux2_seg str_seg (Some s) w;
               w = at_seg aux2_seg (\<lambda>g. BinarySegmentWriteInt16 g (int (length (c_str s)))) w;
               w = at_seg aux2_seg (\<lambda>g. BinarySegmentWriteUint8 g (if follow then 1 else 0)) w
           in Some (Done (at_seg aux2_seg (\<lambda>g. BinarySegmentWriteUint8 g 0) w))))"

definition write_kws :: "JsonValue list option \<Rightarrow> bool \<Rightarrow> dag_writer \<Rightarrow> dag_writer gen" where
  "write_kws array follow w = (case array of None \<Rightarrow> Some (Done w) | Some vs \<Rightarrow> for_each (write_keyword follow) vs w)"

definition count_of :: "JsonValue list option \<Rightarrow> nat" where
  "count_of array = (case array of None \<Rightarrow> 0 | Some vs \<Rightarrow> length vs)"

definition write_generic :: "(string \<times> JsonValue) list \<Rightarrow> dag_writer \<Rightarrow> dag_writer gen" where
  "write_generic data w =
     (let w = put_uint32 aux_seg (scanner_flags data) w;
          follow_kws = FindArrayValue (Some data) ''Keywords'';
          nofollow_kws = FindArrayValue (Some data) ''KeywordsNoFollow'';
          kw_count = count_of follow_kws + count_of nofollow_kws;
          w = put_int32 aux_seg (int kw_count) w
      in if kw_count > 0
         then let w = put_align aux2_seg w; w = put_pointer aux_seg (seg_position w aux2_seg) w
              in then_do (write_kws follow_kws True w) (write_kws nofollow_kws False)
         else Some (Done (put_null aux_seg w)))"

fun include_paths_loop :: "gen_env \<Rightarrow> JsonValue list \<Rightarrow> sig_state \<Rightarrow> dag_writer \<Rightarrow> (sig_state \<times> dag_writer) gen" where
  "include_paths_loop env [] h w = Some (Done (h, w))"
| "include_paths_loop env (v # vs) h w =
     then_do (GetString v) (\<lambda>path.
       case HashAddPath (pl_nocase (ge_pl env)) HashBlock h path of
         None \<Rightarrow> None
       | Some h \<Rightarrow> then_do (WriteCommonStringPtr aux2_seg str_seg (Some path) w) (include_paths_loop env vs h))"

text \<open>
  The digest is stored at the end through the address that \<open>BinarySegmentAlloc\<close> returned; if the
  segment's storage has moved by then, that memory has been freed.
\<close>

definition store_digest :: "gen_env \<Rightarrow> nat \<Rightarrow> digest \<Rightarrow> dag_writer \<Rightarrow> dag_writer gen" where
  "store_digest env digest_space digest w =
     (if ge_moves env (digest_space + 16) (length (sg_Bytes (gw_Segs w ! aux_seg))) then Some (Fault (Overrun ''freed memory''))
      else Some (Done (at_seg aux_seg (\<lambda>seg. seg\<lparr>sg_Bytes := overwrite (sg_Bytes seg) digest_space (digest_bytes digest)\<rparr>) w)))"

definition scanner_type :: "string \<Rightarrow> ScannerType option" where
  "scanner_type kind = (if c_str kind = ''cpp'' then Some kCpp else if c_str kind = ''generic'' then Some kGeneric else None)"

text \<open>The result is the position of the scanner.\<close>

definition WriteScanner :: "gen_env \<Rightarrow> (string \<times> JsonValue) list option \<Rightarrow> dag_writer \<Rightarrow> (BinaryLocator \<times> dag_writer) gen" where
  "WriteScanner env data w =
     (case data of
        None \<Rightarrow> Some Failed
      | Some data \<Rightarrow>
          (case (FindStringValue (kObject data) ''Kind'' None, FindArrayValue (Some data) ''IncludePaths'') of
             (Some kind, Some incpaths) \<Rightarrow>
               (let w = put_align aux_seg w; ptr_out = seg_position w aux_seg
                in case scanner_type kind of
                     None \<Rightarrow> Some Failed
                   | Some type \<Rightarrow>
                       (let w = put_int32 aux_seg (case type of kCpp \<Rightarrow> 0 | kGeneric \<Rightarrow> 1) w;
                            w = put_array_head aux_seg aux2_seg (length incpaths) w
                        in case HashAddString HashBlock (HashInit HashInitImpl (gp_garbage (ge_gp env))) kind of
                             None \<Rightarrow> None
                           | Some h \<Rightarrow>
                               then_do (include_paths_loop env incpaths h w) (\<lambda>(h, w).
                                 let (seg, digest_space) = BinarySegmentAlloc (ge_junk env) (gw_Segs w ! aux_seg) 16;
                                     w = at_seg aux_seg (\<lambda>_. seg) w
                                 in then_do (case type of kCpp \<Rightarrow> Some (Done w) | kGeneric \<Rightarrow> write_generic data w) (\<lambda>w.
                                    case HashFinalize HashBlock HashFinalizeImpl h of
                                      None \<Rightarrow> None
                                    | Some digest \<Rightarrow>
                                        then_do (store_digest env digest_space digest w) (\<lambda>w. Some (Done (ptr_out, w)))))))
           | _ \<Rightarrow> Some Failed))"

section \<open>Node identities\<close>

text \<open>\<open>TempNodeGuid\<close>: a digest and the index of a node in the JSON data.\<close>

type_synonym TempNodeGuid = "digest \<times> nat"

fun hash_inputs :: "JsonValue list \<Rightarrow> sig_state \<Rightarrow> sig_state option" where
  "hash_inputs [] h = Some h"
| "hash_inputs (v # vs) h =
     (case AsString v of
        None \<Rightarrow> hash_inputs vs h
      | Some s \<Rightarrow> (case HashAddString HashBlock h s of None \<Rightarrow> None | Some h \<Rightarrow> hash_inputs vs h))"

definition hash_optional :: "string option \<Rightarrow> sig_state \<Rightarrow> sig_state option" where
  "hash_optional text h = (case text of None \<Rightarrow> Some h | Some s \<Rightarrow> HashAddString HashBlock h s)"

definition empty_text :: "string option \<Rightarrow> bool" where
  "empty_text text \<longleftrightarrow> (case text of None \<Rightarrow> True | Some s \<Rightarrow> peek s = NUL)"

definition json_node_guid :: "gen_env \<Rightarrow> JsonValue \<Rightarrow> digest gen" where
  "json_node_guid env v =
     (case AsObject v of
        None \<Rightarrow> Some Failed
      | Some nobj \<Rightarrow>
          (let action = FindStringValue (kObject nobj) ''Action'' None;
               inputs = FindArrayValue (Some nobj) ''Inputs'';
               annotation = FindStringValue (kObject nobj) ''Annotation'' None
           in case do {
                h \<leftarrow> hash_optional (if empty_text action then None else action) (HashInit HashInitImpl (gp_garbage (ge_gp env)));
                h \<leftarrow> hash_inputs (case inputs of None \<Rightarrow> [] | Some vs \<Rightarrow> vs) h;
                hash_optional annotation h
              } of
                None \<Rightarrow> None
              | Some h \<Rightarrow>
                  if empty_text action \<and> inputs = None \<and> annotation = None then Some Failed
                  else (case HashFinalize HashBlock HashFinalizeImpl h of None \<Rightarrow> None | Some digest \<Rightarrow> Some (Done digest))))"

fun guid_loop :: "gen_env \<Rightarrow> nat \<Rightarrow> JsonValue list \<Rightarrow> TempNodeGuid list gen" where
  "guid_loop env i [] = Some (Done [])"
| "guid_loop env i (v # vs) =
     then_do (json_node_guid env v) (\<lambda>digest. then_do (guid_loop env (Suc i) vs) (\<lambda>rest. Some (Done ((digest, i) # rest))))"

text \<open>
  Nodes with the same identity make the function fail, however \<open>std::sort\<close> orders them. The result is
  \<open>guid_table\<close> and \<open>remap_table\<close>, which is filled at the index of every node.
\<close>

definition ComputeNodeGuids :: "gen_env \<Rightarrow> JsonValue list \<Rightarrow> (TempNodeGuid list \<times> nat list) gen" where
  "ComputeNodeGuids env nodes =
     then_do (guid_loop env 0 nodes) (\<lambda>unsorted.
       let guid_table = sort_key fst unsorted
       in if list_ex (\<lambda>i. fst (guid_table ! (i - 1)) = fst (guid_table ! i)) [1..<length guid_table] then Some Failed
          else Some (Done (guid_table,
            fold (\<lambda>i remap_table. remap_table[snd (guid_table ! i) := i]) [0..<length guid_table] (replicate (length nodes) 0))))"

section \<open>Nodes\<close>

text \<open>The lists of nodes that depend on each node.\<close>

fun dep_links_loop :: "gen_env \<Rightarrow> nat \<Rightarrow> JsonValue list \<Rightarrow> nat list list \<Rightarrow> nat list list gen" where
  "dep_links_loop env i [] links = Some (Done links)"
| "dep_links_loop env i (v # vs) links =
     (case AsNumber v of
        None \<Rightarrow> Some Failed
      | Some n \<Rightarrow>
          (let dep_index = to_int32 (ge_number env n)
           in if dep_index < 0 \<or> dep_index \<ge> int (length links) then Some Failed
              else dep_links_loop env i vs (links[nat dep_index := links ! nat dep_index @ [i]])))"

fun links_loop :: "gen_env \<Rightarrow> nat \<Rightarrow> JsonValue list \<Rightarrow> nat list list \<Rightarrow> nat list list gen" where
  "links_loop env i [] links = Some (Done links)"
| "links_loop env i (v # vs) links =
     (case AsObject v of
        None \<Rightarrow> Some Failed
      | Some nobj \<Rightarrow>
          (let deps = FindArrayValue (Some nobj) ''Deps''
           in if EmptyArray deps then links_loop env (Suc i) vs links
              else then_do (dep_links_loop env i (the deps) links) (links_loop env (Suc i) vs)))"

definition write_deps :: "gen_env \<Rightarrow> JsonValue list option \<Rightarrow> nat list \<Rightarrow> dag_writer \<Rightarrow> dag_writer gen" where
  "write_deps env dep_values remap_table w =
     (case dep_values of
        None \<Rightarrow> Some (Done (put_no_array node_data_seg w))
      | Some vs \<Rightarrow> WriteNodeArray env node_data_seg aux_seg vs remap_table (put_align aux_seg w))"

definition write_backlinks :: "nat list \<Rightarrow> nat list \<Rightarrow> dag_writer \<Rightarrow> dag_writer gen" where
  "write_backlinks backlinks remap_table w =
     (if backlinks = [] then Some (Done (put_no_array node_data_seg w))
      else for_each (\<lambda>index w. then_do (remap_at remap_table (int index)) (\<lambda>i. Some (Done (put_int32 aux_seg (int i) w))))
             backlinks (put_array_head node_data_seg aux_seg (length backlinks) w))"

definition write_env_var :: "JsonValue \<Rightarrow> dag_writer \<Rightarrow> dag_writer gen" where
  "write_env_var v w =
     (case (FindStringValue v ''Key'' None, FindStringValue v ''Value'' None) of
        (Some key, Some val) \<Rightarrow>
          then_do (WriteCommonStringPtr aux_seg str_seg (Some key) w) (WriteCommonStringPtr aux_seg str_seg (Some val))
      | _ \<Rightarrow> Some Failed)"

definition write_env_vars :: "JsonValue list option \<Rightarrow> dag_writer \<Rightarrow> dag_writer gen" where
  "write_env_vars env_vars w =
     (if EmptyArray env_vars then Some (Done (put_no_array node_data_seg w))
      else for_each write_env_var (the env_vars)
             (put_array_head node_data_seg aux_seg (length (the env_vars)) (put_align aux_seg w)))"

definition write_scanner_ptr :: "BinaryLocator list \<Rightarrow> int \<Rightarrow> dag_writer \<Rightarrow> dag_writer gen" where
  "write_scanner_ptr scanner_ptrs scanner_index w =
     (if scanner_index = - 1 then Some (Done (put_null node_data_seg w))
      else if 0 \<le> scanner_index \<and> scanner_index < int (length scanner_ptrs)
      then Some (Done (put_pointer node_data_seg (scanner_ptrs ! nat scanner_index) w))
      else Some (Fault (Overrun ''scanner_ptrs'')))"

definition node_flags_of :: "(string \<times> JsonValue) list \<Rightarrow> u32" where
  "node_flags_of nobj =
     GetNodeFlag nobj ''OverwriteOutputs'' kFlagOverwriteOutputs OR
     GetNodeFlag nobj ''PreciousOutputs'' kFlagPreciousOutputs OR
     GetNodeFlag nobj ''Expensive'' kFlagExpensive"

definition write_node ::
  "gen_env \<Rightarrow> JsonValue list \<Rightarrow> nat list list \<Rightarrow> BinaryLocator list \<Rightarrow> nat list \<Rightarrow> nat \<Rightarrow> dag_writer \<Rightarrow> dag_writer gen" where
  "write_node env nodes links scanner_ptrs remap_table i w =
     (case AsObject (nodes ! i) of
        None \<Rightarrow> Some (Fault (Overrun ''null node''))
      | Some nobj \<Rightarrow>
          (let w = WriteStringPtr node_data_seg str_seg (FindStringValue (kObject nobj) ''Action'' None) w;
               w = WriteStringPtr node_data_seg str_seg (FindStringValue (kObject nobj) ''PreAction'' None) w
           in then_do (WriteCommonStringPtr node_data_seg str_seg (FindStringValue (kObject nobj) ''Annotation'' None) w) (\<lambda>w.
              let w = put_int32 node_data_seg (to_int32 (FindIntValue (ge_number env) nobj ''PassIndex'' 0)) w
              in then_do (write_deps env (FindArrayValue (Some nobj) ''Deps'') remap_table w) (\<lambda>w.
                 then_do (write_backlinks (links ! i) remap_table w) (\<lambda>w.
                 then_do (WriteFileArray env node_data_seg aux_seg str_seg (FindArrayValue (Some nobj) ''Inputs'') w) (\<lambda>(_, w).
                 then_do (WriteFileArray env node_data_seg aux_seg str_seg (FindArrayValue (Some nobj) ''Outputs'') w) (\<lambda>(_, w).
                 then_do (WriteFileArray env node_data_seg aux_seg str_seg (FindArrayValue (Some nobj) ''AuxOutputs'') w) (\<lambda>(_, w).
                 then_do (write_env_vars (FindArrayValue (Some nobj) ''Env'') w) (\<lambda>w.
                 then_do (write_scanner_ptr scanner_ptrs (to_int32 (FindIntValue (ge_number env) nobj ''ScannerIndex'' (- 1))) w) (\<lambda>w.
                 Some (Done (put_uint32 node_data_seg (node_flags_of nobj) w))))))))))))"

definition WriteNodes ::
  "gen_env \<Rightarrow> JsonValue list \<Rightarrow> BinaryLocator list \<Rightarrow> TempNodeGuid list \<Rightarrow> nat list \<Rightarrow> dag_writer \<Rightarrow> dag_writer gen" where
  "WriteNodes env nodes scanner_ptrs order remap_table w =
     (let w = put_pointer main_seg (seg_position w node_data_seg) w
      in then_do (links_loop env 0 nodes (replicate (length nodes) [])) (\<lambda>links.
         for_each (\<lambda>entry. write_node env nodes links scanner_ptrs remap_table (snd entry)) order w))"

section \<open>The DAG\<close>

definition write_named_node :: "gen_env \<Rightarrow> nat list \<Rightarrow> string \<times> JsonValue \<Rightarrow> dag_writer \<Rightarrow> dag_writer gen" where
  "write_named_node env remap_table entry w =
     (let w = WriteStringPtr aux2_seg str_seg (Some (fst entry)) w
      in then_do (node_number env remap_table (snd entry)) (\<lambda>index. Some (Done (put_int32 aux2_seg (int index) w))))"

definition write_tuple :: "gen_env \<Rightarrow> nat list \<Rightarrow> JsonValue \<Rightarrow> dag_writer \<Rightarrow> dag_writer gen" where
  "write_tuple env remap_table v w =
     (case AsObject v of
        None \<Rightarrow> Some Failed
      | Some obj \<Rightarrow>
          (let config_index = to_int32 (FindIntValue (ge_number env) obj ''ConfigIndex'' (- 1));
               variant_index = to_int32 (FindIntValue (ge_number env) obj ''VariantIndex'' (- 1));
               subvariant_index = to_int32 (FindIntValue (ge_number env) obj ''SubVariantIndex'' (- 1))
           in case (FindArrayValue (Some obj) ''DefaultNodes'', FindArrayValue (Some obj) ''AlwaysNodes'') of
                (Some default_nodes, Some always_nodes) \<Rightarrow>
                  if config_index = - 1 \<or> variant_index = - 1 \<or> subvariant_index = - 1 then Some Failed
                  else
                    (let w = put_int32 aux_seg config_index w;
                         w = put_int32 aux_seg variant_index w;
                         w = put_int32 aux_seg subvariant_index w
                     in then_do (WriteNodeArray env aux_seg aux2_seg default_nodes remap_table w) (\<lambda>w.
                        then_do (WriteNodeArray env aux_seg aux2_seg always_nodes remap_table w) (\<lambda>w.
                        case FindObjectValue obj ''NamedNodes'' of
                          None \<Rightarrow> Some (Done (put_no_array aux_seg w))
                        | Some named_nodes \<Rightarrow>
                            for_each (write_named_node env remap_table) named_nodes
                              (put_array_head aux_seg aux2_seg (length named_nodes) w))))
              | _ \<Rightarrow> Some Failed))"

definition write_file_sig :: "gen_env \<Rightarrow> JsonValue \<Rightarrow> dag_writer \<Rightarrow> dag_writer gen" where
  "write_file_sig env v w =
     (case AsObject v of
        None \<Rightarrow> Some Failed
      | Some sig \<Rightarrow>
          (case FindStringValue (kObject sig) ''File'' None of
             None \<Rightarrow> Some Failed
           | Some path \<Rightarrow>
               (let timestamp = fi_Timestamp (GetFileInfo (ge_world env) path);
                    w = WriteStringPtr aux_seg str_seg (Some path) w;
                    w = put_bytes aux_seg [0, 0, 0, 0] w
                in Some (Done (at_seg aux_seg (\<lambda>g. BinarySegmentWriteUint64 g timestamp) w)))))"

text \<open>A value that is not an object is passed over.\<close>

definition write_glob_sig :: "gen_env \<Rightarrow> JsonValue \<Rightarrow> dag_writer \<Rightarrow> dag_writer gen" where
  "write_glob_sig env v w =
     (case AsObject v of
        None \<Rightarrow> Some (Done w)
      | Some sig \<Rightarrow>
          (case FindStringValue (kObject sig) ''Path'' None of
             None \<Rightarrow> Some Failed
           | Some path \<Rightarrow>
               (case CalculateGlobSignatureFor (gp_nocase (ge_gp env)) (ge_world env) (gp_qsort (ge_gp env)) (gp_garbage (ge_gp env)) path of
                  None \<Rightarrow> None
                | Some digest \<Rightarrow> Some (Done (put_bytes aux_seg (digest_bytes digest) (WriteStringPtr aux_seg str_seg (Some path) w))))))"

definition write_sha_ext :: "JsonValue \<Rightarrow> dag_writer \<Rightarrow> dag_writer gen" where
  "write_sha_ext v w =
     (case AsString v of
        None \<Rightarrow> Some Failed
      | Some s \<Rightarrow> if peek s \<noteq> CHR ''.'' then Some Failed else Some (Done (put_uint32 aux_seg (Djb2Hash s) w)))"

text \<open>An array of the root object that can be missing.\<close>

definition write_optional :: "(JsonValue \<Rightarrow> dag_writer \<Rightarrow> dag_writer gen) \<Rightarrow> JsonValue list option \<Rightarrow> dag_writer \<Rightarrow> dag_writer gen" where
  "write_optional f array w =
     (case array of
        None \<Rightarrow> Some (Done (put_no_array main_seg w))
      | Some vs \<Rightarrow> for_each f vs (put_array_head main_seg aux_seg (length vs) w))"

fun write_scanners :: "gen_env \<Rightarrow> JsonValue list \<Rightarrow> dag_writer \<Rightarrow> (BinaryLocator list \<times> dag_writer) gen" where
  "write_scanners env [] w = Some (Done ([], w))"
| "write_scanners env (v # vs) w =
     then_do (WriteScanner env (AsObject v) w) (\<lambda>(ptr, w).
     then_do (write_scanners env vs w) (\<lambda>(ptrs, w). Some (Done (ptr # ptrs, w))))"

definition dag_MagicNumber_value :: u32 where
  "dag_MagicNumber_value = 0x1589010d XOR 0x7810221e"

definition write_setup :: "gen_env \<Rightarrow> nat list \<Rightarrow> (string \<times> JsonValue) list option \<Rightarrow> dag_writer \<Rightarrow> dag_writer gen" where
  "write_setup env remap_table setup w =
     (let configs = FindArrayValue setup ''Configs'';
          variants = FindArrayValue setup ''Variants'';
          subvariants = FindArrayValue setup ''SubVariants'';
          tuples = FindArrayValue setup ''BuildTuples''
      in if setup = None \<or> EmptyArray configs \<or> EmptyArray variants \<or> EmptyArray subvariants \<or> EmptyArray tuples then Some Failed
         else
           then_do (WriteStrHashArray main_seg aux_seg str_seg (the configs) w) (\<lambda>w.
           then_do (WriteStrHashArray main_seg aux_seg str_seg (the variants) w) (\<lambda>w.
           then_do (WriteStrHashArray main_seg aux_seg str_seg (the subvariants) w) (\<lambda>w.
           then_do (for_each (write_tuple env remap_table) (the tuples) (put_array_head main_seg aux_seg (length (the tuples)) w)) (\<lambda>w.
           case FindObjectValue (the setup) ''DefaultBuildTuple'' of
             None \<Rightarrow> Some Failed
           | Some default_tuple \<Rightarrow>
               (let def_config_index = to_int32 (FindIntValue (ge_number env) default_tuple ''ConfigIndex'' (- 2));
                    def_variant_index = to_int32 (FindIntValue (ge_number env) default_tuple ''VariantIndex'' (- 2));
                    def_subvariant_index = to_int32 (FindIntValue (ge_number env) default_tuple ''SubVariantIndex'' (- 2))
                in if def_config_index = - 2 \<or> def_variant_index = - 2 \<or> def_subvariant_index = - 2 then Some Failed
                   else
                     (let w = put_int32 main_seg def_config_index w;
                          w = put_int32 main_seg def_variant_index w
                      in Some (Done (put_int32 main_seg def_subvariant_index w)))))))))"

definition write_file_name :: "(string \<times> JsonValue) list \<Rightarrow> string \<Rightarrow> string \<Rightarrow> dag_writer \<Rightarrow> dag_writer" where
  "write_file_name root key default_name = WriteStringPtr main_seg str_seg (FindStringValue (kObject root) key (Some default_name))"

definition write_trailer :: "gen_env \<Rightarrow> (string \<times> JsonValue) list \<Rightarrow> dag_writer \<Rightarrow> dag_writer gen" where
  "write_trailer env root w =
     then_do (write_optional (write_file_sig env) (FindArrayValue (Some root) ''FileSignatures'') w) (\<lambda>w.
     then_do (write_optional (write_glob_sig env) (FindArrayValue (Some root) ''GlobSignatures'') w) (\<lambda>w.
     then_do (write_optional write_sha_ext (FindArrayValue (Some root) ''ContentDigestExtensions'') w) (\<lambda>w.
     let w = put_int32 main_seg (to_int32 (FindIntValue (ge_number env) root ''MaxExpensiveCount'' (- 1))) w;
         w = write_file_name root ''StateFileName'' ''.tundra2.state'' w;
         w = write_file_name root ''StateFileNameTmp'' ''.tundra2.state.tmp'' w;
         w = write_file_name root ''ScanCacheFileName'' ''.tundra2.scancache'' w;
         w = write_file_name root ''ScanCacheFileNameTmp'' ''.tundra2.scancache.tmp'' w;
         w = write_file_name root ''DigestCacheFileName'' ''.tundra2.digestcache'' w
     in Some (Done (write_file_name root ''DigestCacheFileNameTmp'' ''.tundra2.digestcache.tmp'' w)))))"

definition CompileDag :: "gen_env \<Rightarrow> (string \<times> JsonValue) list \<Rightarrow> dag_writer gen" where
  "CompileDag env root =
     (let w = \<lparr>gw_Segs = new_segments 6, gw_Shared = HashTableInit\<rparr>;
          nodes = FindArrayValue (Some root) ''Nodes'';
          passes = FindArrayValue (Some root) ''Passes'';
          scanners = FindArrayValue (Some root) ''Scanners''
      in if EmptyArray nodes \<or> EmptyArray passes then Some Failed
         else
           then_do (write_scanners env (case scanners of None \<Rightarrow> [] | Some vs \<Rightarrow> vs) w) (\<lambda>(scanner_ptrs, w).
           let w = put_uint32 main_seg dag_MagicNumber_value w
           in then_do (ComputeNodeGuids env (the nodes)) (\<lambda>(guid_table, remap_table).
              let w = put_int32 main_seg (int (length (the nodes))) w;
                  w = put_pointer main_seg (seg_position w node_guid_seg) w
              in then_do (for_each (\<lambda>entry w. Some (Done (put_bytes node_guid_seg (digest_bytes (fst entry)) w))) guid_table w) (\<lambda>w.
                 then_do (WriteNodes env (the nodes) scanner_ptrs guid_table remap_table w) (\<lambda>w.
                 then_do (for_each (\<lambda>v w. then_do (GetString v) (\<lambda>s. Some (Done (WriteStringPtr aux_seg str_seg (Some s) w))))
                    (the passes) (put_array_head main_seg aux_seg (length (the passes)) w)) (\<lambda>w.
                 then_do (write_setup env remap_table (FindObjectValue root ''Setup'') w) (write_trailer env root)))))))"

end
