(* ===== verification/T2_DagSpec.thy ===== *)
theory T2_DagSpec
  imports T2_DagGenerator
begin

text \<open>
  The DAG file as the driver reads it, and the DAG that a JSON description means. \<open>LoadFrozenData_dag\<close>
  is \<open>LoadFrozenData\<close> of \<open>src/Driver.cpp\<close> for the structs of \<open>src/DagData.hpp\<close>. \<open>dag_of_json\<close> is the
  specification of the compiler: it has no segments, pointers or shared strings.
\<close>

section \<open>Reading a DAG file\<close>

definition read_i16 :: "u8 list \<Rightarrow> nat \<Rightarrow> int option" where
  "read_i16 mem pos = map_option (\<lambda>bs. sint (word_of_bytes bs :: u16)) (read_bytes mem pos 2)"

definition read_u8 :: "u8 list \<Rightarrow> nat \<Rightarrow> u8 option" where
  "read_u8 mem pos = map_option word_of_bytes (read_bytes mem pos 1)"

definition read_keyword :: "u8 list \<Rightarrow> nat \<Rightarrow> KeywordData option" where
  "read_keyword mem pos = do {
     s \<leftarrow> read_string mem pos;
     n \<leftarrow> read_i16 mem (pos + 4);
     follow \<leftarrow> read_u8 mem (pos + 6);
     Some \<lparr>kw_String = s, kw_StringLength = nat n, kw_ShouldFollow = follow \<noteq> 0\<rparr>
   }"

text \<open>A generic scanner has two more members; the type tells which struct it is.\<close>

definition read_scanner :: "u8 list \<Rightarrow> nat \<Rightarrow> ScannerData option" where
  "read_scanner mem pos = do {
     type \<leftarrow> read_i32 mem pos;
     paths \<leftarrow> FrozenArray_read mem (read_string mem) 4 (pos + 4);
     guid \<leftarrow> read_digest mem (pos + 12);
     if type = 0 then Some \<lparr>sc_ScannerType = kCpp, sc_IncludePaths = paths, sc_ScannerGuid = guid, sc_Flags = 0, sc_Keywords = []\<rparr>
     else do {
       flags \<leftarrow> read_u32 mem (pos + 28);
       keywords \<leftarrow> FrozenArray_read mem (read_keyword mem) 8 (pos + 32);
       Some \<lparr>sc_ScannerType = kGeneric, sc_IncludePaths = paths, sc_ScannerGuid = guid, sc_Flags = flags, sc_Keywords = keywords\<rparr>
     }
   }"

definition read_scanner_ptr :: "u8 list \<Rightarrow> nat \<Rightarrow> ScannerData option option" where
  "read_scanner_ptr mem pos =
     (case FrozenPtr_Get mem pos of
        None \<Rightarrow> None
      | Some None \<Rightarrow> Some None
      | Some (Some target) \<Rightarrow> if target < 0 then None else map_option Some (read_scanner mem (nat target)))"

definition read_env_var :: "u8 list \<Rightarrow> nat \<Rightarrow> (string \<times> string) option" where
  "read_env_var mem pos = do { name \<leftarrow> read_string mem pos; val \<leftarrow> read_string mem (pos + 4); Some (name, val) }"

definition read_node_data :: "u8 list \<Rightarrow> nat \<Rightarrow> NodeData option" where
  "read_node_data mem pos = do {
     action \<leftarrow> read_opt_string mem pos;
     pre_action \<leftarrow> read_opt_string mem (pos + 4);
     annotation \<leftarrow> read_opt_string mem (pos + 8);
     pass_index \<leftarrow> read_i32 mem (pos + 12);
     dependencies \<leftarrow> FrozenArray_read mem (read_index mem) 4 (pos + 16);
     back_links \<leftarrow> FrozenArray_read mem (read_index mem) 4 (pos + 24);
     inputs \<leftarrow> FrozenArray_read mem (read_file_and_hash mem) 8 (pos + 32);
     outputs \<leftarrow> FrozenArray_read mem (read_file_and_hash mem) 8 (pos + 40);
     aux_outputs \<leftarrow> FrozenArray_read mem (read_file_and_hash mem) 8 (pos + 48);
     env_vars \<leftarrow> FrozenArray_read mem (read_env_var mem) 8 (pos + 56);
     scanner \<leftarrow> read_scanner_ptr mem (pos + 64);
     flags \<leftarrow> read_u32 mem (pos + 68);
     Some \<lparr>nd_Action = action, nd_PreAction = pre_action, nd_Annotation = annotation, nd_PassIndex = pass_index,
       nd_Dependencies = dependencies, nd_BackLinks = back_links, nd_InputFiles = inputs, nd_OutputFiles = outputs,
       nd_AuxOutputFiles = aux_outputs, nd_EnvVars = env_vars, nd_Scanner = scanner, nd_Flags = flags\<rparr>
   }"

definition read_named_node :: "u8 list \<Rightarrow> nat \<Rightarrow> NamedNodeData option" where
  "read_named_node mem pos = do {
     name \<leftarrow> read_string mem pos;
     index \<leftarrow> read_index mem (pos + 4);
     Some \<lparr>nn_Name = name, nn_NodeIndex = index\<rparr>
   }"

definition read_build_tuple :: "u8 list \<Rightarrow> nat \<Rightarrow> BuildTupleData option" where
  "read_build_tuple mem pos = do {
     config_index \<leftarrow> read_i32 mem pos;
     variant_index \<leftarrow> read_i32 mem (pos + 4);
     subvariant_index \<leftarrow> read_i32 mem (pos + 8);
     default_nodes \<leftarrow> FrozenArray_read mem (read_index mem) 4 (pos + 12);
     always_nodes \<leftarrow> FrozenArray_read mem (read_index mem) 4 (pos + 20);
     named_nodes \<leftarrow> FrozenArray_read mem (read_named_node mem) 8 (pos + 28);
     Some \<lparr>bt_ConfigIndex = config_index, bt_VariantIndex = variant_index, bt_SubVariantIndex = subvariant_index,
       bt_DefaultNodes = default_nodes, bt_AlwaysNodes = always_nodes, bt_NamedNodes = named_nodes\<rparr>
   }"

definition read_file_sig :: "u8 list \<Rightarrow> nat \<Rightarrow> (string \<times> u64) option" where
  "read_file_sig mem pos = do { path \<leftarrow> read_string mem pos; timestamp \<leftarrow> read_u64 mem (pos + 8); Some (path, timestamp) }"

definition read_glob_sig :: "u8 list \<Rightarrow> nat \<Rightarrow> (string \<times> digest) option" where
  "read_glob_sig mem pos = do { path \<leftarrow> read_string mem pos; digest \<leftarrow> read_digest mem (pos + 4); Some (path, digest) }"

text \<open>A count that two arrays share.\<close>

definition read_block ::
  "(u8 list \<Rightarrow> nat \<Rightarrow> 'a option) \<Rightarrow> nat \<Rightarrow> (u8 list \<Rightarrow> nat \<Rightarrow> 'b option) \<Rightarrow> nat \<Rightarrow> u8 list \<Rightarrow> nat \<Rightarrow> ('a list \<times> 'b list) option" where
  "read_block r1 n1 r2 n2 mem pos = do {
     count \<leftarrow> read_i32 mem pos;
     p1 \<leftarrow> FrozenPtr_Get mem (pos + 4);
     p2 \<leftarrow> FrozenPtr_Get mem (pos + 8);
     xs \<leftarrow> read_elements (r1 mem) n1 count p1;
     ys \<leftarrow> read_elements (r2 mem) n2 count p2;
     Some (xs, ys)
   }"

definition read_dag :: "u8 list \<Rightarrow> nat \<Rightarrow> DagData option" where
  "read_dag mem pos = do {
     magic \<leftarrow> read_u32 mem pos;
     (guids, nodes) \<leftarrow> read_block read_digest 16 read_node_data 72 mem (pos + 4);
     passes \<leftarrow> FrozenArray_read mem (read_string mem) 4 (pos + 16);
     (configs, config_hashes) \<leftarrow> read_block read_string 4 read_u32 4 mem (pos + 24);
     (variants, variant_hashes) \<leftarrow> read_block read_string 4 read_u32 4 mem (pos + 36);
     (subvariants, subvariant_hashes) \<leftarrow> read_block read_string 4 read_u32 4 mem (pos + 48);
     tuples \<leftarrow> FrozenArray_read mem (read_build_tuple mem) 36 (pos + 60);
     config_index \<leftarrow> read_i32 mem (pos + 68);
     variant_index \<leftarrow> read_i32 mem (pos + 72);
     subvariant_index \<leftarrow> read_i32 mem (pos + 76);
     file_sigs \<leftarrow> FrozenArray_read mem (read_file_sig mem) 16 (pos + 80);
     glob_sigs \<leftarrow> FrozenArray_read mem (read_glob_sig mem) 20 (pos + 88);
     sha_hashes \<leftarrow> FrozenArray_read mem (read_u32 mem) 4 (pos + 96);
     max_expensive \<leftarrow> read_i32 mem (pos + 104);
     state_name \<leftarrow> read_string mem (pos + 108);
     state_tmp \<leftarrow> read_string mem (pos + 112);
     scan_name \<leftarrow> read_string mem (pos + 116);
     scan_tmp \<leftarrow> read_string mem (pos + 120);
     digest_name \<leftarrow> read_string mem (pos + 124);
     digest_tmp \<leftarrow> read_string mem (pos + 128);
     Some \<lparr>dag_MagicNumber = magic, dag_NodeGuids = guids, dag_NodeData = nodes, dag_Passes = passes,
       dag_ConfigNames = configs, dag_ConfigNameHashes = config_hashes, dag_VariantNames = variants,
       dag_VariantNameHashes = variant_hashes, dag_SubVariantNames = subvariants, dag_SubVariantNameHashes = subvariant_hashes,
       dag_BuildTuples = tuples, dag_DefaultConfigIndex = config_index, dag_DefaultVariantIndex = variant_index,
       dag_DefaultSubVariantIndex = subvariant_index, dag_FileSignatures = file_sigs, dag_GlobSignatures = glob_sigs,
       dag_ShaExtensionHashes = sha_hashes, dag_MaxExpensiveCount = max_expensive, dag_StateFileName = state_name,
       dag_StateFileNameTmp = state_tmp, dag_ScanCacheFileName = scan_name, dag_ScanCacheFileNameTmp = scan_tmp,
       dag_DigestCacheFileName = digest_name, dag_DigestCacheFileNameTmp = digest_tmp\<rparr>
   }"

definition LoadFrozenData_dag :: "u8 list option \<Rightarrow> DagData option" where
  "LoadFrozenData_dag mapping =
     (case mapping of
        None \<Rightarrow> None
      | Some mem \<Rightarrow>
          if length mem < 132 then None
          else if read_u32 mem 0 \<noteq> Some dag_MagicNumber_value then None
          else read_dag mem 0)"

section \<open>The meaning of the JSON data\<close>

fun gmap :: "('x \<Rightarrow> 'y gen) \<Rightarrow> 'x list \<Rightarrow> 'y list gen" where
  "gmap f [] = Some (Done [])"
| "gmap f (x # xs) = then_do (f x) (\<lambda>y. then_do (gmap f xs) (\<lambda>ys. Some (Done (y # ys))))"

abbreviation items :: "JsonValue list option \<Rightarrow> JsonValue list" where
  "items array \<equiv> (case array of None \<Rightarrow> [] | Some vs \<Rightarrow> vs)"

definition string_spec :: "JsonValue \<Rightarrow> string gen" where
  "string_spec v = then_do (GetString v) (\<lambda>s. Some (Done (c_str s)))"

definition file_spec :: "gen_env \<Rightarrow> JsonValue \<Rightarrow> file_and_hash gen" where
  "file_spec env v =
     (case AsString v of
        None \<Rightarrow> Some Failed
      | Some path \<Rightarrow> then_do (clean_path (ge_pl env) path) (\<lambda>p. Some (Done (c_str p, Djb2HashPath (pl_nocase (ge_pl env)) p))))"

definition annotation_spec :: "string option \<Rightarrow> string gen" where
  "annotation_spec text = (case text of None \<Rightarrow> Some (Fault (Overrun ''null string'')) | Some s \<Rightarrow> Some (Done (c_str s)))"

definition env_var_spec :: "JsonValue \<Rightarrow> (string \<times> string) gen" where
  "env_var_spec v =
     (case (FindStringValue v ''Key'' None, FindStringValue v ''Value'' None) of
        (Some key, Some val) \<Rightarrow> Some (Done (c_str key, c_str val))
      | _ \<Rightarrow> Some Failed)"

definition keyword_spec :: "bool \<Rightarrow> JsonValue \<Rightarrow> KeywordData gen" where
  "keyword_spec follow v =
     (case AsString v of
        None \<Rightarrow> Some Failed
      | Some s \<Rightarrow> Some (Done \<lparr>kw_String = c_str s, kw_StringLength = nat (sint (of_int (int (length (c_str s))) :: u16)), kw_ShouldFollow = follow\<rparr>))"

definition scanner_spec :: "gen_env \<Rightarrow> (string \<times> JsonValue) list option \<Rightarrow> ScannerData gen" where
  "scanner_spec env data =
     (case data of
        None \<Rightarrow> Some Failed
      | Some data \<Rightarrow>
          (case (FindStringValue (kObject data) ''Kind'' None, FindArrayValue (Some data) ''IncludePaths'') of
             (Some kind, Some incpaths) \<Rightarrow>
               (case scanner_type kind of
                  None \<Rightarrow> Some Failed
                | Some type \<Rightarrow>
                    then_do (gmap string_spec incpaths) (\<lambda>paths.
                      let guid = fast_digest (map of_char (c_str kind) @ concat (map (canon (pl_nocase (ge_pl env))) paths))
                      in case type of
                           kCpp \<Rightarrow> Some (Done \<lparr>sc_ScannerType = kCpp, sc_IncludePaths = paths, sc_ScannerGuid = guid, sc_Flags = 0, sc_Keywords = []\<rparr>)
                         | kGeneric \<Rightarrow>
                             then_do (gmap (keyword_spec True) (items (FindArrayValue (Some data) ''Keywords''))) (\<lambda>kws1.
                             then_do (gmap (keyword_spec False) (items (FindArrayValue (Some data) ''KeywordsNoFollow''))) (\<lambda>kws2.
                             Some (Done \<lparr>sc_ScannerType = kGeneric, sc_IncludePaths = paths, sc_ScannerGuid = guid,
                               sc_Flags = scanner_flags data, sc_Keywords = kws1 @ kws2\<rparr>)))))
           | _ \<Rightarrow> Some Failed))"

definition scanner_of :: "ScannerData list \<Rightarrow> int \<Rightarrow> ScannerData option gen" where
  "scanner_of scanners index =
     (if index = - 1 then Some (Done None)
      else if 0 \<le> index \<and> index < int (length scanners) then Some (Done (Some (scanners ! nat index)))
      else Some (Fault (Overrun ''scanner_ptrs'')))"

text \<open>\<open>links\<close> are the nodes that depend on each node, \<open>i\<close> is the index of the node in the JSON data.\<close>

definition node_spec ::
  "gen_env \<Rightarrow> JsonValue list \<Rightarrow> nat list list \<Rightarrow> ScannerData list \<Rightarrow> nat list \<Rightarrow> nat \<Rightarrow> NodeData gen" where
  "node_spec env nodes links scanners remap_table i =
     (case AsObject (nodes ! i) of
        None \<Rightarrow> Some (Fault (Overrun ''null node''))
      | Some nobj \<Rightarrow>
          then_do (annotation_spec (FindStringValue (kObject nobj) ''Annotation'' None)) (\<lambda>annotation.
          then_do (gmap (node_number env remap_table) (items (FindArrayValue (Some nobj) ''Deps''))) (\<lambda>dependencies.
          then_do (gmap (\<lambda>j. remap_at remap_table (int j)) (links ! i)) (\<lambda>back_links.
          then_do (gmap (file_spec env) (items (FindArrayValue (Some nobj) ''Inputs''))) (\<lambda>inputs.
          then_do (gmap (file_spec env) (items (FindArrayValue (Some nobj) ''Outputs''))) (\<lambda>outputs.
          then_do (gmap (file_spec env) (items (FindArrayValue (Some nobj) ''AuxOutputs''))) (\<lambda>aux_outputs.
          then_do (gmap env_var_spec (items (FindArrayValue (Some nobj) ''Env''))) (\<lambda>env_vars.
          then_do (scanner_of scanners (to_int32 (FindIntValue (ge_number env) nobj ''ScannerIndex'' (- 1)))) (\<lambda>scanner.
          Some (Done
            \<lparr>nd_Action = map_option c_str (FindStringValue (kObject nobj) ''Action'' None),
             nd_PreAction = map_option c_str (FindStringValue (kObject nobj) ''PreAction'' None), nd_Annotation = Some annotation,
             nd_PassIndex = to_int32 (FindIntValue (ge_number env) nobj ''PassIndex'' 0), nd_Dependencies = dependencies,
             nd_BackLinks = back_links, nd_InputFiles = inputs, nd_OutputFiles = outputs, nd_AuxOutputFiles = aux_outputs,
             nd_EnvVars = env_vars, nd_Scanner = scanner, nd_Flags = node_flags_of nobj\<rparr>))))))))))"

definition named_node_spec :: "gen_env \<Rightarrow> nat list \<Rightarrow> string \<times> JsonValue \<Rightarrow> NamedNodeData gen" where
  "named_node_spec env remap_table entry =
     then_do (node_number env remap_table (snd entry)) (\<lambda>index. Some (Done \<lparr>nn_Name = c_str (fst entry), nn_NodeIndex = index\<rparr>))"

definition tuple_spec :: "gen_env \<Rightarrow> nat list \<Rightarrow> JsonValue \<Rightarrow> BuildTupleData gen" where
  "tuple_spec env remap_table v =
     (case AsObject v of
        None \<Rightarrow> Some Failed
      | Some obj \<Rightarrow>
          (let config_index = to_int32 (FindIntValue (ge_number env) obj ''ConfigIndex'' (- 1));
               variant_index = to_int32 (FindIntValue (ge_number env) obj ''VariantIndex'' (- 1));
               subvariant_index = to_int32 (FindIntValue (ge_number env) obj ''SubVariantIndex'' (- 1))
           in case (FindArrayValue (Some obj) ''DefaultNodes'', FindArrayValue (Some obj) ''AlwaysNodes'') of
                (Some default_nodes, Some always_nodes) \<Rightarrow>
                  if config_index = - 1 \<or> variant_index = - 1 \<or> subvariant_index = - 1 then Some Failed
                  else
                    then_do (gmap (node_number env remap_table) default_nodes) (\<lambda>ds.
                    then_do (gmap (node_number env remap_table) always_nodes) (\<lambda>as.
                    then_do (gmap (named_node_spec env remap_table) (case FindObjectValue obj ''NamedNodes'' of None \<Rightarrow> [] | Some kvs \<Rightarrow> kvs)) (\<lambda>ns.
                    Some (Done \<lparr>bt_ConfigIndex = config_index, bt_VariantIndex = variant_index, bt_SubVariantIndex = subvariant_index,
                      bt_DefaultNodes = ds, bt_AlwaysNodes = as, bt_NamedNodes = ns\<rparr>))))
              | _ \<Rightarrow> Some Failed))"

definition file_sig_spec :: "gen_env \<Rightarrow> JsonValue \<Rightarrow> (string \<times> u64) gen" where
  "file_sig_spec env v =
     (case AsObject v of
        None \<Rightarrow> Some Failed
      | Some sig \<Rightarrow>
          (case FindStringValue (kObject sig) ''File'' None of
             None \<Rightarrow> Some Failed
           | Some path \<Rightarrow> Some (Done (c_str path, fi_Timestamp (GetFileInfo (ge_world env) path)))))"

definition glob_sig_spec :: "gen_env \<Rightarrow> JsonValue \<Rightarrow> (string \<times> digest) gen" where
  "glob_sig_spec env v =
     (case AsObject v of
        None \<Rightarrow> Some Failed
      | Some sig \<Rightarrow>
          (case FindStringValue (kObject sig) ''Path'' None of
             None \<Rightarrow> Some Failed
           | Some path \<Rightarrow> Some (Done (c_str path, glob_digest (ge_gp env) (ge_world env) path))))"

definition sha_ext_spec :: "JsonValue \<Rightarrow> u32 gen" where
  "sha_ext_spec v =
     (case AsString v of None \<Rightarrow> Some Failed | Some s \<Rightarrow> if peek s \<noteq> CHR ''.'' then Some Failed else Some (Done (Djb2Hash s)))"

definition name_hash_spec :: "JsonValue \<Rightarrow> u32 gen" where
  "name_hash_spec v = then_do (GetString v) (\<lambda>s. Some (Done (Djb2Hash s)))"

text \<open>The names of an array and their hashes.\<close>

definition names_spec :: "JsonValue list \<Rightarrow> (string list \<times> u32 list) gen" where
  "names_spec vs = then_do (gmap string_spec vs) (\<lambda>names. then_do (gmap name_hash_spec vs) (\<lambda>hashes. Some (Done (names, hashes))))"

type_synonym setup_data =
  "(string list \<times> u32 list) \<times> (string list \<times> u32 list) \<times> (string list \<times> u32 list) \<times> BuildTupleData list \<times> int \<times> int \<times> int"

definition setup_spec :: "gen_env \<Rightarrow> nat list \<Rightarrow> (string \<times> JsonValue) list option \<Rightarrow> setup_data gen" where
  "setup_spec env remap_table setup =
     (let configs = FindArrayValue setup ''Configs'';
          variants = FindArrayValue setup ''Variants'';
          subvariants = FindArrayValue setup ''SubVariants'';
          tuples = FindArrayValue setup ''BuildTuples''
      in if setup = None \<or> EmptyArray configs \<or> EmptyArray variants \<or> EmptyArray subvariants \<or> EmptyArray tuples then Some Failed
         else
           then_do (names_spec (the configs)) (\<lambda>cs.
           then_do (names_spec (the variants)) (\<lambda>vs.
           then_do (names_spec (the subvariants)) (\<lambda>ss.
           then_do (gmap (tuple_spec env remap_table) (the tuples)) (\<lambda>ts.
           case FindObjectValue (the setup) ''DefaultBuildTuple'' of
             None \<Rightarrow> Some Failed
           | Some default_tuple \<Rightarrow>
               (let def_config_index = to_int32 (FindIntValue (ge_number env) default_tuple ''ConfigIndex'' (- 2));
                    def_variant_index = to_int32 (FindIntValue (ge_number env) default_tuple ''VariantIndex'' (- 2));
                    def_subvariant_index = to_int32 (FindIntValue (ge_number env) default_tuple ''SubVariantIndex'' (- 2))
                in if def_config_index = - 2 \<or> def_variant_index = - 2 \<or> def_subvariant_index = - 2 then Some Failed
                   else Some (Done (cs, vs, ss, ts, def_config_index, def_variant_index, def_subvariant_index))))))))"

definition name_of :: "(string \<times> JsonValue) list \<Rightarrow> string \<Rightarrow> string \<Rightarrow> string" where
  "name_of root key default_name = c_str (the (FindStringValue (kObject root) key (Some default_name)))"

definition dag_of_json :: "gen_env \<Rightarrow> (string \<times> JsonValue) list \<Rightarrow> DagData gen" where
  "dag_of_json env root =
     (let nodes = FindArrayValue (Some root) ''Nodes'';
          passes = FindArrayValue (Some root) ''Passes''
      in if EmptyArray nodes \<or> EmptyArray passes then Some Failed
         else
           then_do (gmap (\<lambda>v. scanner_spec env (AsObject v)) (items (FindArrayValue (Some root) ''Scanners''))) (\<lambda>scanners.
           then_do (ComputeNodeGuids env (the nodes)) (\<lambda>(guid_table, remap_table).
           then_do (links_loop env 0 (the nodes) (replicate (length (the nodes)) [])) (\<lambda>links.
           then_do (gmap (\<lambda>entry. node_spec env (the nodes) links scanners remap_table (snd entry)) guid_table) (\<lambda>node_data.
           then_do (gmap string_spec (the passes)) (\<lambda>pass_names.
           then_do (setup_spec env remap_table (FindObjectValue root ''Setup'')) (\<lambda>((cs, chs), (vs, vhs), (ss, shs), tuples, dc, dv, ds).
           then_do (gmap (file_sig_spec env) (items (FindArrayValue (Some root) ''FileSignatures''))) (\<lambda>file_sigs.
           then_do (gmap (glob_sig_spec env) (items (FindArrayValue (Some root) ''GlobSignatures''))) (\<lambda>glob_sigs.
           then_do (gmap sha_ext_spec (items (FindArrayValue (Some root) ''ContentDigestExtensions''))) (\<lambda>sha_hashes.
           Some (Done
             \<lparr>dag_MagicNumber = dag_MagicNumber_value, dag_NodeGuids = map fst guid_table, dag_NodeData = node_data, dag_Passes = pass_names,
              dag_ConfigNames = cs, dag_ConfigNameHashes = chs, dag_VariantNames = vs, dag_VariantNameHashes = vhs,
              dag_SubVariantNames = ss, dag_SubVariantNameHashes = shs, dag_BuildTuples = tuples, dag_DefaultConfigIndex = dc,
              dag_DefaultVariantIndex = dv, dag_DefaultSubVariantIndex = ds, dag_FileSignatures = file_sigs, dag_GlobSignatures = glob_sigs,
              dag_ShaExtensionHashes = sha_hashes, dag_MaxExpensiveCount = to_int32 (FindIntValue (ge_number env) root ''MaxExpensiveCount'' (- 1)),
              dag_StateFileName = name_of root ''StateFileName'' ''.tundra2.state'',
              dag_StateFileNameTmp = name_of root ''StateFileNameTmp'' ''.tundra2.state.tmp'',
              dag_ScanCacheFileName = name_of root ''ScanCacheFileName'' ''.tundra2.scancache'',
              dag_ScanCacheFileNameTmp = name_of root ''ScanCacheFileNameTmp'' ''.tundra2.scancache.tmp'',
              dag_DigestCacheFileName = name_of root ''DigestCacheFileName'' ''.tundra2.digestcache'',
              dag_DigestCacheFileNameTmp = name_of root ''DigestCacheFileNameTmp'' ''.tundra2.digestcache.tmp''\<rparr>)))))))))))"

end
