(* ===== verification/Spec2Isabelle.thy ===== *)
theory Spec2Isabelle
  imports T2_BuildPasses T2_HashTable T2_Hash T2_SortedArray T2_TargetSelect T2_Path T2_JsonRoundtrip T2_IncludeScanner T2_Buffer T2_Driver T2_StaleOutputs T2_StateFile T2_FileSign T2_Scanner T2_NodeCheck T2_RunAction T2_PrepareDag T2_DagSpec
begin

text \<open>
  Verification of the core of the Tundra build system, the C++ program under \<open>src/\<close>. (Paths below
  are relative to the directory \<open>src\<close> of the repository.)

  \<^bold>\<open>The program.\<close> A build description in Lua is turned into a DAG of nodes (an action, its input and
  output files, dependencies), which is stored in a binary file. \<open>Driver.cpp\<close> loads the DAG, selects
  the nodes that the command line asks for together with everything they depend on, and runs
  the build pass by pass. \<open>BuildQueue.cpp\<close> schedules the nodes of a pass over a number of threads
  that share a queue under a lock: a node becomes ready when its dependencies are completed, its
  input signature is compared with that of the previous build, and its action runs when something
  changed. Signatures hash command lines and files, found with the include scanner, through caches of
  file information, digests and includes. Results and caches are written to binary files that
  the next run maps into memory. Underneath are hash tables, digests, sorted arrays, paths, JSON
  and allocators.

  \<^bold>\<open>Conventions.\<close> \<open>T2_Prelude\<close> has the integer types (\<open>u8\<close> to \<open>u64\<close> are words of that width; a
  signed counter whose overflow does not matter is an \<open>int\<close>), C strings (lists of characters
  that code reads up to the first NUL), and the outcome type \<open>result\<close> of code that can \<open>Croak\<close> or
  run outside an array (\<open>Overrun\<close>). A failed \<open>CHECK\<close> of the build queue is \<open>None\<close>. A struct is a
  record whose fields carry a short prefix (\<open>m_Progress\<close> of \<open>NodeState\<close> is \<open>ns_Progress\<close>), a pointer
  into an array an index, a frozen array of the DAG file a list. A function keeps its name; a
  loop of a function is a recursive function with the suffix \<open>_loop\<close>. Case folding of
  file names, the native path type and the working directory are parameters, and so are the file
  system, the execution of a process, the time and the calls of \<open>std::sort\<close> and \<open>qsort\<close> whose order
  is not determined.

  \<^bold>\<open>The build queue.\<close>
  \<^item> \<open>T2_DagData\<close>: the data of \<open>DagData.hpp\<close>, \<open>StateData.hpp\<close>, \<open>NodeState.hpp\<close>, \<open>FileInfo.hpp\<close>.
  \<^item> \<open>T2_BuildQueue\<close>: the functions of \<open>BuildQueue.cpp\<close> between two points where the lock is free, and
    the step relation \<open>build_step\<close>, which interleaves the threads, the wake-ups of the condition
    variable, the outcomes of actions and interrupts in any order. What a thread does without
    the lock (computing a signature, running an action) is an outcome chosen by the environment;
    \<open>T2_NodeCheck\<close> and \<open>T2_RunAction\<close> below compute it.
  \<^item> \<open>T2_Ring\<close>: the ring buffer as a list. \<open>T2_Schedule\<close>: an abstract scheduler, in which every node is
    at one place (idle, in the ring, parked, held by a thread, finished), with its invariant.
    \<open>T2_BuildQueueInv\<close>: each function of the queue refines a step of the abstract scheduler.
  \<^item> \<open>T2_BuildThreads\<close>: the invariant of queue and threads under every interleaving; progress; a bound on
    the work. \<open>T2_BuildPasses\<close>: passes start in the invariant and lead to one another; properties.
  \<^item> The theorems show that no check fails, dependencies are completed before a node is checked or
    run, a finished node stays finished, the limit on expensive nodes holds, some thread
    can always go on until the pass ends, at most ten steps per node change the schedule, and a
    pass that returns \<open>kOk\<close> has built all its nodes.
  \<^item> \<open>T2_NodeCheck\<close>: the part of \<open>CheckInputSignature\<close> without the lock. The signature is the digest of the
    command lines and of the names and contents of all inputs, direct and included, whatever
    the caches hold as long as they agree with the file system; and exactly when a node is up to date.
    \<open>T2_RunAction\<close>: the part of \<open>RunAction\<close> without the lock, with \<open>MakeDirectoriesRecursive\<close>; the contract
    of an action: directories first, old outputs removed, commands up to the first failure, no
    outputs left by a failure.

  \<^bold>\<open>Files and caches.\<close>
  \<^item> \<open>T2_FileInfo\<close>: \<open>FileInfo.cpp\<close> and \<open>StatCache.cpp\<close>, what \<open>stat\<close> says with and without the cache.
    \<open>T2_DigestCache\<close>: the tables of \<open>DigestCache.cpp\<close>. \<open>T2_HashUpdate\<close>, \<open>T2_PathSet\<close>: replacing payloads of
    hash tables (the locale \<open>key_store\<close>, interpreted on the table), sets of paths.
  \<^item> \<open>T2_FileSign\<close>: \<open>FileSign.cpp\<close>, signatures of files and of directories; the latter do not depend
    on the order of a listing.
  \<^item> \<open>T2_ScanCache\<close>: the tables of \<open>ScanCache.cpp\<close>. \<open>T2_Scanner\<close>: \<open>Scanner.cpp\<close>; the search for includes
    ends (it is a \<open>partial_function\<close>, shown to return) with exactly the files reachable over includes.
  \<^item> \<open>T2_DigestFile\<close>, \<open>T2_ScanFile\<close>: the two cache files, written and read back.

  \<^bold>\<open>The driver.\<close>
  \<^item> \<open>T2_TargetSelect\<close>: \<open>TargetSelect.cpp\<close>, command line names to build tuples.
  \<^item> \<open>T2_DriverNodes\<close>: \<open>Driver.cpp\<close>, build tuples to nodes, the walk over dependencies, the node
    states and the remapping table, the loop over passes. \<open>T2_Driver\<close>: the prepared nodes are the
    reachable ones; the tables satisfy what the build queue assumes, so the properties of a
    pass hold in every pass; a build that returns \<open>kOk\<close> has built what was selected. The order that
    \<open>std::sort\<close> gives to nodes of the same pass is left open (\<open>sorts_by_pass\<close>). The DAG is
    assumed well-formed (\<open>dag_wf\<close>: indices in range, no cycles, dependencies in no later pass,
    back links complete, expensive nodes with a command line), as the generator makes it.

  \<^item> \<open>T2_BinaryWriter\<close>: \<open>BinaryWriter.cpp\<close>, \<open>BinaryData.hpp\<close>, binary files with pointers; what is written
    is found. \<open>T2_SaveState\<close>: \<open>DriverSaveBuildState\<close> and \<open>LoadFrozenData\<close> of \<open>Driver.cpp\<close>.
    \<open>T2_StateFile\<close>: the state file written after a build, read by the next, has the merge of
    the results of this build and of earlier ones. Positions are unbounded numbers; the check that
    distances fit in 32 bits is in the model.
  \<^item> \<open>T2_StaleOutputs\<close>: \<open>DriverRemoveStaleOutputs\<close>, \<open>DriverCleanOutputs\<close>; exactly the outputs that the DAG
    no longer produces are removed.
  \<^item> \<open>T2_PrepareDag\<close>: \<open>DriverCheckDagSignatures\<close>, \<open>DriverPrepareDag\<close>, \<open>DriverInitData\<close>, saving the caches;
    when Lua has to run. This theory ends with the theorem that a run is continued by the next.

  \<^bold>\<open>Libraries.\<close>
  \<^item> \<open>T2_Common\<close>: string hashes, \<open>NextPowerOfTwo\<close>, \<open>CountTrailingZeroes\<close> of \<open>Common.cpp\<close>.
  \<^item> \<open>T2_HashTable\<close>: \<open>HashTable.hpp\<close>; the table is a finite map up to case folding, and its probing loops
    (defined by \<open>partial_function\<close>) return on every well-formed table.
  \<^item> \<open>T2_Hash\<close>: \<open>Hash.cpp\<close>, \<open>HashSha1.cpp\<close>, digests as strings; streaming equals hashing in one piece.
  \<^item> \<open>T2_SortedArray\<close>: \<open>SortedArrayUtil.hpp\<close>; the walk over two arrays is a merge, the search finds
    exactly the members.
  \<^item> \<open>T2_PathUtil\<close>, \<open>T2_Path\<close>: \<open>PathUtil.cpp\<close>; parsing normalizes, concatenation walks the segments,
    printing and parsing are inverse; where the fixed arrays overrun.
  \<^item> \<open>T2_Ctype\<close>, \<open>T2_JsonParse\<close>, \<open>T2_Json\<close>, \<open>T2_JsonWriter\<close>, \<open>T2_JsonRoundtrip\<close>: \<open>JsonParse.cpp\<close> and
    \<open>LuaJsonWriter.cpp\<close>. The parser runs with fuel \<open>3 * length + 2\<close>, which is enough because every
    call of a parsing function consumes a lexeme within three levels of calls
    (\<open>JsonParse_returns\<close>); what the writer prints is parsed back.
  \<^item> \<open>T2_IncludeScanner\<close>: \<open>IncludeScanner.cpp\<close>; the includes found are those of the directives.
  \<^item> \<open>T2_Buffer\<close>: \<open>Buffer.hpp\<close> and \<open>MemAllocLinear.cpp\<close>; a buffer is a list (the locale \<open>stack\<close> has
    the laws and is interpreted on the buffer operations), blocks of a linear allocator are disjoint.

  \<^bold>\<open>Not modelled.\<close> Process execution, terminal, thread and signal wrappers, memory mapping, heap,
  profiler: operating system calls. The Lua interpreter and scripts: third-party code and another
  language. The DAG generator, which runs Lua and writes the DAG file: a parameter of
  \<open>DriverPrepareDag\<close>. The command line and the Lua bindings: glue. Locks of the caches, which each
  protect one table operation. The variants of system calls for Windows.
\<close>

section \<open>From one run to the next\<close>

text \<open>The three files that a run leaves, and what they are made from.\<close>

definition run_saved ::
  "bool \<Rightarrow> file_system \<Rightarrow> u64 \<Rightarrow> Driver \<Rightarrow> DigestCache \<Rightarrow> ScanCache \<Rightarrow> u8 list option \<Rightarrow> u8 list option \<Rightarrow> u8 list option \<Rightarrow> bool" where
  "run_saved nocase fs now self digests scans state_file digest_file scan_file \<longleftrightarrow>
     (\<exists>self'. DriverSaveBuildState fs self = Inr (self', True, state_file)) \<and>
     DriverSaveDigestCache fs digests = Inr (True, digest_file) \<and>
     (\<exists>scans'. DriverSaveScanCache nocase now fs scans = Some (Inr (scans', True, scan_file))) \<and> ScanCacheDirty scans \<and>
     nodes_ok self \<and> old_ok self \<and> fits_format (saved_entries (sorted_driver self)) \<and>
     digest_ok nocase digests \<and> m_RecordCount (dc_Table digests) < 2 ^ 31 \<and>
     scan_saveable scans \<and> recs_fit (saved_recs now scans)"

text \<open>
  C40: A run that saved its state and its caches is continued by the next one. If the DAG is up to date, the
  next run uses it without running Lua, and initializes the driver so that each node has the result
  and the signature that the last run left for it, each digest is there unless unused for a week, and
  looking up the includes of a file gives what the last run knew (up to the case of names where
  the tables ignore case).
\<close>

theorem next_run_continues:
  assumes "run_saved nocase fs now self digests scans state_file digest_file scan_file"
    and "length (gp_garbage gp) = 64" "de_load_dag env w = Some dag" "sorted (dag_NodeGuids dag)" "dag_current gp (de_world env w) dag"
    and "de_mapping env w (dag_StateFileName dag) = state_file" "de_mapping env w (dag_DigestCacheFileName dag) = digest_file"
    and "de_mapping env w (dag_ScanCacheFileName dag) = scan_file"
  shows "\<exists>data. DriverInitData gp env False now' w = Some (Inr (Some data, w)) \<and> dd_DagData data = dag \<and>
    (\<forall>elem \<in> set (dr_Nodes self). old_state (dd_StateData data) (node_guid self elem) = new_entry self elem) \<and>
    (\<forall>h s. h \<noteq> 0 \<longrightarrow> digest_entry nocase (dd_DigestCache data) h s =
      (case digest_entry nocase digests h s of
         None \<Rightarrow> None | Some r \<Rightarrow> if dcr_AccessTime r < now' - 604800 then None else Some r)) \<and>
    (\<forall>key timestamp. rel_option (list_all2 (same_file nocase))
      (scan_get (dd_ScanCache data) key timestamp) (rec_lookup (scan_kept now scans key) timestamp))"
proof -
  obtain self' scans' where saved: "DriverSaveBuildState fs self = Inr (self', True, state_file)"
      "DigestCacheSave fs digests = Inr (True, digest_file)" "DriverSaveScanCache nocase now fs scans = Some (Inr (scans', True, scan_file))"
      "ScanCacheDirty scans"
      "nodes_ok self" "old_ok self" "fits_format (saved_entries (sorted_driver self))" "digest_ok nocase digests"
      "m_RecordCount (dc_Table digests) < 2 ^ 31" "scan_saveable scans" "recs_fit (saved_recs now scans)"
    using assms(1) unfolding run_saved_def DriverSaveDigestCache_def by blast
  have state: "\<forall>elem \<in> set (dr_Nodes self). old_state (LoadFrozenData_state state_file) (node_guid self elem) = new_entry self elem"
    using saved_entries_map [OF saved(5,6)] saved_state_loads [OF saved(6,1,7)] by (simp add: old_state_map_of)
  obtain digests' where d: "DigestCacheOpen now' digest_file (DigestCacheInit now') = Some (Inr digests')"
      "\<forall>h s. h \<noteq> 0 \<longrightarrow> digest_entry nocase digests' h s = (case digest_entry nocase digests h s of
         None \<Rightarrow> None | Some r \<Rightarrow> if dcr_AccessTime r < now' - 604800 then None else Some r)"
    using DigestCache_reopens [OF saved(8,2,9), of now' now'] by (elim exE conjE that)
  obtain scans1 where save: "ScanCacheSave nocase now fs scans = Some (Inr (scans1, True, scan_file))"
    using saved(3,4) by (auto simp: DriverSaveScanCache_def split: option.splits sum.splits prod.splits if_splits)
  obtain sd where sd: "LoadFrozenData_scan scan_file = Some sd" "sorted_wrt (<) (sn_Keys sd)"
      "\<forall>key. rel_option (same_rec nocase) (scan_entry sd key) (scan_kept now scans key)"
    using ScanCache_reloads [OF saved(10,11), of nocase fs] unfolding save by auto
  obtain c where c: "ScanCacheSetCache ScanCacheInit (Some sd) = Inr c"
      "\<forall>key timestamp. scan_get c key timestamp = rec_lookup (scan_entry sd key) timestamp"
    using ScanCacheSetCache_get [OF sd(2)] by blast
  let ?data = "\<lparr>dd_DagData = dag, dd_DigestCache = digests', dd_StateData = LoadFrozenData_state state_file, dd_ScanCache = c\<rparr>"
  have "DriverInitData gp env False now' w = Some (Inr (Some ?data, w))"
    using DriverPrepareDag_current [OF assms(2-5)] assms(6-8) d(1) sd(1) c(1) by (simp add: DriverInitData_def)
  moreover have "rel_option (list_all2 (same_file nocase)) (scan_get c key timestamp) (rec_lookup (scan_kept now scans key) timestamp)" for key timestamp
  proof -
    have "scan_get c key timestamp = rec_lookup (scan_entry sd key) timestamp" using c(2) by blast
    then show ?thesis using rec_lookup_same [OF spec [OF sd(3), of key], of timestamp] by (simp only:)
  qed
  ultimately show ?thesis using state d(2) by (intro exI [of _ ?data]) simp
qed

definition ex_digest_file :: "u8 list option" where
  "ex_digest_file = snd (projr (DigestCacheSave ex_fs ex_digests))"

definition ex_next_env :: "world dag_env" where
  "ex_next_env = ex_env\<lparr>de_mapping := \<lambda>_ name. if name = ''.tundra2.state'' then ex_contents
     else if name = ''.tundra2.digestcache'' then ex_digest_file else if name = ''.tundra2.scancache'' then ex_scan_file else None\<rparr>"

lemma ex_run_saved: "run_saved False ex_fs 1000000 ex_saved ex_digests ex_scans ex_contents ex_digest_file ex_scan_file"
proof -
  have "isl (DigestCacheSave ex_fs ex_digests) = False" "fst (projr (DigestCacheSave ex_fs ex_digests)) = True"
    unfolding DigestCacheSave_def ex_digests_ok(3,4) by code_simp+
  then have "DigestCacheSave ex_fs ex_digests = Inr (True, ex_digest_file)"
    by (cases "DigestCacheSave ex_fs ex_digests") (auto simp: ex_digest_file_def)
  moreover have dirty: "ScanCacheDirty ex_scans" "fs_renamed ex_fs" by code_simp+
  then have "\<exists>scans'. DriverSaveScanCache False 1000000 ex_fs ex_scans = Some (Inr (scans', True, ex_scan_file))"
    using ex_scans_saved by (auto simp: DriverSaveScanCache_def)
  ultimately show ?thesis
    unfolding run_saved_def DriverSaveDigestCache_def using dirty ex_saved_ok ex_digests_ok(1,4) ex_scans_ok by (simp add: ex_scans_recs recs_fit_def)
qed

theorem next_run_continues_witness:
  "\<exists>data. DriverInitData ex_gp ex_next_env False 1000000 ex_world = Some (Inr (Some data, ex_world)) \<and> dd_DagData data = ex_lua_dag \<and>
     (\<exists>elem \<in> set (dr_Nodes ex_saved). old_state (dd_StateData data) (node_guid ex_saved elem) = new_entry ex_saved elem) \<and>
     digest_entry False (dd_DigestCache data) 1 ''a.c'' = Some ex_record \<and>
     scan_get (dd_ScanCache data) (1, 2) 5 = Some []"
proof -
  have env: "de_load_dag ex_next_env w = Some ex_lua_dag" "de_world ex_next_env w = w"
      "de_mapping ex_next_env w (dag_StateFileName ex_lua_dag) = ex_contents"
      "de_mapping ex_next_env w (dag_DigestCacheFileName ex_lua_dag) = ex_digest_file"
      "de_mapping ex_next_env w (dag_ScanCacheFileName ex_lua_dag) = ex_scan_file" for w
    by (simp_all add: ex_next_env_def ex_env_def ex_lua_dag_def ex_dag_def)
  have cur: "dag_current ex_gp (de_world ex_next_env ex_world) ex_lua_dag" unfolding env(2) by (rule ex_lua_dag_ok(2))
  obtain data where data: "DriverInitData ex_gp ex_next_env False 1000000 ex_world = Some (Inr (Some data, ex_world))" "dd_DagData data = ex_lua_dag"
      "\<forall>elem \<in> set (dr_Nodes ex_saved). old_state (dd_StateData data) (node_guid ex_saved elem) = new_entry ex_saved elem"
      "\<forall>h s. h \<noteq> 0 \<longrightarrow> digest_entry False (dd_DigestCache data) h s = (case digest_entry False ex_digests h s of
         None \<Rightarrow> None | Some r \<Rightarrow> if dcr_AccessTime r < 1000000 - 604800 then None else Some r)"
      "\<forall>key timestamp. rel_option (list_all2 (same_file False))
        (scan_get (dd_ScanCache data) key timestamp) (rec_lookup (scan_kept 1000000 ex_scans key) timestamp)"
    using next_run_continues [OF ex_run_saved ex_lua_dag_ok(4) env(1) ex_lua_dag_ok(1) cur env(3-5), of 1000000] by (elim exE conjE that)
  have "digest_entry False (dd_DigestCache data) 1 ''a.c'' = (if dcr_AccessTime ex_record < 1000000 - 604800 then None else Some ex_record)"
    using data(4) ex_digests_ok(2) by simp
  moreover have "\<not> dcr_AccessTime ex_record < 1000000 - 604800" unfolding ex_record_def by simp
  moreover have "rec_lookup (scan_kept 1000000 ex_scans (1, 2)) 5 = Some []" unfolding ex_scans_kept rec_lookup_def by simp
  then have "scan_get (dd_ScanCache data) (1, 2) 5 = Some []"
    using spec [OF spec [OF data(5), of "(1, 2)"], of 5] by (cases "scan_get (dd_ScanCache data) (1, 2) 5") simp_all
  moreover have "dr_Nodes ex_saved \<noteq> []" by (simp add: ex_saved_def)
  then have "\<exists>elem \<in> set (dr_Nodes ex_saved). old_state (dd_StateData data) (node_guid ex_saved elem) = new_entry ex_saved elem"
    using data(3) by (metis list.set_intros(1) neq_Nil_conv)
  ultimately show ?thesis using data(1,2) by auto
qed

end
